(* ===== verification/RS_Prelude.thy ===== *)
theory RS_Prelude
  imports Main "HOL-Library.Word"
begin

text \<open>
  The prelude: names for the C types of the runtime (\<^verbatim>\<open>UINT_8\<close>, \<^verbatim>\<open>UINT_16\<close>, \<^verbatim>\<open>UINT_32\<close>),
  the lemma collections of the development, and facts on words, lists and arrays that several
  components share.  The model fixes the 32-bit configuration of the sources
  (\<^verbatim>\<open>WORD_IS_32_BITS\<close>, no \<^verbatim>\<open>HAVE_INT_64\<close>).
\<close>

unbundle bit_operations_syntax

type_synonym u8 = "8 word"
type_synonym u16 = "16 word"
type_synonym u32 = "32 word"

named_theorems digit_simps "digit level facts of the 64-bit numbers"

subsection \<open>Lists used as C arrays\<close>

lemma length_4_cases:
  assumes "length xs = 4"
  obtains a b c d where "xs = [a, b, c, d]"
proof -
  from assms obtain a xs1 where "xs = a # xs1" "length xs1 = 3"
    by (auto simp: numeral_eq_Suc length_Suc_conv)
  moreover from this obtain b xs2 where "xs1 = b # xs2" "length xs2 = 2"
    by (auto simp: numeral_eq_Suc length_Suc_conv)
  ultimately show ?thesis using that
    by (auto simp: numeral_eq_Suc length_Suc_conv)
qed

text \<open>
  \<^verbatim>\<open>for (i = n; i > 0;) { i--; r[i] = f(i); }\<close>, the shape of the digit loops.
\<close>

fun down_loop :: "nat \<Rightarrow> (nat \<Rightarrow> 'a) \<Rightarrow> 'a list \<Rightarrow> 'a list" where
  "down_loop 0 f r = r"
| "down_loop (Suc i) f r = down_loop i f (r[i := f i])"

lemma length_down_loop [simp]: "length (down_loop n f r) = length r"
  by (induction n arbitrary: r) auto

lemma nth_down_loop: "i < length r \<Longrightarrow> down_loop n f r ! i = (if i < n then f i else r ! i)"
proof (induction n arbitrary: r)
  case 0
  then show ?case by simp
next
  case (Suc n)
  then show ?case by (auto simp: less_Suc_eq)
qed

subsection \<open>Words\<close>

lemma unat_ucast_up: "LENGTH('a) \<le> LENGTH('b) \<Longrightarrow> unat (ucast (x :: 'a::len word) :: 'b::len word) = unat x"
  by (simp add: unsigned_ucast_eq take_bit_nat_eq_self
      order.strict_trans2 [OF unsigned_less])

lemma unat_ucast_16_32 [simp]: "unat (ucast (x :: u16) :: u32) = unat x"
  by (rule unat_ucast_up) simp

lemma unat_ucast_8_32 [simp]: "unat (ucast (x :: u8) :: u32) = unat x"
  by (rule unat_ucast_up) simp

lemma unat_u8_less: "unat (x :: u8) < 256"
  using unsigned_less [of x, where 'a = nat] by simp

lemma unat_u16_less: "unat (x :: u16) < 65536"
  using unsigned_less [of x, where 'a = nat] by simp

lemma unat_u32_less: "unat (x :: u32) < 4294967296"
  using unsigned_less [of x, where 'a = nat] by simp

lemma unat_ucast_32_16: "unat (ucast (x :: u32) :: u16) = unat x mod 65536"
  by (simp add: unsigned_ucast_eq take_bit_eq_mod)

lemma unat_add_u32: "unat (x + y :: u32) = (unat x + unat y) mod 4294967296"
  by (simp add: unat_word_ariths)

lemma unat_drop_bit_div: "unat (drop_bit n (x :: 'a::len word)) = unat x div 2 ^ n"
  using unat_drop_bit_eq [of n x] drop_bit_eq_div [of n "unat x"] by (rule trans)

lemma unat_take_bit_mod: "unat (take_bit n (x :: 'a::len word)) = unat x mod 2 ^ n"
  by (simp only: unsigned_take_bit_eq take_bit_eq_mod [where 'a = nat])

lemma unat_and_mask16: "unat (x AND 0xFFFF :: u32) = unat x mod 65536"
proof -
  have "x AND 0xFFFF = take_bit 16 x"
    by (simp add: take_bit_eq_mask mask_eq_exp_minus_1)
  then show ?thesis by (simp only: unat_take_bit_mod) simp
qed

lemma signed_drop_bit_pos:
  "\<not> bit (x :: u32) 31 \<Longrightarrow> signed_drop_bit n x = drop_bit n x"
  by (rule bit_word_eqI) (auto simp: bit_signed_drop_bit_iff bit_drop_bit_eq
      dest: bit_imp_le_length)

lemma bit31_u32: "bit (x :: u32) 31 \<longleftrightarrow> 2147483648 \<le> unat x"
proof -
  have "bit x 31 \<longleftrightarrow> bit (unat x) 31"
    by (simp add: bit_unsigned_iff)
  also have "\<dots> \<longleftrightarrow> odd (unat x div 2147483648)"
    by (simp only: bit_iff_odd) simp
  also have "\<dots> \<longleftrightarrow> 2147483648 \<le> unat x"
  proof (cases "2147483648 \<le> unat x")
    case True
    then have "unat x div 2147483648 = 1"
      using unat_u32_less [of x] by (intro div_nat_eqI) auto
    with True show ?thesis by simp
  qed simp
  finally show ?thesis .
qed

end
