(* ===== verification/Obj.thy ===== *)
theory Obj
  imports RS_Prelude
begin

text \<open>
  The tagged words of \<^verbatim>\<open>handc/runtime/obj.h\<close>: an \<^verbatim>\<open>obj\<close> is a 32-bit word whose two low
  bits are the primary tag (fixnum, immediate object, pointer), an immediate object having
  three more tag bits.  The macros are definitions on \<^typ>\<open>u32\<close>; \<^verbatim>\<open>IVAL\<close> (the word as a
  signed number) is \<^const>\<open>sint\<close>, or \<^const>\<open>signed_drop_bit\<close> where it is shifted.
\<close>

unbundle bit_operations_syntax

section \<open>Tags\<close>

datatype primary_tag = FIXNUM_TAG | unused_tag | IMMOB_TAG | POINTER_TAG

fun primary_tag_value :: "primary_tag \<Rightarrow> u32" where
  "primary_tag_value FIXNUM_TAG = 0"
| "primary_tag_value unused_tag = 1"
| "primary_tag_value IMMOB_TAG = 2"
| "primary_tag_value POINTER_TAG = 3"

datatype secondary_tag = BOOLEAN_TAG | NIL_TAG | ASCII_CHAR_TAG | UNICODE_CHAR_TAG | UNIQUE_OBJ_TAG
  | SPARE_3_TAG | SPARE_2_TAG | SPARE_1_TAG

fun secondary_tag_value :: "secondary_tag \<Rightarrow> u32" where
  "secondary_tag_value BOOLEAN_TAG = 0"
| "secondary_tag_value NIL_TAG = 1"
| "secondary_tag_value ASCII_CHAR_TAG = 2"
| "secondary_tag_value UNICODE_CHAR_TAG = 3"
| "secondary_tag_value UNIQUE_OBJ_TAG = 4"
| "secondary_tag_value SPARE_3_TAG = 5"
| "secondary_tag_value SPARE_2_TAG = 6"
| "secondary_tag_value SPARE_1_TAG = 7"

definition TEST_PRIMARY_TAG :: "u32 \<Rightarrow> primary_tag \<Rightarrow> bool" where
  "TEST_PRIMARY_TAG x t \<longleftrightarrow> x AND 3 = primary_tag_value t"

definition FIXNUM_P :: "u32 \<Rightarrow> bool" where
  "FIXNUM_P x \<longleftrightarrow> TEST_PRIMARY_TAG x FIXNUM_TAG"

definition OBJ_ISA_IMMOB :: "u32 \<Rightarrow> bool" where
  "OBJ_ISA_IMMOB x \<longleftrightarrow> TEST_PRIMARY_TAG x IMMOB_TAG"

definition PTR_P :: "u32 \<Rightarrow> bool" where
  "PTR_P x \<longleftrightarrow> TEST_PRIMARY_TAG x POINTER_TAG"

section \<open>Fixnums\<close>

definition int2fx :: "u32 \<Rightarrow> u32" where
  "int2fx x = primary_tag_value FIXNUM_TAG + push_bit 2 x"

definition fx2int :: "u32 \<Rightarrow> u32" where
  "fx2int x = signed_drop_bit 2 x"

definition ZERO :: u32 where
  "ZERO = int2fx 0"

definition ADD1 :: "u32 \<Rightarrow> u32" where
  "ADD1 x = x + push_bit 2 1"

definition SUB1 :: "u32 \<Rightarrow> u32" where
  "SUB1 x = x - push_bit 2 1"

definition FX_LT :: "u32 \<Rightarrow> u32 \<Rightarrow> bool" where
  "FX_LT x y \<longleftrightarrow> sint x < sint y"

definition FX_ADD :: "u32 \<Rightarrow> u32 \<Rightarrow> u32" where
  "FX_ADD x y = x + y"

definition FX_SUB :: "u32 \<Rightarrow> u32 \<Rightarrow> u32" where
  "FX_SUB x y = x - y"

definition FX_MUL :: "u32 \<Rightarrow> u32 \<Rightarrow> u32" where
  "FX_MUL x y = x * fx2int y"

definition FX_AND :: "u32 \<Rightarrow> u32 \<Rightarrow> u32" where
  "FX_AND x y = x AND y"

definition FX_OR :: "u32 \<Rightarrow> u32 \<Rightarrow> u32" where
  "FX_OR x y = x OR y"

definition FX_XOR :: "u32 \<Rightarrow> u32 \<Rightarrow> u32" where
  "FX_XOR x y = (x XOR y) + primary_tag_value FIXNUM_TAG"

definition FX_NOT :: "u32 \<Rightarrow> u32" where
  "FX_NOT x = NOT x - 3"

section \<open>Immediate objects\<close>

definition MAKE_IMMOB :: "secondary_tag \<Rightarrow> u32 \<Rightarrow> u32" where
  "MAKE_IMMOB t x = primary_tag_value IMMOB_TAG + push_bit 2 (secondary_tag_value t) + push_bit 5 x"

definition TEST_SECONDARY_TAG :: "u32 \<Rightarrow> secondary_tag \<Rightarrow> bool" where
  "TEST_SECONDARY_TAG x t \<longleftrightarrow>
     x AND 31 = (push_bit 2 (secondary_tag_value t) OR primary_tag_value IMMOB_TAG)"

definition GET_IMMEDIATE_VALUE :: "u32 \<Rightarrow> u32" where
  "GET_IMMEDIATE_VALUE x = drop_bit 5 x"

definition TRUE_OBJ :: u32 where
  "TRUE_OBJ = MAKE_IMMOB BOOLEAN_TAG 1"

definition FALSE_OBJ :: u32 where
  "FALSE_OBJ = MAKE_IMMOB BOOLEAN_TAG 0"

definition NIL_OBJ :: u32 where
  "NIL_OBJ = MAKE_IMMOB NIL_TAG 0"

definition rb_to_bo :: "bool \<Rightarrow> u32" where
  "rb_to_bo rb = (if rb then TRUE_OBJ else FALSE_OBJ)"

definition truish :: "u32 \<Rightarrow> bool" where
  "truish bo \<longleftrightarrow> bo \<noteq> FALSE_OBJ"

text \<open>A word split in two halves, each a fixnum, and put together again.\<close>

definition OBJ_HIGH_HALF_FX :: "u32 \<Rightarrow> u32" where
  "OBJ_HIGH_HALF_FX x = int2fx (mask 16 AND drop_bit 16 x)"

definition OBJ_LOW_HALF_FX :: "u32 \<Rightarrow> u32" where
  "OBJ_LOW_HALF_FX x = int2fx (mask 16 AND x)"

definition OBJ_FROM_HI_LO :: "u32 \<Rightarrow> u32 \<Rightarrow> u32" where
  "OBJ_FROM_HI_LO hi lo = push_bit 16 (fx2int hi AND mask 16) + (fx2int lo AND mask 16)"

section \<open>Facts\<close>

lemma sint_u32_range: "- 2147483648 \<le> sint (x :: u32)" "sint (x :: u32) < 2147483648"
  using sint_greater_eq [of x] sint_less [of x] by simp_all

lemma bit_fx2int: "bit (fx2int x) n \<longleftrightarrow> n < 32 \<and> bit x (if n < 30 then n + 2 else 31)"
  by (auto simp: fx2int_def bit_signed_drop_bit_iff dest: bit_imp_le_length)

lemma bit_int2fx: "bit (int2fx x) n \<longleftrightarrow> n < 32 \<and> 2 \<le> n \<and> bit x (n - 2)"
  by (auto simp: int2fx_def bit_push_bit_iff dest: bit_imp_le_length)

text \<open>A fixnum carries 30 bits.\<close>

definition fits_fixnum :: "int \<Rightarrow> bool" where
  "fits_fixnum i \<longleftrightarrow> - (2 ^ 29) \<le> i \<and> i < 2 ^ 29"

lemma sint_fx2int_int2fx: "sint (fx2int (int2fx x)) = signed_take_bit 29 (sint x)"
proof (rule bit_eqI)
  fix n
  show "bit (sint (fx2int (int2fx x))) n \<longleftrightarrow> bit (signed_take_bit 29 (sint x)) n"
    by (cases "n < 29"; cases "n = 29")
       (auto simp: bit_sint_iff bit_signed_take_bit_iff bit_fx2int bit_int2fx min_def)
qed

lemma fixnum_fits: "fits_fixnum (sint (fx2int x))"
proof -
  have "sint (fx2int x) = signed_take_bit 29 (sint (fx2int x))"
  proof (rule bit_eqI)
    fix n show "bit (sint (fx2int x)) n = bit (signed_take_bit 29 (sint (fx2int x))) n"
      by (cases "n < 29"; cases "n = 29")
         (auto simp: bit_sint_iff bit_signed_take_bit_iff bit_fx2int min_def)
  qed
  then show ?thesis
    using signed_take_bit_int_greater_eq_minus_exp [of 29 "sint (fx2int x)"]
      signed_take_bit_int_less_exp [of 29 "sint (fx2int x)"]
    by (simp add: fits_fixnum_def)
qed

lemma fx2int_int2fx:
  assumes "fits_fixnum (sint x)"
  shows "fx2int (int2fx x) = x"
proof -
  have "signed_take_bit 29 (sint x) = sint x"
    using assms by (simp add: fits_fixnum_def signed_take_bit_int_eq_self)
  then have "sint (fx2int (int2fx x)) = sint x"
    by (simp only: sint_fx2int_int2fx)
  from arg_cong [OF this, of "of_int :: int \<Rightarrow> u32"] show ?thesis by simp
qed

lemma fx_small: "unat x < 2 ^ 29 \<Longrightarrow> fx2int (int2fx x) = x"
proof -
  assume n: "unat x < 2 ^ 29"
  then have "int (unat x) < 536870912" by (simp del: of_nat_unat)
  then have "uint x < 2147483648" by simp
  then have "signed_take_bit 31 (uint x) = uint x" using uint_lt2p [of x] by (intro signed_take_bit_int_eq_self order_trans [OF _ unsigned_greater_eq [of x]]) simp_all
  then have "sint x = int (unat x)" by (simp add: sint_uint)
  then have "fits_fixnum (sint x)" using n by (simp add: fits_fixnum_def del: of_nat_unat)
  then show ?thesis by (rule fx2int_int2fx)
qed

lemma int2fx_fx2int:
  assumes "FIXNUM_P x"
  shows "int2fx (fx2int x) = x"
proof -
  have "x AND mask 2 = 0"
    using assms by (simp add: FIXNUM_P_def TEST_PRIMARY_TAG_def mask_eq_exp_minus_1)
  then have low: "\<not> bit x n" if "n < 2" for n
    using that bit_and_iff [of x "mask 2" n] by (auto simp: bit_mask_iff)
  show ?thesis
  proof (rule bit_word_eqI)
    fix n assume "n < LENGTH(32)"
    then show "bit (int2fx (fx2int x)) n \<longleftrightarrow> bit x n"
      using low [of n] le_add_diff_inverse2 [of 2 n]
      by (cases "n < 2") (simp_all del: add_2_eq_Suc add_2_eq_Suc' add: bit_int2fx bit_fx2int, linarith)
  qed
qed

lemma and_3_int2fx [simp]: "int2fx x AND 3 = 0"
proof -
  have "int2fx x AND mask 2 = 0"
    by (rule bit_word_eqI) (auto simp: bit_and_iff bit_mask_iff bit_int2fx)
  then show ?thesis by (simp add: mask_eq_exp_minus_1)
qed

lemma FIXNUM_P_int2fx [simp]: "FIXNUM_P (int2fx x)"
  by (simp add: FIXNUM_P_def TEST_PRIMARY_TAG_def)

section \<open>Properties\<close>

text \<open>An immediate word has exactly the tag it was built with: what \<^verbatim>\<open>MAKE_IMMOB\<close> builds
  is an immediate object of its secondary tag and of no other, is neither a fixnum nor a
  pointer, and gives its payload back (27 bits of it).\<close>

lemma immob_roundtrip:
  "TEST_SECONDARY_TAG (MAKE_IMMOB t x) u = (t = u) \<and> OBJ_ISA_IMMOB (MAKE_IMMOB t x) \<and>
   \<not> FIXNUM_P (MAKE_IMMOB t x) \<and> \<not> PTR_P (MAKE_IMMOB t x) \<and>
   GET_IMMEDIATE_VALUE (MAKE_IMMOB t x) = take_bit 27 x"
proof -
  define c where "c = primary_tag_value IMMOB_TAG + push_bit 2 (secondary_tag_value t)"
  have c: "take_bit 5 c = c" "c AND 3 = 2"
    "(c = (push_bit 2 (secondary_tag_value u) OR primary_tag_value IMMOB_TAG)) = (t = u)"
    by (cases t; cases u; simp add: c_def)+
  have bc: "n < 5" if "bit c n" for n
    using that c(1) by (metis bit_take_bit_iff)
  have "c AND push_bit 5 x = 0"
    by (rule bit_word_eqI) (auto simp: bit_and_iff bit_push_bit_iff dest: bc)
  then have eq: "MAKE_IMMOB t x = c OR push_bit 5 x"
    by (simp add: MAKE_IMMOB_def c_def disjunctive_add_eq_or)
  have low: "MAKE_IMMOB t x AND 31 = c"
  proof -
    have "(c OR push_bit 5 x) AND mask 5 = c"
      by (rule bit_word_eqI) (auto simp: bit_and_iff bit_or_iff bit_push_bit_iff bit_mask_iff dest: bc)
    then show ?thesis by (simp add: eq mask_eq_exp_minus_1)
  qed
  have "MAKE_IMMOB t x AND 3 = (MAKE_IMMOB t x AND 31) AND 3"
    by (simp add: and.assoc)
  then have tag: "MAKE_IMMOB t x AND 3 = 2" using c(2) low by simp
  have "drop_bit 5 (c OR push_bit 5 x) = take_bit 27 x"
    by (rule bit_word_eqI) (auto simp: bit_drop_bit_eq bit_or_iff bit_push_bit_iff bit_take_bit_iff
        dest: bc bit_imp_le_length)
  then show ?thesis
    using c(3) low tag
    by (simp add: TEST_SECONDARY_TAG_def GET_IMMEDIATE_VALUE_def OBJ_ISA_IMMOB_def FIXNUM_P_def
        PTR_P_def TEST_PRIMARY_TAG_def eq)
qed

text \<open>A fixnum carries exactly the 30-bit integers: converting an integer that fits to a
  fixnum and back is the identity, every fixnum is the image of the integer it reads as, and the
  tag arithmetic of the macros is the arithmetic on these integers modulo \<open>2 ^ 30\<close>.\<close>

lemma fixnum_ops:
  "((fx2int (int2fx x) = x) = fits_fixnum (sint x)) \<and>
   ((int2fx (fx2int y) = y) = FIXNUM_P y) \<and>
   FX_ADD (int2fx x) (int2fx z) = int2fx (x + z) \<and>
   FX_SUB (int2fx x) (int2fx z) = int2fx (x - z) \<and>
   FX_NOT (int2fx x) = int2fx (NOT x) \<and>
   ADD1 (int2fx x) = int2fx (x + 1) \<and>
   SUB1 (int2fx x) = int2fx (x - 1)"
proof (intro conjI)
  show "(fx2int (int2fx x) = x) = fits_fixnum (sint x)"
    using fx2int_int2fx fixnum_fits [of "int2fx x"] by metis
  show "(int2fx (fx2int y) = y) = FIXNUM_P y"
    using int2fx_fx2int FIXNUM_P_int2fx by metis
qed (simp_all add: FX_ADD_def FX_SUB_def FX_NOT_def ADD1_def SUB1_def int2fx_def push_bit_eq_mult
    algebra_simps not_eq_complement)

end
