(* ===== verification/LongInt.thy ===== *)
theory LongInt
  imports Obj
begin

text \<open>
  64-bit integers as the runtime represents them where the platform has no 64-bit type:
  \<^verbatim>\<open>INT_64\<close> of \<^verbatim>\<open>handc/runtime/longint.h\<close>, an array of four 16-bit digits, the most
  significant first, and the operations of \<^verbatim>\<open>handc/runtime/longint.c\<close>.  The C \<^verbatim>\<open>int\<close>,
  \<^verbatim>\<open>INT_32\<close> and \<^verbatim>\<open>UINT_32\<close> temporaries are 32-bit words; \<^verbatim>\<open>>>\<close> is \<^const>\<open>signed_drop_bit\<close>
  on the signed ones and \<^const>\<open>drop_bit\<close> on the unsigned ones.  The abstraction
  \<open>i64\<close> reads a digit array as a 64-bit word; every operation is related to the operation
  on words it stands for.
\<close>

unbundle bit_operations_syntax

section \<open>The digit arrays and their operations\<close>

record INT_64 =
  digits :: "u16 list"

definition INT_64_zero :: INT_64 where
  "INT_64_zero = \<lparr>digits = [0, 0, 0, 0]\<rparr>"

definition INT_64_one :: INT_64 where
  "INT_64_one = \<lparr>digits = [0, 0, 0, 1]\<rparr>"

definition int_32_to_int_64 :: "u32 \<Rightarrow> INT_64" where
  "int_32_to_int_64 x =
     (let s = (if x AND 0x80000000 \<noteq> 0 then 0xFFFF else 0)
      in \<lparr>digits = [s, s, ucast (signed_drop_bit 16 x), ucast x]\<rparr>)"

text \<open>The loop of \<^verbatim>\<open>int_64_add\<close>: \<open>c\<close> is the carry, \<open>t\<close> the sum of one column.\<close>

fun add_loop :: "nat \<Rightarrow> u16 list \<Rightarrow> u16 list \<Rightarrow> u32 \<Rightarrow> u16 list \<Rightarrow> u16 list" where
  "add_loop 0 a b c r = r"
| "add_loop (Suc i) a b c r =
     (let t = ucast (a ! i) + ucast (b ! i) + c
      in add_loop i a b (signed_drop_bit 16 t) (r[i := ucast t]))"

definition int_64_add :: "INT_64 \<Rightarrow> INT_64 \<Rightarrow> INT_64" where
  "int_64_add a b = \<lparr>digits = add_loop 4 (digits a) (digits b) 0 (replicate 4 0)\<rparr>"

definition int_64_and :: "INT_64 \<Rightarrow> INT_64 \<Rightarrow> INT_64" where
  "int_64_and a b =
     \<lparr>digits = down_loop 4 (\<lambda>i. digits a ! i AND digits b ! i) (replicate 4 0)\<rparr>"

definition int_64_or :: "INT_64 \<Rightarrow> INT_64 \<Rightarrow> INT_64" where
  "int_64_or a b =
     \<lparr>digits = down_loop 4 (\<lambda>i. digits a ! i OR digits b ! i) (replicate 4 0)\<rparr>"

definition int_64_xor :: "INT_64 \<Rightarrow> INT_64 \<Rightarrow> INT_64" where
  "int_64_xor a b =
     \<lparr>digits = down_loop 4 (\<lambda>i. digits a ! i XOR digits b ! i) (replicate 4 0)\<rparr>"

definition int_64_not :: "INT_64 \<Rightarrow> INT_64" where
  "int_64_not a = \<lparr>digits = down_loop 4 (\<lambda>i. NOT (digits a ! i)) (replicate 4 0)\<rparr>"

definition int_64_neg_q :: "INT_64 \<Rightarrow> bool" where
  "int_64_neg_q a \<longleftrightarrow> digits a ! 0 AND 0x8000 \<noteq> 0"

definition int_64_zero_q :: "INT_64 \<Rightarrow> bool" where
  "int_64_zero_q a \<longleftrightarrow>
     \<not> (digits a ! 0 \<noteq> 0 \<or> digits a ! 1 \<noteq> 0 \<or> digits a ! 2 \<noteq> 0 \<or> digits a ! 3 \<noteq> 0)"

text \<open>
  The shifts.  \<open>c\<close> whole digits, \<open>d\<close> bits; the digits are promoted to 32-bit \<^verbatim>\<open>int\<close>, and
  the result masked to 16 bits.  Shift counts are not negative (a negative count is
  undefined in C).  The right shifts store \<open>c\<close> digits before they check anything: for a
  count above 79 the store is outside the array, which is \<^const>\<open>None\<close> here.
\<close>

definition lshr_digit :: "u16 list \<Rightarrow> nat \<Rightarrow> nat \<Rightarrow> nat \<Rightarrow> u16" where
  "lshr_digit a c d i =
     ucast ((drop_bit d (ucast (a ! (i - c)) :: u32) OR
             (if i = c then 0 else push_bit (16 - d) (ucast (a ! (i - c - 1))))) AND 0xFFFF)"

definition int_64_lshr :: "INT_64 \<Rightarrow> nat \<Rightarrow> INT_64 option" where
  "int_64_lshr a b =
     (let c = b div 16; d = b mod 16
      in if 4 < c then None
         else Some \<lparr>digits =
           map (\<lambda>i. if i < c then 0 else lshr_digit (digits a) c d i) [0..<4]\<rparr>)"

definition ashr_digit :: "u16 list \<Rightarrow> u32 \<Rightarrow> nat \<Rightarrow> nat \<Rightarrow> nat \<Rightarrow> u16" where
  "ashr_digit a s c d i =
     ucast ((drop_bit d (ucast (a ! (i - c)) :: u32) OR
             push_bit (16 - d) (if i = c then s else ucast (a ! (i - c - 1)))) AND 0xFFFF)"

definition int_64_ashr :: "INT_64 \<Rightarrow> nat \<Rightarrow> INT_64 option" where
  "int_64_ashr a b =
     (let c = b div 16; d = b mod 16; s = (if int_64_neg_q a then 0xFFFF else 0 :: u32)
      in if 4 < c then None
         else Some \<lparr>digits =
           map (\<lambda>i. if i < c then ucast s else ashr_digit (digits a) s c d i) [0..<4]\<rparr>)"

definition shl_digit :: "u16 list \<Rightarrow> nat \<Rightarrow> nat \<Rightarrow> nat \<Rightarrow> u16" where
  "shl_digit a c d i =
     ucast ((push_bit d (ucast (a ! (i + c)) :: u32) OR
             (if 3 < i + c + 1 then 0 else drop_bit (16 - d) (ucast (a ! (i + c + 1))))) AND 0xFFFF)"

definition int_64_shl :: "INT_64 \<Rightarrow> nat \<Rightarrow> INT_64" where
  "int_64_shl a b =
     (let c = b div 16; d = b mod 16
      in \<lparr>digits = map (\<lambda>i. if i < 4 - c then shl_digit (digits a) c d i else 0) [0..<4]\<rparr>)"

text \<open>\<^verbatim>\<open>CHECK_DIGIT\<close>, nested four times: the digits compared from the first.\<close>

definition int_64_cmp :: "INT_64 \<Rightarrow> INT_64 \<Rightarrow> int" where
  "int_64_cmp a b =
     (if digits a ! 0 < digits b ! 0 then -1 else if digits a ! 0 > digits b ! 0 then 1
      else if digits a ! 1 < digits b ! 1 then -1 else if digits a ! 1 > digits b ! 1 then 1
      else if digits a ! 2 < digits b ! 2 then -1 else if digits a ! 2 > digits b ! 2 then 1
      else if digits a ! 3 < digits b ! 3 then -1 else if digits a ! 3 > digits b ! 3 then 1
      else 0)"

definition int_64_eq :: "INT_64 \<Rightarrow> INT_64 \<Rightarrow> bool" where
  "int_64_eq a b \<longleftrightarrow>
     digits a ! 3 = digits b ! 3 \<and> digits a ! 2 = digits b ! 2 \<and>
     digits a ! 1 = digits b ! 1 \<and> digits a ! 0 = digits b ! 0"

definition int_64_gt :: "INT_64 \<Rightarrow> INT_64 \<Rightarrow> bool" where
  "int_64_gt a b \<longleftrightarrow> int_64_cmp a b > 0"

definition int_64_ge :: "INT_64 \<Rightarrow> INT_64 \<Rightarrow> bool" where
  "int_64_ge a b \<longleftrightarrow> int_64_cmp a b \<ge> 0"

definition int_64_to_int_32 :: "INT_64 \<Rightarrow> u32" where
  "int_64_to_int_32 a = push_bit 16 (ucast (digits a ! 2)) OR ucast (digits a ! 3)"

definition int_64_neg :: "INT_64 \<Rightarrow> INT_64" where
  "int_64_neg a =
     int_64_add
       \<lparr>digits = [digits a ! 0 XOR 0xFFFF, digits a ! 1 XOR 0xFFFF,
                  digits a ! 2 XOR 0xFFFF, digits a ! 3 XOR 0xFFFF]\<rparr>
       INT_64_one"

definition int_64_sub :: "INT_64 \<Rightarrow> INT_64 \<Rightarrow> INT_64" where
  "int_64_sub a b = int_64_add a (int_64_neg b)"

fun add_u32_loop :: "nat \<Rightarrow> u16 list \<Rightarrow> u32 \<Rightarrow> u32 \<Rightarrow> u16 list" where
  "add_u32_loop 0 a b c = a"
| "add_u32_loop (Suc i) a b c =
     (let t = ucast (a ! i) + (b AND 0xFFFF) + c
      in add_u32_loop i (a[i := ucast t]) (drop_bit 16 b) (signed_drop_bit 16 t))"

definition int_64_add_u32 :: "INT_64 \<Rightarrow> u32 \<Rightarrow> nat \<Rightarrow> INT_64" where
  "int_64_add_u32 a b shift = \<lparr>digits = add_u32_loop (4 - shift) (digits a) b 0\<rparr>"

text \<open>
  \<^verbatim>\<open>int_64_umul\<close>: schoolbook multiplication, the partial product \<open>pp\<close> of digits \<open>i\<close> and
  \<open>j\<close> added at its place.  (The C product of two promoted \<^verbatim>\<open>UINT_16\<close> is taken as the
  32-bit wrapped product its assignment to a \<^verbatim>\<open>UINT_32\<close> relies on.)
\<close>

fun umul_inner :: "INT_64 \<Rightarrow> INT_64 \<Rightarrow> nat \<Rightarrow> nat \<Rightarrow> INT_64 \<Rightarrow> INT_64" where
  "umul_inner a b i 0 r = r"
| "umul_inner a b i (Suc j) r =
     (let pp = ucast (digits a ! i) * ucast (digits b ! j)
      in umul_inner a b i j (int_64_add_u32 r pp ((3 - i) + (3 - j))))"

fun umul_outer :: "INT_64 \<Rightarrow> INT_64 \<Rightarrow> nat \<Rightarrow> INT_64 \<Rightarrow> INT_64" where
  "umul_outer a b 0 r = r"
| "umul_outer a b (Suc i) r = umul_outer a b i (umul_inner a b i 4 r)"

definition int_64_umul :: "INT_64 \<Rightarrow> INT_64 \<Rightarrow> INT_64" where
  "int_64_umul a b = umul_outer a b 4 INT_64_zero"

definition int_64_mul :: "INT_64 \<Rightarrow> INT_64 \<Rightarrow> INT_64" where
  "int_64_mul a b =
     (let a_neg = int_64_neg_q a; b_neg = int_64_neg_q b;
          a' = (if a_neg then int_64_neg a else a);
          b' = (if b_neg then int_64_neg b else b);
          p = int_64_umul a' b'
      in if a_neg \<noteq> b_neg then int_64_neg p else p)"

definition int_64_fit_in_32_q :: "INT_64 \<Rightarrow> bool" where
  "int_64_fit_in_32_q a \<longleftrightarrow>
     (if digits a ! 0 = 0 \<and> digits a ! 1 = 0 \<and> digits a ! 2 AND 0x8000 = 0 then True
      else if digits a ! 0 = 0xFFFF \<and> digits a ! 1 = 0xFFFF \<and> digits a ! 2 AND 0x8000 \<noteq> 0
      then True else False)"

definition int_64_fit_in_30_q :: "INT_64 \<Rightarrow> bool" where
  "int_64_fit_in_30_q a \<longleftrightarrow>
     (if digits a ! 0 = 0 \<and> digits a ! 1 = 0 \<and> digits a ! 2 AND 0xE000 = 0 then True
      else if digits a ! 0 = 0xFFFF \<and> digits a ! 1 = 0xFFFF \<and> digits a ! 2 AND 0xE000 = 0xE000
      then True else False)"

text \<open>\<^verbatim>\<open>int_64_divu\<close>: 64 rounds of shift and subtract over pairs of 32-bit words.\<close>

record INT_64_div2 =
  quotient :: INT_64
  remainder :: INT_64

record divu_state =
  quot_hi :: u32
  quot_lo :: u32
  temp_hi :: u32
  temp_lo :: u32
  a_hi :: u32
  a_lo :: u32

definition divu_shift :: "divu_state \<Rightarrow> divu_state" where
  "divu_shift s =
     \<lparr>quot_hi = push_bit 1 (quot_hi s) + (if quot_lo s AND 0x80000000 \<noteq> 0 then 1 else 0),
      quot_lo = push_bit 1 (quot_lo s),
      temp_hi = push_bit 1 (temp_hi s) + (if temp_lo s AND 0x80000000 \<noteq> 0 then 1 else 0),
      temp_lo = push_bit 1 (temp_lo s) + (if a_hi s AND 0x80000000 \<noteq> 0 then 1 else 0),
      a_hi = push_bit 1 (a_hi s) + (if a_lo s AND 0x80000000 \<noteq> 0 then 1 else 0),
      a_lo = push_bit 1 (a_lo s)\<rparr>"

definition divu_step :: "u32 \<Rightarrow> u32 \<Rightarrow> divu_state \<Rightarrow> divu_state" where
  "divu_step b_hi b_lo s0 =
     (let s = divu_shift s0
      in if temp_hi s > b_hi \<or> (temp_hi s = b_hi \<and> temp_lo s \<ge> b_lo)
         then if temp_lo s \<ge> b_lo
              then s\<lparr>quot_lo := quot_lo s OR 1,
                     temp_lo := temp_lo s - b_lo,
                     temp_hi := temp_hi s - b_hi\<rparr>
              else s\<lparr>quot_lo := quot_lo s OR 1,
                     temp_lo := temp_lo s - b_lo,
                     temp_hi := temp_hi s - (b_hi - 1)\<rparr>
         else s)"

fun divu_loop :: "nat \<Rightarrow> u32 \<Rightarrow> u32 \<Rightarrow> divu_state \<Rightarrow> divu_state" where
  "divu_loop 0 b_hi b_lo s = s"
| "divu_loop (Suc n) b_hi b_lo s = divu_loop n b_hi b_lo (divu_step b_hi b_lo s)"

definition hi_half :: "INT_64 \<Rightarrow> u32" where
  "hi_half a = push_bit 16 (ucast (digits a ! 0)) + ucast (digits a ! 1)"

definition lo_half :: "INT_64 \<Rightarrow> u32" where
  "lo_half a = push_bit 16 (ucast (digits a ! 2)) + ucast (digits a ! 3)"

definition from_halves :: "u32 \<Rightarrow> u32 \<Rightarrow> INT_64" where
  "from_halves hi lo = \<lparr>digits = [ucast (drop_bit 16 hi), ucast hi, ucast (drop_bit 16 lo), ucast lo]\<rparr>"

definition int_64_divu :: "INT_64 \<Rightarrow> INT_64 \<Rightarrow> INT_64_div2" where
  "int_64_divu a b =
     (let s = divu_loop 64 (hi_half b) (lo_half b)
                \<lparr>quot_hi = 0, quot_lo = 0, temp_hi = 0, temp_lo = 0,
                 a_hi = hi_half a, a_lo = lo_half a\<rparr>
      in \<lparr>quotient = from_halves (quot_hi s) (quot_lo s),
          remainder = from_halves (temp_hi s) (temp_lo s)\<rparr>)"

definition int_64_add_16 :: "INT_64 \<Rightarrow> u16 \<Rightarrow> INT_64" where
  "int_64_add_16 a b = int_64_add a (int_32_to_int_64 (scast b))"

definition int_64_umul_16 :: "INT_64 \<Rightarrow> u16 \<Rightarrow> INT_64" where
  "int_64_umul_16 a b = int_64_umul a (int_32_to_int_64 (ucast b))"

definition int_64_divu_16 :: "INT_64 \<Rightarrow> u16 \<Rightarrow> INT_64_div2" where
  "int_64_divu_16 a b = int_64_divu a (int_32_to_int_64 (ucast b))"

definition int_64_div :: "INT_64 \<Rightarrow> INT_64 \<Rightarrow> INT_64_div2" where
  "int_64_div a b =
     (let a_neg = int_64_neg_q a; b_neg = int_64_neg_q b;
          a' = (if a_neg then int_64_neg a else a);
          b' = (if b_neg then int_64_neg b else b);
          r = int_64_divu a' b'
      in \<lparr>quotient = (if a_neg \<noteq> b_neg then int_64_neg (quotient r) else quotient r),
          remainder = (if a_neg then int_64_neg (remainder r) else remainder r)\<rparr>)"

definition int_64_quotient :: "INT_64 \<Rightarrow> INT_64 \<Rightarrow> INT_64" where
  "int_64_quotient a b = quotient (int_64_div a b)"

definition int_64_remainder :: "INT_64 \<Rightarrow> INT_64 \<Rightarrow> INT_64" where
  "int_64_remainder a b = remainder (int_64_div a b)"

definition int_64_modulo :: "INT_64 \<Rightarrow> INT_64 \<Rightarrow> INT_64" where
  "int_64_modulo a b =
     (let a_neg = int_64_neg_q a; b_neg = int_64_neg_q b;
          a' = (if a_neg then int_64_neg a else a);
          abs_b = (if b_neg then int_64_neg b else b);
          r = remainder (int_64_divu a' abs_b)
      in if int_64_zero_q r then r
         else if a_neg then (if b_neg then int_64_neg r else int_64_sub b r)
         else (if b_neg then int_64_add b r else r))"


section \<open>The value of a digit array\<close>

definition bval :: "u16 list \<Rightarrow> nat" where
  "bval ds = foldl (\<lambda>v d. v * 65536 + unat d) 0 ds"

lemma foldl_bval: "foldl (\<lambda>v d. v * 65536 + unat (d :: u16)) v ds = v * 65536 ^ length ds + bval ds"
proof (induction ds arbitrary: v)
  case (Cons d ds)
  show ?case
    using Cons.IH [of "v * 65536 + unat d"] Cons.IH [of "unat d"]
    by (simp add: bval_def algebra_simps)
qed (simp add: bval_def)

lemma bval_Nil [simp]: "bval [] = 0"
  by (simp add: bval_def)

lemma bval_append: "bval (xs @ ys) = bval xs * 65536 ^ length ys + bval ys"
  using foldl_bval [of "bval xs" ys] by (simp add: bval_def)

lemma bval_snoc [simp]: "bval (xs @ [x]) = bval xs * 65536 + unat x"
  by (simp add: bval_append) (simp add: bval_def)

lemma bval_less: "bval ds < 65536 ^ length ds"
proof (induction ds rule: rev_induct)
  case (snoc d ds)
  have "bval ds * 65536 + unat d < (bval ds + 1) * 65536"
    using unat_u16_less [of d] by simp
  also have "\<dots> \<le> 65536 ^ length ds * 65536"
    using snoc.IH by (intro mult_right_mono) auto
  finally show ?case by simp
qed simp

definition wf64 :: "INT_64 \<Rightarrow> bool" where
  "wf64 a \<longleftrightarrow> length (digits a) = 4"

definition i64 :: "INT_64 \<Rightarrow> 64 word" where
  "i64 a = word_rcat (digits a)"

definition uval :: "INT_64 \<Rightarrow> nat" where
  "uval a = bval (digits a)"

lemma wf64_cases:
  assumes "wf64 a"
  obtains d0 d1 d2 d3 where "a = \<lparr>digits = [d0, d1, d2, d3]\<rparr>"
  using assms by (cases a) (auto simp: wf64_def elim: length_4_cases)

lemma wf64_lit [simp]: "wf64 \<lparr>digits = [d0, d1, d2, d3]\<rparr>"
  by (simp add: wf64_def)

lemma uval_lit:
  "uval \<lparr>digits = [d0, d1, d2, d3]\<rparr> =
     ((unat d0 * 65536 + unat d1) * 65536 + unat d2) * 65536 + unat d3"
  by (simp add: uval_def bval_def)

lemma uval_less: "wf64 a \<Longrightarrow> uval a < 18446744073709551616"
  using bval_less [of "digits a"] by (simp add: wf64_def uval_def)

lemma i64_uval: "wf64 a \<Longrightarrow> i64 a = of_nat (uval a)"
  by (erule wf64_cases) (simp add: i64_def uval_lit word_rcat_def algebra_simps)

lemma unat_i64: "wf64 a \<Longrightarrow> unat (i64 a) = uval a"
  using uval_less [of a] by (simp add: i64_uval unsigned_of_nat take_bit_nat_eq_self)

lemma bit_i64:
  assumes "wf64 a"
  shows "bit (i64 a) n \<longleftrightarrow> n < 64 \<and> bit (digits a ! (3 - n div 16)) (n mod 16)"
proof (cases "n < 64")
  case True
  then have n: "n div 16 < 4" by auto
  then have "rev (digits a) ! (n div 16) = digits a ! (3 - n div 16)"
    using assms by (simp add: wf64_def rev_nth)
  then show ?thesis
    using n True assms bit_horner_sum_uint_exp_iff [of "rev (digits a)" n]
    by (simp add: i64_def word_rcat_def bit_word_of_int_iff wf64_def)
next
  case False
  then show ?thesis by (auto dest: bit_imp_le_length)
qed

lemma bit_digit:
  assumes "wf64 a" "i < 4" "n < 16"
  shows "bit (digits a ! i) n \<longleftrightarrow> bit (i64 a) ((3 - i) * 16 + n)"
  using assms by (subst bit_i64) auto

lemma i64_inj: "wf64 a \<Longrightarrow> wf64 b \<Longrightarrow> i64 a = i64 b \<Longrightarrow> a = b"
proof -
  assume *: "wf64 a" "wf64 b" "i64 a = i64 b"
  have "digits a = digits b"
  proof (rule nth_equalityI)
    show "length (digits a) = length (digits b)" using * by (simp add: wf64_def)
    fix i assume "i < length (digits a)"
    then have "i < 4" using * by (simp add: wf64_def)
    show "digits a ! i = digits b ! i"
      by (rule bit_word_eqI) (use * \<open>i < 4\<close> in \<open>simp add: bit_digit\<close>)
  qed
  then show ?thesis by simp
qed

lemma of_nat_mod_64: "x + 18446744073709551616 * k = y \<Longrightarrow> (of_nat x :: 64 word) = of_nat y"
proof -
  assume "x + 18446744073709551616 * k = y"
  then have "(of_nat y :: 64 word) = of_nat x + 18446744073709551616 * of_nat k" by auto
  moreover have "(18446744073709551616 :: 64 word) = 0" by simp
  ultimately show ?thesis by (simp only: mult_zero_left add_0_right)
qed

section \<open>Addition\<close>

lemma column_sum:
  fixes x y :: u32 and c :: u32
  assumes "unat x < 65536" "unat y < 65536" "unat c \<le> 1"
  defines "t \<equiv> x + y + c"
  shows "unat (ucast t :: u16) + 65536 * unat (signed_drop_bit 16 t) = unat x + unat y + unat c"
    and "unat (signed_drop_bit 16 t) \<le> 1"
proof -
  have t: "unat t = unat x + unat y + unat c"
    using assms by (simp add: t_def unat_add_u32)
  then have "\<not> bit t 31"
    using assms by (simp add: bit31_u32)
  then have d: "unat (signed_drop_bit 16 t) = unat t div 65536"
    by (simp add: signed_drop_bit_pos unat_drop_bit_div)
  show "unat (ucast t :: u16) + 65536 * unat (signed_drop_bit 16 t) = unat x + unat y + unat c"
    by (simp add: d t unat_ucast_32_16)
  show "unat (signed_drop_bit 16 t) \<le> 1"
    using assms(1-3) unfolding d t by linarith
qed

lemma add_loop_length [simp]: "length (add_loop n a b c r) = length r"
  by (induction n arbitrary: c r) (auto simp: Let_def)

lemma add_loop_correct:
  assumes "n \<le> length a" "n \<le> length b" "n \<le> length r" "unat c \<le> 1"
  shows "(\<exists>k. bval (take n (add_loop n a b c r)) + 65536 ^ n * k
           = bval (take n a) + bval (take n b) + unat c) \<and>
         drop n (add_loop n a b c r) = drop n r"
  using assms
proof (induction n arbitrary: c r)
  case 0
  then show ?case by simp
next
  case (Suc n)
  define t where "t = ucast (a ! n) + ucast (b ! n) + c"
  define c' where "c' = signed_drop_bit 16 t"
  define r' where "r' = r[n := ucast t]"
  define r'' where "r'' = add_loop n a b c' r'"
  have eq: "add_loop (Suc n) a b c r = r''"
    by (simp add: t_def c'_def r'_def r''_def Let_def)
  have col: "unat (ucast t :: u16) + 65536 * unat c' = unat (a ! n) + unat (b ! n) + unat c"
      and "unat c' \<le> 1"
    using column_sum [of "ucast (a ! n)" "ucast (b ! n)" c] unat_u16_less Suc.prems
    by (simp_all add: t_def c'_def)
  then obtain k where k: "bval (take n r'') + 65536 ^ n * k = bval (take n a) + bval (take n b) + unat c'"
      and dr: "drop n r'' = ucast t # drop (Suc n) r"
    using Suc.IH [of r' c'] Suc.prems
    by (auto simp: r'_def r''_def Cons_nth_drop_Suc [symmetric] drop_update_cancel)
  have len: "length r'' = length r" by (simp add: r''_def r'_def)
  have nth: "r'' ! n = ucast t"
    using arg_cong [OF dr, of hd] Suc.prems(3) len by (simp add: hd_drop_conv_nth)
  have "bval (take (Suc n) r'') + 65536 ^ Suc n * k
      = (bval (take n r'') + 65536 ^ n * k) * 65536 + unat (ucast t :: u16)"
    using Suc.prems(3) nth len by (simp add: take_Suc_conv_app_nth algebra_simps)
  also have "\<dots> = bval (take (Suc n) a) + bval (take (Suc n) b) + unat c"
    using k col Suc.prems by (simp add: take_Suc_conv_app_nth)
  finally show ?case
    using arg_cong [OF dr, of tl] unfolding eq by (auto simp: drop_Suc tl_drop)
qed

lemma wf64_add [simp]: "wf64 (int_64_add a b)"
  by (simp add: wf64_def int_64_add_def)

lemma i64_add:
  assumes "wf64 a" "wf64 b"
  shows "i64 (int_64_add a b) = i64 a + i64 b"
proof -
  obtain k where "bval (digits (int_64_add a b)) + 65536 ^ 4 * k
      = bval (digits a) + bval (digits b)"
    using add_loop_correct [of 4 "digits a" "digits b" "replicate 4 0" 0] assms
    by (auto simp: int_64_add_def wf64_def)
  then have "uval (int_64_add a b) + 18446744073709551616 * k = uval a + uval b"
    by (simp add: uval_def)
  from of_nat_mod_64 [OF this] show ?thesis
    using assms by (simp add: i64_uval)
qed


section \<open>Bitwise operations\<close>

lemma wf64_bitops [simp]:
  "wf64 (int_64_and a b)" "wf64 (int_64_or a b)" "wf64 (int_64_xor a b)" "wf64 (int_64_not a)"
  by (simp_all add: wf64_def int_64_and_def int_64_or_def int_64_xor_def int_64_not_def)

lemma digit_index_less [simp]: "3 - (k :: nat) < 4"
  by simp

lemma i64_bitops:
  assumes "wf64 a" "wf64 b"
  shows "i64 (int_64_and a b) = i64 a AND i64 b"
    and "i64 (int_64_or a b) = i64 a OR i64 b"
    and "i64 (int_64_xor a b) = i64 a XOR i64 b"
    and "i64 (int_64_not a) = NOT (i64 a)"
  by (rule bit_word_eqI; use assms in \<open>simp add: bit_i64 wf64_def bit_simps int_64_and_def
    int_64_or_def int_64_xor_def int_64_not_def nth_down_loop\<close>)+

lemma wf64_neg [simp]: "wf64 (int_64_neg a)"
  by (simp add: int_64_neg_def)

lemma wf64_one [simp]: "wf64 INT_64_one" and wf64_zero [simp]: "wf64 INT_64_zero"
  by (simp_all add: INT_64_one_def INT_64_zero_def)

lemma i64_one [simp]: "i64 INT_64_one = 1" and i64_zero [simp]: "i64 INT_64_zero = 0"
  by (simp_all add: i64_uval uval_lit INT_64_one_def INT_64_zero_def)

lemma ffff_u16: "(0xFFFF :: u16) = - 1"
  by simp

lemma i64_neg:
  assumes "wf64 a"
  shows "i64 (int_64_neg a) = - i64 a"
proof -
  let ?c = "\<lparr>digits = [digits a ! 0 XOR 0xFFFF, digits a ! 1 XOR 0xFFFF,
                  digits a ! 2 XOR 0xFFFF, digits a ! 3 XOR 0xFFFF]\<rparr>"
  have d: "digits ?c ! i = NOT (digits a ! i)" if "i < 4" for i
  proof -
    have "i \<in> {0, 1, 2, 3}" using that by auto
    then show ?thesis by (auto simp add: ffff_u16)
  qed
  have "i64 ?c = NOT (i64 a)"
    by (rule bit_word_eqI) (use assms d in \<open>simp add: bit_i64 bit_not_iff\<close>)
  then show ?thesis
    by (simp add: int_64_neg_def i64_add minus_eq_not_plus_1)
qed

lemma wf64_sub [simp]: "wf64 (int_64_sub a b)"
  by (simp add: int_64_sub_def)

lemma i64_sub: "wf64 a \<Longrightarrow> wf64 b \<Longrightarrow> i64 (int_64_sub a b) = i64 a - i64 b"
  by (simp add: int_64_sub_def i64_add i64_neg)

section \<open>Tests and comparisons\<close>

lemma and_pow2_u16: "x AND 0x8000 \<noteq> (0 :: u16) \<longleftrightarrow> bit x 15"
  using and_exp_eq_0_iff_not_bit [of x 15] by simp

lemma neg_q_bit: "wf64 a \<Longrightarrow> int_64_neg_q a \<longleftrightarrow> bit (i64 a) 63"
  by (simp add: int_64_neg_q_def and_pow2_u16 bit_i64)

lemma bit63_sint: "bit (w :: 64 word) 63 \<longleftrightarrow> sint w < 0"
  using bit_last_iff [of w] by simp

lemma neg_q_iff: "wf64 a \<Longrightarrow> int_64_neg_q a \<longleftrightarrow> sint (i64 a) < 0"
  by (simp add: neg_q_bit bit63_sint)

lemma zero_q_iff: "wf64 a \<Longrightarrow> int_64_zero_q a \<longleftrightarrow> i64 a = 0"
  by (erule wf64_cases)
     (auto simp: int_64_zero_q_def unat_eq_0 [symmetric] unat_i64 uval_lit)

lemma eq_iff: "wf64 a \<Longrightarrow> wf64 b \<Longrightarrow> int_64_eq a b \<longleftrightarrow> i64 a = i64 b"
proof -
  assume wf: "wf64 a" "wf64 b"
  have "int_64_eq a b \<longleftrightarrow> a = b"
    using wf by (auto elim!: wf64_cases simp: int_64_eq_def)
  then show ?thesis using wf by (auto dest: i64_inj)
qed

lemma cmp_unsigned:
  assumes "wf64 a" "wf64 b"
  shows "int_64_cmp a b = (if i64 a < i64 b then -1 else if i64 b < i64 a then 1 else 0)"
proof -
  obtain a0 a1 a2 a3 where a: "a = \<lparr>digits = [a0, a1, a2, a3]\<rparr>" using assms(1) by (rule wf64_cases)
  obtain b0 b1 b2 b3 where b: "b = \<lparr>digits = [b0, b1, b2, b3]\<rparr>" using assms(2) by (rule wf64_cases)
  have lt: "i64 x < i64 y \<longleftrightarrow> uval x < uval y" if "wf64 x" "wf64 y" for x y
    using that by (simp add: word_less_nat_alt unat_i64)
  note bounds = unat_u16_less [of a0] unat_u16_less [of a1] unat_u16_less [of a2] unat_u16_less [of a3]
    unat_u16_less [of b0] unat_u16_less [of b1] unat_u16_less [of b2] unat_u16_less [of b3]
  show ?thesis
    using bounds
    unfolding lt [OF assms] lt [OF assms(2,1)]
    by (simp add: a b int_64_cmp_def uval_lit word_less_nat_alt)
qed

section \<open>Shifts\<close>

lemma ffff_u32: "(0xFFFF :: u32) = mask 16"
  by (simp add: mask_eq_exp_minus_1)

lemma bit_shr_word:
  fixes x y :: u16
  assumes "d < 16" "m < 16"
  shows "bit (ucast ((drop_bit d (ucast x :: u32) OR push_bit (16 - d) (ucast y)) AND 0xFFFF) :: u16) m
    \<longleftrightarrow> (if m + d < 16 then bit x (m + d) else bit y (m + d - 16))"
proof (cases "m + d < 16")
  case True
  then show ?thesis using assms unfolding ffff_u32
    by (auto simp: bit_simps add.commute)
next
  case False
  then have "m - (16 - d) = m + d - 16" "\<not> bit x (m + d)"
    using assms by (auto dest: bit_imp_le_length)
  with False show ?thesis using assms unfolding ffff_u32
    by (auto simp: bit_simps add.commute)
qed

lemma bit_lshr_digit:
  assumes "d < 16" "m < 16"
  shows "bit (lshr_digit a c d i) m \<longleftrightarrow>
    (if m + d < 16 then bit (a ! (i - c)) (m + d)
     else i \<noteq> c \<and> bit (a ! (i - c - 1)) (m + d - 16))"
  using bit_shr_word [OF assms, of "a ! (i - c)" "if i = c then 0 else a ! (i - c - 1)"]
  by (auto simp: lshr_digit_def split: if_splits)

lemma bit_ashr_digit:
  assumes "d < 16" "m < 16"
  shows "bit (ashr_digit a (if s then 0xFFFF else 0) c d i) m \<longleftrightarrow>
    (if m + d < 16 then bit (a ! (i - c)) (m + d)
     else if i = c then s else bit (a ! (i - c - 1)) (m + d - 16))"
proof -
  have less: "m + d - 16 < 16" using assms by linarith
  let ?y = "if i = c then (if s then 0xFFFF else 0) else a ! (i - c - 1)"
  have "(if i = c then (if s then 0xFFFF else 0) else ucast (a ! (i - c - 1))) = (ucast ?y :: u32)"
    by simp
  then show ?thesis
    using bit_shr_word [OF assms, of "a ! (i - c)" ?y] less unfolding ashr_digit_def
    by (simp add: ffff_u16)
qed

lemma bit_shl_digit:
  assumes "d < 16" "m < 16"
  shows "bit (shl_digit a c d i) m \<longleftrightarrow>
    (if m < d then \<not> 3 < i + c + 1 \<and> bit (a ! (i + c + 1)) (m + 16 - d) else bit (a ! (i + c)) (m - d))"
proof (cases "m < d")
  case True
  then have "16 - d + m = m + 16 - d" using assms by simp
  with True show ?thesis using assms unfolding shl_digit_def ffff_u32
    by (auto simp: bit_simps)
next
  case False
  then have "\<not> bit y (16 - d + m)" for y :: u16 using assms by (auto dest: bit_imp_le_length)
  with False show ?thesis using assms unfolding shl_digit_def ffff_u32
    by (auto simp: bit_simps)
qed

text \<open>The position of a bit, as digit index and place in the digit.\<close>

lemma digit_position:
  assumes "n < (64 :: nat)"
  obtains i m where "i < 4" "m < 16" "n = (3 - i) * 16 + m" "n div 16 = 3 - i" "n mod 16 = m"
proof
  show "3 - n div 16 < 4" "n mod 16 < 16" by auto
  have "n div 16 < 4" using assms by auto
  then show "n = (3 - (3 - n div 16)) * 16 + n mod 16" "n div 16 = 3 - (3 - n div 16)" by auto
qed simp

text \<open>
  A digit array whose digits are those of \<open>a\<close> moved right by \<open>c\<close> digits and \<open>d\<close> bits, filled
  from the left with \<open>s\<close>.
\<close>

lemma shifted_right:
  assumes "wf64 a" "wf64 r" "c < 4" "d < 16"
    and dig: "\<And>i m. i < 4 \<Longrightarrow> m < 16 \<Longrightarrow> bit (digits r ! i) m \<longleftrightarrow>
      (if i < c then s
       else if m + d < 16 then bit (digits a ! (i - c)) (m + d)
       else if i = c then s else bit (digits a ! (i - c - 1)) (m + d - 16))"
    and "n < 64"
  shows "bit (i64 r) n \<longleftrightarrow> (if n + (c * 16 + d) < 64 then bit (i64 a) (n + (c * 16 + d)) else s)"
proof -
  obtain i m where i: "i < 4" "m < 16" "n = (3 - i) * 16 + m" "n div 16 = 3 - i" "n mod 16 = m"
    using \<open>n < 64\<close> by (rule digit_position)
  have r: "bit (i64 r) n \<longleftrightarrow> bit (digits r ! i) m"
    using i(4,5) \<open>i < 4\<close> assms(2) \<open>n < 64\<close> by (simp add: bit_i64)
  consider (top) "i < c" | (in_digit) "c \<le> i" "m + d < 16" | (fill) "i = c" "16 \<le> m + d"
    | (next_digit) "c < i" "16 \<le> m + d" by linarith
  then show ?thesis
  proof cases
    case top
    then have "\<not> n + (c * 16 + d) < 64" using i(1-3) \<open>c < 4\<close> by simp
    then show ?thesis using r dig [OF i(1,2)] top by (simp only: if_True if_False)
  next
    case in_digit
    then have "i - c < 4" "n + (c * 16 + d) = (3 - (i - c)) * 16 + (m + d)" "n + (c * 16 + d) < 64"
      using i(1-3) assms(3) by simp_all
    then show ?thesis
      using r dig [OF i(1,2)] in_digit bit_digit [OF assms(1), of "i - c" "m + d"] by (simp only:) simp
  next
    case fill
    then have "\<not> n + (c * 16 + d) < 64" using i(1-3) \<open>c < 4\<close> by simp
    then show ?thesis using r dig [OF i(1,2)] fill by simp
  next
    case next_digit
    then have "i - c - 1 < 4" "m + d - 16 < 16" "n + (c * 16 + d) < 64"
      "n + (c * 16 + d) = (3 - (i - c - 1)) * 16 + (m + d - 16)"
      using i(1-3) assms(3,4) by simp_all
    then show ?thesis
      using r dig [OF i(1,2)] next_digit bit_digit [OF assms(1), of "i - c - 1" "m + d - 16"]
      by (simp only:) simp
  qed
qed

lemma i64_lshr:
  assumes "wf64 a" "b < 64"
  shows "\<exists>r. int_64_lshr a b = Some r \<and> wf64 r \<and> i64 r = drop_bit b (i64 a)"
proof -
  define c d where "c = b div 16" and "d = b mod 16"
  define r where "r = \<lparr>digits = map (\<lambda>i. if i < c then 0 else lshr_digit (digits a) c d i) [0..<4]\<rparr>"
  have cd: "c < 4" "d < 16" "b = c * 16 + d" using assms by (auto simp: c_def d_def)
  have some: "int_64_lshr a b = Some r"
    using cd(1) unfolding r_def int_64_lshr_def Let_def c_def d_def by simp
  have wf: "wf64 r" by (simp add: wf64_def r_def)
  have dig: "digits r ! i = (if i < c then 0 else lshr_digit (digits a) c d i)" if "i < 4" for i
    using that by (simp add: r_def del: upt_rec_numeral upt_Suc)
  have "i64 r = drop_bit b (i64 a)"
  proof (rule bit_word_eqI)
    fix n :: nat assume "n < LENGTH(64)"
    then have "bit (i64 r) n \<longleftrightarrow> (if n + (c * 16 + d) < 64 then bit (i64 a) (n + (c * 16 + d)) else False)"
      using cd(1,2) by (intro shifted_right [OF assms(1) wf]) (auto simp: dig bit_lshr_digit)
    then show "bit (i64 r) n = bit (drop_bit b (i64 a)) n"
      unfolding cd(3) by (auto simp: bit_drop_bit_eq add.commute dest: bit_imp_le_length)
  qed
  with some wf show ?thesis by blast
qed

lemma bit_signed_drop_bit_64:
  fixes w :: "64 word"
  assumes "n < 64"
  shows "bit (signed_drop_bit b w) n \<longleftrightarrow> (if n + b < 64 then bit w (n + b) else bit w 63)"
proof -
  have L: "LENGTH(64) = (64 :: nat)" by simp
  have "bit (signed_drop_bit b w) n \<longleftrightarrow> bit w (if 64 - b \<le> n \<and> n < 64 then 63 else b + n)"
    using bit_signed_drop_bit_iff [of b w n] unfolding L by (simp add: L)
  moreover have "n + b = 63" if "64 - b \<le> n" "n + b < 64" using that by linarith
  ultimately show ?thesis using assms by (auto simp: add.commute)
qed

lemma i64_ashr:
  assumes "wf64 a" "b < 64"
  shows "\<exists>r. int_64_ashr a b = Some r \<and> wf64 r \<and> i64 r = signed_drop_bit b (i64 a)"
proof -
  define c d where "c = b div 16" and "d = b mod 16"
  define s :: u32 where "s = (if int_64_neg_q a then 0xFFFF else 0)"
  define r where "r = \<lparr>digits = map (\<lambda>i. if i < c then ucast s else ashr_digit (digits a) s c d i) [0..<4]\<rparr>"
  have cd: "c < 4" "d < 16" "b = c * 16 + d" using assms by (auto simp: c_def d_def)
  have some: "int_64_ashr a b = Some r"
    using cd(1) unfolding r_def int_64_ashr_def Let_def c_def d_def s_def by simp
  have wf: "wf64 r" by (simp add: wf64_def r_def)
  have dig: "digits r ! i = (if i < c then ucast s else ashr_digit (digits a) s c d i)" if "i < 4" for i
    using that by (simp add: r_def del: upt_rec_numeral upt_Suc)
  have s: "bit (ucast s :: u16) m \<longleftrightarrow> int_64_neg_q a" if "m < 16" for m
    using that by (simp add: s_def ffff_u16)
  have sdig: "bit (ashr_digit (digits a) s c d i) m \<longleftrightarrow>
      (if m + d < 16 then bit (digits a ! (i - c)) (m + d)
       else if i = c then int_64_neg_q a else bit (digits a ! (i - c - 1)) (m + d - 16))"
    if "m < 16" for i m
    unfolding s_def using cd(2) that by (rule bit_ashr_digit)
  have "i64 r = signed_drop_bit b (i64 a)"
  proof (rule bit_word_eqI)
    fix n :: nat assume n: "n < LENGTH(64)"
    then have "bit (i64 r) n \<longleftrightarrow> (if n + (c * 16 + d) < 64 then bit (i64 a) (n + (c * 16 + d)) else int_64_neg_q a)"
      using cd(1,2) by (intro shifted_right [OF assms(1) wf]) (auto simp: dig s sdig)
    moreover have "n < 64" using n by simp
    ultimately show "bit (i64 r) n = bit (signed_drop_bit b (i64 a)) n"
      by (simp only: bit_signed_drop_bit_64 cd(3) neg_q_bit [OF assms(1)])
  qed
  with some wf show ?thesis by blast
qed

lemma wf64_shl [simp]: "wf64 (int_64_shl a b)"
  by (simp add: wf64_def int_64_shl_def Let_def)

lemma i64_shl:
  assumes "wf64 a"
  shows "i64 (int_64_shl a b) = push_bit b (i64 a)"
proof (rule bit_word_eqI)
  fix n :: nat assume "n < LENGTH(64)"
  then have "n < 64" by simp
  then obtain i m where i: "i < 4" "m < 16" "n = (3 - i) * 16 + m" "n div 16 = 3 - i" "n mod 16 = m"
    by (rule digit_position)
  define c d where "c = b div 16" and "d = b mod 16"
  have cd: "d < 16" "b = c * 16 + d" by (auto simp: c_def d_def)
  have r: "bit (i64 (int_64_shl a b)) n \<longleftrightarrow> bit (digits (int_64_shl a b) ! i) m"
    using i(1,4,5) \<open>n < 64\<close> by (simp add: bit_i64)
  have "digits (int_64_shl a b) ! i = (if i < 4 - c then shl_digit (digits a) c d i else 0)"
    using i(1) by (simp add: int_64_shl_def Let_def c_def d_def del: upt_rec_numeral upt_Suc)
  then have dig: "bit (digits (int_64_shl a b) ! i) m \<longleftrightarrow>
      i + c < 4 \<and> (if m < d then i + c \<noteq> 3 \<and> bit (digits a ! (i + c + 1)) (m + 16 - d)
                 else bit (digits a ! (i + c)) (m - d))"
    using i(1,2) cd(1) by (auto simp: bit_shl_digit)
  show "bit (i64 (int_64_shl a b)) n \<longleftrightarrow> bit (push_bit b (i64 a)) n"
  proof (cases "i + c < 4")
    case in_range: True
    show ?thesis
    proof (cases "m < d")
      case True
      then have *: "i + c \<noteq> 3 \<Longrightarrow> b \<le> n \<and> n - b = (3 - (i + c + 1)) * 16 + (m + 16 - d)" and "i + c = 3 \<Longrightarrow> n < b"
        using i(1-3) cd in_range by auto
      then show ?thesis
        using r dig True i(1,2) cd(1) in_range \<open>n < 64\<close> bit_digit [OF assms, of "i + c + 1" "m + 16 - d"]
        by (cases "i + c = 3") (auto simp: bit_push_bit_iff)
    next
      case False
      then have "n - b = (3 - (i + c)) * 16 + (m - d)" "b \<le> n"
        using i(1-3) cd in_range by auto
      then show ?thesis
        using r dig False i(1,2) in_range \<open>n < 64\<close> bit_digit [OF assms, of "i + c" "m - d"]
        by (auto simp: bit_push_bit_iff)
    qed
  next
    case False
    then have "n < b" using i(1-3) cd by auto
    then show ?thesis using r dig False by (simp add: bit_push_bit_iff)
  qed
qed

section \<open>Conversions between the widths\<close>

lemma unat_clear_low:
  "unat ((x :: u16) AND NOT (mask k)) = unat x div 2 ^ k * 2 ^ k"
proof -
  have "unat (x AND NOT (mask k)) = push_bit k (drop_bit k (unat x))"
    by (rule bit_eqI)
      (auto simp: bit_unsigned_iff bit_and_iff bit_not_iff bit_mask_iff bit_push_bit_iff bit_drop_bit_eq
        dest: bit_imp_le_length)
  then show ?thesis by (simp add: push_bit_eq_mult drop_bit_eq_div)
qed

lemma top_bits_u16:
  "x AND 0xE000 = (0 :: u16) \<longleftrightarrow> unat x < 8192"
  "x AND 0xE000 = (0xE000 :: u16) \<longleftrightarrow> 57344 \<le> unat x"
  "x AND 0x8000 = (0 :: u16) \<longleftrightarrow> unat x < 32768"
proof -
  have m: "(0xE000 :: u16) = NOT (mask 13)" "(0x8000 :: u16) = NOT (mask 15)"
    by (simp_all add: mask_eq_exp_minus_1)
  have a: "unat (x AND 0xE000) = unat x div 8192 * 8192" "unat (x AND 0x8000) = unat x div 32768 * 32768"
    unfolding m unat_clear_low by simp_all
  show "x AND 0xE000 = (0 :: u16) \<longleftrightarrow> unat x < 8192"
  "x AND 0xE000 = (0xE000 :: u16) \<longleftrightarrow> 57344 \<le> unat x"
  "x AND 0x8000 = (0 :: u16) \<longleftrightarrow> unat x < 32768"
    using unat_u16_less [of x] unfolding word_unat_eq_iff a by auto
qed

lemma sint_uval:
  assumes "wf64 a"
  shows "sint (i64 a) = (if uval a < 9223372036854775808 then int (uval a) else int (uval a) - 18446744073709551616)"
proof -
  define w where "w = i64 a"
  have ge: "- 9223372036854775808 \<le> sint w" and lt: "sint w < 9223372036854775808"
    using sint_greater_eq [of w] sint_less [of w] by simp_all
  have u: "int (uval a) = sint w mod 18446744073709551616"
    using assms uint_sint [of w] by (simp add: w_def take_bit_eq_mod flip: unat_i64)
  have "sint w mod 18446744073709551616 = (if sint w < 0 then sint w + 18446744073709551616 else sint w)"
  proof (cases "sint w < 0")
    case True
    have "(sint w + 18446744073709551616) mod 18446744073709551616 = sint w + 18446744073709551616"
      using True ge by (intro mod_pos_pos_trivial) auto
    then show ?thesis using True by (simp only: mod_add_self2 if_True)
  next
    case False
    then show ?thesis using lt by (simp add: mod_pos_pos_trivial)
  qed
  then show ?thesis using u ge lt unfolding w_def by (simp split: if_splits)
qed

lemma fit_in_30_iff:
  assumes "wf64 a"
  shows "int_64_fit_in_30_q a \<longleftrightarrow> fits_fixnum (sint (i64 a))"
proof -
  obtain d0 d1 d2 d3 where a: "a = \<lparr>digits = [d0, d1, d2, d3]\<rparr>"
    using assms by (rule wf64_cases)
  have "int_64_fit_in_30_q a \<longleftrightarrow> (unat d0 = 0 \<and> unat d1 = 0 \<and> unat d2 < 8192) \<or>
      (unat d0 = 65535 \<and> unat d1 = 65535 \<and> 57344 \<le> unat d2)"
    by (simp add: int_64_fit_in_30_q_def a top_bits_u16) (auto simp: word_unat_eq_iff)
  also have "\<dots> \<longleftrightarrow> fits_fixnum (sint (i64 a))"
    unfolding fits_fixnum_def sint_uval [OF assms, unfolded a uval_lit, folded a]
    using unat_u16_less [of d0] unat_u16_less [of d1] unat_u16_less [of d2] unat_u16_less [of d3]
    by (auto simp del: of_nat_unat split: if_splits)
  finally show ?thesis .
qed

lemma fit_in_32_iff:
  assumes "wf64 a"
  shows "int_64_fit_in_32_q a \<longleftrightarrow> - (2 ^ 31) \<le> sint (i64 a) \<and> sint (i64 a) < 2 ^ 31"
proof -
  obtain d0 d1 d2 d3 where a: "a = \<lparr>digits = [d0, d1, d2, d3]\<rparr>"
    using assms by (rule wf64_cases)
  have "int_64_fit_in_32_q a \<longleftrightarrow> (unat d0 = 0 \<and> unat d1 = 0 \<and> unat d2 < 32768) \<or>
      (unat d0 = 65535 \<and> unat d1 = 65535 \<and> 32768 \<le> unat d2)"
    by (simp add: int_64_fit_in_32_q_def a top_bits_u16) (auto simp: word_unat_eq_iff)
  also have "\<dots> \<longleftrightarrow> - (2 ^ 31) \<le> sint (i64 a) \<and> sint (i64 a) < 2 ^ 31"
    unfolding sint_uval [OF assms, unfolded a uval_lit, folded a]
    using unat_u16_less [of d0] unat_u16_less [of d1] unat_u16_less [of d2] unat_u16_less [of d3]
    by (auto simp del: of_nat_unat split: if_splits)
  finally show ?thesis .
qed

lemma to_int_32: "wf64 a \<Longrightarrow> int_64_to_int_32 a = ucast (i64 a)"
proof (rule bit_word_eqI)
  fix n assume "wf64 a" "n < LENGTH(32)"
  moreover have "n div 16 = 1 \<and> n mod 16 = n - 16" if "16 \<le> n" "n < 32"
  proof
    show "n div 16 = 1" using that by (intro div_nat_eqI) auto
    then show "n mod 16 = n - 16" using div_mult_mod_eq [of n 16] by simp
  qed
  ultimately show "bit (int_64_to_int_32 a) n = bit (ucast (i64 a) :: u32) n"
    by (cases "n < 16")
      (auto simp: int_64_to_int_32_def bit_or_iff bit_push_bit_iff bit_ucast_iff bit_i64 not_less
       dest: bit_imp_le_length)
qed

lemma wf64_int_32 [simp]: "wf64 (int_32_to_int_64 x)"
  by (simp add: int_32_to_int_64_def Let_def)

lemma sint_u32: "sint (x :: u32) = (if unat x < 2147483648 then int (unat x) else int (unat x) - 4294967296)"
proof -
  have u: "int (unat x) = sint x mod 4294967296"
    using uint_sint [of x] by (simp add: take_bit_eq_mod)
  have ge: "- 2147483648 \<le> sint x" and lt: "sint x < 2147483648" by (rule sint_u32_range)+
  have "sint x mod 4294967296 = (if sint x < 0 then sint x + 4294967296 else sint x)"
  proof (cases "sint x < 0")
    case True
    have "(sint x + 4294967296) mod 4294967296 = sint x + 4294967296"
      using True ge by (intro mod_pos_pos_trivial) auto
    then show ?thesis using True by (simp only: mod_add_self2 if_True)
  next
    case False
    then show ?thesis using lt by (simp add: mod_pos_pos_trivial)
  qed
  then show ?thesis using u ge lt by (simp del: of_nat_unat split: if_splits)
qed

lemma ucast_ashr_16: "unat (ucast (signed_drop_bit 16 (x :: u32)) :: u16) = unat x div 65536"
proof -
  have "ucast (signed_drop_bit 16 x) = (ucast (drop_bit 16 x) :: u16)"
    by (rule bit_word_eqI) (auto simp: bit_ucast_iff bit_signed_drop_bit_iff bit_drop_bit_eq)
  moreover have "unat x div 65536 < 65536" using unat_u32_less [of x] by auto
  ultimately show ?thesis by (simp add: unat_ucast_32_16 unat_drop_bit_div)
qed

lemma sint_int_32: "sint (i64 (int_32_to_int_64 x)) = sint x"
proof -
  have s: "x AND 0x80000000 \<noteq> 0 \<longleftrightarrow> 2147483648 \<le> unat x"
    using and_exp_eq_0_iff_not_bit [of x 31] by (simp add: bit31_u32)
  have "uval (int_32_to_int_64 x) =
      (if 2147483648 \<le> unat x then unat x + 18446744069414584320 else unat x)"
    unfolding int_32_to_int_64_def Let_def uval_lit ucast_ashr_16 s
    using div_mult_mod_eq [of "unat x" 65536] by (simp add: unat_ucast_32_16 del: div_mult_mod_eq)
  then show ?thesis
    using unat_u32_less [of x] by (simp add: sint_uval sint_u32)
qed

lemma i64_int_32: "i64 (int_32_to_int_64 x) = scast x"
  using arg_cong [OF sint_int_32, of "of_int :: int \<Rightarrow> 64 word"] by simp

end
