(* ===== verification/LongDiv.thy ===== *)
theory LongDiv
  imports LongInt "HOL-Library.Signed_Division"
begin

text \<open>
  Multiplication and division of the 64-bit numbers of \<^verbatim>\<open>handc/runtime/longint.c\<close>
  (\<^verbatim>\<open>int_64_umul\<close>, \<^verbatim>\<open>int_64_mul\<close>, \<^verbatim>\<open>int_64_divu\<close>, \<^verbatim>\<open>int_64_div\<close>, \<^verbatim>\<open>int_64_modulo\<close>): the
  schoolbook product computes the product modulo \<open>2 ^ 64\<close>, and the shift-and-subtract loop
  computes quotient and remainder for every divisor up to \<open>2 ^ 31\<close>, the signed operations
  truncating (\<open>sdiv\<close>, \<open>smod\<close>) or flooring (\<open>mod\<close>).  Above that bound the loop is wrong, which
  a theorem on a concrete input records.
\<close>

unbundle bit_operations_syntax

section \<open>Multiplication\<close>

declare add_u32_loop.simps [simp del]

lemma length_add_u32_loop [simp]: "length (add_u32_loop n a b c) = length a"
  by (induction n arbitrary: a b c) (auto simp: add_u32_loop.simps Let_def)

lemma add_u32_loop_correct:
  assumes "n \<le> length a" "unat c \<le> 1"
  shows "(\<exists>k. bval (take n (add_u32_loop n a b c)) + 65536 ^ n * k
           = bval (take n a) + unat b + unat c) \<and>
         drop n (add_u32_loop n a b c) = drop n a"
  using assms
proof (induction n arbitrary: a b c)
  case 0
  then show ?case by (auto simp: add_u32_loop.simps)
next
  case (Suc n)
  define t where "t = ucast (a ! n) + (b AND 0xFFFF) + c"
  define c' where "c' = signed_drop_bit 16 t"
  define a' where "a' = a[n := ucast t]"
  define r where "r = add_u32_loop n a' (drop_bit 16 b) c'"
  have eq: "add_u32_loop (Suc n) a b c = r"
    by (simp add: t_def c'_def a'_def r_def Let_def add_u32_loop.simps)
  have col: "unat (ucast t :: u16) + 65536 * unat c' = unat (a ! n) + unat b mod 65536 + unat c"
      and "unat c' \<le> 1"
    using column_sum [of "ucast (a ! n)" "b AND 0xFFFF" c] unat_u16_less Suc.prems
    by (simp_all add: t_def c'_def unat_and_mask16)
  then obtain k where k: "bval (take n r) + 65536 ^ n * k = bval (take n a) + unat b div 65536 + unat c'"
      and dr: "drop n r = ucast t # drop (Suc n) a"
    using Suc.IH [of a' c' "drop_bit 16 b"] Suc.prems
    by (auto simp: a'_def r_def Cons_nth_drop_Suc [symmetric] drop_update_cancel unat_drop_bit_div)
  have len: "length r = length a" by (simp add: r_def a'_def)
  have nth: "r ! n = ucast t"
    using arg_cong [OF dr, of hd] Suc.prems(1) len by (simp add: hd_drop_conv_nth)
  have "bval (take (Suc n) r) + 65536 ^ Suc n * k
      = (bval (take n r) + 65536 ^ n * k) * 65536 + unat (ucast t :: u16)"
    using Suc.prems(1) nth len by (simp add: take_Suc_conv_app_nth algebra_simps)
  also have "\<dots> = bval (take n a) * 65536 + unat b div 65536 * 65536 + (unat (ucast t :: u16) + 65536 * unat c')"
    unfolding k by (simp add: algebra_simps)
  also have "\<dots> = bval (take (Suc n) a) + unat b + unat c"
    using Suc.prems div_mult_mod_eq [of "unat b" 65536]
    unfolding col by (simp add: take_Suc_conv_app_nth)
  finally show ?case
    using arg_cong [OF dr, of tl] unfolding eq by (auto simp: drop_Suc tl_drop)
qed

lemma wf64_add_u32 [simp]: "wf64 (int_64_add_u32 a b s) \<longleftrightarrow> wf64 a"
  by (simp add: wf64_def int_64_add_u32_def)

lemma pow_64_word: "4 \<le> s \<Longrightarrow> (65536 :: 64 word) ^ s = 0"
proof -
  assume "4 \<le> s"
  have "(65536 :: 64 word) ^ 4 = 0" by simp
  then have "(65536 :: 64 word) ^ 4 * 65536 ^ (s - 4) = 0" by (simp only: mult_zero_left)
  then show ?thesis using \<open>4 \<le> s\<close> by (simp only: power_add [symmetric]) simp
qed

lemma i64_add_u32:
  assumes "wf64 a"
  shows "i64 (int_64_add_u32 a b s) = i64 a + of_nat (unat b) * 65536 ^ s"
proof (cases "s \<le> 4")
  case True
  let ?r = "add_u32_loop (4 - s) (digits a) b 0"
  obtain k where k: "bval (take (4 - s) ?r) + 65536 ^ (4 - s) * k = bval (take (4 - s) (digits a)) + unat b"
      and d: "drop (4 - s) ?r = drop (4 - s) (digits a)"
    using add_u32_loop_correct [of "4 - s" "digits a" 0 b] assms by (auto simp: wf64_def)
  have split: "bval xs = bval (take (4 - s) xs) * 65536 ^ s + bval (drop (4 - s) xs)"
    if "length xs = 4" for xs
    using bval_append [of "take (4 - s) xs" "drop (4 - s) xs"] that True by simp
  have "65536 ^ (4 - s) * 65536 ^ s = (65536 ^ 4 :: nat)"
    using True by (simp add: power_add [symmetric])
  then have p: "65536 ^ (4 - s) * (k * 65536 ^ s) = 18446744073709551616 * k"
    by (simp add: algebra_simps)
  have "bval ?r + 18446744073709551616 * k =
      (bval (take (4 - s) ?r) + 65536 ^ (4 - s) * k) * 65536 ^ s + bval (drop (4 - s) ?r)"
    using split [of ?r] assms p by (simp add: wf64_def algebra_simps)
  also have "\<dots> = bval (digits a) + unat b * 65536 ^ s"
    using split [of "digits a"] assms unfolding k d by (simp add: wf64_def algebra_simps)
  finally have "uval (int_64_add_u32 a b s) + 18446744073709551616 * k = uval a + unat b * 65536 ^ s"
    by (simp add: uval_def int_64_add_u32_def)
  from of_nat_mod_64 [OF this] show ?thesis using assms by (simp add: i64_uval del: of_nat_unat)
next
  case False
  then show ?thesis
    by (simp add: i64_def int_64_add_u32_def add_u32_loop.simps pow_64_word)
qed

lemma unat_mul_digits: "unat (ucast (x :: u16) * ucast (y :: u16) :: u32) = unat x * unat y"
proof -
  have "unat x * unat y \<le> 65535 * 65535"
    using unat_u16_less [of x] unat_u16_less [of y] by (intro mult_mono) auto
  then show ?thesis by (simp add: unat_word_ariths)
qed

lemma umul_inner_correct:
  assumes "wf64 r" "wf64 b" "i < 4" "j \<le> 4"
  shows "wf64 (umul_inner a b i j r) \<and>
    i64 (umul_inner a b i j r) =
      i64 r + of_nat (unat (digits a ! i)) * 65536 ^ (3 - i) *
        (\<Sum>k<j. of_nat (unat (digits b ! k)) * 65536 ^ (3 - k))"
  using assms
proof (induction j arbitrary: r)
  case 0
  then show ?case by simp
next
  case (Suc j)
  define r' where "r' = int_64_add_u32 r (ucast (digits a ! i) * ucast (digits b ! j)) ((3 - i) + (3 - j))"
  have eq: "umul_inner a b i (Suc j) r = umul_inner a b i j r'"
    by (simp add: r'_def Let_def)
  have "i64 r' = i64 r + of_nat (unat (digits a ! i)) * of_nat (unat (digits b ! j))
      * (65536 ^ (3 - i) * 65536 ^ (3 - j))"
    using Suc.prems(1) unfolding r'_def i64_add_u32 [OF Suc.prems(1)] unat_mul_digits power_add [symmetric]
    by (simp del: of_nat_unat)
  then show ?case
    using Suc.IH [of r'] Suc.prems unfolding eq
    by (simp add: r'_def algebra_simps del: of_nat_unat)
qed

lemma sum_lessThan_4: "(\<Sum>k<(4::nat). f k) = f 0 + f 1 + f 2 + (f 3 :: 'a::comm_monoid_add)"
  by (simp add: eval_nat_numeral lessThan_Suc algebra_simps)

lemma i64_digit_sum:
  assumes "wf64 b"
  shows "(\<Sum>k<4. of_nat (unat (digits b ! k)) * 65536 ^ (3 - k)) = i64 b"
  using assms unfolding sum_lessThan_4 by (elim wf64_cases)
    (simp add: i64_uval uval_lit algebra_simps del: of_nat_unat)

lemma umul_outer_correct:
  assumes "wf64 r" "wf64 b" "i \<le> 4"
  shows "wf64 (umul_outer a b i r) \<and>
    i64 (umul_outer a b i r) =
      i64 r + (\<Sum>k<i. of_nat (unat (digits a ! k)) * 65536 ^ (3 - k)) * i64 b"
  using assms
proof (induction i arbitrary: r)
  case (Suc i)
  then show ?case
    using umul_inner_correct [OF Suc.prems(1,2), of i 4 a] Suc.IH [of "umul_inner a b i 4 r"]
    by (simp only: umul_outer.simps i64_digit_sum) (simp add: algebra_simps)
qed simp

lemma umul_correct:
  assumes "wf64 a" "wf64 b"
  shows "wf64 (int_64_umul a b)" "i64 (int_64_umul a b) = i64 a * i64 b"
  using umul_outer_correct [of INT_64_zero b 4 a] assms
  by (simp_all only: int_64_umul_def i64_digit_sum) simp_all

lemma mul_correct:
  assumes "wf64 a" "wf64 b"
  shows "wf64 (int_64_mul a b)" "i64 (int_64_mul a b) = i64 a * i64 b"
  using assms umul_correct
  by (simp_all add: int_64_mul_def Let_def i64_neg)

section \<open>Division\<close>

definition cat64 :: "u32 \<Rightarrow> u32 \<Rightarrow> nat" where
  "cat64 hi lo = unat hi * 4294967296 + unat lo"

lemma cat64_less: "cat64 hi lo < 18446744073709551616"
  using unat_u32_less [of hi] unat_u32_less [of lo] by (simp add: cat64_def)

lemma top_bit_u32: "x AND 0x80000000 \<noteq> (0 :: u32) \<longleftrightarrow> 2147483648 \<le> unat x"
  using and_exp_eq_0_iff_not_bit [of x 31] by (simp add: bit31_u32)

lemma unat_shift1: "unat (push_bit 1 (x :: u32) + (if p then 1 else 0)) = 2 * unat x mod 4294967296 + of_bool p"
proof -
  have "unat (push_bit 1 x) = 2 * unat x mod 4294967296"
    by (simp add: push_bit_eq_mult unat_word_ariths mult.commute)
  moreover have "2 * unat x mod 4294967296 = 2 * (unat x mod 2147483648)"
    using mult_mod_right [of 2 "unat x" 2147483648] by simp
  then have "2 * unat x mod 4294967296 + of_bool p < 4294967296"
    using mod_less_divisor [of 2147483648 "unat x"] by (cases p) simp_all
  ultimately show ?thesis by (cases p) (simp_all add: unat_add_u32)
qed

lemma even_unat_iff: "even (unat (x :: 'a::len word)) \<longleftrightarrow> even x"
  using bit_unsigned_iff [of x 0, where 'a = nat] by (simp add: bit_0)

lemma cat64_shift:
  "cat64 (push_bit 1 hi + (if lo AND 0x80000000 \<noteq> 0 then 1 else 0)) (push_bit 1 lo + (if p then 1 else 0))
   = (2 * cat64 hi lo + of_bool p) mod 18446744073709551616"
proof -
  define h l where "h = unat hi" and "l = unat lo"
  have b: "h < 4294967296" "l < 4294967296"
    using unat_u32_less by (simp_all add: h_def l_def)
  have "(2 * h mod 4294967296 + of_bool (2147483648 \<le> l)) * 4294967296 + (2 * l mod 4294967296 + of_bool p)
      = (2 * (h * 4294967296 + l) + of_bool p) mod 18446744073709551616"
    using b by (cases p; cases "h < 2147483648"; cases "l < 2147483648")
      (simp_all add: mod_less le_mod_geq not_less)
  then show ?thesis
    unfolding cat64_def unat_shift1 by (simp only: top_bit_u32 h_def l_def)
qed

text \<open>The three registers of the division as numbers.\<close>

definition quotN :: "divu_state \<Rightarrow> nat" where "quotN s = cat64 (quot_hi s) (quot_lo s)"
definition tempN :: "divu_state \<Rightarrow> nat" where "tempN s = cat64 (temp_hi s) (temp_lo s)"
definition aN :: "divu_state \<Rightarrow> nat" where "aN s = cat64 (a_hi s) (a_lo s)"

lemma aN_top: "a_hi s AND 0x80000000 \<noteq> 0 \<longleftrightarrow> 9223372036854775808 \<le> aN s"
  using unat_u32_less [of "a_lo s"] unfolding top_bit_u32 aN_def cat64_def by linarith

lemma divu_shift_N:
  "quotN (divu_shift s) = 2 * quotN s mod 18446744073709551616"
  "tempN (divu_shift s) = (2 * tempN s + of_bool (9223372036854775808 \<le> aN s)) mod 18446744073709551616"
  "aN (divu_shift s) = 2 * aN s mod 18446744073709551616"
  using cat64_shift [of "quot_hi s" "quot_lo s" False]
    cat64_shift [of "temp_hi s" "temp_lo s" "a_hi s AND 0x80000000 \<noteq> 0"]
    cat64_shift [of "a_hi s" "a_lo s" False]
  by (simp_all only: quotN_def tempN_def aN_top aN_def divu_shift_def divu_state.simps)
     (simp_all add: quotN_def tempN_def aN_def)
lemma unat_or_1:
  assumes "even (unat (x :: u32))"
  shows "unat (x OR 1) = unat x + 1"
proof -
  have "x OR 1 = x + 1"
    using assms by (simp add: or_one_eq even_unat_iff)
  moreover have "unat x \<noteq> 4294967295" using assms by auto
  then have "unat (x + 1) = unat x + 1"
    using unat_u32_less [of x] by (simp add: unat_add_u32)
  ultimately show ?thesis by simp
qed

lemma divu_step_N:
  assumes "0 < unat b" "unat b \<le> 2147483648" "tempN s < unat b"
    and "quotN s < 9223372036854775808"
  defines "T \<equiv> 2 * tempN s + of_bool (9223372036854775808 \<le> aN s)"
  shows "aN (divu_step 0 b s) = 2 * aN s mod 18446744073709551616"
    and "unat b \<le> T \<Longrightarrow> quotN (divu_step 0 b s) = 2 * quotN s + 1 \<and> tempN (divu_step 0 b s) = T - unat b"
    and "\<not> unat b \<le> T \<Longrightarrow> quotN (divu_step 0 b s) = 2 * quotN s \<and> tempN (divu_step 0 b s) = T"
proof -
  have "T < 4294967296" using assms by (simp add: T_def of_bool_def)
  then have T: "tempN (divu_shift s) = T"
    by (simp add: divu_shift_N T_def)
  with \<open>T < 4294967296\<close> have hi: "temp_hi (divu_shift s) = 0" and lo: "unat (temp_lo (divu_shift s)) = T"
    unfolding tempN_def cat64_def by (auto simp: unat_eq_0 [symmetric])
  have Q: "quotN (divu_shift s) = 2 * quotN s" using assms(4) by (simp add: divu_shift_N)
  have ev: "even (unat (quot_lo (divu_shift s)))"
    by (simp add: divu_shift_def even_unat_iff)
  have A: "aN (divu_shift s) = 2 * aN s mod 18446744073709551616" by (simp add: divu_shift_N)
  show "aN (divu_step 0 b s) = 2 * aN s mod 18446744073709551616"
    using A by (simp add: divu_step_def Let_def aN_def)
  show "quotN (divu_step 0 b s) = 2 * quotN s + 1 \<and> tempN (divu_step 0 b s) = T - unat b" if "unat b \<le> T"
  proof -
    have "b \<le> temp_lo (divu_shift s)" using that lo by (simp add: word_le_nat_alt)
    then show ?thesis
      using hi lo Q unat_or_1 [OF ev] unat_sub [OF \<open>b \<le> temp_lo (divu_shift s)\<close>]
      by (simp add: divu_step_def Let_def quotN_def tempN_def cat64_def)
  qed
  show "quotN (divu_step 0 b s) = 2 * quotN s \<and> tempN (divu_step 0 b s) = T" if "\<not> unat b \<le> T"
  proof -
    have "\<not> b \<le> temp_lo (divu_shift s)" using that lo by (simp add: word_le_nat_alt)
    then show ?thesis
      using hi Q T by (simp add: divu_step_def Let_def)
  qed
qed

declare divu_loop.simps [simp del]

lemma divu_loop_correct:
  assumes "0 < unat b" "unat b \<le> 2147483648" "tempN s < unat b" "R < 2 ^ k"
    and "aN s * 2 ^ k = R * 18446744073709551616"
    and "(quotN s * unat b + tempN s) * 2 ^ k + R = A" "A < 18446744073709551616"
  shows "quotN (divu_loop k 0 b s) * unat b + tempN (divu_loop k 0 b s) = A
    \<and> tempN (divu_loop k 0 b s) < unat b"
  using assms(3-6)
proof (induction k arbitrary: s R)
  case 0
  then show ?case by (simp add: divu_loop.simps)
next
  case (Suc k)
  define top :: nat where "top = of_bool (9223372036854775808 \<le> aN s)"
  define T where "T = 2 * tempN s + top"
  define P :: nat where "P = 2 ^ k"
  define s' where "s' = divu_step 0 b s"
  have P: "0 < P" by (simp add: P_def)
  have a: "aN s * P = R * 9223372036854775808" using Suc.prems(3) by (simp add: P_def)
  have aN: "aN s < 18446744073709551616" by (simp add: aN_def cat64_less)
  have top_iff: "9223372036854775808 \<le> aN s \<longleftrightarrow> P \<le> R"
    using a P mult_le_cancel2 [of 9223372036854775808 P "aN s"] by (simp add: mult.commute)
  then have top: "top * P \<le> R" "R - top * P < P"
    using Suc.prems(2) by (auto simp: top_def P_def)
  have A: "(quotN s * unat b + tempN s) * 2 * P + R = A" using Suc.prems(4) by (simp add: P_def algebra_simps)
  have "quotN s * 2 * 1 * 1 \<le> quotN s * 2 * unat b * P"
    using P assms(1) by (intro mult_le_mono) auto
  also have "\<dots> \<le> A" using A by (auto simp: algebra_simps)
  finally have q: "quotN s < 9223372036854775808" using assms(7) by simp
  note step = divu_step_N [OF assms(1,2) Suc.prems(1) q, folded top_def, folded T_def, folded s'_def]
  have t': "tempN s' < unat b"
    using step(2,3) Suc.prems(1) by (cases "unat b \<le> T") (auto simp: T_def top_def of_bool_def)
  have qt: "quotN s' * unat b + tempN s' = 2 * (quotN s * unat b + tempN s) + top"
    using step(2,3) by (cases "unat b \<le> T") (auto simp: T_def algebra_simps)
  have "2 * aN s mod 18446744073709551616 = 2 * aN s - top * 18446744073709551616"
    using aN by (cases "9223372036854775808 \<le> aN s") (simp_all add: top_def le_mod_geq)
  then have a': "aN s' * P = (R - top * P) * 18446744073709551616"
    using a step(1) by (simp add: diff_mult_distrib algebra_simps)
  have A': "(quotN s' * unat b + tempN s') * P + (R - top * P) = A"
    using A top(1) unfolding qt by (simp add: algebra_simps)
  show ?case
    using Suc.IH [of s' "R - top * P", folded P_def, OF t' top(2) a' A']
    by (simp add: divu_loop.simps s'_def)
qed

lemma cat64_halves:
  assumes "wf64 a"
  shows "cat64 (hi_half a) (lo_half a) = uval a"
proof -
  have h: "unat (push_bit 16 (ucast x) + ucast y :: u32) = unat x * 65536 + unat y" for x y :: u16
    using unat_u16_less [of x] unat_u16_less [of y]
    by (simp add: push_bit_eq_mult unat_word_ariths)
  show ?thesis using assms
    by (elim wf64_cases) (simp add: cat64_def hi_half_def lo_half_def h uval_lit)
qed

lemma wf64_from_halves [simp]: "wf64 (from_halves hi lo)"
  by (simp add: from_halves_def)

lemma uval_from_halves: "uval (from_halves hi lo) = cat64 hi lo"
proof -
  have "unat hi div 65536 < 65536" "unat lo div 65536 < 65536"
    using unat_u32_less [of hi] unat_u32_less [of lo] by auto
  then show ?thesis
    by (simp add: from_halves_def uval_lit cat64_def unat_ucast_32_16 unat_drop_bit_div)
qed

lemma divu_correct:
  assumes "wf64 a" "wf64 b" "0 < uval b" "uval b \<le> 2147483648"
  shows "wf64 (quotient (int_64_divu a b)) \<and> wf64 (remainder (int_64_divu a b)) \<and>
    uval (quotient (int_64_divu a b)) = uval a div uval b \<and>
    uval (remainder (int_64_divu a b)) = uval a mod uval b"
proof -
  have "cat64 (hi_half b) (lo_half b) = uval b" using assms(2) by (rule cat64_halves)
  then have sum: "unat (hi_half b) * 4294967296 + unat (lo_half b) = uval b" by (simp add: cat64_def)
  then have "unat (hi_half b) < 1" using assms(4) by linarith
  with sum have hi: "hi_half b = 0" and lo: "unat (lo_half b) = uval b" by (simp_all add: unat_eq_0)
  define s0 where "s0 = \<lparr>quot_hi = 0, quot_lo = 0, temp_hi = 0, temp_lo = 0,
                 a_hi = hi_half a, a_lo = lo_half a\<rparr>"
  define s where "s = divu_loop 64 0 (lo_half b) s0"
  have "aN s0 = uval a" "quotN s0 = 0" "tempN s0 = 0"
    using assms(1) by (simp_all add: s0_def aN_def quotN_def tempN_def cat64_halves) (simp_all add: cat64_def)
  then have *: "quotN s * uval b + tempN s = uval a \<and> tempN s < uval b"
    using divu_loop_correct [of "lo_half b" s0 "uval a" 64 "uval a"] lo assms uval_less [OF assms(1)]
    by (simp add: s_def)
  have "uval a div uval b = quotN s \<and> uval a mod uval b = tempN s"
    using * by (metis div_mult_self3 div_less add.right_neutral mod_mult_self3 mod_less not_less0)
  moreover have "quotient (int_64_divu a b) = from_halves (quot_hi s) (quot_lo s)"
      "remainder (int_64_divu a b) = from_halves (temp_hi s) (temp_lo s)"
    by (simp_all add: int_64_divu_def Let_def hi s_def s0_def)
  ultimately show ?thesis by (simp add: uval_from_halves quotN_def tempN_def)
qed

section \<open>Signed readings\<close>

lemma unat_abs:
  "unat (if sint (w :: 64 word) < 0 then - w else w) = nat \<bar>sint w\<bar>"
proof -
  have ge: "- 9223372036854775808 \<le> sint w" and lt: "sint w < 9223372036854775808"
    using sint_greater_eq [of w] sint_less [of w] by simp_all
  show ?thesis
  proof (cases "sint w < 0")
    case True
    have "- w = of_int (- sint w)" by simp
    then have "uint (- w) = - sint w mod 18446744073709551616"
      by (simp only: uint_word_of_int) simp
    also have "\<dots> = - sint w"
      using True ge by (intro mod_pos_pos_trivial) auto
    finally show ?thesis using True by (simp add: unat_eq_nat_uint)
  next
    case False
    have "uint (of_int (sint w) :: 64 word) = sint w mod 18446744073709551616"
      by (simp only: uint_word_of_int) simp
    then have "uint w = sint w mod 18446744073709551616" by simp
    also have "\<dots> = sint w"
      using False lt by (intro mod_pos_pos_trivial) auto
    finally show ?thesis using False by (simp add: unat_eq_nat_uint)
  qed
qed

lemma uval_abs:
  assumes "wf64 a"
  shows "uval (if int_64_neg_q a then int_64_neg a else a) = nat \<bar>sint (i64 a)\<bar>"
  using unat_abs [of "i64 a"] assms
  by (simp add: neg_q_iff unat_i64 [symmetric] i64_neg split: if_splits)

lemma div_correct:
  assumes "wf64 a" "wf64 b" "sint (i64 b) \<noteq> 0" "\<bar>sint (i64 b)\<bar> \<le> 2147483648"
  shows "wf64 (quotient (int_64_div a b)) \<and> wf64 (remainder (int_64_div a b)) \<and>
    i64 (quotient (int_64_div a b)) = of_int (sint (i64 a) sdiv sint (i64 b)) \<and>
    i64 (remainder (int_64_div a b)) = of_int (sint (i64 a) smod sint (i64 b))"
proof -
  define x y where "x = sint (i64 a)" and "y = sint (i64 b)"
  define a' where "a' = (if int_64_neg_q a then int_64_neg a else a)"
  define b' where "b' = (if int_64_neg_q b then int_64_neg b else b)"
  define r where "r = int_64_divu a' b'"
  have wf: "wf64 a'" "wf64 b'" using assms by (simp_all add: a'_def b'_def)
  have ua: "uval a' = nat \<bar>x\<bar>" and ub: "uval b' = nat \<bar>y\<bar>"
    using assms by (simp_all only: a'_def b'_def x_def y_def uval_abs)
  have r: "wf64 (quotient r)" "wf64 (remainder r)"
      "uval (quotient r) = nat (\<bar>x\<bar> div \<bar>y\<bar>)" "uval (remainder r) = nat (\<bar>x\<bar> mod \<bar>y\<bar>)"
    using divu_correct [OF wf] assms(3,4) unfolding r_def ua ub y_def [symmetric]
    by (auto simp: nat_div_distrib nat_mod_distrib)
  have q: "i64 (quotient r) = of_int (\<bar>x\<bar> div \<bar>y\<bar>)" "i64 (remainder r) = of_int (\<bar>x\<bar> mod \<bar>y\<bar>)"
    using r assms(3) by (simp_all add: i64_uval y_def pos_imp_zdiv_nonneg_iff)
  have na: "int_64_neg_q a \<longleftrightarrow> x < 0" and nb: "int_64_neg_q b \<longleftrightarrow> y < 0"
    using assms by (simp_all add: neg_q_iff x_def y_def)
  have quo: "quotient (int_64_div a b) = (if (x < 0) \<noteq> (y < 0) then int_64_neg (quotient r) else quotient r)"
      and rem: "remainder (int_64_div a b) = (if x < 0 then int_64_neg (remainder r) else remainder r)"
    unfolding int_64_div_def Let_def a'_def [symmetric] b'_def [symmetric] r_def [symmetric]
    by (simp_all add: na nb)
  show ?thesis
    unfolding quo rem using r(1,2) q assms(3)
    by (auto simp: i64_neg signed_divide_int_def signed_modulo_int_def sgn_if x_def [symmetric] y_def [symmetric])
qed

lemma modulo_correct:
  assumes "wf64 a" "wf64 b" "sint (i64 b) \<noteq> 0" "\<bar>sint (i64 b)\<bar> \<le> 2147483648"
  shows "wf64 (int_64_modulo a b) \<and>
    i64 (int_64_modulo a b) = of_int (sint (i64 a) mod sint (i64 b))"
proof -
  define x y where "x = sint (i64 a)" and "y = sint (i64 b)"
  define a' where "a' = (if int_64_neg_q a then int_64_neg a else a)"
  define b' where "b' = (if int_64_neg_q b then int_64_neg b else b)"
  define r where "r = remainder (int_64_divu a' b')"
  have wf: "wf64 a'" "wf64 b'" using assms by (simp_all add: a'_def b'_def)
  have ua: "uval a' = nat \<bar>x\<bar>" and ub: "uval b' = nat \<bar>y\<bar>"
    using assms by (simp_all only: a'_def b'_def x_def y_def uval_abs)
  have r: "wf64 r" "uval r = nat (\<bar>x\<bar> mod \<bar>y\<bar>)"
    using divu_correct [OF wf] assms(3,4) unfolding r_def ua ub y_def [symmetric]
    by (auto simp: nat_div_distrib nat_mod_distrib)
  have q: "i64 r = of_int (\<bar>x\<bar> mod \<bar>y\<bar>)"
    using r assms(3) by (simp add: i64_uval y_def)
  have na: "int_64_neg_q a \<longleftrightarrow> x < 0" and nb: "int_64_neg_q b \<longleftrightarrow> y < 0"
    using assms by (simp_all add: neg_q_iff x_def y_def)
  have "int_64_zero_q r \<longleftrightarrow> uval r = 0"
    using r(1) by (simp add: zero_q_iff unat_i64 [symmetric] unat_eq_zero)
  then have z: "int_64_zero_q r \<longleftrightarrow> \<bar>x\<bar> mod \<bar>y\<bar> = 0"
    using r(2) assms(3) pos_mod_sign [of "\<bar>y\<bar>" "\<bar>x\<bar>"] by (auto simp: y_def nat_eq_iff)
  have y: "i64 b = of_int y" by (simp add: y_def)
  have "i64 (int_64_modulo a b) = of_int (if \<bar>x\<bar> mod \<bar>y\<bar> = 0 then \<bar>x\<bar> mod \<bar>y\<bar>
      else if x < 0 then if y < 0 then - (\<bar>x\<bar> mod \<bar>y\<bar>) else y - \<bar>x\<bar> mod \<bar>y\<bar>
      else if y < 0 then y + \<bar>x\<bar> mod \<bar>y\<bar> else \<bar>x\<bar> mod \<bar>y\<bar>)"
    unfolding int_64_modulo_def Let_def a'_def [symmetric] b'_def [symmetric] r_def [symmetric]
    using r(1) assms(1,2) by (simp add: na nb z q y i64_neg i64_sub i64_add)
  also have "\<dots> = of_int (x mod y)"
    using zmod_zminus1_eq_if [of "\<bar>x\<bar>" "\<bar>y\<bar>"] zmod_zminus2_eq_if [of "\<bar>x\<bar>" "\<bar>y\<bar>"]
      mod_minus_minus [of "\<bar>x\<bar>" "\<bar>y\<bar>"]
    by (intro arg_cong [of _ _ of_int]) (auto simp: abs_if split: if_splits)
  finally show ?thesis
    using r(1) assms(2) unfolding int_64_modulo_def Let_def a'_def [symmetric] b'_def [symmetric] r_def [symmetric]
    by (auto simp: x_def y_def)
qed

section \<open>Properties\<close>

text \<open>C5: addition, subtraction, negation, multiplication and the bitwise operations on digit arrays
  are the operations on 64-bit words, carries and borrows across digits included, and keep the
  array of four digits.\<close>

lemma int64_word_ops:
  assumes "wf64 a" "wf64 b"
  shows "wf64 (int_64_add a b) \<and> i64 (int_64_add a b) = i64 a + i64 b \<and>
    wf64 (int_64_sub a b) \<and> i64 (int_64_sub a b) = i64 a - i64 b \<and>
    wf64 (int_64_neg a) \<and> i64 (int_64_neg a) = - i64 a \<and>
    wf64 (int_64_mul a b) \<and> i64 (int_64_mul a b) = i64 a * i64 b \<and>
    i64 (int_64_and a b) = (i64 a AND i64 b) \<and> i64 (int_64_or a b) = (i64 a OR i64 b) \<and>
    i64 (int_64_xor a b) = (i64 a XOR i64 b) \<and> i64 (int_64_not a) = NOT (i64 a)"
  using assms by (simp add: i64_add i64_sub i64_neg mul_correct i64_bitops)

lemma int64_word_ops_witness:
  "i64 (int_64_mul \<lparr>digits = [0, 0, 1, 2]\<rparr> \<lparr>digits = [0, 0, 0, 3]\<rparr>) = 196614"
  using int64_word_ops [of "\<lparr>digits = [0, 0, 1, 2]\<rparr>" "\<lparr>digits = [0, 0, 0, 3]\<rparr>"]
  by (simp add: i64_uval uval_lit)

text \<open>C35: the shifts by less than 64 places are the shifts of the 64-bit word, the right shifts filling
  with zeros or with the sign; right shifts by 80 and more store outside the digit array.\<close>

lemma int64_shifts:
  assumes "wf64 a" "b < 64"
  shows "map_option i64 (int_64_lshr a b) = Some (drop_bit b (i64 a)) \<and>
    map_option i64 (int_64_ashr a b) = Some (signed_drop_bit b (i64 a)) \<and>
    i64 (int_64_shl a b) = push_bit b (i64 a) \<and>
    (int_64_lshr a n = None) = (80 \<le> n) \<and> (int_64_ashr a n = None) = (80 \<le> n)"
proof -
  have "4 < n div 16 \<longleftrightarrow> 80 \<le> n" by linarith
  then have "(int_64_lshr a n = None) = (80 \<le> n)" "(int_64_ashr a n = None) = (80 \<le> n)"
    by (simp_all add: int_64_lshr_def int_64_ashr_def Let_def)
  then show ?thesis
    using i64_lshr [OF assms] i64_ashr [OF assms] i64_shl [OF assms(1)] by auto
qed

lemma int64_shifts_witness:
  "map_option i64 (int_64_ashr \<lparr>digits = [0x8000, 0, 0, 0]\<rparr> 63) = Some (- 1)"
  using int64_shifts [of "\<lparr>digits = [0x8000, 0, 0, 0]\<rparr>" 63]
  by (simp add: i64_uval uval_lit)

text \<open>C6: signed division for a divisor of magnitude at most \<open>2 ^ 31\<close>: the quotient and remainder are
  those of truncating division, the modulo that of flooring division.\<close>

lemma int64_division:
  assumes "wf64 a" "wf64 b" "sint (i64 b) \<noteq> 0" "\<bar>sint (i64 b)\<bar> \<le> 2 ^ 31"
  shows "i64 (int_64_quotient a b) = of_int (sint (i64 a) sdiv sint (i64 b)) \<and>
    i64 (int_64_remainder a b) = of_int (sint (i64 a) smod sint (i64 b)) \<and>
    i64 (int_64_modulo a b) = of_int (sint (i64 a) mod sint (i64 b))"
  using div_correct [of a b] modulo_correct [of a b] assms
  by (simp add: int_64_quotient_def int_64_remainder_def)

lemma int64_division_witness:
  "i64 (int_64_modulo (int_32_to_int_64 (- 13)) (int_32_to_int_64 4)) = 3 \<and>
   i64 (int_64_remainder (int_32_to_int_64 (- 13)) (int_32_to_int_64 4)) = - 1"
  using int64_division [of "int_32_to_int_64 (- 13)" "int_32_to_int_64 4"]
  by (simp add: i64_int_32 signed_modulo_int_def)

text \<open>Above that bound the division loop can go wrong: dividing \<open>2 ^ 32\<close> by \<open>2 ^ 32 - 1\<close> leaves a
  remainder greater than the divisor, since the borrow is added to the high word instead of
  subtracted from it.\<close>

lemma divu_borrow_wrong:
  "int_64_divu \<lparr>digits = [0, 1, 0, 0]\<rparr> \<lparr>digits = [0, 0, 0xFFFF, 0xFFFF]\<rparr> =
     \<lparr>quotient = \<lparr>digits = [0, 0, 0, 1]\<rparr>, remainder = \<lparr>digits = [0, 2, 0, 1]\<rparr>\<rparr>"
  by code_simp

end
