(* ===== verification/BaseMath.thy ===== *)
theory BaseMath
  imports LongDiv
begin

text \<open>
  Arithmetic of the basic number system on its exact integers: \<^verbatim>\<open>handc/runtime/basemath.c\<close>,
  the parts of \<^verbatim>\<open>longint.c\<close> that make objects, and the integer rows of the dispatch in
  \<^verbatim>\<open>numtower.ci\<close>, with \<^verbatim>\<open>FULL_NUMERIC_TOWER\<close> set.  An integer is a fixnum (a tagged word), a
  boxed \<^verbatim>\<open>INT_64\<close>, or a bignum.  Bignums belong to GMP, which is not in the repository: its
  functions are the fields of a record \<open>G\<close> that the operations take, and \<open>gmp_spec\<close> states
  their documented behaviour.  \<open>int_mul\<close> is read for a little-endian host.  Floats, rationals
  and complex numbers are not modelled.
\<close>

unbundle bit_operations_syntax

section \<open>Objects and GMP\<close>

datatype 'z obj = Imm u32 | Long_int INT_64 | Bignum 'z

record 'z gmp =
  mpz_set_si :: "u32 \<Rightarrow> 'z"
  mpz_set_ui :: "u32 \<Rightarrow> 'z"
  mpz_add :: "'z \<Rightarrow> 'z \<Rightarrow> 'z"
  mpz_sub :: "'z \<Rightarrow> 'z \<Rightarrow> 'z"
  mpz_mul :: "'z \<Rightarrow> 'z \<Rightarrow> 'z"
  mpz_ior :: "'z \<Rightarrow> 'z \<Rightarrow> 'z"
  mpz_mul_2exp :: "'z \<Rightarrow> nat \<Rightarrow> 'z"
  mpz_tdiv_q_2exp :: "'z \<Rightarrow> nat \<Rightarrow> 'z"
  mpz_get_ui :: "'z \<Rightarrow> u32"
  mpz_get_si :: "'z \<Rightarrow> u32"
  mpz_sgn :: "'z \<Rightarrow> int"
  mpz_cmp :: "'z \<Rightarrow> 'z \<Rightarrow> int"
  mpz_size :: "'z \<Rightarrow> nat"

text \<open>
  What the GMP manual says of these functions; \<open>val\<close> reads an \<^verbatim>\<open>mpz_t\<close> as the integer it
  holds, \<open>mpz_size\<close> is the number of 32-bit limbs (the absolute value of \<^verbatim>\<open>_mp_size\<close>).
\<close>

definition gmp_spec :: "'z gmp \<Rightarrow> ('z \<Rightarrow> int) \<Rightarrow> bool" where
  "gmp_spec G val \<longleftrightarrow>
     (\<forall>x. val (mpz_set_si G x) = sint x) \<and> (\<forall>x. val (mpz_set_ui G x) = uint x) \<and>
     (\<forall>y z. val (mpz_add G y z) = val y + val z) \<and>
     (\<forall>y z. val (mpz_sub G y z) = val y - val z) \<and>
     (\<forall>y z. val (mpz_mul G y z) = val y * val z) \<and>
     (\<forall>y z. val (mpz_ior G y z) = (val y OR val z)) \<and>
     (\<forall>z n. val (mpz_mul_2exp G z n) = val z * 2 ^ n) \<and>
     (\<forall>z n. val (mpz_tdiv_q_2exp G z n) = sgn (val z) * (\<bar>val z\<bar> div 2 ^ n)) \<and>
     (\<forall>z. mpz_get_ui G z = of_int \<bar>val z\<bar>) \<and>
     (\<forall>z. - (2 ^ 31) \<le> val z \<and> val z < 2 ^ 31 \<longrightarrow> mpz_get_si G z = of_int (val z)) \<and>
     (\<forall>z. sgn (mpz_sgn G z) = sgn (val z)) \<and>
     (\<forall>y z. sgn (mpz_cmp G y z) = sgn (val y - val z)) \<and>
     (\<forall>z n. mpz_size G z \<le> n \<longleftrightarrow> \<bar>val z\<bar> < 2 ^ (32 * n))"

section \<open>Objects from 64-bit integers\<close>

definition make_long_int :: "INT_64 \<Rightarrow> 'z obj" where
  "make_long_int a = Long_int a"

definition int_64_compact :: "INT_64 \<Rightarrow> 'z obj" where
  "int_64_compact a =
     (if int_64_fit_in_30_q a then Imm (int2fx (int_64_to_int_32 a)) else make_long_int a)"

definition uint_32_big :: "u32 \<Rightarrow> 'z obj" where
  "uint_32_big a =
     make_long_int \<lparr>digits = [0, 0, ucast (drop_bit 16 a AND 0xFFFF), ucast (a AND 0xFFFF)]\<rparr>"

definition int64_to_bignum :: "'z gmp \<Rightarrow> INT_64 \<Rightarrow> 'z" where
  "int64_to_bignum G a =
     (let p_hi = push_bit 16 (ucast (digits a ! 0)) OR ucast (digits a ! 1);
          p_lo = push_bit 16 (ucast (digits a ! 2)) OR ucast (digits a ! 3);
          z1 = mpz_set_si G p_hi;
          z2 = mpz_mul_2exp G z1 32
      in mpz_ior G (mpz_set_ui G p_lo) z2)"

definition int64_to_bignum_u :: "'z gmp \<Rightarrow> INT_64 \<Rightarrow> 'z" where
  "int64_to_bignum_u G a =
     (let p_hi = push_bit 16 (ucast (digits a ! 0)) OR ucast (digits a ! 1);
          p_lo = push_bit 16 (ucast (digits a ! 2)) OR ucast (digits a ! 3);
          z1 = mpz_set_ui G p_hi;
          z2 = mpz_mul_2exp G z1 32
      in mpz_ior G (mpz_set_ui G p_lo) z2)"

definition int_32_to_bignum :: "'z gmp \<Rightarrow> u32 \<Rightarrow> 'z" where
  "int_32_to_bignum G a = mpz_set_si G a"

definition int_32_to_bignum_u :: "'z gmp \<Rightarrow> u32 \<Rightarrow> 'z" where
  "int_32_to_bignum_u G a = mpz_set_ui G a"

definition fx_to_bignum :: "'z gmp \<Rightarrow> u32 \<Rightarrow> 'z" where
  "fx_to_bignum G x = int_32_to_bignum G (fx2int x)"

section \<open>Bignums\<close>

definition bignum_compact :: "'z gmp \<Rightarrow> 'z \<Rightarrow> 'z obj" where
  "bignum_compact G a =
     (if mpz_size G a > 64 div 32 then Bignum a
      else let c = (if mpz_size G a < 64 div 32 then 0 else mpz_get_ui G (mpz_tdiv_q_2exp G a 32))
           in if \<not> mpz_size G a < 64 div 32 \<and> mpz_sgn G a > 0 \<and> c AND push_bit 31 1 \<noteq> 0 then Bignum a
              else let l = mpz_get_ui G a;
                       b = \<lparr>digits = [ucast (drop_bit 16 c), ucast (c AND 0xFFFF),
                                      ucast (drop_bit 16 l), ucast (l AND 0xFFFF)]\<rparr>;
                       b = (if mpz_sgn G a < 0 then int_64_neg b else b)
                   in int_64_compact b)"

definition bignum_plus :: "'z gmp \<Rightarrow> 'z \<Rightarrow> 'z \<Rightarrow> 'z obj" where
  "bignum_plus G a b = bignum_compact G (mpz_add G a b)"

definition bignum_minus :: "'z gmp \<Rightarrow> 'z \<Rightarrow> 'z \<Rightarrow> 'z obj" where
  "bignum_minus G a b = bignum_compact G (mpz_sub G a b)"

definition bignum_mul :: "'z gmp \<Rightarrow> 'z \<Rightarrow> 'z \<Rightarrow> 'z obj" where
  "bignum_mul G a b = bignum_compact G (mpz_mul G a b)"

definition bignum_cmp :: "'z gmp \<Rightarrow> 'z \<Rightarrow> 'z \<Rightarrow> int" where
  "bignum_cmp G a b = mpz_cmp G a b"

definition bignum_shl :: "'z gmp \<Rightarrow> 'z \<Rightarrow> nat \<Rightarrow> 'z obj" where
  "bignum_shl G a b = bignum_compact G (mpz_mul_2exp G a b)"

definition bignum_shr :: "'z gmp \<Rightarrow> 'z \<Rightarrow> nat \<Rightarrow> 'z obj" where
  "bignum_shr G a b = bignum_compact G (mpz_tdiv_q_2exp G a b)"

definition min_machine_int :: "'z gmp \<Rightarrow> 'z" where
  "min_machine_int G = int_32_to_bignum G (push_bit 31 1)"

definition max_machine_int :: "'z gmp \<Rightarrow> 'z" where
  "max_machine_int G = int_32_to_bignum G (NOT (push_bit 31 1))"

definition bignum_fit_in_32 :: "'z gmp \<Rightarrow> 'z \<Rightarrow> bool" where
  "bignum_fit_in_32 G a \<longleftrightarrow>
     mpz_cmp G a (min_machine_int G) \<ge> 0 \<and> mpz_cmp G a (max_machine_int G) \<le> 0"

section \<open>Operations on machine integers (the raw values of fixnums)\<close>

definition HIGHBIT :: u32 where
  "HIGHBIT = push_bit 29 1"

definition int_plus :: "u32 \<Rightarrow> u32 \<Rightarrow> 'z obj" where
  "int_plus a b =
     (let c = a + b
      in if (NOT (a XOR b) AND (c XOR a)) AND HIGHBIT \<noteq> 0
         then int_64_compact (int_64_add (int_32_to_int_64 a) (int_32_to_int_64 b))
         else Imm (int2fx c))"

definition int_minus :: "u32 \<Rightarrow> u32 \<Rightarrow> 'z obj" where
  "int_minus a b =
     (let c = a - b
      in if (NOT (a XOR b) AND (c XOR a)) AND HIGHBIT \<noteq> 0
         then int_64_compact (int_64_sub (int_32_to_int_64 a) (int_32_to_int_64 b))
         else Imm (int2fx (a - b)))"

text \<open>
  \<^verbatim>\<open>int_mul\<close> without \<^verbatim>\<open>smul_ppmm\<close>: the union reads the \<^verbatim>\<open>long long\<close> product as two \<^verbatim>\<open>int\<close>s,
  and where the byte order is little-endian takes element 0 for the high one.
\<close>

definition int_mul :: "u32 \<Rightarrow> u32 \<Rightarrow> 'z obj" where
  "int_mul a b =
     (let i64 = scast a * scast b :: 64 word;
          i32_0 = ucast i64; i32_1 = ucast (drop_bit 32 i64);
          p_hi = i32_0 :: u32; p_lo = i32_1 :: u32;
          wide = int_64_compact (int_64_mul (int_32_to_int_64 a) (int_32_to_int_64 b))
      in if p_hi = 0 then (if sint p_lo < sint HIGHBIT then Imm (int2fx p_lo) else wide)
         else if p_hi = - 1 then (if sint p_lo \<ge> sint (- HIGHBIT) then Imm (int2fx p_lo) else wide)
         else wide)"

definition int_cmp :: "u32 \<Rightarrow> u32 \<Rightarrow> int" where
  "int_cmp a b = (if sint a < sint b then -1 else if sint a > sint b then 1 else 0)"

text \<open>C division truncates; \<^verbatim>\<open>MOD\<close> is the macro that \<^verbatim>\<open>cfg/mod.c\<close> writes for such a host.\<close>

definition int_quotient :: "u32 \<Rightarrow> u32 \<Rightarrow> 'z obj option" where
  "int_quotient a b = (if b = 0 then None else Some (Imm (int2fx (of_int (sint a sdiv sint b)))))"

definition int_remainder :: "u32 \<Rightarrow> u32 \<Rightarrow> 'z obj option" where
  "int_remainder a b = (if b = 0 then None else Some (Imm (int2fx (of_int (sint a smod sint b)))))"

definition MOD :: "int \<Rightarrow> int \<Rightarrow> int" where
  "MOD x y = (x smod y) + (if x < 0 then (if y < 0 then 0 else y) else (if y < 0 then y else 0))"

definition int_modulo :: "u32 \<Rightarrow> u32 \<Rightarrow> 'z obj option" where
  "int_modulo a b = (if b = 0 then None else Some (Imm (int2fx (of_int (MOD (sint a) (sint b))))))"

fun search_one_loop :: "nat \<Rightarrow> 'a::len word \<Rightarrow> int" where
  "search_one_loop 0 a = -1"
| "search_one_loop (Suc i) a = (if a AND push_bit i 1 \<noteq> 0 then int i else search_one_loop i a)"

definition search_one32 :: "u32 \<Rightarrow> int" where
  "search_one32 a = search_one_loop 32 a"

definition int_ashr :: "u32 \<Rightarrow> nat \<Rightarrow> 'z obj" where
  "int_ashr a b = Imm (int2fx (signed_drop_bit b a))"

definition int_lshr :: "u32 \<Rightarrow> nat \<Rightarrow> 'z obj" where
  "int_lshr a b = Imm (int2fx (drop_bit b a))"

definition int_ashl :: "'z gmp \<Rightarrow> u32 \<Rightarrow> nat \<Rightarrow> 'z obj" where
  "int_ashl G a b =
     (if a = 0 then Imm (int2fx 0)
      else let am = int b + search_one32 a
           in if b > 62 \<or> am > 62 then bignum_shl G (int_32_to_bignum G a) b
              else if am > 29 then int_64_compact (int_64_shl (int_32_to_int_64 a) b)
              else Imm (int2fx (push_bit b a)))"

definition int_lshl :: "'z gmp \<Rightarrow> u32 \<Rightarrow> nat \<Rightarrow> 'z obj" where
  "int_lshl G a b =
     (if a = 0 then Imm (int2fx 0)
      else let am = int b + search_one32 a
           in if b > 63 \<or> am > 63 then bignum_shl G (int_32_to_bignum_u G a) b
              else if am > 30 then int_64_compact (int_64_shl (int_32_to_int_64 a) b)
              else Imm (int2fx (push_bit b a)))"

section \<open>Operations on 64-bit integers\<close>

definition HI_TEST_64 :: "INT_64 \<Rightarrow> INT_64 \<Rightarrow> INT_64 \<Rightarrow> bool" where
  "HI_TEST_64 a b c \<longleftrightarrow>
     (NOT (digits a ! 0 XOR digits b ! 0) AND (digits c ! 0 XOR digits a ! 0)) AND 0x8000 \<noteq> 0"

definition long_plus :: "'z gmp \<Rightarrow> INT_64 \<Rightarrow> INT_64 \<Rightarrow> 'z obj" where
  "long_plus G a b =
     (let c = int_64_add a b
      in if HI_TEST_64 a b c then bignum_plus G (int64_to_bignum G a) (int64_to_bignum G b)
         else int_64_compact c)"

definition long_minus :: "'z gmp \<Rightarrow> INT_64 \<Rightarrow> INT_64 \<Rightarrow> 'z obj" where
  "long_minus G a b =
     (let c = int_64_sub a b
      in if HI_TEST_64 a b c then bignum_minus G (int64_to_bignum G a) (int64_to_bignum G b)
         else int_64_compact c)"

text \<open>The index of the highest bit set: the first digit that is not 0, then its highest bit.\<close>

fun first_digit :: "u16 list \<Rightarrow> nat \<Rightarrow> nat" where
  "first_digit [] m = m"
| "first_digit (d # ds) m = (if d \<noteq> 0 then m else first_digit ds (Suc m))"

definition search_one_sub :: "INT_64 \<Rightarrow> bool \<Rightarrow> int" where
  "search_one_sub a0 signed_p =
     (let a = (if signed_p \<and> int_64_neg_q a0 then int_64_neg a0 else a0);
          m = first_digit (digits a) 0
      in if m \<ge> 4 then -1
         else 16 * (3 - int m) + search_one_loop 16 (digits a ! m))"

definition long_mul :: "'z gmp \<Rightarrow> INT_64 \<Rightarrow> INT_64 \<Rightarrow> 'z obj" where
  "long_mul G a b =
     (let am = search_one_sub a True; bm = search_one_sub b True
      in if am < 0 \<or> bm < 0 then Imm ZERO
         else if am + bm \<le> 63 then int_64_compact (int_64_mul a b)
         else bignum_mul G (int64_to_bignum G a) (int64_to_bignum G b))"

definition long_quotient :: "INT_64 \<Rightarrow> INT_64 \<Rightarrow> 'z obj" where
  "long_quotient a b = int_64_compact (int_64_quotient a b)"

definition long_remainder :: "INT_64 \<Rightarrow> INT_64 \<Rightarrow> 'z obj" where
  "long_remainder a b = int_64_compact (int_64_remainder a b)"

definition long_modulo :: "INT_64 \<Rightarrow> INT_64 \<Rightarrow> 'z obj" where
  "long_modulo a b = int_64_compact (int_64_modulo a b)"

definition long_and :: "INT_64 \<Rightarrow> INT_64 \<Rightarrow> 'z obj" where
  "long_and a b = int_64_compact (int_64_and a b)"

definition long_or :: "INT_64 \<Rightarrow> INT_64 \<Rightarrow> 'z obj" where
  "long_or a b = int_64_compact (int_64_or a b)"

definition long_xor :: "INT_64 \<Rightarrow> INT_64 \<Rightarrow> 'z obj" where
  "long_xor a b = int_64_compact (int_64_xor a b)"

definition long_not :: "INT_64 \<Rightarrow> 'z obj" where
  "long_not a = int_64_compact (int_64_not a)"

definition long_ashr :: "INT_64 \<Rightarrow> nat \<Rightarrow> 'z obj option" where
  "long_ashr a b = map_option int_64_compact (int_64_ashr a b)"

definition long_lshr :: "INT_64 \<Rightarrow> nat \<Rightarrow> 'z obj option" where
  "long_lshr a b = map_option int_64_compact (int_64_lshr a b)"

definition long_ashl :: "'z gmp \<Rightarrow> INT_64 \<Rightarrow> nat \<Rightarrow> 'z obj" where
  "long_ashl G a b =
     (let am = search_one_sub a True
      in if am < 0 then Imm ZERO
         else if am + int b < 63 then int_64_compact (int_64_shl a b)
         else bignum_shl G (int64_to_bignum G a) b)"

definition long_lshl :: "'z gmp \<Rightarrow> INT_64 \<Rightarrow> nat \<Rightarrow> 'z obj" where
  "long_lshl G a b =
     (let am = search_one_sub a False
      in if am < 0 then Imm ZERO
         else if am + int b \<le> 63 then int_64_compact (int_64_shl a b)
         else bignum_shl G (int64_to_bignum_u G a) b)"

section \<open>The integer rows of the dispatch\<close>

definition fx2int64 :: "u32 \<Rightarrow> INT_64" where
  "fx2int64 x = int_32_to_int_64 (fx2int x)"

datatype 'z dispatch_error = Argument_not_basic "'z obj"

fun basic_integer :: "'z obj \<Rightarrow> bool" where
  "basic_integer (Imm x) = FIXNUM_P x"
| "basic_integer (Long_int x) = True"
| "basic_integer (Bignum x) = True"

text \<open>
  The rows all have one shape: the arguments are brought to the wider of their two
  representations (\<^verbatim>\<open>CALC\<close>) and the operation of that representation is called.
\<close>

fun calc :: "'z gmp \<Rightarrow> (u32 \<Rightarrow> u32 \<Rightarrow> 'r) \<Rightarrow> (INT_64 \<Rightarrow> INT_64 \<Rightarrow> 'r) \<Rightarrow> ('z \<Rightarrow> 'z \<Rightarrow> 'r)
    \<Rightarrow> 'z obj \<Rightarrow> 'z obj \<Rightarrow> 'r" where
  "calc G fi fl fb (Imm x) (Imm y) = fi (fx2int x) (fx2int y)"
| "calc G fi fl fb (Imm x) (Long_int y) = fl (fx2int64 x) y"
| "calc G fi fl fb (Imm x) (Bignum y) = fb (fx_to_bignum G x) y"
| "calc G fi fl fb (Long_int x) (Imm y) = fl x (fx2int64 y)"
| "calc G fi fl fb (Long_int x) (Long_int y) = fl x y"
| "calc G fi fl fb (Long_int x) (Bignum y) = fb (int64_to_bignum G x) y"
| "calc G fi fl fb (Bignum x) (Imm y) = fb x (fx_to_bignum G y)"
| "calc G fi fl fb (Bignum x) (Long_int y) = fb x (int64_to_bignum G y)"
| "calc G fi fl fb (Bignum x) (Bignum y) = fb x y"

definition dispatch :: "'z gmp \<Rightarrow> (u32 \<Rightarrow> u32 \<Rightarrow> 'r) \<Rightarrow> (INT_64 \<Rightarrow> INT_64 \<Rightarrow> 'r) \<Rightarrow> ('z \<Rightarrow> 'z \<Rightarrow> 'r)
    \<Rightarrow> 'z obj \<Rightarrow> 'z obj \<Rightarrow> 'z dispatch_error + 'r" where
  "dispatch G fi fl fb x y =
     (if \<not> basic_integer x then Inl (Argument_not_basic x)
      else if \<not> basic_integer y then Inl (Argument_not_basic y)
      else Inr (calc G fi fl fb x y))"

definition basic_plus :: "'z gmp \<Rightarrow> 'z obj \<Rightarrow> 'z obj \<Rightarrow> 'z dispatch_error + 'z obj" where
  "basic_plus G x y = dispatch G int_plus (long_plus G) (bignum_plus G) x y"

definition basic_minus :: "'z gmp \<Rightarrow> 'z obj \<Rightarrow> 'z obj \<Rightarrow> 'z dispatch_error + 'z obj" where
  "basic_minus G x y = dispatch G int_minus (long_minus G) (bignum_minus G) x y"

definition basic_mul :: "'z gmp \<Rightarrow> 'z obj \<Rightarrow> 'z obj \<Rightarrow> 'z dispatch_error + 'z obj" where
  "basic_mul G x y = dispatch G int_mul (long_mul G) (bignum_mul G) x y"

definition basic_cmp :: "'z gmp \<Rightarrow> 'z obj \<Rightarrow> 'z obj \<Rightarrow> 'z dispatch_error + int" where
  "basic_cmp G x y = dispatch G int_cmp int_64_cmp (bignum_cmp G) x y"

section \<open>Raw C integers from objects\<close>

datatype conv_error = Long_out_of_range | Bignum_out_of_range | Fixnum_negative | Bignum_negative
  | Not_exact_integer

definition basic_raw_int_conv :: "'z gmp \<Rightarrow> 'z obj \<Rightarrow> conv_error + u32" where
  "basic_raw_int_conv G a =
     (case a of
        Imm w \<Rightarrow> if FIXNUM_P w then Inr (fx2int w) else Inl Not_exact_integer
      | Long_int i \<Rightarrow> if int_64_fit_in_32_q i then Inr (int_64_to_int_32 i) else Inl Long_out_of_range
      | Bignum z \<Rightarrow> if bignum_fit_in_32 G z then Inr (mpz_get_si G z) else Inl Bignum_out_of_range)"

definition basic_raw_uint_conv :: "'z gmp \<Rightarrow> 'z obj \<Rightarrow> conv_error + u32" where
  "basic_raw_uint_conv G a =
     (case a of
        Imm w \<Rightarrow> if FIXNUM_P w then (if FX_LT w ZERO then Inl Fixnum_negative else Inr (fx2int w))
                 else Inl Not_exact_integer
      | Long_int p \<Rightarrow>
          if digits p ! 0 = 0 \<and> digits p ! 1 = 0
          then Inr (push_bit 16 (ucast (digits p ! 2)) + ucast (digits p ! 3))
          else Inl Long_out_of_range
      | Bignum z \<Rightarrow>
          if mpz_sgn G z < 0 then Inl Bignum_negative
          else if mpz_sgn G z = 0 then Inr 0
          else if mpz_cmp G z (mpz_set_ui G 0xFFFFFFFF) > 0 then Inl Bignum_out_of_range
          else Inr (mpz_get_ui G z))"

section \<open>Values\<close>

fun obj_val :: "('z \<Rightarrow> int) \<Rightarrow> 'z obj \<Rightarrow> int" where
  "obj_val val (Imm w) = sint (fx2int w)"
| "obj_val val (Long_int a) = sint (i64 a)"
| "obj_val val (Bignum z) = val z"

lemma sint_of_int_64: "- 9223372036854775808 \<le> k \<Longrightarrow> k < 9223372036854775808 \<Longrightarrow> sint (of_int k :: 64 word) = k"
  by (simp add: signed_of_int signed_take_bit_int_eq_self)

lemma sint_of_int_32: "- 2147483648 \<le> k \<Longrightarrow> k < 2147483648 \<Longrightarrow> sint (of_int k :: 32 word) = k"
  by (simp add: signed_of_int signed_take_bit_int_eq_self)

lemma compact_val:
  assumes "wf64 a"
  shows "obj_val val (int_64_compact a) = sint (i64 a)"
proof (cases "int_64_fit_in_30_q a")
  case True
  then have f: "fits_fixnum (sint (i64 a))" using assms by (simp add: fit_in_30_iff)
  have "ucast (i64 a) = (of_int (sint (i64 a)) :: u32)"
    by (rule bit_word_eqI) (simp del: of_int_sint add: bit_unsigned_iff bit_word_of_int_iff bit_sint_iff)
  then have "sint (ucast (i64 a) :: u32) = sint (i64 a)"
    using f by (simp only: fits_fixnum_def) (rule sint_of_int_32; simp)
  then show ?thesis using True assms f
    by (simp add: int_64_compact_def to_int_32 fx2int_int2fx)
next
  case False
  then show ?thesis by (simp add: int_64_compact_def make_long_int_def)
qed

lemma bit29_sum:
  assumes "- (2 ^ 30) \<le> sint (x :: u32)" "sint x < 2 ^ 30"
  shows "bit x 29 \<longleftrightarrow> (- (2 ^ 29) \<le> sint x \<and> sint x < 0) \<or> 2 ^ 29 \<le> sint x"
proof -
  have "bit x 29 \<longleftrightarrow> bit (sint x) 29" by (simp add: bit_sint_iff)
  also have "\<dots> \<longleftrightarrow> odd (sint x div 536870912)" by (simp add: bit_iff_odd)
  also have "\<dots> \<longleftrightarrow> (- (2 ^ 29) \<le> sint x \<and> sint x < 0) \<or> 2 ^ 29 \<le> sint x"
  proof -
    define q where "q = sint x div 536870912"
    have q: "q * 536870912 \<le> sint x" "sint x < q * 536870912 + 536870912"
      unfolding q_def by presburger+
    have "q = -2 \<or> q = -1 \<or> q = 0 \<or> q = 1" using q assms by auto
    then show ?thesis unfolding q_def [symmetric] using q by auto
  qed
  finally show ?thesis .
qed


lemma highbit: "x AND HIGHBIT \<noteq> 0 \<longleftrightarrow> bit x 29"
  using and_exp_eq_0_iff_not_bit [of x 29] by (simp add: HIGHBIT_def)

lemma overflow_test:
  "(NOT (a XOR b) AND (c XOR a)) AND HIGHBIT \<noteq> 0 \<longleftrightarrow>
     (bit (a :: u32) 29 = bit b 29) \<and> bit c 29 \<noteq> bit a 29"
  unfolding highbit by (auto simp: bit_and_iff bit_not_iff bit_xor_iff)

lemma sint_plus_32:
  assumes "- 2147483648 \<le> sint (a :: u32) + sint b" "sint a + sint b < 2147483648"
  shows "sint (a + b) = sint a + sint b"
proof -
  have "a + b = of_int (sint a + sint b)" by simp
  then show ?thesis using assms by (metis sint_of_int_32)
qed

lemma sint_minus_32:
  assumes "- 2147483648 \<le> sint (a :: u32) - sint b" "sint a - sint b < 2147483648"
  shows "sint (a - b) = sint a - sint b"
proof -
  have "a - b = of_int (sint a - sint b)" by simp
  then show ?thesis using assms by (metis sint_of_int_32)
qed

lemma sint_plus_64:
  assumes "- 9223372036854775808 \<le> sint (a :: 64 word) + sint b" "sint a + sint b < 9223372036854775808"
  shows "sint (a + b) = sint a + sint b"
proof -
  have "a + b = of_int (sint a + sint b)" by simp
  then show ?thesis using assms by (metis sint_of_int_64)
qed

lemma sint_minus_64:
  assumes "- 9223372036854775808 \<le> sint (a :: 64 word) - sint b" "sint a - sint b < 9223372036854775808"
  shows "sint (a - b) = sint a - sint b"
proof -
  have "a - b = of_int (sint a - sint b)" by simp
  then show ?thesis using assms by (metis sint_of_int_64)
qed

lemma sint_times_64:
  assumes "- 9223372036854775808 \<le> sint (a :: 64 word) * sint b" "sint a * sint b < 9223372036854775808"
  shows "sint (a * b) = sint a * sint b"
proof -
  have "a * b = of_int (sint a * sint b)" by simp
  then show ?thesis using assms by (metis sint_of_int_64)
qed

lemma sint_scast_64 [simp]: "sint (scast (x :: u32) :: 64 word) = sint x"
  using sint_u32_range [of x] sint_of_int_64 [of "sint x"] by simp

lemma fits_bounds: "fits_fixnum k \<Longrightarrow> - 536870912 \<le> k \<and> k < 536870912"
  by (simp add: fits_fixnum_def)

lemma int_plus_val:
  assumes "fits_fixnum (sint a)" "fits_fixnum (sint b)"
  shows "obj_val val (int_plus a b) = sint a + sint b"
proof -
  note r = fits_bounds [OF assms(1)] fits_bounds [OF assms(2)]
  have c: "sint (a + b) = sint a + sint b" using r by (intro sint_plus_32) auto
  have "\<not> (bit a 29 = bit b 29 \<and> bit (a + b) 29 \<noteq> bit a 29) \<Longrightarrow> fits_fixnum (sint a + sint b)"
    using r by (auto simp: bit29_sum c fits_fixnum_def)
  then show ?thesis
    using r c by (auto simp: int_plus_def Let_def overflow_test compact_val i64_add i64_int_32
        sint_plus_64 fx2int_int2fx)
qed

lemma int_minus_val:
  assumes "fits_fixnum (sint a)" "fits_fixnum (sint b)"
  shows "obj_val val (int_minus a b) = signed_take_bit 29 (sint a - sint b)"
proof -
  note r = fits_bounds [OF assms(1)] fits_bounds [OF assms(2)]
  have c: "sint (a - b) = sint a - sint b" using r by (intro sint_minus_32) auto
  have "bit a 29 = bit b 29 \<Longrightarrow> signed_take_bit 29 (sint a - sint b) = sint a - sint b"
    using r by (intro signed_take_bit_int_eq_self) (auto simp: bit29_sum)
  then show ?thesis
    using r c by (auto simp: int_minus_def Let_def overflow_test compact_val i64_sub i64_int_32
        sint_minus_64 sint_fx2int_int2fx)
qed

lemma int_mul_val:
  assumes "fits_fixnum (sint a)" "fits_fixnum (sint b)"
  defines "p \<equiv> sint a * sint b"
  shows "obj_val val (int_mul a b) =
    (if p mod 4294967296 = 0 \<or> p mod 4294967296 = 4294967295 then p div 4294967296 else p)"
proof -
  note r = fits_bounds [OF assms(1)] fits_bounds [OF assms(2)]
  have "\<bar>p\<bar> \<le> 536870912 * 536870912" unfolding p_def abs_mult
    using r by (intro mult_mono) auto
  then have p: "- 288230376151711744 \<le> p" "p \<le> 288230376151711744" by auto
  define w :: "64 word" where "w = scast a * scast b"
  have w: "w = of_int p" by (simp add: w_def p_def)
  have "ucast w = (of_int p :: u32)"
    by (rule bit_word_eqI) (simp add: w bit_unsigned_iff bit_word_of_int_iff)
  then have lo0: "uint (ucast w :: u32) = p mod 4294967296"
    by (simp add: uint_word_of_int)
  have "ucast (drop_bit 32 w) = (of_int (drop_bit 32 p) :: u32)"
    by (rule bit_word_eqI) (simp add: w bit_unsigned_iff bit_word_of_int_iff bit_drop_bit_eq)
  then have "ucast (drop_bit 32 w) = (of_int (p div 4294967296) :: u32)"
    by (simp add: drop_bit_eq_div)
  moreover have q: "- 67108864 \<le> p div 4294967296" "p div 4294967296 \<le> 67108864"
    using p div_mult_mod_eq [of p 4294967296] pos_mod_sign [of 4294967296 p] pos_mod_bound [of 4294967296 p]
    by linarith+
  ultimately have hi: "sint (ucast (drop_bit 32 w) :: u32) = p div 4294967296"
    by (simp only:) (rule sint_of_int_32; simp)
  have z: "(ucast w :: u32) = 0 \<longleftrightarrow> p mod 4294967296 = 0"
    using lo0 by (simp flip: uint_0_iff)
  have m: "(ucast w :: u32) = - 1 \<longleftrightarrow> p mod 4294967296 = 4294967295"
    using lo0 by (simp add: word_uint_eq_iff unsigned_minus_1_eq_mask mask_eq_exp_minus_1)
  have wide: "obj_val val (int_64_compact (int_64_mul (int_32_to_int_64 a) (int_32_to_int_64 b))) = p"
    using p by (simp add: compact_val mul_correct i64_int_32 p_def sint_times_64)
  have fx: "sint (fx2int (int2fx (ucast (drop_bit 32 w)))) = p div 4294967296"
    using q by (subst fx2int_int2fx) (simp_all add: hi fits_fixnum_def)
  have "sint HIGHBIT = 536870912" "sint (- HIGHBIT) = - 536870912"
    by (simp_all add: HIGHBIT_def)
  then show ?thesis
    using q unfolding int_mul_def Let_def w_def [symmetric] z m hi
    by (simp add: fx wide)
qed

section \<open>64-bit operations\<close>

lemma HI_TEST_64_sign:
  assumes "wf64 a" "wf64 b" "wf64 c"
  shows "HI_TEST_64 a b c \<longleftrightarrow>
    (sint (i64 a) < 0 \<longleftrightarrow> sint (i64 b) < 0) \<and> (sint (i64 c) < 0) \<noteq> (sint (i64 a) < 0)"
proof -
  have d: "bit (digits x ! 0) 15 \<longleftrightarrow> sint (i64 x) < 0" if "wf64 x" for x
    using that bit_digit [of x 0 15] by (simp add: bit63_sint)
  show ?thesis
    unfolding HI_TEST_64_def and_pow2_u16 using assms
    by (auto simp: bit_and_iff bit_xor_iff bit_not_iff d)
qed

lemma halves:
  assumes "wf64 a"
  shows "sint (push_bit 16 (ucast (digits a ! 0)) OR ucast (digits a ! 1) :: u32) = sint (i64 a) div 4294967296"
    and "uint (push_bit 16 (ucast (digits a ! 0)) OR ucast (digits a ! 1) :: u32) = uint (i64 a) div 4294967296"
    and "uint (push_bit 16 (ucast (digits a ! 2)) OR ucast (digits a ! 3) :: u32) = sint (i64 a) mod 4294967296"
    and "uint (push_bit 16 (ucast (digits a ! 2)) OR ucast (digits a ! 3) :: u32) = uint (i64 a) mod 4294967296"
proof -
  obtain d0 d1 d2 d3 where a: "a = \<lparr>digits = [d0, d1, d2, d3]\<rparr>"
    using assms by (rule wf64_cases)
  have or: "unat (push_bit 16 (ucast x) OR ucast y :: u32) = unat x * 65536 + unat y" for x y :: u16
  proof -
    have "push_bit 16 (ucast x) AND ucast y = (0 :: u32)"
      by (rule bit_word_eqI) (auto simp: bit_and_iff bit_push_bit_iff bit_ucast_iff dest: bit_imp_le_length)
    then have "push_bit 16 (ucast x) OR ucast y = (push_bit 16 (ucast x) + ucast y :: u32)"
      by (simp add: disjunctive_add_eq_or)
    then show ?thesis
      using unat_u16_less [of x] unat_u16_less [of y]
      by (simp add: push_bit_eq_mult unat_word_ariths)
  qed
  define h l where "h = unat d0 * 65536 + unat d1" and "l = unat d2 * 65536 + unat d3"
  have hl: "h < 4294967296" "l < 4294967296"
    using unat_u16_less [of d0] unat_u16_less [of d1] unat_u16_less [of d2] unat_u16_less [of d3]
    unfolding h_def l_def by linarith+
  have u: "uval a = h * 4294967296 + l"
    by (simp add: a uval_lit h_def l_def)
  have ui: "uint (i64 a) = int h * 4294967296 + int l"
    using unat_i64 [OF assms] u by (simp add: uint_nat)
  have si: "sint (i64 a) = (if h < 2147483648 then int h else int h - 4294967296) * 4294967296 + int l"
    using hl unfolding sint_uval [OF assms] u by (auto simp: algebra_simps)
  have H: "unat (push_bit 16 (ucast (digits a ! 0)) OR ucast (digits a ! 1) :: u32) = h"
    and L: "unat (push_bit 16 (ucast (digits a ! 2)) OR ucast (digits a ! 3) :: u32) = l"
    by (simp_all add: or a h_def l_def)
  have div_lin: "(x * 4294967296 + int l) div 4294967296 = x" "(x * 4294967296 + int l) mod 4294967296 = int l" for x
    using hl by simp_all
  show "sint (push_bit 16 (ucast (digits a ! 0)) OR ucast (digits a ! 1) :: u32) = sint (i64 a) div 4294967296"
    unfolding sint_u32 H si div_lin ..
  show "uint (push_bit 16 (ucast (digits a ! 0)) OR ucast (digits a ! 1) :: u32) = uint (i64 a) div 4294967296"
    unfolding uint_nat H ui [unfolded uint_nat] div_lin ..
  show "uint (push_bit 16 (ucast (digits a ! 2)) OR ucast (digits a ! 3) :: u32) = sint (i64 a) mod 4294967296"
    unfolding uint_nat L si div_lin ..
  show "uint (push_bit 16 (ucast (digits a ! 2)) OR ucast (digits a ! 3) :: u32) = uint (i64 a) mod 4294967296"
    unfolding uint_nat L ui [unfolded uint_nat] div_lin ..
qed

lemma or_low_high:
  assumes "0 \<le> l" "l < 4294967296"
  shows "(l :: int) OR (k * 4294967296) = k * 4294967296 + l"
proof -
  have "take_bit 32 l = l" using assms by (simp add: take_bit_int_eq_self_iff)
  then have b: "bit l n \<Longrightarrow> n < 32" for n by (metis bit_take_bit_iff)
  have "push_bit 32 k AND l = 0"
    by (rule bit_eqI) (auto simp: bit_and_iff bit_push_bit_iff dest: b)
  then have "push_bit 32 k + l = push_bit 32 k OR l" by (rule disjunctive_add_eq_or)
  then show ?thesis by (simp add: push_bit_eq_mult or.commute)
qed

lemma gmpD:
  assumes "gmp_spec G val"
  shows "val (mpz_set_si G x) = sint x" "val (mpz_set_ui G x) = uint x"
    "val (mpz_add G y z) = val y + val z" "val (mpz_sub G y z) = val y - val z"
    "val (mpz_mul G y z) = val y * val z" "val (mpz_ior G y z) = (val y OR val z)"
    "val (mpz_mul_2exp G z n) = val z * 2 ^ n"
    "val (mpz_tdiv_q_2exp G z n) = sgn (val z) * (\<bar>val z\<bar> div 2 ^ n)"
    "mpz_get_ui G z = of_int \<bar>val z\<bar>"
    "- (2 ^ 31) \<le> val z \<Longrightarrow> val z < 2 ^ 31 \<Longrightarrow> mpz_get_si G z = of_int (val z)"
    "sgn (mpz_sgn G z) = sgn (val z)" "sgn (mpz_cmp G y z) = sgn (val y - val z)"
    "mpz_size G z \<le> n \<longleftrightarrow> \<bar>val z\<bar> < 2 ^ (32 * n)"
  using assms by (simp_all add: gmp_spec_def)

lemma sgn_pos_iff: "sgn (x :: int) = sgn y \<Longrightarrow> (0 < x \<longleftrightarrow> 0 < y) \<and> (x < 0 \<longleftrightarrow> y < 0) \<and> (x = 0 \<longleftrightarrow> y = 0)"
  by (auto simp: sgn_if split: if_splits)

lemma int64_to_bignum_val:
  assumes "gmp_spec G val" "wf64 a"
  shows "val (int64_to_bignum G a) = sint (i64 a)" "val (int64_to_bignum_u G a) = uint (i64 a)"
proof -
  note d = int64_to_bignum_def int64_to_bignum_u_def Let_def gmpD [OF assms(1)]
  show "val (int64_to_bignum G a) = sint (i64 a)"
    unfolding d halves(1,3) [OF assms(2)] by (simp add: or_low_high)
  show "val (int64_to_bignum_u G a) = uint (i64 a)"
    unfolding d halves(2,4) [OF assms(2)] by (simp add: or_low_high)
qed

lemma unat_digit_mod: "unat (ucast (l AND 0xFFFF :: u32) :: u16) = unat l mod 65536"
  by (simp add: unat_ucast_32_16 unat_and_mask16)

lemma unat_digit_div: "unat (ucast (drop_bit 16 l :: u32) :: u16) = unat l div 65536"
proof -
  have "unat l div 65536 < 65536" using unat_u32_less [of l] by auto
  then show ?thesis by (simp add: unat_ucast_32_16 unat_drop_bit_div)
qed

text \<open>
  What \<^verbatim>\<open>bignum_compact\<close> makes of a value: between \<open>- 2 ^ 64\<close> and \<open>- 2 ^ 63\<close> the magnitude has 64 bits, and
  its negation as a 64-bit integer loses the sign.
\<close>

definition compact_gap :: "int \<Rightarrow> int" where
  "compact_gap v =
     (if - 18446744073709551616 < v \<and> v < - 9223372036854775808 then v + 18446744073709551616 else v)"

lemma bignum_compact_val:
  assumes G: "gmp_spec G val"
  shows "obj_val val (bignum_compact G z) = compact_gap (val z)"
proof (cases "\<bar>val z\<bar> < 18446744073709551616")
  case False
  then have "mpz_size G z > 2" using gmpD(13) [OF G, of z 2] by simp
  moreover have "\<not> (- 18446744073709551616 < val z \<and> val z < - 9223372036854775808)"
    using False by linarith
  ultimately show ?thesis by (simp add: bignum_compact_def compact_gap_def)
next
  case True
  define v where "v = val z"
  note sg = sgn_pos_iff [OF gmpD(11) [OF G, of z], folded v_def]
  have s2: "\<not> mpz_size G z > 2" using gmpD(13) [OF G, of z 2] True by simp
  have s1: "mpz_size G z < 2 \<longleftrightarrow> \<bar>v\<bar> < 4294967296" using gmpD(13) [OF G, of z 1] by (simp add: v_def less_Suc_eq_le numeral_2_eq_2)
  define c where "c = (if mpz_size G z < 2 then 0 else mpz_get_ui G (mpz_tdiv_q_2exp G z 32))"
  define l where "l = mpz_get_ui G z"
  define b where "b = \<lparr>digits = [ucast (drop_bit 16 c), ucast (c AND 0xFFFF),
                                      ucast (drop_bit 16 l), ucast (l AND 0xFFFF)]\<rparr>"
  have lt: "0 \<le> \<bar>v\<bar> div 4294967296" "\<bar>v\<bar> div 4294967296 < 4294967296"
    using True div_mult_mod_eq [of "\<bar>v\<bar>" 4294967296] pos_mod_bound [of 4294967296 "\<bar>v\<bar>"]
        pos_mod_sign [of 4294967296 "\<bar>v\<bar>"] unfolding v_def by linarith+
  have c: "uint c = \<bar>v\<bar> div 4294967296"
  proof (cases "mpz_size G z < 2")
    case True
    then show ?thesis using s1 by (simp add: c_def div_pos_pos_trivial)
  next
    case False
    then have "\<bar>sgn v * (\<bar>v\<bar> div 4294967296)\<bar> = \<bar>v\<bar> div 4294967296"
      using s1 lt by (auto simp: abs_mult abs_sgn_eq)
    then show ?thesis using False lt
      by (simp add: c_def gmpD(8,9) [OF G] v_def [symmetric] uint_word_of_int)
  qed
  have l: "uint l = \<bar>v\<bar> mod 4294967296"
    by (simp add: l_def gmpD(9) [OF G] v_def uint_word_of_int)
  have "uval b = unat c * 4294967296 + unat l"
  proof -
    have "uval b = (unat c * 65536 + unat l div 65536) * 65536 + unat l mod 65536"
      unfolding b_def uval_lit unat_digit_mod unat_digit_div by (simp only: div_mult_mod_eq)
    also have "\<dots> = unat c * 4294967296 + (unat l div 65536 * 65536 + unat l mod 65536)"
      unfolding distrib_right by simp
    finally show ?thesis by (simp only: div_mult_mod_eq)
  qed
  then have "int (uval b) = uint c * 4294967296 + uint l" by simp
  then have ub: "int (uval b) = \<bar>v\<bar>" unfolding c l by simp
  have wb: "wf64 b" by (simp add: b_def)
  have ib: "i64 b = of_int \<bar>v\<bar>" using ub i64_uval [OF wb] by (metis of_int_of_nat_eq)
  have top: "c AND push_bit 31 1 \<noteq> 0 \<longleftrightarrow> 9223372036854775808 \<le> \<bar>v\<bar>"
  proof -
    have "c AND push_bit 31 1 \<noteq> 0 \<longleftrightarrow> 2147483648 \<le> unat c"
      using and_exp_eq_0_iff_not_bit [of c 31] by (simp add: bit31_u32)
    also have "\<dots> \<longleftrightarrow> 2147483648 \<le> uint c" unfolding uint_nat by linarith
    also have "\<dots> \<longleftrightarrow> 9223372036854775808 \<le> \<bar>v\<bar>"
      unfolding c
      using div_mult_mod_eq [of "\<bar>v\<bar>" 4294967296] pos_mod_bound [of 4294967296 "\<bar>v\<bar>"]
        pos_mod_sign [of 4294967296 "\<bar>v\<bar>"] by linarith
    finally show ?thesis .
  qed
  have eq: "bignum_compact G z = (if 9223372036854775808 \<le> v then Bignum z
      else int_64_compact (if v < 0 then int_64_neg b else b))"
  proof -
    have "\<not> mpz_size G z < 64 div 32 \<and> mpz_sgn G z > 0 \<and> c AND push_bit 31 1 \<noteq> 0
        \<longleftrightarrow> 9223372036854775808 \<le> v"
      unfolding top using s1 sg by auto
    then show ?thesis
      using s2 sg c_def l_def b_def unfolding bignum_compact_def Let_def
      by (simp del: push_bit_of_1 push_bit_numeral)
  qed
  have "sint (i64 (if v < 0 then int_64_neg b else b)) = sint (of_int v :: 64 word)"
    using wb ib by (auto simp: i64_neg)
  moreover have "sint (of_int v :: 64 word) = v" if "- 9223372036854775808 \<le> v" "v < 9223372036854775808"
    using that by (rule sint_of_int_64)
  moreover have "sint (of_int v :: 64 word) = v + 18446744073709551616"
    if "v < - 9223372036854775808"
  proof -
    have "(of_int v :: 64 word) = of_int (v + 18446744073709551616)" by simp
    also have "sint \<dots> = v + 18446744073709551616"
      using that \<open>\<bar>val z\<bar> < 18446744073709551616\<close> by (intro sint_of_int_64) (simp_all add: v_def)
    finally show ?thesis .
  qed
  ultimately show ?thesis
    using wb \<open>\<bar>val z\<bar> < 18446744073709551616\<close> unfolding eq v_def [symmetric]
    by (auto simp: compact_val v_def compact_gap_def)
qed

lemma sint_64_range: "- 9223372036854775808 \<le> sint (x :: 64 word)" "sint (x :: 64 word) < 9223372036854775808"
  using sint_greater_eq [of x] sint_less [of x] by simp_all

lemma sint_plus_wrap:
  "sint (a + b :: 64 word) =
    (if sint a + sint b < - 9223372036854775808 then sint a + sint b + 18446744073709551616
     else if 9223372036854775808 \<le> sint a + sint b then sint a + sint b - 18446744073709551616
     else sint a + sint b)"
proof -
  define s where "s = sint a + sint b"
  have ab: "a + b = of_int s" "of_int s = (of_int (s + 18446744073709551616) :: 64 word)"
    "of_int s = (of_int (s - 18446744073709551616) :: 64 word)" by (simp_all add: s_def)
  have r: "- 18446744073709551616 \<le> s" "s < 18446744073709551616"
    using sint_64_range [of a] sint_64_range [of b] by (simp_all add: s_def)
  consider "s < - 9223372036854775808" | "9223372036854775808 \<le> s"
    | "- 9223372036854775808 \<le> s" "s < 9223372036854775808" by linarith
  then show ?thesis
  proof cases
    case 1
    then show ?thesis unfolding ab(1,2) s_def [symmetric] using r by (subst sint_of_int_64) simp_all
  next
    case 2
    then show ?thesis unfolding ab(1,3) s_def [symmetric] using r by (subst sint_of_int_64) simp_all
  next
    case 3
    then show ?thesis unfolding ab(1) s_def [symmetric] by (simp add: sint_of_int_64)
  qed
qed

lemma long_plus_val:
  assumes G: "gmp_spec G val" and wf: "wf64 a" "wf64 b"
  shows "obj_val val (long_plus G a b) = compact_gap (sint (i64 a) + sint (i64 b))"
proof -
  have t: "HI_TEST_64 a b (int_64_add a b) \<longleftrightarrow>
      sint (i64 a) + sint (i64 b) < - 9223372036854775808 \<or> 9223372036854775808 \<le> sint (i64 a) + sint (i64 b)"
    using wf sint_64_range [of "i64 a"] sint_64_range [of "i64 b"]
    by (auto simp: HI_TEST_64_sign i64_add sint_plus_wrap)
  then show ?thesis using wf
    by (auto simp: long_plus_def Let_def bignum_plus_def bignum_compact_val [OF G] gmpD [OF G]
        int64_to_bignum_val [OF G] compact_val i64_add sint_plus_wrap compact_gap_def)
qed

lemma sint_minus_signed_take_bit: "sint (a - b :: 64 word) = signed_take_bit 63 (sint a - sint b)"
proof -
  have "a - b = of_int (sint a - sint b)" by simp
  then have "sint (a - b) = sint (of_int (sint a - sint b) :: 64 word)" by (rule arg_cong)
  also have "\<dots> = signed_take_bit 63 (sint a - sint b)" unfolding signed_of_int by simp
  finally show ?thesis .
qed

lemma sint_times_signed_take_bit: "sint (a * b :: 64 word) = signed_take_bit 63 (sint a * sint b)"
proof -
  have "a * b = of_int (sint a * sint b)" by simp
  then have "sint (a * b) = sint (of_int (sint a * sint b) :: 64 word)" by (rule arg_cong)
  also have "\<dots> = signed_take_bit 63 (sint a * sint b)" unfolding signed_of_int by simp
  finally show ?thesis .
qed

lemma long_minus_val:
  assumes G: "gmp_spec G val" and wf: "wf64 a" "wf64 b"
  shows "obj_val val (long_minus G a b) = signed_take_bit 63 (sint (i64 a) - sint (i64 b))"
proof (cases "HI_TEST_64 a b (int_64_sub a b)")
  case True
  then have "(sint (i64 a) < 0) = (sint (i64 b) < 0)" using wf by (simp add: HI_TEST_64_sign)
  then have r: "- 9223372036854775808 \<le> sint (i64 a) - sint (i64 b)" "sint (i64 a) - sint (i64 b) < 9223372036854775808"
    using sint_64_range [of "i64 a"] sint_64_range [of "i64 b"] by linarith+
  then have "signed_take_bit 63 (sint (i64 a) - sint (i64 b)) = sint (i64 a) - sint (i64 b)"
    by (intro signed_take_bit_int_eq_self) simp_all
  then show ?thesis using True r wf
    by (simp add: long_minus_def Let_def bignum_minus_def bignum_compact_val [OF G] gmpD [OF G]
        int64_to_bignum_val [OF G] compact_gap_def)
next
  case False
  then show ?thesis using wf
    by (simp add: long_minus_def compact_val i64_sub sint_minus_signed_take_bit)
qed

end
