(* ===== verification/NumTower.thy ===== *)
theory NumTower
  imports BaseMath
begin

text \<open>
  What the arithmetic of \<^verbatim>\<open>BaseMath\<close> computes: the value of each operation on each pair of
  representations, for every GMP that behaves as documented, and the places where the value
  is not the mathematical one.
\<close>

unbundle bit_operations_syntax

section \<open>The highest bit\<close>

lemma search_one_loop_cases:
  "search_one_loop i a = -1 \<and> (\<forall>n<i. \<not> bit a n) \<or>
   (\<exists>k<i. search_one_loop i a = int k \<and> bit a k \<and> (\<forall>n<i. k < n \<longrightarrow> \<not> bit a n))"
proof (induction i)
  case (Suc i)
  then show ?case
    by (cases "bit a i") (auto simp: and_exp_eq_0_iff_not_bit less_Suc_eq)
qed simp

lemma unat_top_bit:
  assumes "bit (a :: 'a::len word) k" "\<forall>n>k. \<not> bit a n"
  shows "2 ^ k \<le> unat a \<and> unat a < 2 ^ Suc k"
proof
  have "take_bit (Suc k) a = a"
    using assms(2) by (intro bit_word_eqI) (auto simp: bit_take_bit_iff not_less_eq dest: )
  then have "unat a mod 2 ^ Suc k = unat a" by (metis unat_take_bit_mod)
  moreover have "unat a mod 2 ^ Suc k < 2 ^ Suc k" by (rule mod_less_divisor) simp
  ultimately show "unat a < 2 ^ Suc k" by (rule subst)
  show "2 ^ k \<le> unat a"
  proof (rule ccontr)
    assume "\<not> 2 ^ k \<le> unat a"
    then have "\<not> bit (unat a) k" by (simp add: bit_iff_odd)
    then show False using assms(1) by (simp add: bit_unsigned_iff)
  qed
qed

lemma search_one_loop_unat:
  fixes a :: "'a::len word"
  assumes "i = LENGTH('a)"
  shows "(a = 0 \<and> search_one_loop i a = -1) \<or>
    (\<exists>k<i. search_one_loop i a = int k \<and> 2 ^ k \<le> unat a \<and> unat a < 2 ^ Suc k)"
  using search_one_loop_cases [of i a]
proof (elim disjE conjE exE)
  assume "search_one_loop i a = -1" "\<forall>n<i. \<not> bit a n"
  moreover from this have "a = 0" using assms by (intro bit_word_eqI) simp
  ultimately show ?thesis by simp
next
  fix k assume k: "k < i" "search_one_loop i a = int k" "bit a k" "\<forall>n<i. k < n \<longrightarrow> \<not> bit a n"
  then have "\<forall>n>k. \<not> bit a n" using assms by (auto dest: bit_imp_le_length)
  from unat_top_bit [OF k(3) this] k show ?thesis by blast
qed

lemma search_one_sub_unsigned:
  assumes "wf64 a"
  shows "(uval a = 0 \<and> search_one_sub a False = -1) \<or>
    (\<exists>k<64. search_one_sub a False = int k \<and> 2 ^ k \<le> uval a \<and> uval a < 2 ^ Suc k)"
proof -
  obtain d0 d1 d2 d3 where a: "a = \<lparr>digits = [d0, d1, d2, d3]\<rparr>"
    using assms by (rule wf64_cases)
  have L: "\<exists>k<16. search_one_loop 16 d = int k \<and> 2 ^ k \<le> unat d \<and> unat d < 2 ^ Suc k" if "d \<noteq> 0" for d :: u16
    using search_one_loop_unat [of 16 d] that by auto
  have step: "\<exists>k<64. int (16 * j) + search_one_loop 16 d = int k \<and> 2 ^ k \<le> unat d * 2 ^ (16 * j) + r \<and>
      unat d * 2 ^ (16 * j) + r < 2 ^ Suc k"
    if "d \<noteq> 0" "j < 4" "r < 2 ^ (16 * j)" for d :: u16 and j r
  proof -
    from L [OF that(1)]
    obtain k where k: "k < 16" "search_one_loop 16 d = int k" "2 ^ k \<le> unat d" "unat d + 1 \<le> 2 ^ Suc k"
      by (auto simp: Suc_le_eq)
    have "2 ^ k * 2 ^ (16 * j) \<le> unat d * (2 ^ (16 * j) :: nat)" using k(3) by (rule mult_right_mono) simp
    moreover have "(unat d + 1) * 2 ^ (16 * j) \<le> 2 ^ Suc k * (2 ^ (16 * j) :: nat)"
      using k(4) by (rule mult_right_mono) simp
    ultimately have "2 ^ (16 * j + k) \<le> unat d * 2 ^ (16 * j) + r \<and> unat d * 2 ^ (16 * j) + r < 2 ^ Suc (16 * j + k)"
      using that(3) unfolding power_add power_Suc distrib_right by (simp only: mult.commute mult.left_commute) linarith
    then show ?thesis using k that(2) by (intro exI [of _ "16 * j + k"]) auto
  qed
  have r: "unat d2 * 65536 + unat d3 < 4294967296" "unat d1 * 4294967296 + unat d2 * 65536 + unat d3 < 281474976710656"
    using unat_u16_less [of d1] unat_u16_less [of d2] unat_u16_less [of d3] by linarith+
  consider "d0 \<noteq> 0" | "d0 = 0" "d1 \<noteq> 0" | "d0 = 0" "d1 = 0" "d2 \<noteq> 0" | "d0 = 0" "d1 = 0" "d2 = 0" "d3 \<noteq> 0"
    | "d0 = 0" "d1 = 0" "d2 = 0" "d3 = 0" by blast
  then show ?thesis
  proof cases
    case 1
    from step [OF 1, of 3 "unat d1 * 4294967296 + unat d2 * 65536 + unat d3"] r 1 show ?thesis
      by (simp add: search_one_sub_def a uval_lit algebra_simps)
  next
    case 2
    from step [OF 2(2), of 2 "unat d2 * 65536 + unat d3"] r 2 show ?thesis
      by (simp add: search_one_sub_def a uval_lit algebra_simps)
  next
    case 3
    from step [OF 3(3), of 1 "unat d3"] unat_u16_less [of d3] 3 show ?thesis
      by (simp add: search_one_sub_def a uval_lit algebra_simps)
  next
    case 4
    from step [OF 4(4), of 0 0] 4 show ?thesis
      by (simp add: search_one_sub_def a uval_lit algebra_simps)
  next
    case 5
    then show ?thesis by (simp add: search_one_sub_def a uval_lit)
  qed
qed

lemma search_one_sub_signed:
  assumes "wf64 a"
  shows "(sint (i64 a) = 0 \<and> search_one_sub a True = -1) \<or>
    (\<exists>k<64. search_one_sub a True = int k \<and> 2 ^ k \<le> \<bar>sint (i64 a)\<bar> \<and> \<bar>sint (i64 a)\<bar> < 2 ^ Suc k)"
proof -
  define a' where "a' = (if int_64_neg_q a then int_64_neg a else a)"
  have "search_one_sub a True = search_one_sub a' False"
    by (simp add: search_one_sub_def a'_def Let_def)
  moreover have "uval a' = nat \<bar>sint (i64 a)\<bar>" using assms unfolding a'_def by (rule uval_abs)
  moreover have "wf64 a'" using assms by (simp add: a'_def)
  ultimately show ?thesis
    using search_one_sub_unsigned [of a']
    by (auto simp: nat_eq_iff le_nat_iff nat_less_iff)
qed

lemma long_mul_val:
  assumes G: "gmp_spec G val" and wf: "wf64 a" "wf64 b"
  shows "obj_val val (long_mul G a b) =
    (if search_one_sub a True + search_one_sub b True \<le> 63
     then signed_take_bit 63 (sint (i64 a) * sint (i64 b)) else sint (i64 a) * sint (i64 b))"
  using search_one_sub_signed [OF wf(1)] search_one_sub_signed [OF wf(2)]
proof (elim disjE conjE exE)
  fix k l
  assume k: "search_one_sub a True = int k" "2 ^ k \<le> \<bar>sint (i64 a)\<bar>"
    and l: "search_one_sub b True = int l" "2 ^ l \<le> \<bar>sint (i64 b)\<bar>"
  show ?thesis
  proof (cases "k + l \<le> 63")
    case True
    then show ?thesis using wf k l
      by (simp add: long_mul_def compact_val mul_correct sint_times_signed_take_bit)
  next
    case False
    have "(2 :: int) ^ 64 \<le> 2 ^ (k + l)" using False by (intro power_increasing) auto
    also have "\<dots> \<le> \<bar>sint (i64 a) * sint (i64 b)\<bar>"
      unfolding power_add abs_mult using k l by (intro mult_mono) auto
    finally have "compact_gap (sint (i64 a) * sint (i64 b)) = sint (i64 a) * sint (i64 b)"
      by (auto simp: compact_gap_def)
    then show ?thesis using False wf k l
      by (simp add: long_mul_def bignum_mul_def bignum_compact_val [OF G] gmpD [OF G] int64_to_bignum_val [OF G])
  qed
qed (simp_all add: long_mul_def ZERO_def int2fx_def fx2int_def)

lemma long_mul_exact:
  assumes G: "gmp_spec G val" and wf: "wf64 a" "wf64 b"
    and big: "\<bar>sint (i64 a) * sint (i64 b)\<bar> < 2 ^ 63 \<or> 2 ^ 65 \<le> \<bar>sint (i64 a) * sint (i64 b)\<bar>"
  shows "obj_val val (long_mul G a b) = sint (i64 a) * sint (i64 b)"
proof (cases "\<bar>sint (i64 a) * sint (i64 b)\<bar> < 2 ^ 63")
  case True
  then have "signed_take_bit 63 (sint (i64 a) * sint (i64 b)) = sint (i64 a) * sint (i64 b)"
    by (intro signed_take_bit_int_eq_self) simp_all
  then show ?thesis by (simp add: long_mul_val [OF G wf])
next
  case False
  then have big: "2 ^ 65 \<le> \<bar>sint (i64 a) * sint (i64 b)\<bar>" using big by simp
  have "63 < search_one_sub a True + search_one_sub b True"
    using search_one_sub_signed [OF wf(1)] search_one_sub_signed [OF wf(2)]
  proof (elim disjE conjE exE)
    fix k l
    assume k: "search_one_sub a True = int k" "\<bar>sint (i64 a)\<bar> < 2 ^ Suc k"
      and l: "search_one_sub b True = int l" "\<bar>sint (i64 b)\<bar> < 2 ^ Suc l"
    have "\<bar>sint (i64 a) * sint (i64 b)\<bar> < 2 ^ Suc k * 2 ^ Suc l"
      unfolding abs_mult using k(2) l(2) by (intro mult_strict_mono') auto
    then have "(2 :: int) ^ 65 < 2 ^ (Suc k + Suc l)" using big unfolding power_add by linarith
    then have "65 < Suc k + Suc l" by (rule power_less_imp_less_exp [rotated]) simp
    then show ?thesis using k l by simp
  qed (use big in auto)
  then show ?thesis by (simp add: long_mul_val [OF G wf])
qed

section \<open>Left shift of a fixnum\<close>

lemma sint_push_bit_u32:
  assumes "0 \<le> sint (a :: u32)" "sint a * 2 ^ b < 2147483648"
  shows "sint (push_bit b a) = sint a * 2 ^ b"
proof -
  have eq: "push_bit b a = of_int (sint a * 2 ^ b)" by (simp add: push_bit_eq_mult)
  have "0 \<le> sint a * 2 ^ b" using assms(1) by simp
  then show ?thesis using assms(2) unfolding eq by (intro sint_of_int_32) linarith+
qed

lemma search_one32_nonneg:
  assumes "0 < sint a"
  shows "\<exists>k<31. search_one32 a = int k \<and> 2 ^ k \<le> sint a \<and> sint a < 2 ^ Suc k"
proof -
  have u: "int (unat a) = sint a" using assms unat_u32_less [of a] by (auto simp: sint_u32 simp del: of_nat_unat split: if_splits)
  have "a \<noteq> 0" using assms by auto
  then obtain k where k: "k < 32" "search_one32 a = int k" "2 ^ k \<le> unat a" "unat a < 2 ^ Suc k"
    using search_one_loop_unat [of 32 a] by (auto simp: search_one32_def)
  then have "(2::int) ^ k \<le> sint a" "sint a < 2 ^ Suc k" unfolding u [symmetric] by (auto simp del: of_nat_unat power_Suc)
  moreover have "k \<noteq> 31" using calculation sint_u32_range(2) [of a] by auto
  ultimately show ?thesis using k by (intro exI [of _ k]) auto
qed

lemma search_one32_neg: "sint a < 0 \<Longrightarrow> search_one32 a = 31"
  using search_one_loop.simps(2) [of 31 a] bit_last_iff [of a] and_exp_eq_0_iff_not_bit [of a 31]
  by (simp add: search_one32_def)

lemma i64_shl_int_32: "i64 (int_64_shl (int_32_to_int_64 a) b) = of_int (sint a * 2 ^ b)"
  by (simp add: i64_shl i64_int_32 push_bit_eq_mult)

lemma int_ashl_val:
  assumes G: "gmp_spec G val" and a: "fits_fixnum (sint a)"
  shows "obj_val val (int_ashl G a b) =
    (let p = sint a * 2 ^ b in if 2 ^ 29 \<le> p \<and> p < 2 ^ 30 then p - 2 ^ 30 else compact_gap p)"
proof -
  define p where "p = sint a * 2 ^ b"
  note r = fits_bounds [OF a]
  have shl: "sint (i64 (int_64_shl (int_32_to_int_64 a) b)) = p"
    if "- (2 ^ 63) \<le> p" "p < 2 ^ 63"
    unfolding i64_shl_int_32 p_def [symmetric] using that by (intro sint_of_int_64) simp_all
  have big: "obj_val val (bignum_shl G (int_32_to_bignum G a) b) = compact_gap p"
    by (simp add: bignum_shl_def bignum_compact_val [OF G] gmpD [OF G] int_32_to_bignum_def p_def)
  consider "sint a = 0" | "0 < sint a" | "sint a < 0" by linarith
  then have "obj_val val (int_ashl G a b) = (if 2 ^ 29 \<le> p \<and> p < 2 ^ 30 then p - 2 ^ 30 else compact_gap p)"
  proof cases
    case 1
    then have "of_int (sint a) = (0 :: u32)" by (simp only: of_int_0)
    then have "a = 0" by simp
    then show ?thesis by (simp add: int_ashl_def p_def compact_gap_def int2fx_def fx2int_def)
  next
    case 2
    then have a0: "a \<noteq> 0" by auto
    from search_one32_nonneg [OF 2] obtain k
      where k: "k < 31" "search_one32 a = int k" "2 ^ k \<le> sint a" "sint a < 2 ^ Suc k" by blast
    have p: "2 ^ (b + k) \<le> p" "p < 2 ^ Suc (b + k)"
      using k(3,4) by (simp_all add: p_def power_add mult.commute)
    have "0 \<le> p" by (rule order_trans [OF _ p(1)]) simp
    then have g: "compact_gap p = p" by (simp add: compact_gap_def)
    consider "b > 62 \<or> b + k > 62" | "b \<le> 62" "b + k \<le> 62" "b + k > 29" | "b + k \<le> 29" by linarith
    then show ?thesis
    proof cases
      case 1
      have "(2 :: int) ^ 30 \<le> 2 ^ (b + k)" using 1 by (intro power_increasing) auto
      then show ?thesis using 1 p(1) a0 k(2) big by (auto simp: int_ashl_def)
    next
      case 2
      have "(2 :: int) ^ 30 \<le> 2 ^ (b + k)" "(2 :: int) ^ Suc (b + k) \<le> 2 ^ 63"
        using 2 by (intro power_increasing; simp)+
      then have "2 ^ 30 \<le> p" "p < 2 ^ 63" using p by linarith+
      then show ?thesis using 2 a0 k(2) shl g by (simp add: int_ashl_def compact_val i64_shl)
    next
      case 3
      have "(2 :: int) ^ Suc (b + k) \<le> 2 ^ 30" using 3 by (intro power_increasing) auto
      then have p30: "0 \<le> p" "p < 2 ^ 30" using p zero_le_power [of "2 :: int" "b + k"] by linarith+
      have "sint (push_bit b a) = p" unfolding p_def
        using 2 p30 by (intro sint_push_bit_u32) (simp_all add: p_def)
      moreover have "signed_take_bit 29 p = (if 2 ^ 29 \<le> p then p - 2 ^ 30 else p)"
      proof (cases "2 ^ 29 \<le> p")
        case True
        have "p div 2 ^ 29 = 1" using True p30 by (intro int_div_pos_eq [of _ _ _ "p - 2 ^ 29"]) simp_all
        then have "bit p 29" by (simp add: bit_iff_odd)
        moreover have "take_bit 30 p = p" using p30 by (intro take_bit_int_eq_self) simp_all
        ultimately show ?thesis using True by (simp add: signed_take_bit_eq_take_bit_minus)
      next
        case False
        then show ?thesis using p30 by (simp add: signed_take_bit_int_eq_self)
      qed
      ultimately show ?thesis using 3 a0 k(2) p30 g by (simp add: int_ashl_def sint_fx2int_int2fx)
    qed
  next
    case 3
    then have s: "search_one32 a = 31" "a \<noteq> 0" using search_one32_neg by auto
    have "p \<le> 0" using 3 by (simp add: p_def mult_le_0_iff)
    then have small: "\<not> 2 ^ 29 \<le> p" by simp
    show ?thesis
    proof (cases "b \<le> 31")
      case True
      have "(2 :: int) ^ b \<le> 2 ^ 31" using True by (intro power_increasing) auto
      then have "(- sint a) * 2 ^ b \<le> 2 ^ 29 * 2 ^ 31" using r 3 by (intro mult_mono) auto
      then have "- (2 ^ 60) \<le> p" unfolding p_def by simp
      then show ?thesis using True s shl small \<open>p \<le> 0\<close>
        by (simp add: int_ashl_def compact_val i64_shl compact_gap_def)
    next
      case False
      then show ?thesis using s big small by (simp add: int_ashl_def)
    qed
  qed
  then show ?thesis by (simp only: p_def Let_def)
qed


section \<open>Quotient, remainder and modulo of fixnums\<close>

lemma MOD_val:
  assumes "y \<noteq> 0"
  shows "MOD x y = (if y dvd x \<and> (x < 0) \<noteq> (y < 0) then y else x mod y)"
proof -
  have d: "\<bar>x\<bar> mod \<bar>y\<bar> = 0 \<longleftrightarrow> y dvd x" by (simp add: dvd_eq_mod_eq_0 [symmetric])
  show ?thesis
    using d zmod_zminus1_eq_if [of "\<bar>x\<bar>" "\<bar>y\<bar>"] zmod_zminus2_eq_if [of "\<bar>x\<bar>" "\<bar>y\<bar>"]
      mod_minus_minus [of "\<bar>x\<bar>" "\<bar>y\<bar>"]
    unfolding MOD_def signed_modulo_int_def
    by (cases "x < 0"; cases "y < 0") (auto simp: abs_if sgn_if split: if_splits)
qed

lemma fixnum_of_int:
  assumes "- 2147483648 \<le> k" "k < 2147483648"
  shows "sint (fx2int (int2fx (of_int k))) = signed_take_bit 29 k"
  using assms by (simp add: sint_fx2int_int2fx sint_of_int_32)

lemma fits_iff: "fits_fixnum k \<longleftrightarrow> - 536870912 \<le> k \<and> k < 536870912"
  by (simp add: fits_fixnum_def)

lemma MOD_bound:
  assumes "y \<noteq> 0" "fits_fixnum y"
  shows "fits_fixnum (MOD x y)"
proof -
  have "0 \<le> x mod y \<and> x mod y < y \<or> y < x mod y \<and> x mod y \<le> 0"
    using assms pos_mod_sign [of y x] pos_mod_bound [of y x] neg_mod_sign [of y x] neg_mod_bound [of y x]
    by linarith
  then have "fits_fixnum (x mod y)" using assms(2) unfolding fits_iff by linarith
  then show ?thesis using assms by (simp add: MOD_val)
qed

lemma sdiv_smod_bound:
  assumes "fits_fixnum x" "y \<noteq> 0"
  shows "- (2 ^ 29) \<le> x sdiv y" "x sdiv y \<le> 2 ^ 29" "fits_fixnum (x smod y)"
proof -
  have "\<bar>x\<bar> div \<bar>y\<bar> \<le> \<bar>x\<bar> div 1" using assms(2) by (intro zdiv_mono2) auto
  then have q: "\<bar>x\<bar> div \<bar>y\<bar> \<le> \<bar>x\<bar>" "0 \<le> \<bar>x\<bar> div \<bar>y\<bar>"
    using assms(2) by (simp_all add: pos_imp_zdiv_nonneg_iff)
  show "- (2 ^ 29) \<le> x sdiv y" "x sdiv y \<le> 2 ^ 29"
    using q assms(1) unfolding signed_divide_int_def fits_fixnum_def
    by (auto simp: sgn_if abs_if split: if_splits)
  have m: "\<bar>x\<bar> mod \<bar>y\<bar> \<le> \<bar>x\<bar>" "0 \<le> \<bar>x\<bar> mod \<bar>y\<bar>"
    using assms(2) zmod_le_nonneg_dividend [of "\<bar>x\<bar>" "\<bar>y\<bar>"] by simp_all
  have "x smod y = (if x < 0 then - (\<bar>x\<bar> mod \<bar>y\<bar>) else \<bar>x\<bar> mod \<bar>y\<bar>)"
    by (cases "x = 0") (simp_all add: signed_modulo_int_def sgn_if)
  then show "fits_fixnum (x smod y)"
    using assms(1) m unfolding fits_iff by (cases "x < 0") (simp_all only: if_True if_False, linarith+)
qed

text \<open>C34: the fixnum division operations on every pair of fixnums: the quotient truncates and wraps
  only where it is \<open>2 ^ 29\<close>, the remainder is exact, and \<open>int_modulo\<close> is the floored modulo except
  for a multiple of a divisor of the other sign, where the \<^verbatim>\<open>MOD\<close> macro gives the divisor instead
  of 0.\<close>

lemma int_division:
  assumes "fits_fixnum (sint a)" "fits_fixnum (sint b)" "b \<noteq> 0"
  shows "map_option (obj_val val) (int_quotient a b) = Some (signed_take_bit 29 (sint a sdiv sint b)) \<and>
    map_option (obj_val val) (int_remainder a b) = Some (sint a smod sint b) \<and>
    map_option (obj_val val) (int_modulo a b) =
      Some (if sint b dvd sint a \<and> (sint a < 0) \<noteq> (sint b < 0) then sint b else sint a mod sint b)"
proof -
  have b: "sint b \<noteq> 0"
  proof
    assume "sint b = 0"
    then have "of_int (sint b) = (0 :: u32)" by (simp only: of_int_0)
    then show False using assms(3) by simp
  qed
  note q = sdiv_smod_bound [OF assms(1) b] and m = MOD_bound [OF b assms(2), of "sint a"]
  have sq: "sint (fx2int (int2fx (of_int (sint a sdiv sint b)))) = signed_take_bit 29 (sint a sdiv sint b)"
    using q by (intro fixnum_of_int) auto
  have sr: "sint (fx2int (int2fx (of_int (sint a smod sint b)))) = sint a smod sint b"
    using fits_bounds [OF q(3)] by (subst fixnum_of_int) (simp_all add: signed_take_bit_int_eq_self)
  have sm: "sint (fx2int (int2fx (of_int (MOD (sint a) (sint b))))) = MOD (sint a) (sint b)"
    using fits_bounds [OF m] by (subst fixnum_of_int) (simp_all add: signed_take_bit_int_eq_self)
  show ?thesis
    using assms(3) sq sr sm by (simp add: int_quotient_def int_remainder_def int_modulo_def MOD_val [OF b])
qed

lemma int_division_witness:
  "map_option (obj_val id) (int_quotient 7 2) = Some 3 \<and>
   map_option (obj_val id) (int_modulo (- 8) 4) = Some 4"
  using int_division [of 7 2 id] int_division [of "- 8" 4 id]
  by (simp add: fits_fixnum_def signed_divide_int_def signed_take_bit_int_eq_self)

section \<open>Correctness of the dispatched operations\<close>

fun obj_ok :: "'z obj \<Rightarrow> bool" where
  "obj_ok (Imm w) = FIXNUM_P w"
| "obj_ok (Long_int a) = wf64 a"
| "obj_ok (Bignum z) = True"

lemma obj_ok_basic: "obj_ok x \<Longrightarrow> basic_integer x"
  by (cases x) simp_all

lemma compact_gap_small: "fits_fixnum x \<Longrightarrow> fits_fixnum y \<Longrightarrow> compact_gap (x + y) = x + y"
  by (simp add: compact_gap_def fits_fixnum_def)

lemma fx2int64_facts [simp]: "wf64 (fx2int64 x)" "sint (i64 (fx2int64 x)) = sint (fx2int x)"
  by (simp_all add: fx2int64_def i64_int_32)

lemma fx_to_bignum_val: "gmp_spec G val \<Longrightarrow> val (fx_to_bignum G x) = sint (fx2int x)"
  by (simp add: fx_to_bignum_def int_32_to_bignum_def gmpD)

text \<open>C32: addition of exact integers, in every pair of representations: the result denotes the sum,
  except that a sum strictly between \<open>- 2 ^ 64\<close> and \<open>- 2 ^ 63\<close> comes out \<open>2 ^ 64\<close> too large
  (\<^verbatim>\<open>bignum_compact\<close> negates a 64-bit magnitude).\<close>

lemma basic_plus_correct:
  assumes G: "gmp_spec G val" and ok: "obj_ok x" "obj_ok y"
  shows "\<exists>r. basic_plus G x y = Inr r \<and> obj_val val r = compact_gap (obj_val val x + obj_val val y)"
proof -
  have "obj_val val (calc G int_plus (long_plus G) (bignum_plus G) x y) = compact_gap (obj_val val x + obj_val val y)"
    using ok by (cases x; cases y)
      (simp_all add: int_plus_val fixnum_fits compact_gap_small long_plus_val [OF G] bignum_plus_def
        bignum_compact_val [OF G] gmpD [OF G] int64_to_bignum_val [OF G] fx_to_bignum_val [OF G])
  then show ?thesis using ok by (simp add: basic_plus_def dispatch_def obj_ok_basic)
qed

text \<open>Integers themselves are an instance of what GMP documents.\<close>

fun limbs :: "nat \<Rightarrow> nat" where
  "limbs n = (if n = 0 then 0 else Suc (limbs (n div 4294967296)))"

declare limbs.simps [simp del]

lemma limbs_le: "limbs n \<le> k \<longleftrightarrow> n < 2 ^ (32 * k)"
proof (induction k arbitrary: n)
  case 0
  then show ?case by (subst limbs.simps) simp
next
  case (Suc k)
  have "n div 4294967296 < 2 ^ (32 * k) \<longleftrightarrow> n < 2 ^ (32 * k) * 4294967296"
    by (rule div_less_iff_less_mult) simp
  then show ?case using Suc.IH [of "n div 4294967296"]
    by (subst limbs.simps) (simp add: power_add mult.commute)
qed

definition int_gmp :: "int gmp" where
  "int_gmp = \<lparr>mpz_set_si = sint, mpz_set_ui = uint, mpz_add = (+), mpz_sub = (-), mpz_mul = (*),
     mpz_ior = (OR), mpz_mul_2exp = (\<lambda>z n. z * 2 ^ n),
     mpz_tdiv_q_2exp = (\<lambda>z n. sgn z * (\<bar>z\<bar> div 2 ^ n)), mpz_get_ui = (\<lambda>z. of_int \<bar>z\<bar>),
     mpz_get_si = of_int, mpz_sgn = sgn, mpz_cmp = (\<lambda>y z. y - z),
     mpz_size = (\<lambda>z. limbs (nat \<bar>z\<bar>))\<rparr>"

lemma int_gmp_spec: "gmp_spec int_gmp (\<lambda>z. z)"
  by (auto simp: gmp_spec_def int_gmp_def limbs_le nat_less_iff)

lemma basic_plus_correct_witness:
  "\<exists>r. basic_plus int_gmp (Long_int \<lparr>digits = [0x8000, 0, 0, 0]\<rparr>) (Imm (int2fx (- 1))) = Inr r \<and>
     obj_val (\<lambda>z. z) r = 9223372036854775807"
  using basic_plus_correct [OF int_gmp_spec, of "Long_int \<lparr>digits = [0x8000, 0, 0, 0]\<rparr>" "Imm (int2fx (- 1))"]
  by (simp add: sint_uval uval_lit compact_gap_def sint_fx2int_int2fx)

text \<open>Subtraction of two fixnums, or of two 64-bit integers, is wrong exactly where it overflows
  its representation: the overflow test is the one of addition, so the difference wraps (to 30
  bits for fixnums, to 64 bits for the long operation); with a bignum it is exact up to
  \<open>compact_gap\<close>.\<close>

lemma basic_minus_correct:
  assumes G: "gmp_spec G val" and ok: "obj_ok x" "obj_ok y"
  shows "\<exists>r. basic_minus G x y = Inr r \<and> obj_val val r =
    (let d = obj_val val x - obj_val val y
     in case (x, y) of
          (Bignum _, _) \<Rightarrow> compact_gap d | (_, Bignum _) \<Rightarrow> compact_gap d
        | (Imm _, Imm _) \<Rightarrow> signed_take_bit 29 d | _ \<Rightarrow> signed_take_bit 63 d)"
proof -
  have "obj_val val (calc G int_minus (long_minus G) (bignum_minus G) x y) =
    (let d = obj_val val x - obj_val val y
     in case (x, y) of
          (Bignum _, _) \<Rightarrow> compact_gap d | (_, Bignum _) \<Rightarrow> compact_gap d
        | (Imm _, Imm _) \<Rightarrow> signed_take_bit 29 d | _ \<Rightarrow> signed_take_bit 63 d)"
    using ok by (cases x; cases y)
      (simp_all add: int_minus_val fixnum_fits long_minus_val [OF G] bignum_minus_def
        bignum_compact_val [OF G] gmpD [OF G] int64_to_bignum_val [OF G] fx_to_bignum_val [OF G])
  then show ?thesis using ok by (simp add: basic_minus_def dispatch_def obj_ok_basic)
qed

lemma basic_minus_correct_witness:
  "\<exists>r. basic_minus int_gmp (Imm (int2fx 536870911)) (Imm (int2fx (- 1))) = Inr r \<and>
     obj_val (\<lambda>z. z) r = - 536870912"
  using basic_minus_correct [OF int_gmp_spec, of "Imm (int2fx 536870911)" "Imm (int2fx (- 1))"]
  by (simp add: sint_fx2int_int2fx)

lemma int_cmp_sgn: "sgn (int_cmp a b) = sgn (sint a - sint b)"
  by (simp add: int_cmp_def sgn_if)

text \<open>Comparison of two exact integers of the same sign has the sign of their difference, in every
  pair of representations.\<close>

lemma basic_cmp_same_sign:
  assumes G: "gmp_spec G val" and ok: "obj_ok x" "obj_ok y"
    and same: "(obj_val val x < 0) = (obj_val val y < 0)"
  shows "\<exists>r. basic_cmp G x y = Inr r \<and> sgn r = sgn (obj_val val x - obj_val val y)"
proof -
  have l: "sgn (int_64_cmp a b) = sgn (sint (i64 a) - sint (i64 b))"
    if "wf64 a" "wf64 b" "(sint (i64 a) < 0) = (sint (i64 b) < 0)" for a b
  proof -
    have "int (uval x) = (if sint (i64 x) < 0 then sint (i64 x) + 18446744073709551616 else sint (i64 x))"
      if "wf64 x" for x
      using uval_less [OF that] by (simp add: sint_uval [OF that])
    then have "i64 a < i64 b \<longleftrightarrow> sint (i64 a) < sint (i64 b)" "i64 b < i64 a \<longleftrightarrow> sint (i64 b) < sint (i64 a)"
      using that by (simp_all add: word_less_nat_alt unat_i64 flip: of_nat_less_iff [where 'a = int])
    then show ?thesis using that(1,2) by (simp add: cmp_unsigned sgn_if)
  qed
  have "sgn (calc G int_cmp int_64_cmp (bignum_cmp G) x y) = sgn (obj_val val x - obj_val val y)"
    using ok same by (cases x; cases y)
      (simp_all add: l int_cmp_sgn bignum_cmp_def gmpD(12) [OF G] int64_to_bignum_val [OF G] fx_to_bignum_val [OF G])
  then show ?thesis using ok by (simp add: basic_cmp_def dispatch_def obj_ok_basic)
qed


lemma basic_cmp_same_sign_witness:
  "\<exists>r. basic_cmp int_gmp (Imm (int2fx 5)) (Long_int \<lparr>digits = [0, 1, 0, 0]\<rparr>) = Inr r \<and> sgn r = -1"
  using basic_cmp_same_sign [OF int_gmp_spec, of "Imm (int2fx 5)" "Long_int \<lparr>digits = [0, 1, 0, 0]\<rparr>"]
  by (simp add: sint_fx2int_int2fx sint_uval uval_lit signed_take_bit_int_eq_self)

text \<open>Comparison of integers of different signs is wrong as soon as one of them is a 64-bit integer
  (and neither a bignum), because \<^verbatim>\<open>long_cmp\<close> compares unsigned: a negative fixnum is greater than
  every positive long integer.\<close>

lemma basic_cmp_mixed_sign:
  assumes "FIXNUM_P w" "sint (fx2int w) < 0" "wf64 b" "0 \<le> sint (i64 b)"
  shows "basic_cmp G (Imm w) (Long_int b) = Inr 1 \<and> basic_cmp G (Long_int b) (Imm w) = Inr (-1)"
proof -
  have n: "int (uval x) = (if sint (i64 x) < 0 then sint (i64 x) + 18446744073709551616 else sint (i64 x))"
    if "wf64 x" for x
    using uval_less [OF that] by (simp add: sint_uval [OF that])
  have "int (uval b) < int (uval (fx2int64 w))"
    using n [OF assms(3)] n [of "fx2int64 w"] assms(2,4) sint_64_range [of "i64 b"]
      fits_bounds [OF fixnum_fits [of w]] by simp
  then have "i64 b < i64 (fx2int64 w)" using assms(3) by (simp add: word_less_nat_alt unat_i64)
  then show ?thesis using assms
    by (auto simp: basic_cmp_def dispatch_def cmp_unsigned)
qed

lemma basic_cmp_mixed_sign_witness:
  "basic_cmp int_gmp (Imm (int2fx (- 1))) (Long_int \<lparr>digits = [0, 1, 0, 0]\<rparr>) = Inr 1"
  using basic_cmp_mixed_sign [of "int2fx (- 1)" "\<lparr>digits = [0, 1, 0, 0]\<rparr>" int_gmp]
  by (simp add: sint_fx2int_int2fx sint_uval uval_lit)

text \<open>Multiplication of 64-bit integers is exact when the product needs less than 64 bits, or at
  least 66 bits (then it is a bignum).\<close>

lemma basic_mul_long:
  assumes G: "gmp_spec G val" and wf: "wf64 a" "wf64 b"
    and "\<bar>sint (i64 a) * sint (i64 b)\<bar> < 2 ^ 63 \<or> 2 ^ 65 \<le> \<bar>sint (i64 a) * sint (i64 b)\<bar>"
  shows "map_sum id (obj_val val) (basic_mul G (Long_int a) (Long_int b)) = Inr (sint (i64 a) * sint (i64 b))"
  using long_mul_exact [OF assms] by (simp add: basic_mul_def dispatch_def)

lemma basic_mul_long_witness:
  "map_sum id (obj_val (\<lambda>z. z)) (basic_mul int_gmp (Long_int \<lparr>digits = [0x4000, 0, 0, 0]\<rparr>)
     (Long_int \<lparr>digits = [0x4000, 0, 0, 0]\<rparr>)) = Inr (2 ^ 124)"
  using basic_mul_long [OF int_gmp_spec, of "\<lparr>digits = [0x4000, 0, 0, 0]\<rparr>" "\<lparr>digits = [0x4000, 0, 0, 0]\<rparr>"]
  by (simp add: sint_uval uval_lit)

text \<open>The bound of \<^verbatim>\<open>long_mul\<close> lets through products that overflow 64 bits: the square of
  \<open>2 ^ 32 - 1\<close>, whose highest bits are at positions 31 and 31, comes out negative.\<close>

lemma long_mul_overflows:
  "obj_val (\<lambda>z. z) (long_mul int_gmp \<lparr>digits = [0, 0, 0xFFFF, 0xFFFF]\<rparr> \<lparr>digits = [0, 0, 0xFFFF, 0xFFFF]\<rparr>)
     = - 8589934591"
proof -
  have "search_one_sub \<lparr>digits = [0, 0, 0xFFFF, 0xFFFF]\<rparr> True = 31"
    using search_one_loop.simps(2) [of 15 "0xFFFF :: u16"]
    by (simp add: search_one_sub_def int_64_neg_q_def)
  then show ?thesis
    using long_mul_val [OF int_gmp_spec, of "\<lparr>digits = [0, 0, 0xFFFF, 0xFFFF]\<rparr>" "\<lparr>digits = [0, 0, 0xFFFF, 0xFFFF]\<rparr>"]
    by (simp add: sint_uval uval_lit signed_take_bit_eq_take_bit_minus take_bit_eq_mod bit_iff_odd)
qed

text \<open>C33: \<open>int_mul\<close> of two fixnums on a little-endian host: the product is exact unless its low 32 bits
  are all zero or all one; then the high half is returned in its place.\<close>

lemma basic_mul_fixnum:
  assumes "FIXNUM_P v" "FIXNUM_P w"
  shows "map_sum id (obj_val val) (basic_mul G (Imm v) (Imm w)) =
    Inr (let p = sint (fx2int v) * sint (fx2int w)
         in if p mod 2 ^ 32 = 0 \<or> p mod 2 ^ 32 = 2 ^ 32 - 1 then p div 2 ^ 32 else p)"
  using assms by (simp add: basic_mul_def dispatch_def int_mul_val fixnum_fits)

lemma basic_mul_fixnum_witness:
  "map_sum id (obj_val (\<lambda>z. z)) (basic_mul int_gmp (Imm (int2fx 65536)) (Imm (int2fx 65536))) = Inr 1"
  using basic_mul_fixnum [of "int2fx 65536" "int2fx 65536" "\<lambda>z. z" int_gmp]
  by (simp add: sint_fx2int_int2fx signed_take_bit_int_eq_self)

text \<open>The arithmetic left shift of a fixnum denotes the product with the power of two, except
  that a result from \<open>2 ^ 29\<close> up to \<open>2 ^ 30\<close> is put in a fixnum that cannot hold it, and for the gap of
  \<open>bignum_compact\<close>.\<close>

lemma int_ashl_correct:
  assumes "gmp_spec G val" "FIXNUM_P w"
  shows "obj_val val (int_ashl G (fx2int w) b) =
    (let p = sint (fx2int w) * 2 ^ b in if 2 ^ 29 \<le> p \<and> p < 2 ^ 30 then p - 2 ^ 30 else compact_gap p)"
  using assms(1) fixnum_fits by (rule int_ashl_val)

lemma int_ashl_correct_witness:
  "obj_val (\<lambda>z. z) (int_ashl int_gmp (fx2int (int2fx 1)) 29) = - (2 ^ 29)"
  using int_ashl_correct [OF int_gmp_spec, of "int2fx 1" 29]
  by (simp add: sint_fx2int_int2fx signed_take_bit_int_eq_self)

section \<open>Bitwise operations and raw conversions\<close>

text \<open>\<open>basic_raw_int_conv\<close> gives the C \<^verbatim>\<open>int\<close> an object denotes, and an error exactly when its value
  is not an \<^verbatim>\<open>int\<close>.\<close>

lemma raw_int_conv_correct:
  assumes G: "gmp_spec G val" and ok: "obj_ok x"
  shows "(case basic_raw_int_conv G x of
      Inr v \<Rightarrow> sint v = obj_val val x
    | Inl e \<Rightarrow> \<not> (- (2 ^ 31) \<le> obj_val val x \<and> obj_val val x < 2 ^ 31))"
proof (cases x)
  case (Imm w)
  then show ?thesis using ok by (simp add: basic_raw_int_conv_def)
next
  case (Long_int i)
  have "ucast (i64 i) = (of_int (sint (i64 i)) :: u32)"
    by (rule bit_word_eqI) (simp del: of_int_sint add: bit_unsigned_iff bit_word_of_int_iff bit_sint_iff)
  then have "sint (ucast (i64 i) :: u32) = sint (i64 i)"
    if "- (2 ^ 31) \<le> sint (i64 i)" "sint (i64 i) < 2 ^ 31"
    using that by (simp only:) (rule sint_of_int_32; simp)
  then show ?thesis using Long_int ok
    by (simp add: basic_raw_int_conv_def fit_in_32_iff to_int_32)
next
  case (Bignum z)
  have m: "val (min_machine_int G) = - (2 ^ 31)" "val (max_machine_int G) = 2 ^ 31 - 1"
    by (simp_all add: min_machine_int_def max_machine_int_def int_32_to_bignum_def gmpD [OF G])
  have "bignum_fit_in_32 G z \<longleftrightarrow> - (2 ^ 31) \<le> val z \<and> val z < 2 ^ 31"
    using sgn_pos_iff [OF gmpD(12) [OF G, of z "min_machine_int G"]]
      sgn_pos_iff [OF gmpD(12) [OF G, of z "max_machine_int G"]]
    unfolding bignum_fit_in_32_def m by auto
  then show ?thesis using Bignum gmpD(10) [OF G, of z]
    by (simp add: basic_raw_int_conv_def sint_of_int_32)
qed

lemma raw_int_conv_correct_witness:
  "case basic_raw_int_conv int_gmp (Long_int \<lparr>digits = [0, 1, 0, 0]\<rparr>) of
     Inr v \<Rightarrow> False | Inl e \<Rightarrow> e = Long_out_of_range"
  using raw_int_conv_correct [OF int_gmp_spec, of "Long_int \<lparr>digits = [0, 1, 0, 0]\<rparr>"]
  by (simp add: basic_raw_int_conv_def int_64_fit_in_32_q_def)

end
