(* ===== verification/NumText.thy ===== *)
theory NumText
  imports NumTower "HOL-Library.Char_ord" "HOL-Library.Monad_Syntax"
begin

text \<open>
  Numbers to text and back: \<^verbatim>\<open>string_to_int_64\<close> and \<^verbatim>\<open>int_64_to_string\<close> of
  \<^verbatim>\<open>handc/runtime/longint.c\<close>, \<^verbatim>\<open>fixnum_to_string\<close> of \<^verbatim>\<open>basemath.c\<close> and
  \<^verbatim>\<open>string_to_fixnum\<close> of \<^verbatim>\<open>modules/corelib/str2num.c\<close>.  Text is a list of bytes.  A string
  argument is the memory from its first byte on, of which \<open>len\<close> bytes belong to the string;
  \<^const>\<open>None\<close> is an access outside the memory given or outside a table.  A buffer that is filled
  from its end is the list of bytes written so far.
\<close>

unbundle bit_operations_syntax

section \<open>Tables\<close>

definition digit_values :: "u8 list" where
  "digit_values = replicate 48 99 @ map of_nat [0..<10] @ replicate 7 99 @ map of_nat [10..<36]
     @ replicate 6 99 @ map of_nat [10..<36] @ replicate 5 99 @ replicate 128 99"

definition value_digits :: "u8 list" where
  "value_digits = map of_nat [48..<58] @ map of_nat [97..<123] @ [0]"

section \<open>Parsing\<close>

text \<open>The sign: how many bytes it takes, and whether it is a minus.\<close>

definition parse_sign :: "u8 list \<Rightarrow> (nat \<times> bool) option" where
  "parse_sign str =
     (case str of [] \<Rightarrow> None
      | c # _ \<Rightarrow> Some (if c = 0x2D then (1, True) else if c = 0x2B then (1, False) else (0, False)))"

text \<open>\<^verbatim>\<open>string_to_fixnum\<close>; its bytes are unsigned, so the table look-up is always inside the table.\<close>

fun fixnum_loop :: "u8 list \<Rightarrow> u32 \<Rightarrow> bool \<Rightarrow> u32 \<Rightarrow> u32 \<Rightarrow> u32 \<Rightarrow> u32 option" where
  "fixnum_loop [] radix neg preq prem v = Some v"
| "fixnum_loop (ch # str) radix neg preq prem v =
     (let i = ucast (digit_values ! unat ch) :: u32
      in if i \<ge> radix then None
         else if v > preq \<or> (v = preq \<and> (i > prem \<or> (i = prem \<and> \<not> neg))) then None
         else fixnum_loop str radix neg preq prem (v * radix + i))"

definition string_to_fixnum :: "u8 list \<Rightarrow> nat \<Rightarrow> u32 \<Rightarrow> u32 option" where
  "string_to_fixnum str_in len radix =
     do {
       (s, neg) \<leftarrow> parse_sign str_in;
       _ \<leftarrow> (if radix = 0 then None else Some ());
       let preq = push_bit 29 1 div radix;
       let prem = push_bit 29 1 mod radix;
       if s \<ge> len then Some FALSE_OBJ
       else if length str_in < len then None
       else case fixnum_loop (drop s (take len str_in)) radix neg preq prem 0 of
              None \<Rightarrow> Some FALSE_OBJ
            | Some v \<Rightarrow> Some (int2fx (if neg then - v else v))
     }"

text \<open>
  \<^verbatim>\<open>string_to_int_64\<close> keeps the quotient and remainder of \<open>2 ^ 63\<close> by the last radix in static
  variables; they are the state here.  Its bytes are \<^verbatim>\<open>char\<close>s, signed where the runtime is
  built, so a byte above 127 is a negative index of \<open>digit_values\<close>.
\<close>

record str_cache =
  preq :: INT_64
  prem :: u16
  q_cache :: u32

definition initial_cache :: str_cache where
  "initial_cache = \<lparr>preq = INT_64_zero, prem = 0, q_cache = 0\<rparr>"

definition fill_cache :: "u32 \<Rightarrow> str_cache \<Rightarrow> str_cache" where
  "fill_cache radix s =
     (if q_cache s \<noteq> radix
      then let pre = int_64_divu_16 \<lparr>digits = [0x8000, 0, 0, 0]\<rparr> (ucast radix)
           in \<lparr>preq = quotient pre, prem = ucast (int_64_to_int_32 (remainder pre)), q_cache = radix\<rparr>
      else s)"

definition digit_value :: "u8 \<Rightarrow> u32 option" where
  "digit_value ch = (if unat ch < 128 then Some (ucast (digit_values ! unat ch)) else None)"

datatype parse_result = NO | YES INT_64

fun int_64_loop :: "u8 list \<Rightarrow> u32 \<Rightarrow> bool \<Rightarrow> str_cache \<Rightarrow> INT_64 \<Rightarrow> parse_result option" where
  "int_64_loop [] radix neg s accum = Some (YES (if neg then int_64_neg accum else accum))"
| "int_64_loop (ch # str) radix neg s accum =
     (case digit_value ch of
        None \<Rightarrow> None
      | Some i \<Rightarrow>
          if i \<ge> radix then Some NO
          else if int_64_gt accum (preq s) \<or>
                  (int_64_eq accum (preq s) \<and> (i > ucast (prem s) \<or> (i = ucast (prem s) \<and> \<not> neg)))
               then Some NO
          else let n = int_64_add_16 (int_64_umul_16 accum (ucast radix)) (ucast i)
               in if int_64_gt accum n then Some NO
                  else int_64_loop str radix neg s n)"

definition string_to_int_64 ::
    "u8 list \<Rightarrow> nat \<Rightarrow> u32 \<Rightarrow> str_cache \<Rightarrow> (parse_result \<times> str_cache) option" where
  "string_to_int_64 str len radix s0 =
     do {
       let s = fill_cache radix s0;
       (k, neg) \<leftarrow> parse_sign str;
       if k \<ge> len then Some (NO, s)
       else if length str < len then None
       else do {
         r \<leftarrow> int_64_loop (drop k (take len str)) radix neg s INT_64_zero;
         Some (r, s)
       }
     }"

section \<open>Printing\<close>

partial_function (option) int_64_digits :: "INT_64 \<Rightarrow> u32 \<Rightarrow> u8 list \<Rightarrow> u8 list option" where
  "int_64_digits value radix buffer =
     (if int_64_zero_q value then Some buffer
      else let d = int_64_divu_16 value (ucast radix);
               i = int_64_to_int_32 (remainder d)
           in if unat i < 37
              then int_64_digits (quotient d) radix (value_digits ! unat i # buffer)
              else None)"

definition int_64_to_string :: "INT_64 \<Rightarrow> u32 \<Rightarrow> u8 list option" where
  "int_64_to_string value0 radix =
     (let buffer = [0];
          neg = int_64_neg_q value0;
          value = (if neg then int_64_neg value0 else value0)
      in if int_64_zero_q value then Some (0x30 # buffer)
         else do {
           buffer \<leftarrow> int_64_digits value radix buffer;
           Some (if neg then 0x2D # buffer else buffer)
         })"

partial_function (option) fixnum_digits :: "u32 \<Rightarrow> u32 \<Rightarrow> u8 list \<Rightarrow> u8 list option" where
  "fixnum_digits v radix buffer =
     (if sint v > 0
      then if radix \<noteq> 0 \<and> unat (v mod radix) < 37
           then fixnum_digits (v div radix) radix (value_digits ! unat (v mod radix) # buffer)
           else None
      else Some buffer)"

definition fixnum_to_string :: "u32 \<Rightarrow> u32 \<Rightarrow> u8 list option" where
  "fixnum_to_string value radix =
     (let buffer = [0];
          v = fx2int value;
          neg = sint v < 0;
          v = (if neg then - v else v)
      in do {
           buffer \<leftarrow> (if v = 0 then Some (0x30 # buffer) else fixnum_digits v radix buffer);
           Some (if neg then 0x2D # buffer else buffer)
         })"


section \<open>Digits of a number\<close>

fun digs :: "nat \<Rightarrow> nat \<Rightarrow> nat list" where
  "digs radix n = (if radix < 2 \<or> n = 0 then [] else digs radix (n div radix) @ [n mod radix])"

declare digs.simps [simp del]

definition number :: "nat \<Rightarrow> nat list \<Rightarrow> nat" where
  "number radix ds = foldl (\<lambda>v d. v * radix + d) 0 ds"

lemma number_snoc [simp]: "number radix (ds @ [d]) = number radix ds * radix + d"
  by (simp add: number_def)

lemma number_Nil [simp]: "number radix [] = 0"
  by (simp add: number_def)

lemma number_single: "number radix [d] = d"
  by (simp add: number_def)

lemma number_digs: "2 \<le> radix \<Longrightarrow> number radix (digs radix n) = n"
proof (induction n rule: less_induct)
  case (less n)
  then show ?case by (cases "n = 0") (simp_all add: digs.simps [of radix n] digs.simps [of radix 0])
qed

lemma digs_less: "d \<in> set (digs radix n) \<Longrightarrow> d < radix"
  by (induction radix n rule: digs.induct) (subst (asm) (2) digs.simps, auto split: if_splits)

lemma length_digs: "2 \<le> radix \<Longrightarrow> n < 2 ^ k \<Longrightarrow> length (digs radix n) \<le> k"
proof (induction k arbitrary: n)
  case 0
  then show ?case by (simp add: digs.simps)
next
  case (Suc k)
  have "n div radix \<le> n div 2" using Suc.prems(1) by (intro div_le_mono2) auto
  also have "n div 2 < 2 ^ k" using Suc.prems(2) by simp
  finally show ?case using Suc.IH [of "n div radix"] Suc.prems(1)
    by (subst digs.simps) simp
qed

lemma digs_nonempty: "2 \<le> radix \<Longrightarrow> 0 < n \<Longrightarrow> digs radix n \<noteq> []"
  by (subst digs.simps) simp

section \<open>The tables agree\<close>

lemma all_less_37: "(\<forall>i<37. P i) \<longleftrightarrow> (\<forall>i \<in> set [0..<37]. P (i :: nat))"
  by auto

lemma value_digits_table:
  "\<forall>i \<in> set [0..<36]. digit_values ! unat (value_digits ! i) = of_nat i \<and> value_digits ! i < 128 \<and>
     value_digits ! i \<noteq> 0x2D \<and> value_digits ! i \<noteq> 0x2B"
  by code_simp

lemma digit_of_value:
  assumes "i < 36"
  shows "digit_values ! unat (value_digits ! i) = of_nat i" "unat (value_digits ! i) < 128"
    "value_digits ! i \<noteq> 0x2D" "value_digits ! i \<noteq> 0x2B"
  using value_digits_table assms by (auto simp: word_less_nat_alt)

lemma digit_values_le: "unat (digit_values ! unat (ch :: u8)) \<le> 99"
proof -
  have "list_all (\<lambda>d. unat d \<le> 99) digit_values" by code_simp
  moreover have "unat ch < length digit_values" using unat_u8_less [of ch] by (simp add: digit_values_def)
  ultimately show ?thesis by (simp add: list_all_length)
qed

section \<open>Printing is correct\<close>

lemma uval_u16: "uval (int_32_to_int_64 (ucast (x :: u16))) = unat x"
proof -
  have "sint (ucast x :: u32) = int (unat x)"
    using unat_u16_less [of x] by (simp add: sint_u32 del: of_nat_unat)
  then have "sint (i64 (int_32_to_int_64 (ucast x))) = int (unat x)" by (simp add: sint_int_32)
  then show ?thesis
    using uval_less [of "int_32_to_int_64 (ucast x)"] unat_u16_less [of x]
    by (auto simp: sint_uval simp del: of_nat_unat split: if_splits)
qed

lemma unat_radix_16: "unat (radix :: u32) \<le> 36 \<Longrightarrow> unat (ucast radix :: u16) = unat radix"
  by (simp add: unat_ucast_32_16)

lemma divu_16:
  assumes "wf64 a" "0 < unat (radix :: u32)" "unat radix \<le> 36"
  shows "wf64 (quotient (int_64_divu_16 a (ucast radix)))" "wf64 (remainder (int_64_divu_16 a (ucast radix)))"
    "uval (quotient (int_64_divu_16 a (ucast radix))) = uval a div unat radix"
    "uval (remainder (int_64_divu_16 a (ucast radix))) = uval a mod unat radix"
proof -
  define r16 :: u16 where "r16 = ucast radix"
  have u: "unat r16 = unat radix" using assms(3) unfolding r16_def by (rule unat_radix_16)
  show "wf64 (quotient (int_64_divu_16 a (ucast radix)))" "wf64 (remainder (int_64_divu_16 a (ucast radix)))"
    "uval (quotient (int_64_divu_16 a (ucast radix))) = uval a div unat radix"
    "uval (remainder (int_64_divu_16 a (ucast radix))) = uval a mod unat radix"
    using divu_correct [OF assms(1) wf64_int_32, of "ucast r16"] assms(2,3)
    unfolding int_64_divu_16_def r16_def [symmetric] uval_u16 u by simp_all
qed

lemma unat_to_int_32: "wf64 a \<Longrightarrow> unat (int_64_to_int_32 a) = uval a mod 4294967296"
  by (simp add: to_int_32 unsigned_ucast_eq unat_i64 take_bit_eq_mod)

lemma zero_q_uval: "wf64 a \<Longrightarrow> int_64_zero_q a \<longleftrightarrow> uval a = 0"
  by (simp add: zero_q_iff unat_i64 [symmetric] unat_eq_zero)

lemma int_64_digits_correct:
  assumes "wf64 a" "2 \<le> unat radix" "unat radix \<le> 36"
  shows "int_64_digits a radix buffer = Some (map ((!) value_digits) (digs (unat radix) (uval a)) @ buffer)"
  using assms(1)
proof (induction "uval a" arbitrary: a buffer rule: less_induct)
  case less
  show ?case
  proof (cases "uval a = 0")
    case True
    then show ?thesis using less.prems
      by (subst int_64_digits.simps) (simp add: zero_q_uval digs.simps)
  next
    case False
    define d where "d = int_64_divu_16 a (ucast radix)"
    have d: "wf64 (quotient d)" "wf64 (remainder d)" "uval (quotient d) = uval a div unat radix"
        "uval (remainder d) = uval a mod unat radix"
      using divu_16 [OF less.prems, of radix] assms(2,3) by (simp_all add: d_def)
    have m: "uval a mod unat radix < unat radix" using assms(2) by simp
    then have m37: "uval a mod unat radix < 37" using assms(3) by linarith
    have i: "unat (int_64_to_int_32 (remainder d)) = uval a mod unat radix"
      using m assms(3) d by (simp add: unat_to_int_32)
    have "uval (quotient d) < uval a" using False assms(2) d by simp
    from less.hyps [OF this d(1)] show ?thesis
      using False less.prems i m37 assms(2,3) d
      unfolding int_64_digits.simps [of a radix buffer] digs.simps [of "unat radix" "uval a"]
      by (simp add: zero_q_uval d_def [symmetric])
  qed
qed

text \<open>What printing should give: the digits, most significant first, or a single zero.\<close>

definition digits_text :: "nat \<Rightarrow> nat \<Rightarrow> u8 list" where
  "digits_text radix n = map ((!) value_digits) (if n = 0 then [0] else digs radix n)"

definition int_text :: "nat \<Rightarrow> int \<Rightarrow> u8 list" where
  "int_text radix i = (if i < 0 then 0x2D # digits_text radix (nat (- i)) else digits_text radix (nat i))"

lemma value_digits_0: "value_digits ! 0 = 0x30"
  by (simp add: value_digits_def)

lemma neg_uval:
  assumes "wf64 a" "int_64_neg_q a"
  shows "uval (int_64_neg a) = nat (- sint (i64 a))"
  using uval_abs [OF assms(1)] assms neg_q_iff [OF assms(1)] by simp

lemma nonneg_uval:
  assumes "wf64 a" "\<not> int_64_neg_q a"
  shows "uval a = nat (sint (i64 a))"
  using uval_abs [OF assms(1)] assms neg_q_iff [OF assms(1)] by simp

lemma int_64_to_string_text:
  assumes "wf64 a" "2 \<le> unat radix" "unat radix \<le> 36"
  shows "int_64_to_string a radix = Some (int_text (unat radix) (sint (i64 a)) @ [0])"
proof (cases "int_64_neg_q a")
  case True
  then have "sint (i64 a) < 0" using assms(1) by (simp add: neg_q_iff)
  then show ?thesis
    using True assms
    by (simp add: int_64_to_string_def zero_q_uval neg_uval int_64_digits_correct int_text_def digits_text_def)
next
  case False
  then have "\<not> sint (i64 a) < 0" using assms(1) by (simp add: neg_q_iff)
  then show ?thesis
    using False assms
    by (auto simp: int_64_to_string_def zero_q_uval nonneg_uval int_64_digits_correct int_text_def
        digits_text_def value_digits_0)
qed

lemma length_int_text:
  assumes "2 \<le> radix" "- (2 ^ k) \<le> i" "i \<le> 2 ^ k"
  shows "length (int_text radix i) \<le> k + 2"
proof -
  have "length (digits_text radix n) \<le> k + 1" if "n \<le> 2 ^ k" for n
  proof -
    have "(2 :: nat) ^ k < 2 ^ (k + 1)" by (rule power_strict_increasing) simp_all
    with that have "n < 2 ^ (k + 1)" by (rule le_less_trans)
    then have "length (digs radix n) \<le> k + 1" by (rule length_digs [OF assms(1)])
    then show ?thesis by (simp add: digits_text_def)
  qed
  from this [of "nat \<bar>i\<bar>"] show ?thesis using assms(2,3)
    by (auto simp: int_text_def nat_le_iff abs_if split: if_splits)
qed

section \<open>Parsing is correct\<close>

definition dv :: "u8 \<Rightarrow> nat" where
  "dv ch = unat (digit_values ! unat ch)"

text \<open>The number a digit string continues, from the value \<open>n\<close> on.\<close>

definition extend :: "nat \<Rightarrow> nat \<Rightarrow> u8 list \<Rightarrow> nat" where
  "extend radix n str = foldl (\<lambda>v c. v * radix + dv c) n str"

lemma extend_simps [simp]:
  "extend radix n [] = n" "extend radix n (c # str) = extend radix (n * radix + dv c) str"
  by (simp_all add: extend_def)

lemma extend_mono: "1 \<le> radix \<Longrightarrow> n \<le> extend radix n str"
proof (induction str arbitrary: n)
  case (Cons c str)
  have "n \<le> n * radix + dv c" using Cons.prems by (simp add: trans_le_add1)
  also have "\<dots> \<le> extend radix (n * radix + dv c) str" by (rule Cons.IH [OF Cons.prems])
  finally show ?case by simp
qed simp

definition in_limit :: "nat \<Rightarrow> bool \<Rightarrow> nat \<Rightarrow> bool" where
  "in_limit L neg n \<longleftrightarrow> n < L \<or> (neg \<and> n = L)"

lemma in_limit_mono: "in_limit L neg n \<Longrightarrow> m \<le> n \<Longrightarrow> in_limit L neg m"
  by (auto simp: in_limit_def)

text \<open>The guard before a digit is appended, of both parsers.\<close>

lemma overflow_guard:
  fixes n :: nat
  assumes "i < r"
  shows "(L div r < n \<or> (n = L div r \<and> (L mod r < i \<or> (i = L mod r \<and> \<not> neg)))) \<longleftrightarrow>
    \<not> in_limit L neg (n * r + i)"
proof -
  define q m where "q = L div r" and "m = L mod r"
  have L: "L = q * r + m" "m < r" using assms by (simp_all add: q_def m_def)
  consider "n < q" | "n = q" | "q < n" by linarith
  then show ?thesis unfolding q_def [symmetric] m_def [symmetric]
  proof cases
    case 1
    then have "(n + 1) * r \<le> q * r" by (intro mult_right_mono) auto
    then have "n * r + i < L" using assms L by simp
    then show "(q < n \<or> (n = q \<and> (m < i \<or> (i = m \<and> \<not> neg)))) \<longleftrightarrow> \<not> in_limit L neg (n * r + i)"
      using 1 by (simp add: in_limit_def)
  next
    case 2
    then show "(q < n \<or> (n = q \<and> (m < i \<or> (i = m \<and> \<not> neg)))) \<longleftrightarrow> \<not> in_limit L neg (n * r + i)"
      using L by (auto simp: in_limit_def)
  next
    case 3
    then have "(q + 1) * r \<le> n * r" by (intro mult_right_mono) auto
    then have "L < n * r + i" using L by simp
    then show "(q < n \<or> (n = q \<and> (m < i \<or> (i = m \<and> \<not> neg)))) \<longleftrightarrow> \<not> in_limit L neg (n * r + i)"
      using 3 by (simp add: in_limit_def)
  qed
qed

definition cache_for :: "u32 \<Rightarrow> str_cache \<Rightarrow> bool" where
  "cache_for radix s \<longleftrightarrow> wf64 (preq s) \<and> uval (preq s) = 2 ^ 63 div unat radix \<and>
     unat (prem s) = 2 ^ 63 mod unat radix"

lemma mul_add_16:
  assumes "wf64 a" "unat (radix :: u32) \<le> 36" "unat (i :: u32) \<le> 99" "uval a * unat radix + unat i < 2 ^ 64"
  shows "wf64 (int_64_add_16 (int_64_umul_16 a (ucast radix)) (ucast i))"
    "uval (int_64_add_16 (int_64_umul_16 a (ucast radix)) (ucast i)) = uval a * unat radix + unat i"
proof -
  define r16 i16 :: u16 where "r16 = ucast radix" and "i16 = ucast i"
  have u: "unat r16 = unat radix" using assms(2) unfolding r16_def by (rule unat_radix_16)
  have ui: "unat i16 = unat i" using assms(3) by (simp add: i16_def unat_ucast_32_16)
  then have "\<not> bit i16 15"
    using assms(3) by (simp add: bit_iff_odd_drop_bit flip: even_unat_iff) (simp add: unat_drop_bit_div)
  then have "bit (scast i16 :: u32) n = bit (ucast i16 :: u32) n" for n
    by (cases "n < 15"; cases "n = 15")
      (auto simp: bit_signed_iff bit_unsigned_iff min_def dest: bit_imp_le_length)
  then have "scast i16 = (ucast i16 :: u32)" by (intro bit_word_eqI) simp
  then have vi: "uval (int_32_to_int_64 (scast i16)) = unat i" using ui by (simp add: uval_u16)
  have vr: "uval (int_32_to_int_64 (ucast r16)) = unat radix" using u by (simp add: uval_u16)
  have m: "wf64 (int_64_umul_16 a r16)" "i64 (int_64_umul_16 a r16) = i64 a * i64 (int_32_to_int_64 (ucast r16))"
    using umul_correct [OF assms(1) wf64_int_32, of "ucast r16"] by (simp_all add: int_64_umul_16_def)
  show w: "wf64 (int_64_add_16 (int_64_umul_16 a (ucast radix)) (ucast i))"
    by (simp add: int_64_add_16_def)
  have "unat (i64 (int_64_add_16 (int_64_umul_16 a r16) i16)) = (uval a * unat radix mod 2 ^ 64 + unat i) mod 2 ^ 64"
    using m assms(1) vi vr by (simp add: int_64_add_16_def i64_add unat_word_ariths unat_i64)
  also have "\<dots> = uval a * unat radix + unat i" using assms(4) by simp
  finally show "uval (int_64_add_16 (int_64_umul_16 a (ucast radix)) (ucast i)) = uval a * unat radix + unat i"
    using unat_i64 [OF w] by (simp add: r16_def i16_def)
qed

lemma less_u32: "(x < y) = (unat (x :: u32) < unat y)" and le_u32: "(x \<le> y) = (unat (x :: u32) \<le> unat y)"
  and eq_u32: "(x = y) = (unat (x :: u32) = unat y)"
  by (simp_all add: word_less_nat_alt word_le_nat_alt word_unat_eq_iff)

lemma gt_uval: "wf64 a \<Longrightarrow> wf64 b \<Longrightarrow> int_64_gt a b \<longleftrightarrow> uval b < uval a"
  by (simp add: int_64_gt_def cmp_unsigned word_less_nat_alt unat_i64)

lemma eq_uval: "wf64 a \<Longrightarrow> wf64 b \<Longrightarrow> int_64_eq a b \<longleftrightarrow> uval a = uval b"
  by (simp add: eq_iff word_unat_eq_iff unat_i64)

lemma sint_of_limit:
  assumes "wf64 a" "in_limit (2 ^ 63) neg (uval a)"
  shows "sint (i64 (if neg then int_64_neg a else a)) = (if neg then - int (uval a) else int (uval a))"
proof -
  have i: "i64 a = of_int (int (uval a))" using assms(1) by (simp add: i64_uval)
  show ?thesis
  proof (cases neg)
    case True
    then have "i64 (int_64_neg a) = of_int (- int (uval a))" using assms(1) i by (simp add: i64_neg)
    moreover have "sint (of_int (- int (uval a)) :: 64 word) = - int (uval a)"
      using assms(2) by (intro sint_of_int_64) (auto simp: in_limit_def)
    ultimately show ?thesis using True by simp
  next
    case False
    then have "sint (of_int (int (uval a)) :: 64 word) = int (uval a)"
      using assms(2) by (intro sint_of_int_64) (auto simp: in_limit_def)
    then show ?thesis using False i by simp
  qed
qed

definition loop_result :: "nat \<Rightarrow> bool \<Rightarrow> nat \<Rightarrow> u8 list \<Rightarrow> parse_result \<Rightarrow> bool" where
  "loop_result radix neg n str res \<longleftrightarrow>
     (case res of
        NO \<Rightarrow> \<not> ((\<forall>c \<in> set str. dv c < radix) \<and> in_limit (2 ^ 63) neg (extend radix n str))
      | YES v \<Rightarrow> (\<forall>c \<in> set str. dv c < radix) \<and> in_limit (2 ^ 63) neg (extend radix n str) \<and> wf64 v \<and>
          sint (i64 v) = (if neg then - int (extend radix n str) else int (extend radix n str)))"

lemma loop_result_Cons:
  "dv c < radix \<Longrightarrow> loop_result radix neg n (c # str) res = loop_result radix neg (n * radix + dv c) str res"
  by (cases res) (simp_all add: loop_result_def)

lemma int_64_loop_correct:
  assumes r: "2 \<le> unat radix" "unat radix \<le> 36" and s: "cache_for radix s"
    and "wf64 accum" "in_limit (2 ^ 63) neg (uval accum)" "\<forall>c \<in> set str. unat c < 128"
  shows "\<exists>res. int_64_loop str radix neg s accum = Some res \<and>
    loop_result (unat radix) neg (uval accum) str res"
  using assms(4-6)
proof (induction str arbitrary: accum)
  case Nil
  then show ?case using sint_of_limit [of accum neg] by (auto simp: loop_result_def)
next
  case (Cons c str)
  define i :: u32 where "i = ucast (digit_values ! unat c)"
  have di: "digit_value c = Some i" using Cons.prems(3) by (simp add: digit_value_def i_def)
  have ui: "unat i = dv c" by (simp add: i_def dv_def)
  have i99: "unat i \<le> 99" using digit_values_le [of c] ui by (simp add: dv_def)
  define n where "n = uval accum * unat radix + dv c"
  define bad where "bad \<longleftrightarrow> int_64_gt accum (preq s) \<or>
      (int_64_eq accum (preq s) \<and> (i > ucast (prem s) \<or> (i = ucast (prem s) \<and> \<not> neg)))"
  define a' where "a' = int_64_add_16 (int_64_umul_16 accum (ucast radix)) (ucast i)"
  have loop: "int_64_loop (c # str) radix neg s accum =
      (if i \<ge> radix then Some NO else if bad then Some NO
       else if int_64_gt accum a' then Some NO else int_64_loop str radix neg s a')"
    by (simp only: int_64_loop.simps di option.case bad_def a'_def Let_def)
  have mono: "n \<le> extend (unat radix) n str" using r by (intro extend_mono) simp
  show ?case
  proof (cases "dv c < unat radix")
    case False
    then have "int_64_loop (c # str) radix neg s accum = Some NO"
      unfolding loop using ui by (simp add: le_u32)
    then show ?thesis using False by (simp add: loop_result_def)
  next
    case True
    have bad: "bad \<longleftrightarrow> \<not> in_limit (2 ^ 63) neg n"
      using overflow_guard [OF True, of "2 ^ 63" "uval accum" neg] Cons.prems(1) s ui
      unfolding bad_def n_def by (simp add: cache_for_def gt_uval eq_uval less_u32 eq_u32)
    show ?thesis
    proof (cases "in_limit (2 ^ 63) neg n")
      case False
      then have "int_64_loop (c # str) radix neg s accum = Some NO" unfolding loop using bad by simp
      moreover have "\<not> in_limit (2 ^ 63) neg (extend (unat radix) n str)"
        using False mono in_limit_mono by blast
      ultimately show ?thesis by (simp add: n_def loop_result_def)
    next
      case lim: True
      then have "n < 2 ^ 64" by (auto simp: in_limit_def)
      then have a': "wf64 a'" "uval a' = n"
        using mul_add_16 [OF Cons.prems(1) r(2) i99] ui by (simp_all add: a'_def n_def)
      have "uval accum \<le> n" using r by (simp add: n_def trans_le_add1)
      then have ngt: "\<not> int_64_gt accum a'" using Cons.prems(1) a' by (simp add: gt_uval)
      have "int_64_loop (c # str) radix neg s accum = int_64_loop str radix neg s a'"
        unfolding loop using True lim bad ngt ui by (simp add: le_u32)
      moreover have "\<exists>res. int_64_loop str radix neg s a' = Some res \<and>
          loop_result (unat radix) neg n str res"
        using Cons.prems(3) a' lim Cons.IH [of a'] by simp
      ultimately show ?thesis using True by (simp only: n_def loop_result_Cons)
    qed
  qed
qed

subsection \<open>Reference parser\<close>

definition text_digits :: "u8 list \<Rightarrow> u8 list" where
  "text_digits str = (case str of [] \<Rightarrow> [] | c # cs \<Rightarrow> if c = 0x2D \<or> c = 0x2B then cs else str)"

definition text_neg :: "u8 list \<Rightarrow> bool" where
  "text_neg str = (case str of [] \<Rightarrow> False | c # cs \<Rightarrow> c = 0x2D)"

definition ref_parse :: "nat \<Rightarrow> int \<Rightarrow> u8 list \<Rightarrow> int option" where
  "ref_parse radix limit str =
     (let ds = map dv (text_digits str);
          v = (if text_neg str then - int (number radix ds) else int (number radix ds))
      in if ds \<noteq> [] \<and> list_all (\<lambda>d. d < radix) ds \<and> - limit \<le> v \<and> v < limit then Some v else None)"

lemma extend_number: "extend radix 0 str = number radix (map dv str)"
  by (simp add: extend_def number_def foldl_map)

lemma in_limit_int: "in_limit L neg n \<longleftrightarrow> - int L \<le> (if neg then - int n else int n) \<and> (if neg then - int n else int n) < int L \<or> (neg \<and> n = 0 \<and> L = 0)"
  by (auto simp: in_limit_def)

fun parse_gives :: "parse_result \<Rightarrow> int option \<Rightarrow> bool" where
  "parse_gives NO r = (r = None)"
| "parse_gives (YES v) r = (wf64 v \<and> r = Some (sint (i64 v)))"

lemma loop_result_ref:
  assumes "text_digits str \<noteq> []"
  shows "loop_result radix (text_neg str) 0 (text_digits str) res \<longleftrightarrow>
    parse_gives res (ref_parse radix (2 ^ 63) str)"
proof -
  have "in_limit (2 ^ 63) (text_neg str) n \<longleftrightarrow> - (2 ^ 63) \<le> (if text_neg str then - int n else int n) \<and>
      (if text_neg str then - int n else int n) < 2 ^ 63" for n
    unfolding in_limit_int by simp
  then show ?thesis using assms
    by (cases res) (auto simp: loop_result_def ref_parse_def Let_def extend_number list_all_iff)
qed

definition cache_ok :: "str_cache \<Rightarrow> bool" where
  "cache_ok s \<longleftrightarrow> q_cache s = 0 \<or> cache_for (q_cache s) s"

lemma fill_cache_ok:
  assumes "cache_ok s" "2 \<le> unat radix" "unat radix \<le> 36"
  shows "cache_for radix (fill_cache radix s)" "cache_ok (fill_cache radix s)"
proof -
  have q: "q_cache (fill_cache radix s) = radix" by (simp add: fill_cache_def Let_def)
  show "cache_for radix (fill_cache radix s)"
  proof (cases "q_cache s = radix")
    case True
    moreover have "radix \<noteq> 0" using assms(2) by auto
    ultimately show ?thesis using assms(1) by (simp add: fill_cache_def cache_ok_def)
  next
    case False
    have u: "uval \<lparr>digits = [0x8000, 0, 0, 0]\<rparr> = 9223372036854775808" by (simp add: uval_lit)
    have "9223372036854775808 mod unat radix < unat radix" using assms(2) by (intro mod_less_divisor) simp
    then have m: "9223372036854775808 mod unat radix < 37" using assms(3) by linarith
    note d = divu_16 [of "\<lparr>digits = [0x8000, 0, 0, 0]\<rparr>" radix, unfolded u]
    have "unat (int_64_to_int_32 (remainder (int_64_divu_16 \<lparr>digits = [0x8000, 0, 0, 0]\<rparr> (ucast radix))))
        = 9223372036854775808 mod unat radix"
      using d assms m by (simp add: unat_to_int_32)
    then show ?thesis using False d assms m
      by (simp add: fill_cache_def cache_for_def Let_def unat_ucast_32_16)
  qed
  then show "cache_ok (fill_cache radix s)" using q by (simp add: cache_ok_def)
qed

lemma initial_cache_ok: "cache_ok initial_cache"
  by (simp add: cache_ok_def initial_cache_def)

lemma parse_sign_text:
  assumes "str \<noteq> []" "0 < len"
  shows "\<exists>k. parse_sign str = Some (k, text_neg (take len str)) \<and>
    drop k (take len str) = text_digits (take len str) \<and>
    (len \<le> length str \<longrightarrow> (len \<le> k) = (text_digits (take len str) = []))"
  using assms by (cases str; cases len)
    (auto simp: parse_sign_def text_neg_def text_digits_def Suc_le_eq)

text \<open>C7: \<open>string_to_int_64\<close> on ASCII text, for every radix from 2 to 36 and whatever the previous call left
  in its cache: it accepts exactly the texts of an optional sign and at least one digit of the
  radix whose value is a signed 64-bit integer, with that value, and leaves a valid cache.\<close>

lemma string_to_int_64_correct:
  assumes "2 \<le> unat radix" "unat radix \<le> 36" "cache_ok s" "str \<noteq> []" "len \<le> length str"
    and "\<forall>c \<in> set (take len str). unat c < 128"
  shows "\<exists>res s'. string_to_int_64 str len radix s = Some (res, s') \<and> cache_ok s' \<and>
    parse_gives res (ref_parse (unat radix) (2 ^ 63) (take len str))"
proof (cases "len = 0")
  case True
  then show ?thesis using assms fill_cache_ok [OF assms(3,1,2)]
    by (auto simp: string_to_int_64_def parse_sign_def ref_parse_def text_digits_def Let_def split: list.split)
next
  case False
  define t where "t = take len str"
  define s' where "s' = fill_cache radix s"
  have s': "cache_for radix s'" "cache_ok s'" using fill_cache_ok [OF assms(3,1,2)] by (simp_all add: s'_def)
  obtain k where k: "parse_sign str = Some (k, text_neg t)" "drop k t = text_digits t" "(len \<le> k) = (text_digits t = [])"
    using parse_sign_text [OF assms(4), of len] False assms(5) by (auto simp: t_def)
  have eq: "string_to_int_64 str len radix s = (if text_digits t = [] then Some (NO, s')
      else map_option (\<lambda>r. (r, s')) (int_64_loop (text_digits t) radix (text_neg t) s' INT_64_zero))"
    using k assms(5) by (simp add: string_to_int_64_def s'_def [symmetric] t_def [symmetric] Let_def
        map_conv_bind_option comp_def)
  show ?thesis
  proof (cases "text_digits t = []")
    case True
    then show ?thesis using s' eq by (simp add: t_def ref_parse_def)
  next
    case ne: False
    have "set (text_digits t) \<subseteq> set t" using k(2) by (metis set_drop_subset)
    then have "\<forall>c \<in> set (text_digits t). unat c < 128" using assms(6) by (auto simp: t_def)
    moreover have "uval INT_64_zero = 0" by (simp add: INT_64_zero_def uval_lit)
    ultimately obtain res where "int_64_loop (text_digits t) radix (text_neg t) s' INT_64_zero = Some res"
        "loop_result (unat radix) (text_neg t) 0 (text_digits t) res"
      using int_64_loop_correct [OF assms(1,2) s'(1), of INT_64_zero "text_neg t" "text_digits t"]
      by (auto simp: in_limit_def)
    then show ?thesis using ne s' eq loop_result_ref [OF ne, of "unat radix" res] by (auto simp: t_def [symmetric])
  qed
qed

lemma string_to_int_64_correct_witness:
  "\<exists>v s'. string_to_int_64 [0x2D, 0x37, 0x46, 0] 3 16 initial_cache = Some (YES v, s') \<and> sint (i64 v) = - 127"
proof -
  have *: "ref_parse 16 9223372036854775808 [0x2D, 0x37, 0x46] = Some (- 127)"
    by code_simp
  obtain res s' where "string_to_int_64 [0x2D, 0x37, 0x46, 0] 3 16 initial_cache = Some (res, s')"
    "parse_gives res (ref_parse 16 9223372036854775808 [0x2D, 0x37, 0x46])"
    using string_to_int_64_correct [of 16 initial_cache "[0x2D, 0x37, 0x46, 0]" 3] initial_cache_ok by auto
  then show ?thesis using * by (cases res) auto
qed

section \<open>Round trip\<close>

lemma dv_value_digits: "i < 36 \<Longrightarrow> dv (value_digits ! i) = i"
  by (simp add: dv_def digit_of_value take_bit_eq_mod unsigned_of_nat)

lemma map_dv_digits_text:
  assumes "2 \<le> radix" "radix \<le> 36"
  shows "map dv (digits_text radix n) = (if n = 0 then [0] else digs radix n)"
    "\<forall>c \<in> set (digits_text radix n). c \<noteq> 0x2D \<and> c \<noteq> 0x2B \<and> unat c < 128"
proof -
  have "i < 36" if "i \<in> set (if n = 0 then [0] else digs radix n)" for i
    using that digs_less [of i radix n] assms by (auto split: if_splits)
  then show "map dv (digits_text radix n) = (if n = 0 then [0] else digs radix n)"
    "\<forall>c \<in> set (digits_text radix n). c \<noteq> 0x2D \<and> c \<noteq> 0x2B \<and> unat c < 128"
    by (auto simp: digits_text_def dv_value_digits digit_of_value value_digits_0 dv_value_digits [of 0, unfolded value_digits_0]
        intro!: map_idI)
qed

lemma digits_text_nonempty: "2 \<le> radix \<Longrightarrow> digits_text radix n \<noteq> []"
  by (simp add: digits_text_def digs_nonempty)

lemma ref_parse_int_text:
  assumes "2 \<le> radix" "radix \<le> 36" "- limit \<le> i" "i < limit"
  shows "ref_parse radix limit (int_text radix i) = Some i"
proof -
  have m: "number radix (map dv (digits_text radix n)) = n" "list_all (\<lambda>d. d < radix) (map dv (digits_text radix n))" for n
    using assms(1,2) digs_less [of _ radix n]
    by (auto simp: map_dv_digits_text(1) number_digs number_single list_all_iff)
  have pos: "text_digits (digits_text radix n) = digits_text radix n" "\<not> text_neg (digits_text radix n)" for n
    using map_dv_digits_text(2) [OF assms(1,2), of n]
    by (auto simp: text_digits_def text_neg_def split: list.splits)
  show ?thesis
    using assms m pos digits_text_nonempty [OF assms(1)]
    by (auto simp: ref_parse_def int_text_def Let_def) (auto simp: text_digits_def text_neg_def)
qed

lemma int_text_bytes:
  assumes "2 \<le> radix" "radix \<le> 36"
  shows "int_text radix i \<noteq> []" "\<forall>c \<in> set (int_text radix i). unat c < 128"
  using map_dv_digits_text(2) [OF assms] digits_text_nonempty [OF assms(1)]
  by (auto simp: int_text_def)

text \<open>C25: printing a 64-bit integer in a radix from 2 to 36 ends, writes at most 67 bytes with the
  terminator (the callers provide 70), and parsing the text gives the same integer back.\<close>

lemma int_64_roundtrip:
  assumes "wf64 a" "2 \<le> unat radix" "unat radix \<le> 36" "cache_ok s"
  shows "\<exists>tx s'. int_64_to_string a radix = Some (tx @ [0]) \<and> length (tx @ [0]) \<le> 66 \<and>
    string_to_int_64 (tx @ [0]) (length tx) radix s = Some (YES a, s') \<and> cache_ok s'"
proof -
  define tx where "tx = int_text (unat radix) (sint (i64 a))"
  have r: "- (2 ^ 63) \<le> sint (i64 a)" "sint (i64 a) < 2 ^ 63" using sint_64_range by simp_all
  have p: "ref_parse (unat radix) (2 ^ 63) tx = Some (sint (i64 a))"
    unfolding tx_def using assms(2,3) r by (rule ref_parse_int_text)
  have len: "length tx \<le> 65" unfolding tx_def using length_int_text [OF assms(2), of 63 "sint (i64 a)"] r by simp
  obtain res s' where res: "string_to_int_64 (tx @ [0]) (length tx) radix s = Some (res, s')" "cache_ok s'"
      "parse_gives res (ref_parse (unat radix) (2 ^ 63) tx)"
    using string_to_int_64_correct [OF assms(2,3,4), of "tx @ [0]" "length tx"] int_text_bytes [OF assms(2,3)]
    by (auto simp: tx_def)
  have "res = YES a"
  proof (cases res)
    case (YES v)
    then have "sint (i64 v) = sint (i64 a)" "wf64 v" using res(3) p by simp_all
    then have "(of_int (sint (i64 v)) :: 64 word) = of_int (sint (i64 a))" by (simp only:)
    then have "v = a" using \<open>wf64 v\<close> assms(1) by (auto intro: i64_inj)
    then show ?thesis using YES by simp
  qed (use res p in simp)
  then show ?thesis
    using res(1,2) len int_64_to_string_text [OF assms(1-3)] by (auto simp: tx_def)
qed

lemma int_64_roundtrip_witness:
  "\<exists>tx s'. int_64_to_string \<lparr>digits = [0x8000, 0, 0, 0]\<rparr> 36 = Some (tx @ [0]) \<and>
     string_to_int_64 (tx @ [0]) (length tx) 36 initial_cache = Some (YES \<lparr>digits = [0x8000, 0, 0, 0]\<rparr>, s')"
  using int_64_roundtrip [of "\<lparr>digits = [0x8000, 0, 0, 0]\<rparr>" 36 initial_cache] initial_cache_ok by auto

section \<open>Fixnums\<close>

lemma fixnum_loop_correct:
  assumes r: "2 \<le> unat radix" "unat radix \<le> 36"
    and "in_limit (2 ^ 29) neg (unat v)"
  shows "fixnum_loop str radix neg (push_bit 29 1 div radix) (push_bit 29 1 mod radix) v =
    (if (\<forall>c \<in> set str. dv c < unat radix) \<and> in_limit (2 ^ 29) neg (extend (unat radix) (unat v) str)
     then Some (of_nat (extend (unat radix) (unat v) str)) else None)"
  using assms(3)
proof (induction str arbitrary: v)
  case (Cons c str)
  define i :: u32 where "i = ucast (digit_values ! unat c)"
  have ui: "unat i = dv c" by (simp add: i_def dv_def)
  define n where "n = unat v * unat radix + dv c"
  have pq: "unat (push_bit 29 1 div radix) = 2 ^ 29 div unat radix" "unat (push_bit 29 1 mod radix) = 2 ^ 29 mod unat radix"
    by (simp_all add: unat_div unat_mod)
  have mono: "n \<le> extend (unat radix) n str" using r by (intro extend_mono) simp
  define bad where "bad \<longleftrightarrow> v > push_bit 29 1 div radix \<or>
      (v = push_bit 29 1 div radix \<and> (i > push_bit 29 1 mod radix \<or> (i = push_bit 29 1 mod radix \<and> \<not> neg)))"
  have loop: "fixnum_loop (c # str) radix neg (push_bit 29 1 div radix) (push_bit 29 1 mod radix) v =
      (if i \<ge> radix then None else if bad then None
       else fixnum_loop str radix neg (push_bit 29 1 div radix) (push_bit 29 1 mod radix) (v * radix + i))"
    by (simp only: fixnum_loop.simps bad_def i_def Let_def)
  show ?case
  proof (cases "dv c < unat radix")
    case False
    then show ?thesis unfolding loop using ui by (simp add: le_u32)
  next
    case True
    have bad: "bad \<longleftrightarrow> \<not> in_limit (2 ^ 29) neg n"
      using overflow_guard [OF True, of "2 ^ 29" "unat v" neg] ui
      unfolding bad_def n_def by (simp only: less_u32 eq_u32 pq)
    show ?thesis
    proof (cases "in_limit (2 ^ 29) neg n")
      case False
      moreover have "\<not> in_limit (2 ^ 29) neg (extend (unat radix) n str)"
        using False mono in_limit_mono by blast
      ultimately show ?thesis unfolding loop using bad by (simp add: n_def)
    next
      case lim: True
      then have "n < 4294967296" by (auto simp: in_limit_def)
      then have v': "unat (v * radix + i) = n" using ui by (simp add: n_def unat_word_ariths mod_simps)
      then show ?thesis unfolding loop using True lim bad ui Cons.IH [of "v * radix + i"]
        by (simp add: le_u32 n_def)
    qed
  qed
qed simp

text \<open>\<open>string_to_fixnum\<close>, on any bytes, for every radix from 2 to 36: it gives the fixnum of the value exactly
  for the texts of an optional sign and at least one digit whose value fits in a fixnum, and
  false for every other text.\<close>

lemma string_to_fixnum_correct:
  assumes "2 \<le> unat radix" "unat radix \<le> 36" "str \<noteq> []" "len \<le> length str"
  shows "string_to_fixnum str len radix =
    Some (case ref_parse (unat radix) (2 ^ 29) (take len str) of
            None \<Rightarrow> FALSE_OBJ | Some v \<Rightarrow> int2fx (of_int v))"
proof (cases "len = 0")
  case True
  then show ?thesis using assms
    by (auto simp: string_to_fixnum_def parse_sign_def ref_parse_def text_digits_def Let_def split: list.split)
next
  case False
  define t where "t = take len str"
  have r0: "radix \<noteq> 0" using assms(1) by auto
  obtain k where k: "parse_sign str = Some (k, text_neg t)" "drop k t = text_digits t" "(len \<le> k) = (text_digits t = [])"
    using parse_sign_text [OF assms(3), of len] False assms(4) by (auto simp: t_def)
  define n where "n = number (unat radix) (map dv (text_digits t))"
  have loop: "fixnum_loop (text_digits t) radix (text_neg t) (push_bit 29 1 div radix) (push_bit 29 1 mod radix) 0 =
      (if (\<forall>c \<in> set (text_digits t). dv c < unat radix) \<and> in_limit (2 ^ 29) (text_neg t) n then Some (of_nat n) else None)"
    using fixnum_loop_correct [OF assms(1,2), of "text_neg t" 0 "text_digits t"]
    by (simp only: unat_0 extend_number n_def) (simp add: in_limit_def)
  have lim: "in_limit (2 ^ 29) (text_neg t) n \<longleftrightarrow> - (2 ^ 29) \<le> (if text_neg t then - int n else int n) \<and>
      (if text_neg t then - int n else int n) < 2 ^ 29"
    unfolding in_limit_int by simp
  have "string_to_fixnum str len radix = Some (if text_digits t = [] then FALSE_OBJ
     else case fixnum_loop (text_digits t) radix (text_neg t) (push_bit 29 1 div radix) (push_bit 29 1 mod radix) 0 of
              None \<Rightarrow> FALSE_OBJ
            | Some v \<Rightarrow> int2fx (if text_neg t then - v else v))"
    using k assms(4) r0 by (simp add: string_to_fixnum_def t_def [symmetric] Let_def split: option.split)
  also have "\<dots> = Some (case ref_parse (unat radix) (2 ^ 29) t of None \<Rightarrow> FALSE_OBJ | Some v \<Rightarrow> int2fx (of_int v))"
    unfolding loop ref_parse_def Let_def n_def [symmetric] lim
    by (auto simp: list_all_iff split: option.splits if_splits)
  finally show ?thesis by (simp only: t_def)
qed

lemma string_to_fixnum_correct_witness:
  "string_to_fixnum [0x2D, 0x37, 0x46, 0] 3 16 = Some (int2fx (- 127))"
proof -
  have "ref_parse 16 536870912 [0x2D, 0x37, 0x46] = Some (- 127)"
    by code_simp
  then show ?thesis
    using string_to_fixnum_correct [of 16 "[0x2D, 0x37, 0x46, 0]" 3] by simp
qed

lemma fixnum_digits_correct:
  assumes "unat v < 2147483648" "2 \<le> unat radix" "unat radix \<le> 36"
  shows "fixnum_digits v radix buffer = Some (map ((!) value_digits) (digs (unat radix) (unat v)) @ buffer)"
  using assms(1)
proof (induction "unat v" arbitrary: v buffer rule: less_induct)
  case less
  have pos: "sint v > 0 \<longleftrightarrow> unat v \<noteq> 0" using less.prems by (simp add: sint_u32 del: of_nat_unat)
  show ?case
  proof (cases "unat v = 0")
    case True
    then show ?thesis using pos
      by (subst fixnum_digits.simps) (simp add: digs.simps)
  next
    case False
    have d: "unat (v div radix) = unat v div unat radix" "unat (v mod radix) = unat v mod unat radix"
      by (simp_all add: unat_div unat_mod)
    have "unat v mod unat radix < unat radix" using assms(2) by simp
    then have m37: "unat v mod unat radix < 37" using assms(3) by linarith
    have r0: "radix \<noteq> 0" using assms(2) by auto
    have lt: "unat (v div radix) < unat v" using False assms(2) d by simp
    then have "unat (v div radix) < 2147483648" using less.prems by simp
    from less.hyps [OF lt this] show ?thesis
      using False pos m37 d r0 assms(2)
      unfolding fixnum_digits.simps [of v radix buffer] digs.simps [of "unat radix" "unat v"]
      by simp
  qed
qed

text \<open>Printing a fixnum in a radix from 2 to 36 ends, writes at most 32 bytes with the terminator,
  and parsing the text gives the same fixnum.\<close>

lemma fixnum_roundtrip:
  assumes "FIXNUM_P w" "2 \<le> unat radix" "unat radix \<le> 36"
  shows "\<exists>t. fixnum_to_string w radix = Some (t @ [0]) \<and> length (t @ [0]) \<le> 32 \<and>
    string_to_fixnum (t @ [0]) (length t) radix = Some w"
proof -
  define v where "v = fx2int w"
  define t where "t = int_text (unat radix) (sint v)"
  have f: "fits_fixnum (sint v)" unfolding v_def by (rule fixnum_fits)
  note r = fits_bounds [OF f]
  have p: "ref_parse (unat radix) (2 ^ 29) t = Some (sint v)"
    unfolding t_def using assms(2,3) r by (intro ref_parse_int_text) simp_all
  have len: "length t \<le> 31" unfolding t_def using length_int_text [OF assms(2), of 29 "sint v"] r by simp
  have "fixnum_to_string w radix = Some (t @ [0])"
  proof (cases "sint v < 0")
    case True
    have u: "int (unat (- v)) = - sint v"
    proof -
      have "sint (- v) = - sint v"
      proof -
        have "- v = of_int (- sint v)" by simp
        then have "sint (- v) = sint (of_int (- sint v) :: u32)" by (rule arg_cong)
        also have "\<dots> = - sint v" using r by (intro sint_of_int_32) linarith+
        finally show ?thesis .
      qed
      then show ?thesis using True unat_u32_less [of "- v"] by (auto simp: sint_u32 [of "- v"] simp del: of_nat_unat split: if_splits)
    qed
    then have "unat (- v) = nat (- sint v)" by (simp only: nat_int flip: u)
    moreover have "v \<noteq> 0" using True by auto
    moreover have "nat (- sint v) < 2147483648" using r by linarith
    ultimately show ?thesis using True fixnum_digits_correct [OF _ assms(2,3), of "- v" "[0]"]
      by (simp add: fixnum_to_string_def v_def [symmetric] t_def int_text_def digits_text_def Let_def)
  next
    case False
    then have u': "int (unat v) = sint v" using unat_u32_less [of v] by (auto simp: sint_u32 simp del: of_nat_unat split: if_splits)
    have u: "unat v = nat (sint v)" by (simp only: nat_int flip: u')
    have z: "v = 0 \<longleftrightarrow> nat (sint v) = 0" unfolding u [symmetric] by (simp add: unat_eq_zero)
    have "nat (sint v) < 2147483648" using r by linarith
    then show ?thesis using False u z fixnum_digits_correct [OF _ assms(2,3), of v "[0]"]
      by (auto simp: fixnum_to_string_def v_def [symmetric] t_def int_text_def digits_text_def value_digits_0 Let_def)
  qed
  moreover have "string_to_fixnum (t @ [0]) (length t) radix = Some w"
    using string_to_fixnum_correct [OF assms(2,3), of "t @ [0]" "length t"] p assms(1)
    by (simp add: v_def int2fx_fx2int)
  ultimately show ?thesis using len by auto
qed

lemma fixnum_roundtrip_witness:
  "\<exists>t. fixnum_to_string (int2fx (- 255)) 16 = Some (t @ [0]) \<and>
     string_to_fixnum (t @ [0]) (length t) 16 = Some (int2fx (- 255))"
  using fixnum_roundtrip [of "int2fx (- 255)" 16] by auto

end
