(* ===== verification/Dequeue.thy ===== *)
theory Dequeue
  imports Obj "HOL-Library.Monad_Syntax"
begin

text \<open>
  The double-ended queue of \<^verbatim>\<open>handc/runtime/dequeue.c\<close>: a circular buffer in a vector, with
  the slots of the first item (\<open>FRONT\<close>) and after the last one (\<open>BACK\<close>).  The C keeps \<open>FRONT\<close>
  and \<open>BACK\<close> as fixnums whose words are byte offsets of slots; here they are slot numbers,
  and the vector is the list of its slots.  Its loops test for equality with an end slot, so a
  state whose \<open>BACK\<close> lies outside the vector makes them run forever: they are partial functions,
  and the theorems show that they return on every state that represents a list.
\<close>

section \<open>The code\<close>

record dequeue =
  STATE :: "u32 list"
  FRONT :: nat
  BACK :: nat

datatype deq_error = Dequeue_is_empty string

definition make_dequeue :: dequeue where
  "make_dequeue = \<lparr>STATE = replicate 5 FALSE_OBJ, FRONT = 0, BACK = 0\<rparr>"

definition dequeue_empty :: "dequeue \<Rightarrow> bool" where
  "dequeue_empty deq \<longleftrightarrow> FRONT deq = BACK deq"

definition dequeue_count :: "dequeue \<Rightarrow> int" where
  "dequeue_count deq =
     (let len = int (BACK deq) - int (FRONT deq)
      in if len < 0 then len + int (length (STATE deq)) else len)"

text \<open>The index is the number of a fixnum; \<open>None\<close> is the failed assertion that it is below the count.\<close>

definition offset_for_index :: "dequeue \<Rightarrow> nat \<Rightarrow> nat option" where
  "offset_for_index deq index =
     (if int index < dequeue_count deq then Some ((FRONT deq + index) mod length (STATE deq)) else None)"

definition dequeue_ref :: "dequeue \<Rightarrow> nat \<Rightarrow> u32 option" where
  "dequeue_ref deq index = map_option (\<lambda>offset. STATE deq ! offset) (offset_for_index deq index)"

definition dequeue_set :: "dequeue \<Rightarrow> nat \<Rightarrow> u32 \<Rightarrow> (u32 \<times> dequeue) option" where
  "dequeue_set deq index item =
     map_option (\<lambda>offset. (STATE deq ! offset, deq\<lparr>STATE := (STATE deq)[offset := item]\<rparr>)) (offset_for_index deq index)"

text \<open>\<^verbatim>\<open>i += SLOT(1); if (i >= lim) i = 0;\<close>\<close>

definition next_slot :: "nat \<Rightarrow> nat \<Rightarrow> nat" where
  "next_slot lim i = (if i + 1 \<ge> lim then 0 else i + 1)"

partial_function (option) copy_loop :: "u32 list \<Rightarrow> nat \<Rightarrow> nat \<Rightarrow> u32 list \<Rightarrow> u32 list option" where
  "copy_loop state i end result =
     (if i = end then Some result
      else copy_loop state (next_slot (length state) i) end (result @ [state ! i]))"

definition expanded_state :: "dequeue \<Rightarrow> nat \<Rightarrow> u32 list option" where
  "expanded_state deq expand =
     do {
       result \<leftarrow> copy_loop (STATE deq) (FRONT deq) (BACK deq) [];
       Some (result @ replicate expand FALSE_OBJ)
     }"

definition dequeue_state :: "dequeue \<Rightarrow> u32 list option" where
  "dequeue_state deq = expanded_state deq 0"

definition expand :: "dequeue \<Rightarrow> dequeue option" where
  "expand deq =
     do {
       let len = dequeue_count deq;
       let slen = length (STATE deq);
       s \<leftarrow> (if slen \<le> 10 then expanded_state deq 10 else expanded_state deq slen);
       Some \<lparr>STATE = s, FRONT = 0, BACK = nat len\<rparr>
     }"

definition succ :: "dequeue \<Rightarrow> nat \<Rightarrow> nat" where
  "succ deq i = (let i = i + 1 in if i = length (STATE deq) then 0 else i)"

definition pred :: "dequeue \<Rightarrow> nat \<Rightarrow> nat" where
  "pred deq i = (let i = (if i = 0 then length (STATE deq) else i) in i - 1)"

partial_function (option) dequeue_push_back :: "dequeue \<Rightarrow> u32 \<Rightarrow> dequeue option" where
  "dequeue_push_back deq item =
     (let oldb = BACK deq; newb = succ deq oldb
      in if newb = FRONT deq
         then Option.bind (expand deq) (\<lambda>deq. dequeue_push_back deq item)
         else Some (deq\<lparr>STATE := (STATE deq)[oldb := item], BACK := newb\<rparr>))"

partial_function (option) dequeue_push_front :: "dequeue \<Rightarrow> u32 \<Rightarrow> dequeue option" where
  "dequeue_push_front deq item =
     (let oldf = FRONT deq; newf = pred deq oldf
      in if newf = BACK deq
         then Option.bind (expand deq) (\<lambda>deq. dequeue_push_front deq item)
         else Some (deq\<lparr>STATE := (STATE deq)[newf := item], FRONT := newf\<rparr>))"

definition dequeue_pop_back :: "dequeue \<Rightarrow> deq_error + (u32 \<times> dequeue)" where
  "dequeue_pop_back deq =
     (if dequeue_empty deq then Inl (Dequeue_is_empty ''dequeue-pop-back!'')
      else let newb = pred deq (BACK deq);
               item = STATE deq ! newb
           in Inr (item, deq\<lparr>BACK := newb, STATE := (STATE deq)[newb := FALSE_OBJ]\<rparr>))"

definition dequeue_pop_front :: "dequeue \<Rightarrow> deq_error + (u32 \<times> dequeue)" where
  "dequeue_pop_front deq =
     (if dequeue_empty deq then Inl (Dequeue_is_empty ''dequeue-pop-front!'')
      else let oldf = FRONT deq;
               newf = succ deq oldf;
               item = STATE deq ! oldf
           in Inr (item, deq\<lparr>FRONT := newf, STATE := (STATE deq)[oldf := FALSE_OBJ]\<rparr>))"

partial_function (option) memq_loop :: "u32 list \<Rightarrow> nat \<Rightarrow> u32 \<Rightarrow> nat \<Rightarrow> nat \<Rightarrow> u32 option" where
  "memq_loop state b item i j =
     (if i \<noteq> b
      then if state ! i = item then Some (int2fx (of_nat j))
           else memq_loop state b item (next_slot (length state) i) (j + 1)
      else Some FALSE_OBJ)"

definition dequeue_memq :: "dequeue \<Rightarrow> u32 \<Rightarrow> u32 option" where
  "dequeue_memq deq item = memq_loop (STATE deq) (BACK deq) item (FRONT deq) 0"

text \<open>\<^verbatim>\<open>dequeue_delq\<close>: one pass that moves the items kept to the front, then one that clears
  the slots given up.\<close>

partial_function (option) delq_loop ::
    "nat \<Rightarrow> u32 \<Rightarrow> u32 list \<Rightarrow> nat \<Rightarrow> nat \<Rightarrow> nat \<Rightarrow> (u32 list \<times> nat \<times> nat) option" where
  "delq_loop b item state i newb n =
     (if i \<noteq> b
      then let x = state ! i
           in if x = item then delq_loop b item state (next_slot (length state) i) newb (n + 1)
              else delq_loop b item (state[newb := x]) (next_slot (length state) i)
                     (next_slot (length state) newb) n
      else Some (state, newb, n))"

partial_function (option) clear_loop :: "nat \<Rightarrow> u32 list \<Rightarrow> nat \<Rightarrow> u32 list option" where
  "clear_loop b state newb =
     (if newb \<noteq> b then clear_loop b (state[newb := FALSE_OBJ]) (next_slot (length state) newb)
      else Some state)"

definition dequeue_delq :: "dequeue \<Rightarrow> u32 \<Rightarrow> (nat \<times> dequeue) option" where
  "dequeue_delq deq item =
     do {
       (state, newb, n) \<leftarrow> delq_loop (BACK deq) item (STATE deq) (FRONT deq) (FRONT deq) 0;
       state \<leftarrow> clear_loop (BACK deq) state newb;
       Some (n, \<lparr>STATE = state, FRONT = FRONT deq, BACK = newb\<rparr>)
     }"

section \<open>The list a dequeue represents\<close>

text \<open>
  Read from \<open>FRONT\<close> on, the vector holds the items and then only \<open>FALSE_OBJ\<close>, of which there is at
  least one; so no slot outside the queue keeps an object alive.
\<close>

definition represents :: "dequeue \<Rightarrow> u32 list \<Rightarrow> bool" where
  "represents deq xs \<longleftrightarrow>
     FRONT deq < length (STATE deq) \<and> length xs < length (STATE deq) \<and>
     BACK deq = (FRONT deq + length xs) mod length (STATE deq) \<and>
     rotate (FRONT deq) (STATE deq) = xs @ replicate (length (STATE deq) - length xs) FALSE_OBJ"

lemma mod_add_inj:
  assumes "k < n" "i < n" "(f + k) mod n = (f + i) mod (n :: nat)"
  shows "k = i"
proof -
  have "a = b" if "a \<le> b" "b < n" "(f + b) mod n = (f + a) mod n" for a b
  proof -
    have "n dvd (f + b) - (f + a)" using that mod_eq_dvd_iff_nat [of "f + a" "f + b" n] by simp
    then have "n dvd b - a" by simp
    moreover have "b - a < n" using that by simp
    ultimately have "b - a = 0" using nat_dvd_not_less by blast
    then show ?thesis using that by simp
  qed
  from this [of k i] this [of i k] show ?thesis using assms by (cases "k \<le> i") auto
qed

lemma rotate_update:
  assumes "k < length s"
  shows "rotate f (s[(f + k) mod length s := v]) = (rotate f s)[k := v]"
proof (rule nth_equalityI)
  fix i assume "i < length (rotate f (s[(f + k) mod length s := v]))"
  then have i: "i < length s" by simp
  then have "(f + k) mod length s = (f + i) mod length s \<longleftrightarrow> k = i"
    using assms mod_add_inj by blast
  moreover have "(f + i) mod length s < length s" using i by (intro mod_less_divisor) linarith
  ultimately show "rotate f (s[(f + k) mod length s := v]) ! i = (rotate f s)[k := v] ! i"
    using i assms by (simp add: nth_rotate nth_list_update)
qed simp

lemma next_slot_mod: "i < lim \<Longrightarrow> next_slot lim i = (i + 1) mod lim"
  by (auto simp: next_slot_def mod_Suc)

lemma succ_mod: "i < length (STATE d) \<Longrightarrow> succ d i = (i + 1) mod length (STATE d)"
  by (simp add: succ_def Let_def mod_Suc)

lemma pred_mod: "i < length (STATE d) \<Longrightarrow> pred d i = (i + (length (STATE d) - 1)) mod length (STATE d)"
  by (cases i) (auto simp: pred_def Let_def le_mod_geq)

lemma representsD:
  assumes "represents deq xs"
  shows "FRONT deq < length (STATE deq)" "length xs < length (STATE deq)" "0 < length (STATE deq)"
    "BACK deq = (FRONT deq + length xs) mod length (STATE deq)" "BACK deq < length (STATE deq)"
    "rotate (FRONT deq) (STATE deq) = xs @ replicate (length (STATE deq) - length xs) FALSE_OBJ"
  using assms by (auto simp: represents_def intro: mod_less_divisor)

lemma rep_nth:
  assumes "represents deq xs" "k < length xs"
  shows "STATE deq ! ((FRONT deq + k) mod length (STATE deq)) = xs ! k"
  using representsD [OF assms(1)] assms(2) nth_rotate [of k "STATE deq" "FRONT deq"]
  by (simp add: nth_append)

lemma rep_count:
  assumes "represents deq xs"
  shows "dequeue_count deq = int (length xs)"
proof -
  define n where "n = length (STATE deq)"
  note d = representsD [OF assms, folded n_def]
  show ?thesis
  proof (cases "FRONT deq + length xs < n")
    case True
    then show ?thesis using d by (simp add: dequeue_count_def Let_def)
  next
    case False
    then have "(FRONT deq + length xs) mod n = FRONT deq + length xs - n"
      using d(1,2) by (simp add: le_mod_geq)
    then show ?thesis using d False by (simp add: dequeue_count_def Let_def n_def [symmetric])
  qed
qed

lemma rep_empty:
  assumes "represents deq xs"
  shows "dequeue_empty deq \<longleftrightarrow> xs = []"
proof -
  note d = representsD [OF assms]
  have "FRONT deq = (FRONT deq + length xs) mod length (STATE deq) \<longleftrightarrow> 0 = length xs"
    using mod_add_inj [of 0 "length (STATE deq)" "length xs" "FRONT deq"] d by auto
  then show ?thesis using d(4) by (simp add: dequeue_empty_def)
qed

lemma make_rep: "represents make_dequeue []"
  by (simp add: represents_def make_dequeue_def)

lemma copy_loop_rep:
  assumes "represents deq xs" "k \<le> length xs"
  shows "copy_loop (STATE deq) ((FRONT deq + k) mod length (STATE deq)) (BACK deq) result
    = Some (result @ drop k xs)"
  using assms(2)
proof (induction "length xs - k" arbitrary: k result)
  case 0
  then show ?case using representsD [OF assms(1)] by (subst copy_loop.simps) simp
next
  case (Suc m)
  define n where "n = length (STATE deq)"
  note d = representsD [OF assms(1), folded n_def]
  have k: "k < length xs" using Suc by simp
  have ne: "(FRONT deq + k) mod n \<noteq> BACK deq"
    using mod_add_inj [of k n "length xs" "FRONT deq"] d k by auto
  have nx: "next_slot n ((FRONT deq + k) mod n) = (FRONT deq + Suc k) mod n"
    using d by (simp add: next_slot_mod mod_simps)
  have "copy_loop (STATE deq) ((FRONT deq + k) mod n) (BACK deq) result
     = copy_loop (STATE deq) ((FRONT deq + Suc k) mod n) (BACK deq) (result @ [xs ! k])"
    using ne nx rep_nth [OF assms(1) k] by (subst copy_loop.simps) (simp add: n_def)
  also have "\<dots> = Some ((result @ [xs ! k]) @ drop (Suc k) xs)"
    using Suc.hyps(2) k unfolding n_def by (intro Suc.hyps(1)) simp_all
  also have "(result @ [xs ! k]) @ drop (Suc k) xs = result @ drop k xs"
    using k by (simp add: Cons_nth_drop_Suc)
  finally show ?case by (simp add: n_def)
qed

lemma expanded_state_rep:
  "represents deq xs \<Longrightarrow> expanded_state deq e = Some (xs @ replicate e FALSE_OBJ)"
  using copy_loop_rep [of deq xs 0 "[]"] representsD [of deq xs] by (simp add: expanded_state_def)

lemma expand_rep:
  assumes "represents deq xs"
  shows "\<exists>d. expand deq = Some d \<and> represents d xs \<and> length xs + 10 \<le> length (STATE d) \<and> FRONT d = 0"
  using assms representsD [OF assms]
  by (auto simp: expand_def expanded_state_rep rep_count represents_def Let_def)

text \<open>Room for one more item is room for two slots.\<close>

lemma rep_full:
  assumes "represents deq xs"
  shows "succ deq (BACK deq) = FRONT deq \<longleftrightarrow> length xs + 1 = length (STATE deq)"
    "pred deq (FRONT deq) = BACK deq \<longleftrightarrow> length xs + 1 = length (STATE deq)"
proof -
  define n where "n = length (STATE deq)"
  note d = representsD [OF assms, folded n_def]
  have s: "succ deq (BACK deq) = (FRONT deq + (length xs + 1)) mod n"
    using d by (simp add: succ_mod n_def mod_simps)
  have p: "pred deq (FRONT deq) = (FRONT deq + (n - 1)) mod n"
    using d by (simp add: pred_mod n_def)
  show "succ deq (BACK deq) = FRONT deq \<longleftrightarrow> length xs + 1 = length (STATE deq)"
  proof (cases "length xs + 1 = n")
    case True
    then show ?thesis using d unfolding s by (simp add: n_def [symmetric])
  next
    case False
    then show ?thesis using mod_add_inj [of "length xs + 1" n 0 "FRONT deq"] d unfolding s
      by (auto simp: n_def [symmetric])
  qed
  show "pred deq (FRONT deq) = BACK deq \<longleftrightarrow> length xs + 1 = length (STATE deq)"
    using mod_add_inj [of "n - 1" n "length xs" "FRONT deq"] d unfolding p
    by (auto simp: n_def [symmetric])
qed


section \<open>Each operation on the list\<close>

lemma update_at_length: "m < k \<Longrightarrow> (xs @ replicate (Suc k - m) v)[length xs := x] = xs @ x # replicate (k - m) v"
  by (simp add: list_update_append Suc_diff_le)

lemma push_back_rep:
  assumes "represents deq xs"
  shows "\<exists>d. dequeue_push_back deq item = Some d \<and> represents d (xs @ [item])"
proof -
  have room: "\<exists>d'. dequeue_push_back d item = Some d' \<and> represents d' (xs @ [item])"
    if r: "represents d xs" and "length xs + 1 < length (STATE d)" for d
  proof -
    define n where "n = length (STATE d)"
    note D = representsD [OF r, folded n_def]
    have lt: "length xs + 1 < n" using that(2) by (simp add: n_def)
    have "rotate (FRONT d) ((STATE d)[BACK d := item]) = (rotate (FRONT d) (STATE d))[length xs := item]"
      using rotate_update [of "length xs" "STATE d" "FRONT d" item] D(2,4) by (simp add: n_def)
    also have "\<dots> = (xs @ [item]) @ replicate (n - length (xs @ [item])) FALSE_OBJ"
    proof -
      have "n - length xs = Suc (n - Suc (length xs))" using lt by simp
      then show ?thesis using D(6) by (simp add: list_update_append n_def)
    qed
    finally have "represents (d\<lparr>STATE := (STATE d)[BACK d := item], BACK := succ d (BACK d)\<rparr>) (xs @ [item])"
      using D lt by (simp add: represents_def n_def succ_mod mod_simps)
    moreover have "succ d (BACK d) \<noteq> FRONT d" using rep_full(1) [OF r] that(2) by simp
    ultimately show ?thesis by (subst dequeue_push_back.simps) (simp add: Let_def)
  qed
  show ?thesis
  proof (cases "length xs + 1 < length (STATE deq)")
    case True
    then show ?thesis using room assms by blast
  next
    case False
    then have full: "succ deq (BACK deq) = FRONT deq"
      using rep_full(1) [OF assms] representsD(2) [OF assms] by linarith
    obtain d where d: "expand deq = Some d" "represents d xs" "length xs + 10 \<le> length (STATE d)"
      using expand_rep [OF assms] by blast
    then show ?thesis using room [OF d(2)] full
      by (subst dequeue_push_back.simps) (simp add: Let_def)
  qed
qed

lemma rotate_pred:
  assumes "s \<noteq> []"
  shows "rotate (f + (length s - 1)) s = last (rotate f s) # butlast (rotate f s)"
proof -
  have 1: "rotate1 (last ys # butlast ys) = ys" if "ys \<noteq> []" for ys :: "'a list" using that by simp
  have "Suc (f + (length s - 1)) = f + length s" using assms by (cases s) auto
  then have "rotate1 (rotate (f + (length s - 1)) s) = rotate (f + length s) s"
    by (metis rotate_Suc)
  also have "\<dots> = rotate f s"
    by (subst rotate_conv_mod) (simp add: rotate_conv_mod [symmetric])
  finally have "rotate1 (rotate (f + (length s - 1)) s) = rotate1 (last (rotate f s) # butlast (rotate f s))"
    using 1 [of "rotate f s"] assms by simp
  then show ?thesis by (rule injD [OF inj_rotate1])
qed

lemma push_front_rep:
  assumes "represents deq xs"
  shows "\<exists>d. dequeue_push_front deq item = Some d \<and> represents d (item # xs)"
proof -
  have room: "\<exists>d'. dequeue_push_front d item = Some d' \<and> represents d' (item # xs)"
    if r: "represents d xs" and "length xs + 1 < length (STATE d)" for d
  proof -
    define n p where "n = length (STATE d)" and "p = pred d (FRONT d)"
    note D = representsD [OF r, folded n_def]
    have lt: "length xs + 1 < n" using that(2) by (simp add: n_def)
    have p: "p = (FRONT d + (n - 1)) mod n" using D(1) by (simp add: p_def pred_mod n_def)
    have ps: "p < n" using D(3) by (simp add: p)
    have "rotate p ((STATE d)[p := item]) = (rotate p (STATE d))[0 := item]"
      using rotate_update [of 0 "STATE d" p item] D(3) ps by (simp add: n_def)
    also have "rotate p (STATE d) = rotate (FRONT d + (n - 1)) (STATE d)"
      unfolding p n_def by (simp only: rotate_conv_mod [symmetric])
    also have "\<dots> = last (rotate (FRONT d) (STATE d)) # butlast (rotate (FRONT d) (STATE d))"
      unfolding n_def using D(3) by (intro rotate_pred) (auto simp: n_def)
    also have "butlast (rotate (FRONT d) (STATE d)) = xs @ replicate (n - Suc (length xs)) FALSE_OBJ"
    proof -
      have "n - length xs = Suc (n - Suc (length xs))" using lt by simp
      then show ?thesis using D(6) by (simp add: butlast_append replicate_append_same [symmetric])
    qed
    finally have "rotate p ((STATE d)[p := item]) = (item # xs) @ replicate (n - length (item # xs)) FALSE_OBJ"
      by simp
    moreover have "(p + length (item # xs)) mod n = BACK d"
    proof -
      have "(p + Suc (length xs)) mod n = ((FRONT d + (n - 1)) mod n + Suc (length xs)) mod n" by (simp only: p)
      also have "\<dots> = (FRONT d + (n - 1) + Suc (length xs)) mod n" by (rule mod_add_left_eq)
      also have "FRONT d + (n - 1) + Suc (length xs) = FRONT d + length xs + n" using lt by simp
      finally show ?thesis using D(4) by simp
    qed
    ultimately have "represents (d\<lparr>STATE := (STATE d)[p := item], FRONT := p\<rparr>) (item # xs)"
      using ps lt by (simp add: represents_def n_def)
    moreover have "p \<noteq> BACK d" using rep_full(2) [OF r] that(2) by (simp add: p_def)
    ultimately show ?thesis by (subst dequeue_push_front.simps) (simp add: Let_def p_def [symmetric])
  qed
  show ?thesis
  proof (cases "length xs + 1 < length (STATE deq)")
    case True
    then show ?thesis using room assms by blast
  next
    case False
    then have full: "pred deq (FRONT deq) = BACK deq"
      using rep_full(2) [OF assms] representsD(2) [OF assms] by linarith
    obtain d where d: "expand deq = Some d" "represents d xs" "length xs + 10 \<le> length (STATE d)"
      using expand_rep [OF assms] by blast
    then show ?thesis using room [OF d(2)] full
      by (subst dequeue_push_front.simps) (simp add: Let_def)
  qed
qed

lemma pop_front_rep:
  assumes "represents deq (x # xs)"
  shows "\<exists>d. dequeue_pop_front deq = Inr (x, d) \<and> represents d xs"
proof -
  define n where "n = length (STATE deq)"
  note D = representsD [OF assms, folded n_def]
  have ne: "\<not> dequeue_empty deq" using rep_empty [OF assms] by simp
  have x: "STATE deq ! FRONT deq = x" using rep_nth [OF assms, of 0] D(1) by (simp add: n_def)
  have "rotate (succ deq (FRONT deq)) ((STATE deq)[FRONT deq := FALSE_OBJ])
      = rotate (Suc (FRONT deq)) ((STATE deq)[FRONT deq := FALSE_OBJ])"
    using D(1) by (subst (2) rotate_conv_mod) (simp add: succ_mod n_def)
  also have "\<dots> = rotate1 ((rotate (FRONT deq) (STATE deq))[0 := FALSE_OBJ])"
    using rotate_update [of 0 "STATE deq" "FRONT deq" FALSE_OBJ] D(1,3) by (simp add: n_def)
  also have "\<dots> = xs @ replicate (n - length xs) FALSE_OBJ"
  proof -
    have "n - length xs = Suc (n - Suc (length xs))" using D(2) by simp
    then show ?thesis using D(6) by (simp add: replicate_append_same)
  qed
  finally have "represents (deq\<lparr>FRONT := succ deq (FRONT deq), STATE := (STATE deq)[FRONT deq := FALSE_OBJ]\<rparr>) xs"
    using D by (simp add: represents_def n_def succ_mod mod_simps)
  then show ?thesis using ne x by (simp add: dequeue_pop_front_def Let_def)
qed

lemma pop_back_rep:
  assumes "represents deq (xs @ [x])"
  shows "\<exists>d. dequeue_pop_back deq = Inr (x, d) \<and> represents d xs"
proof -
  define n where "n = length (STATE deq)"
  note D = representsD [OF assms, folded n_def]
  have ne: "\<not> dequeue_empty deq" using rep_empty [OF assms] by simp
  have p: "pred deq (BACK deq) = (FRONT deq + length xs) mod n"
  proof -
    have "pred deq (BACK deq) = ((FRONT deq + length (xs @ [x])) mod n + (n - 1)) mod n"
      using D(4,5) by (simp add: pred_mod n_def)
    also have "\<dots> = (FRONT deq + length xs + n) mod n"
      using D(3) by (subst mod_add_left_eq) simp
    finally show ?thesis by simp
  qed
  have x: "STATE deq ! pred deq (BACK deq) = x"
    using rep_nth [OF assms, of "length xs"] by (simp add: p n_def)
  have "rotate (FRONT deq) ((STATE deq)[pred deq (BACK deq) := FALSE_OBJ])
      = (rotate (FRONT deq) (STATE deq))[length xs := FALSE_OBJ]"
    unfolding p n_def using D(2) by (intro rotate_update) (simp add: n_def)
  also have "\<dots> = xs @ replicate (n - length xs) FALSE_OBJ"
  proof -
    have "n - length xs = Suc (n - Suc (length xs))" using D(2) by simp
    then show ?thesis using D(6) by (simp add: list_update_append)
  qed
  finally have "represents (deq\<lparr>BACK := pred deq (BACK deq), STATE := (STATE deq)[pred deq (BACK deq) := FALSE_OBJ]\<rparr>) xs"
    using D p by (simp add: represents_def n_def)
  then show ?thesis using ne x by (simp add: dequeue_pop_back_def Let_def)
qed

lemma ref_rep: "represents deq xs \<Longrightarrow> k < length xs \<Longrightarrow> dequeue_ref deq k = Some (xs ! k)"
  by (simp add: dequeue_ref_def offset_for_index_def rep_nth rep_count)

lemma set_rep:
  assumes "represents deq xs" "k < length xs"
  shows "\<exists>d. dequeue_set deq k v = Some (xs ! k, d) \<and> represents d (xs[k := v])"
proof -
  note D = representsD [OF assms(1)]
  have "rotate (FRONT deq) ((STATE deq)[(FRONT deq + k) mod length (STATE deq) := v])
     = xs[k := v] @ replicate (length (STATE deq) - length xs) FALSE_OBJ"
    using rotate_update [of k "STATE deq" "FRONT deq" v] D assms(2) by (simp add: list_update_append)
  then show ?thesis
    using D assms by (simp add: dequeue_set_def offset_for_index_def rep_nth rep_count [OF assms(1)] represents_def)
qed


lemma slot_facts:
  assumes "f < n" "c < n" "k < c" "b = (f + c) mod n"
  shows "(f + k) mod n \<noteq> b" "next_slot n ((f + k) mod n) = (f + Suc k) mod n" "(f + k) mod n < n"
proof -
  show "(f + k) mod n \<noteq> b" using mod_add_inj [of k n c f] assms by auto
  show "(f + k) mod n < n" using assms by (intro mod_less_divisor) simp
  then show "next_slot n ((f + k) mod n) = (f + Suc k) mod n" by (simp add: next_slot_mod mod_simps)
qed

lemma memq_loop_rep:
  assumes "represents deq xs" "k \<le> length xs"
  shows "memq_loop (STATE deq) (BACK deq) item ((FRONT deq + k) mod length (STATE deq)) j =
    Some (if item \<in> set (drop k xs) then int2fx (of_nat (j + length (takeWhile (\<lambda>x. x \<noteq> item) (drop k xs)))) else FALSE_OBJ)"
  using assms(2)
proof (induction "length xs - k" arbitrary: k j)
  case 0
  then show ?case using representsD [OF assms(1)] by (subst memq_loop.simps) simp
next
  case (Suc m)
  define n where "n = length (STATE deq)"
  note d = representsD [OF assms(1), folded n_def]
  have k: "k < length xs" using Suc by simp
  note sl = slot_facts [OF d(1,2) k d(4)]
  have dr: "drop k xs = xs ! k # drop (Suc k) xs" using k by (simp add: Cons_nth_drop_Suc)
  have "memq_loop (STATE deq) (BACK deq) item ((FRONT deq + k) mod n) j =
    (if xs ! k = item then Some (int2fx (of_nat j))
     else memq_loop (STATE deq) (BACK deq) item ((FRONT deq + Suc k) mod n) (j + 1))"
    using sl rep_nth [OF assms(1) k] by (subst memq_loop.simps) (simp add: n_def)
  also have "memq_loop (STATE deq) (BACK deq) item ((FRONT deq + Suc k) mod n) (j + 1) =
      Some (if item \<in> set (drop (Suc k) xs) then int2fx (of_nat (j + 1 + length (takeWhile (\<lambda>x. x \<noteq> item) (drop (Suc k) xs)))) else FALSE_OBJ)"
    using Suc.hyps(2) k unfolding n_def by (intro Suc.hyps(1)) simp_all
  finally show ?case unfolding dr n_def by simp
qed

lemma delq_loop_rep:
  assumes "f < n" "length xs < n" "b = (f + length xs) mod n"
    and "k \<le> length xs" "j \<le> k" "length s = n"
    and "take j (rotate f s) = filter (\<lambda>x. x \<noteq> item) (take k xs)"
    and "drop k (rotate f s) = drop k xs @ replicate (n - length xs) FALSE_OBJ"
  shows "\<exists>s' j'. delq_loop b item s ((f + k) mod n) ((f + j) mod n) m =
      Some (s', (f + j') mod n, m + length (filter (\<lambda>x. x = item) (drop k xs))) \<and>
    j' \<le> length xs \<and> length s' = n \<and> take j' (rotate f s') = filter (\<lambda>x. x \<noteq> item) xs \<and>
    drop (length xs) (rotate f s') = replicate (n - length xs) FALSE_OBJ"
  using assms(4-8)
proof (induction "length xs - k" arbitrary: k j s m)
  case 0
  then show ?case using assms(1-3) by (subst delq_loop.simps) (auto intro!: exI [of _ j])
next
  case (Suc l)
  have k: "k < length xs" using Suc by simp
  note sl = slot_facts [OF assms(1,2) k assms(3)]
  have kn: "k < n" using k assms(2) by simp
  have dr: "drop k xs = xs ! k # drop (Suc k) xs" using k by (simp add: Cons_nth_drop_Suc)
  have x: "s ! ((f + k) mod n) = xs ! k"
  proof -
    have "s ! ((f + k) mod n) = rotate f s ! k" using kn Suc.prems(3) by (simp add: nth_rotate)
    also have "\<dots> = hd (drop k (rotate f s))" using kn Suc.prems(3) by (simp add: hd_drop_conv_nth)
    finally show ?thesis using Suc.prems(5) dr by simp
  qed
  have drS: "drop (Suc k) (rotate f s) = drop (Suc k) xs @ replicate (n - length xs) FALSE_OBJ"
    using Suc.prems(5) dr by (metis append_Cons drop_Suc list.sel(3) tl_drop)
  show ?case
  proof (cases "xs ! k = item")
    case True
    have "take j (rotate f s) = filter (\<lambda>x. x \<noteq> item) (take (Suc k) xs)"
      using Suc.prems(4) True k by (simp add: take_Suc_conv_app_nth)
    then have "\<exists>s' j'. delq_loop b item s ((f + Suc k) mod n) ((f + j) mod n) (m + 1) =
      Some (s', (f + j') mod n, m + 1 + length (filter (\<lambda>x. x = item) (drop (Suc k) xs))) \<and>
      j' \<le> length xs \<and> length s' = n \<and> take j' (rotate f s') = filter (\<lambda>x. x \<noteq> item) xs \<and>
      drop (length xs) (rotate f s') = replicate (n - length xs) FALSE_OBJ"
      using Suc.hyps(2) Suc.prems(2,3) k drS by (intro Suc.hyps(1)) simp_all
    then show ?thesis using sl x True dr Suc.prems(3)
      by (subst delq_loop.simps) simp
  next
    case False
    define s2 where "s2 = s[(f + j) mod n := xs ! k]"
    have j: "j < n" using Suc.prems(2) kn by simp
    have jc: "j < length xs" using Suc.prems(2) k by simp
    have rot: "rotate f s2 = (rotate f s)[j := xs ! k]"
      using rotate_update [of j s f "xs ! k"] j Suc.prems(3) by (simp add: s2_def)
    have "take (Suc j) (rotate f s2) = filter (\<lambda>x. x \<noteq> item) (take (Suc k) xs)"
    proof -
      have "take (Suc j) (rotate f s2) = take j (rotate f s) @ [xs ! k]"
        using j Suc.prems(3) unfolding rot by (simp add: take_Suc_conv_app_nth take_update_cancel)
      then show ?thesis using Suc.prems(4) False k by (simp add: take_Suc_conv_app_nth)
    qed
    moreover have "drop (Suc k) (rotate f s2) = drop (Suc k) xs @ replicate (n - length xs) FALSE_OBJ"
      using drS Suc.prems(2) unfolding rot by simp
    ultimately have "\<exists>s' j'. delq_loop b item s2 ((f + Suc k) mod n) ((f + Suc j) mod n) m =
      Some (s', (f + j') mod n, m + length (filter (\<lambda>x. x = item) (drop (Suc k) xs))) \<and>
      j' \<le> length xs \<and> length s' = n \<and> take j' (rotate f s') = filter (\<lambda>x. x \<noteq> item) xs \<and>
      drop (length xs) (rotate f s') = replicate (n - length xs) FALSE_OBJ"
      using Suc.hyps(2) Suc.prems(2,3) k by (intro Suc.hyps(1)) (simp_all add: s2_def)
    then show ?thesis using sl x False dr Suc.prems(3) slot_facts(2) [OF assms(1,2) jc assms(3)]
      by (subst delq_loop.simps) (simp add: s2_def)
  qed
qed

lemma clear_loop_rep:
  assumes "f < n" "c < n" "b = (f + c) mod n" "j \<le> c" "length s = n"
    "drop c (rotate f s) = replicate (n - c) FALSE_OBJ"
  shows "\<exists>s'. clear_loop b s ((f + j) mod n) = Some s' \<and> length s' = n \<and>
    rotate f s' = take j (rotate f s) @ replicate (n - j) FALSE_OBJ"
  using assms(4-6)
proof (induction "c - j" arbitrary: j s)
  case 0
  then have "rotate f s = take j (rotate f s) @ replicate (n - j) FALSE_OBJ"
    by (metis append_take_drop_id diff_is_0_eq le_antisym)
  then show ?case using 0 assms(1-3) by (subst clear_loop.simps) auto
next
  case (Suc l)
  have j: "j < c" using Suc by simp
  note sl = slot_facts [OF assms(1,2) j assms(3)]
  define s2 where "s2 = s[(f + j) mod n := FALSE_OBJ]"
  have rot: "rotate f s2 = (rotate f s)[j := FALSE_OBJ]"
    using rotate_update [of j s f FALSE_OBJ] j assms(2) Suc.prems(2) by (simp add: s2_def)
  have "\<exists>s'. clear_loop b s2 ((f + Suc j) mod n) = Some s' \<and> length s' = n \<and>
    rotate f s' = take (Suc j) (rotate f s2) @ replicate (n - Suc j) FALSE_OBJ"
    using Suc.hyps(2) Suc.prems j by (intro Suc.hyps(1)) (simp_all add: rot, simp_all add: s2_def)
  moreover have "take (Suc j) (rotate f s2) @ replicate (n - Suc j) FALSE_OBJ = take j (rotate f s) @ replicate (n - j) FALSE_OBJ"
  proof -
    have "n - j = Suc (n - Suc j)" using j assms(2) by simp
    moreover have "take (Suc j) (rotate f s2) = take j (rotate f s) @ [FALSE_OBJ]"
      using j assms(2) Suc.prems(2) unfolding rot by (simp add: take_Suc_conv_app_nth take_update_cancel)
    ultimately show ?thesis by simp
  qed
  ultimately show ?case using sl Suc.prems(2) by (subst clear_loop.simps) (simp add: s2_def)
qed

lemma delq_rep:
  assumes "represents deq xs"
  shows "\<exists>d. dequeue_delq deq item = Some (length (filter (\<lambda>x. x = item) xs), d) \<and>
    represents d (filter (\<lambda>x. x \<noteq> item) xs)"
proof -
  define n f where "n = length (STATE deq)" and "f = FRONT deq"
  note D = representsD [OF assms, folded n_def f_def]
  have f0: "(f + 0) mod n = f" using D(1) by simp
  obtain s' j' where 1: "delq_loop (BACK deq) item (STATE deq) f f 0 =
      Some (s', (f + j') mod n, length (filter (\<lambda>x. x = item) xs))"
    "j' \<le> length xs" "length s' = n" "take j' (rotate f s') = filter (\<lambda>x. x \<noteq> item) xs"
    "drop (length xs) (rotate f s') = replicate (n - length xs) FALSE_OBJ"
    using delq_loop_rep [OF D(1,2,4), of 0 0 "STATE deq" item 0] D(6) unfolding f0 by (auto simp: n_def)
  obtain s2 where 2: "clear_loop (BACK deq) s' ((f + j') mod n) = Some s2" "length s2 = n"
    "rotate f s2 = take j' (rotate f s') @ replicate (n - j') FALSE_OBJ"
    using clear_loop_rep [OF D(1,2,4) 1(2,3,5)] by blast
  have "length (take j' (rotate f s')) = j'" using 1(2,3) D(2) by simp
  then have j': "length (filter (\<lambda>x. x \<noteq> item) xs) = j'" unfolding 1(4) .
  have "represents \<lparr>STATE = s2, FRONT = f, BACK = (f + j') mod n\<rparr> (filter (\<lambda>x. x \<noteq> item) xs)"
    using 2 1 D j' by (simp add: represents_def)
  then show ?thesis using 1(1) 2(1) by (simp add: dequeue_delq_def f_def)
qed


section \<open>The contract of a double-ended queue\<close>

primrec push_all :: "('d \<Rightarrow> 'a \<Rightarrow> 'd option) \<Rightarrow> 'a list \<Rightarrow> 'd \<Rightarrow> 'd option" where
  "push_all push [] d = Some d"
| "push_all push (x # xs) d = Option.bind (push d x) (push_all push xs)"

primrec pop_times :: "('d \<Rightarrow> 'e + ('a \<times> 'd)) \<Rightarrow> nat \<Rightarrow> 'd \<Rightarrow> 'e + ('a list \<times> 'd)" where
  "pop_times pop 0 d = Inr ([], d)"
| "pop_times pop (Suc n) d =
     (case pop d of Inl e \<Rightarrow> Inl e
      | Inr (x, d) \<Rightarrow> (case pop_times pop n d of Inl e \<Rightarrow> Inl e | Inr (xs, d) \<Rightarrow> Inr (x # xs, d)))"

text \<open>
  What a client of the queue relies on: \<open>rep d xs\<close> says that \<open>d\<close> holds \<open>xs\<close>, pushing never fails, and
  popping a queue that is not empty gives the item at that end.
\<close>

locale deque_contract =
  fixes rep :: "'d \<Rightarrow> 'a list \<Rightarrow> bool"
    and mk :: 'd
    and push_back push_front :: "'d \<Rightarrow> 'a \<Rightarrow> 'd option"
    and pop_back pop_front :: "'d \<Rightarrow> 'e + ('a \<times> 'd)"
  assumes mk_law: "rep mk []"
    and push_back_law: "rep d xs \<Longrightarrow> \<exists>d'. push_back d x = Some d' \<and> rep d' (xs @ [x])"
    and push_front_law: "rep d xs \<Longrightarrow> \<exists>d'. push_front d x = Some d' \<and> rep d' (x # xs)"
    and pop_front_law: "rep d (x # xs) \<Longrightarrow> \<exists>d'. pop_front d = Inr (x, d') \<and> rep d' xs"
    and pop_back_law: "rep d (xs @ [x]) \<Longrightarrow> \<exists>d'. pop_back d = Inr (x, d') \<and> rep d' xs"
begin

lemma push_all_back: "rep d ys \<Longrightarrow> \<exists>d'. push_all push_back xs d = Some d' \<and> rep d' (ys @ xs)"
proof (induction xs arbitrary: d ys)
  case (Cons x xs)
  obtain d1 where d1: "push_back d x = Some d1" "rep d1 (ys @ [x])"
    using push_back_law [OF Cons.prems] by blast
  from Cons.IH [OF d1(2)] show ?case using d1(1) by simp
qed simp

lemma push_all_front: "rep d ys \<Longrightarrow> \<exists>d'. push_all push_front xs d = Some d' \<and> rep d' (rev xs @ ys)"
proof (induction xs arbitrary: d ys)
  case (Cons x xs)
  obtain d1 where d1: "push_front d x = Some d1" "rep d1 (x # ys)"
    using push_front_law [OF Cons.prems] by blast
  from Cons.IH [OF d1(2)] show ?case using d1(1) by simp
qed simp

lemma pop_times_front: "rep d (xs @ ys) \<Longrightarrow> \<exists>d'. pop_times pop_front (length xs) d = Inr (xs, d') \<and> rep d' ys"
proof (induction xs arbitrary: d)
  case (Cons x xs)
  obtain d1 where d1: "pop_front d = Inr (x, d1)" "rep d1 (xs @ ys)"
    using pop_front_law [of d x "xs @ ys"] Cons.prems by auto
  from Cons.IH [OF d1(2)] show ?case using d1(1) by auto
qed simp

lemma pop_times_back: "rep d (ys @ rev xs) \<Longrightarrow> \<exists>d'. pop_times pop_back (length xs) d = Inr (xs, d') \<and> rep d' ys"
proof (induction xs arbitrary: d)
  case (Cons x xs)
  obtain d1 where d1: "pop_back d = Inr (x, d1)" "rep d1 (ys @ rev xs)"
    using pop_back_law [of d "ys @ rev xs" x] Cons.prems by auto
  from Cons.IH [OF d1(2)] show ?case using d1(1) by auto
qed simp

lemma fifo:
  "\<exists>d d'. push_all push_back xs mk = Some d \<and> pop_times pop_front (length xs) d = Inr (xs, d') \<and> rep d' []"
  using push_all_back [OF mk_law, of xs] pop_times_front [of _ xs "[]"] by auto

lemma fifo_reverse:
  "\<exists>d d'. push_all push_front xs mk = Some d \<and> pop_times pop_back (length xs) d = Inr (xs, d') \<and> rep d' []"
  using push_all_front [OF mk_law, of xs] pop_times_back [of _ "[]" xs] by auto

lemma lifo:
  "\<exists>d d'. push_all push_back xs mk = Some d \<and> pop_times pop_back (length xs) d = Inr (rev xs, d') \<and> rep d' []"
  using push_all_back [OF mk_law, of xs] pop_times_back [of _ "[]" "rev xs"] by auto

end

interpretation dq: deque_contract represents make_dequeue dequeue_push_back dequeue_push_front
  dequeue_pop_back dequeue_pop_front
  by unfold_locales (rule make_rep push_back_rep push_front_rep pop_front_rep pop_back_rep; assumption?)+

section \<open>Properties\<close>

text \<open>C8: the circular buffer implements the list of its items at both ends: a push returns (growing the vector
  when it is full) and adds the item at its end, a pop gives the item at its end and leaves the
  rest, and only the empty queue gives an error.\<close>

lemma dequeue_ends:
  assumes "represents deq xs"
  shows "(\<exists>d. dequeue_push_back deq x = Some d \<and> represents d (xs @ [x])) \<and>
    (\<exists>d. dequeue_push_front deq x = Some d \<and> represents d (x # xs)) \<and>
    (case xs of [] \<Rightarrow> dequeue_pop_front deq = Inl (Dequeue_is_empty ''dequeue-pop-front!'')
     | y # ys \<Rightarrow> \<exists>d. dequeue_pop_front deq = Inr (y, d) \<and> represents d ys) \<and>
    (if xs = [] then dequeue_pop_back deq = Inl (Dequeue_is_empty ''dequeue-pop-back!'')
     else \<exists>d. dequeue_pop_back deq = Inr (last xs, d) \<and> represents d (butlast xs))"
proof (cases "xs = []")
  case True
  then show ?thesis
    using push_back_rep [OF assms] push_front_rep [OF assms] rep_empty [OF assms]
    by (simp add: dequeue_pop_front_def dequeue_pop_back_def)
next
  case False
  then have "represents deq (butlast xs @ [last xs])" using assms by simp
  from pop_back_rep [OF this] show ?thesis
    using push_back_rep [OF assms] push_front_rep [OF assms] pop_front_rep [of deq "hd xs" "tl xs"] assms False
    by (cases xs) auto
qed

lemma dequeue_ends_witness:
  "\<exists>d. dequeue_push_front make_dequeue 12 = Some d \<and> represents d [12]"
  using dequeue_ends [OF make_rep, of 12] by blast

text \<open>Counting, indexing, replacing, copying and searching read the list: the count is its length,
  the item at an index below it is the item of the list, and \<open>dequeue_memq\<close> gives the first index of an
  item, or false when the list does not have it.\<close>

lemma dequeue_reads:
  assumes "represents deq xs" "k < length xs"
  shows "dequeue_count deq = int (length xs) \<and> dequeue_empty deq = (xs = []) \<and>
    dequeue_ref deq k = Some (xs ! k) \<and> dequeue_ref deq (length xs) = None \<and>
    (\<exists>d. dequeue_set deq k v = Some (xs ! k, d) \<and> represents d (xs[k := v])) \<and>
    dequeue_state deq = Some xs \<and>
    dequeue_memq deq x =
      Some (if x \<in> set xs then int2fx (of_nat (length (takeWhile (\<lambda>y. y \<noteq> x) xs))) else FALSE_OBJ)"
  using rep_count [OF assms(1)] rep_empty [OF assms(1)] ref_rep [OF assms] set_rep [OF assms]
    expanded_state_rep [OF assms(1), of 0] memq_loop_rep [OF assms(1), of 0 x 0] representsD(1) [OF assms(1)]
  by (simp add: dequeue_state_def dequeue_memq_def dequeue_ref_def offset_for_index_def)

lemma dequeue_reads_witness:
  "dequeue_count \<lparr>STATE = [8, 2, 4], FRONT = 2, BACK = 1\<rparr> = 2"
  using dequeue_reads [of "\<lparr>STATE = [8, 2, 4], FRONT = 2, BACK = 1\<rparr>" "[4, 8]" 0 0 0]
  by (simp add: represents_def FALSE_OBJ_def MAKE_IMMOB_def dequeue_count_def)

text \<open>\<open>dequeue_delq\<close> returns, removes every occurrence of the item and no other, keeps the order, counts
  what it removed, and clears the slots given up.\<close>

lemma dequeue_delq_filter:
  assumes "represents deq xs"
  shows "\<exists>d. dequeue_delq deq item = Some (length (filter (\<lambda>x. x = item) xs), d) \<and>
    represents d (filter (\<lambda>x. x \<noteq> item) xs)"
  using assms by (rule delq_rep)

lemma dequeue_delq_filter_witness:
  "\<exists>d. dequeue_delq make_dequeue 4 = Some (0, d) \<and> represents d []"
  using dequeue_delq_filter [OF make_rep, of 4] by simp

text \<open>A new dequeue is a queue from back to front and from front to back, and a stack at one end, for any
  number of items, growing as it must.\<close>

lemma dequeue_orders:
  "(\<exists>d d'. push_all dequeue_push_back xs make_dequeue = Some d \<and>
      pop_times dequeue_pop_front (length xs) d = Inr (xs, d') \<and> represents d' []) \<and>
   (\<exists>d d'. push_all dequeue_push_front xs make_dequeue = Some d \<and>
      pop_times dequeue_pop_back (length xs) d = Inr (xs, d') \<and> represents d' []) \<and>
   (\<exists>d d'. push_all dequeue_push_back xs make_dequeue = Some d \<and>
      pop_times dequeue_pop_back (length xs) d = Inr (rev xs, d') \<and> represents d' [])"
  using dq.fifo dq.fifo_reverse dq.lifo by blast

end
