(* ===== verification/HashFn.thy ===== *)
theory HashFn
  imports Obj
begin

text \<open>
  The hash functions of \<^verbatim>\<open>handc/hasht/crchash.c\<close> and \<^verbatim>\<open>handc/hasht/hashfn.c\<close>: a table-driven
  CRC over bytes, two mixing functions over a table of random numbers, and the macros that
  make a hash value a fixnum.  The CRC is proved to be the bit-by-bit remainder by its
  polynomial, and its table to be the one \<^verbatim>\<open>build_table\<close> generates.
\<close>

unbundle bit_operations_syntax

section \<open>The CRC\<close>

definition crc_table :: "u32 list" where
  "crc_table = [
    0x00000000, 0x04c11db7, 0x09823b6e, 0x0d4326d9, 0x130476dc, 0x17c56b6b,
    0x1a864db2, 0x1e475005, 0x2608edb8, 0x22c9f00f, 0x2f8ad6d6, 0x2b4bcb61,
    0x350c9b64, 0x31cd86d3, 0x3c8ea00a, 0x384fbdbd, 0x4c11db70, 0x48d0c6c7,
    0x4593e01e, 0x4152fda9, 0x5f15adac, 0x5bd4b01b, 0x569796c2, 0x52568b75,
    0x6a1936c8, 0x6ed82b7f, 0x639b0da6, 0x675a1011, 0x791d4014, 0x7ddc5da3,
    0x709f7b7a, 0x745e66cd, 0x9823b6e0, 0x9ce2ab57, 0x91a18d8e, 0x95609039,
    0x8b27c03c, 0x8fe6dd8b, 0x82a5fb52, 0x8664e6e5, 0xbe2b5b58, 0xbaea46ef,
    0xb7a96036, 0xb3687d81, 0xad2f2d84, 0xa9ee3033, 0xa4ad16ea, 0xa06c0b5d,
    0xd4326d90, 0xd0f37027, 0xddb056fe, 0xd9714b49, 0xc7361b4c, 0xc3f706fb,
    0xceb42022, 0xca753d95, 0xf23a8028, 0xf6fb9d9f, 0xfbb8bb46, 0xff79a6f1,
    0xe13ef6f4, 0xe5ffeb43, 0xe8bccd9a, 0xec7dd02d, 0x34867077, 0x30476dc0,
    0x3d044b19, 0x39c556ae, 0x278206ab, 0x23431b1c, 0x2e003dc5, 0x2ac12072,
    0x128e9dcf, 0x164f8078, 0x1b0ca6a1, 0x1fcdbb16, 0x018aeb13, 0x054bf6a4,
    0x0808d07d, 0x0cc9cdca, 0x7897ab07, 0x7c56b6b0, 0x71159069, 0x75d48dde,
    0x6b93dddb, 0x6f52c06c, 0x6211e6b5, 0x66d0fb02, 0x5e9f46bf, 0x5a5e5b08,
    0x571d7dd1, 0x53dc6066, 0x4d9b3063, 0x495a2dd4, 0x44190b0d, 0x40d816ba,
    0xaca5c697, 0xa864db20, 0xa527fdf9, 0xa1e6e04e, 0xbfa1b04b, 0xbb60adfc,
    0xb6238b25, 0xb2e29692, 0x8aad2b2f, 0x8e6c3698, 0x832f1041, 0x87ee0df6,
    0x99a95df3, 0x9d684044, 0x902b669d, 0x94ea7b2a, 0xe0b41de7, 0xe4750050,
    0xe9362689, 0xedf73b3e, 0xf3b06b3b, 0xf771768c, 0xfa325055, 0xfef34de2,
    0xc6bcf05f, 0xc27dede8, 0xcf3ecb31, 0xcbffd686, 0xd5b88683, 0xd1799b34,
    0xdc3abded, 0xd8fba05a, 0x690ce0ee, 0x6dcdfd59, 0x608edb80, 0x644fc637,
    0x7a089632, 0x7ec98b85, 0x738aad5c, 0x774bb0eb, 0x4f040d56, 0x4bc510e1,
    0x46863638, 0x42472b8f, 0x5c007b8a, 0x58c1663d, 0x558240e4, 0x51435d53,
    0x251d3b9e, 0x21dc2629, 0x2c9f00f0, 0x285e1d47, 0x36194d42, 0x32d850f5,
    0x3f9b762c, 0x3b5a6b9b, 0x0315d626, 0x07d4cb91, 0x0a97ed48, 0x0e56f0ff,
    0x1011a0fa, 0x14d0bd4d, 0x19939b94, 0x1d528623, 0xf12f560e, 0xf5ee4bb9,
    0xf8ad6d60, 0xfc6c70d7, 0xe22b20d2, 0xe6ea3d65, 0xeba91bbc, 0xef68060b,
    0xd727bbb6, 0xd3e6a601, 0xdea580d8, 0xda649d6f, 0xc423cd6a, 0xc0e2d0dd,
    0xcda1f604, 0xc960ebb3, 0xbd3e8d7e, 0xb9ff90c9, 0xb4bcb610, 0xb07daba7,
    0xae3afba2, 0xaafbe615, 0xa7b8c0cc, 0xa379dd7b, 0x9b3660c6, 0x9ff77d71,
    0x92b45ba8, 0x9675461f, 0x8832161a, 0x8cf30bad, 0x81b02d74, 0x857130c3,
    0x5d8a9099, 0x594b8d2e, 0x5408abf7, 0x50c9b640, 0x4e8ee645, 0x4a4ffbf2,
    0x470cdd2b, 0x43cdc09c, 0x7b827d21, 0x7f436096, 0x7200464f, 0x76c15bf8,
    0x68860bfd, 0x6c47164a, 0x61043093, 0x65c52d24, 0x119b4be9, 0x155a565e,
    0x18197087, 0x1cd86d30, 0x029f3d35, 0x065e2082, 0x0b1d065b, 0x0fdc1bec,
    0x3793a651, 0x3352bbe6, 0x3e119d3f, 0x3ad08088, 0x2497d08d, 0x2056cd3a,
    0x2d15ebe3, 0x29d4f654, 0xc5a92679, 0xc1683bce, 0xcc2b1d17, 0xc8ea00a0,
    0xd6ad50a5, 0xd26c4d12, 0xdf2f6bcb, 0xdbee767c, 0xe3a1cbc1, 0xe760d676,
    0xea23f0af, 0xeee2ed18, 0xf0a5bd1d, 0xf464a0aa, 0xf9278673, 0xfde69bc4,
    0x89b8fd09, 0x8d79e0be, 0x803ac667, 0x84fbdbd0, 0x9abc8bd5, 0x9e7d9662,
    0x933eb0bb, 0x97ffad0c, 0xafb010b1, 0xab710d06, 0xa6322bdf, 0xa2f33668,
    0xbcb4666d, 0xb8757bda, 0xb5365d03, 0xb1f740b4]"

definition crcPoly :: u32 where
  "crcPoly = 0x04c11db7"

definition HASH_IN :: "u32 \<Rightarrow> u32 \<Rightarrow> u32" where
  "HASH_IN h byte = (crc_table ! unat (drop_bit 24 h XOR byte) XOR push_bit 8 h) AND (push_bit 1 (push_bit 31 1 - 1) + 1)"

definition crc_hash :: "u8 list \<Rightarrow> bool \<Rightarrow> u32" where
  "crc_hash bytes case_insense =
     (let ign_bits = (if case_insense then 0x20 else 0)
      in foldl (\<lambda>h b. HASH_IN h (ucast (b OR ign_bits))) 0 bytes)"

definition unicode_step :: "u32 \<Rightarrow> u16 \<Rightarrow> u32" where
  "unicode_step h ch =
     (if ch \<ge> 256
      then HASH_IN (HASH_IN h (ucast (drop_bit 8 ch))) (ucast (ch AND 0xFF))
      else HASH_IN h (ucast ch))"

definition crc_hash_unicode :: "u16 list \<Rightarrow> u32" where
  "crc_hash_unicode p = foldl unicode_step 0 p"

definition int_step :: "u32 \<Rightarrow> u32 \<Rightarrow> u32" where
  "int_step h num =
     (let h = HASH_IN h (num AND 0xFF);
          h = HASH_IN h (drop_bit 8 num AND 0xFF);
          h = HASH_IN h (drop_bit 16 num AND 0xFF)
      in HASH_IN h (drop_bit 24 num AND 0xFF))"

definition crc_hash_int :: "u32 \<Rightarrow> u32" where
  "crc_hash_int num = int_step 0 num"

definition crc_hash_int2 :: "u32 \<Rightarrow> u32 \<Rightarrow> u32" where
  "crc_hash_int2 x y = int_step (int_step 0 x) y"

text \<open>\<^verbatim>\<open>build_table\<close>, the program that wrote the table: the entries from \<open>2 ^ d\<close> to \<open>2 ^ (d + 1)\<close> are
  those below \<open>2 ^ d\<close> combined with the \<open>d\<close>-th shift of the polynomial.\<close>

fun build_loop :: "nat \<Rightarrow> u32 \<Rightarrow> u32 list \<Rightarrow> u32 list" where
  "build_loop 0 p t = t"
| "build_loop (Suc n) p t =
     (let t' = t @ map (\<lambda>x. x XOR p) t;
          p' = push_bit 1 p
      in build_loop n (if p AND push_bit 31 1 \<noteq> 0 then p' XOR crcPoly else p') t')"

definition build_table :: "u32 list" where
  "build_table = build_loop 8 crcPoly [0]"

section \<open>Hash values of objects\<close>

definition hash2 :: "u32 list" where
  "hash2 = [
    3923816129, 2317860316, 3090765807, 3396889516, 3791021225, 3385363528,
    1627584886, 441766619, 1443615973, 2559228144, 3745581467, 2707891360,
    2453701053, 4118783842, 2272467972, 3504575509, 152894779, 743797209,
    2031564275, 1338548962, 1247835526, 3772155728, 2210079934, 1174138353,
    322644444, 92762790, 4176884183, 10290758, 3623950881, 3857104797,
    586331503, 3681236654, 2781463670, 510545103, 3641742481, 564741816,
    3371176501, 4086285133, 549310572, 2847488162, 2418002277, 3258344369,
    2886857065, 321923661, 3203379610, 1612047570, 500458784, 2735290498,
    726477745, 430431592, 1929539627, 3593058507, 2659427405, 3396021212,
    1557943054, 3082517365, 2531003866, 2513965555, 475750036, 85872719,
    1799540093, 70759339, 3173403528, 88305710, 1444479746, 607884610,
    1784445714, 1843424859, 2623876040, 1669714710, 4002781276, 1403122643,
    1286334834, 1162288818, 1740302133, 94146012, 366271236, 1300009882,
    919067601, 4168407875, 611577376, 2105024830, 1445390840, 1659881157,
    1175692197, 2320598268, 3347650902, 1418174478, 3210760040, 3317344684,
    889390777, 1709341951, 3352231283, 1963753097, 894491546, 317716232,
    2526763840, 1380467083, 1670066757, 1816638427, 2228726409, 1757946544,
    2579770539, 2388126853, 1098222604, 863468032, 1148376992, 270716497,
    3213520766, 1549612341, 1049103871, 3426411528, 169107586, 4069447558,
    1664785257, 3714000565, 3480631914, 4076041060, 1042871132, 750601309,
    2249175453, 4027230141, 1187796805, 466162942, 4220685281, 3591918410,
    2933983774, 4165882447, 1744323151, 2993255788, 2637126380, 891612339,
    2946494680, 785460496, 286802514, 1316841025, 2717568855, 180172737,
    3208475318, 3886550919, 3217307844, 3772859334, 3873074902, 553228400,
    4153956265, 1463714956, 3850002755, 2507305100, 1208505543, 4026963132,
    2117775370, 3918285883, 374610566, 1308608087, 2501585490, 3347981904,
    3415148181, 2088247903, 3161716008, 4260847727, 2991297839, 4018864341,
    3325567207, 2772620925, 3217145624, 2924587275, 3672434761, 3070296236,
    3397403662, 3050566058, 3593989256, 1250765120, 1385523700, 2065954297,
    4257805525, 2672576646, 523882550, 1971709959, 992240257, 2123249520,
    3963071897, 524435548, 3495946153, 648501064, 431401916, 2353817923,
    1066524782, 2205326615, 2233710607, 435631192, 2464974783, 4159422120,
    240454676, 3015531966, 4016166766, 3558494390, 1241743293, 3466100486,
    183395232, 35227054, 1979727338, 3822174333, 3582400267, 4254738782,
    1139782815, 2419185982, 1161940238, 2450283001, 3259558277, 2267654027,
    3729983059, 2979976419, 2030150099, 3602622211, 777096615, 2460786711,
    3814569335, 3528939238, 33158185, 2033500291, 4065565552, 943398627,
    3038595889, 3086427588, 3658822287, 748379468, 4041260307, 3973340988,
    1445014281, 4019430926, 2380223252, 3724262095, 31549722, 680651677,
    2366025259, 161515638, 1690406879, 4208595465, 2218644420, 4231047951,
    750509810, 2351776407, 1677173683, 2786633452, 884008263, 1227814338,
    2854132135, 3501607530, 867703527, 746529427, 1348189009, 3674740476,
    33411520, 1597710469, 2824702344, 3709653569]"

definition UINT_32_TO_HASH :: "u32 \<Rightarrow> u32" where
  "UINT_32_TO_HASH u = (u AND NOT 3) + primary_tag_value FIXNUM_TAG"

definition UINT_32_TO_NNHASH :: "u32 \<Rightarrow> u32" where
  "UINT_32_TO_NNHASH u = (u AND ((push_bit 31 1 - 1) AND NOT 3)) + primary_tag_value FIXNUM_TAG"

definition rehash_fixnum :: "u32 \<Rightarrow> u32" where
  "rehash_fixnum n =
     UINT_32_TO_HASH
       (hash2 ! unat (drop_bit 2 n AND 15)
        XOR hash2 ! unat ((drop_bit 6 n AND 15) + 16)
        XOR hash2 ! unat ((drop_bit 10 n AND 15) + 2 * 16)
        XOR hash2 ! unat ((drop_bit 14 n AND 15) + 3 * 16)
        XOR hash2 ! unat ((drop_bit 18 n AND 15) + 4 * 16)
        XOR hash2 ! unat ((drop_bit 22 n AND 15) + 5 * 16)
        XOR hash2 ! unat ((drop_bit 26 n AND 15) + 6 * 16)
        XOR hash2 ! unat ((drop_bit 30 n AND 3) + 7 * 16))"

definition obj_hash :: "u32 \<Rightarrow> u32" where
  "obj_hash v =
     (let x = hash2 ! unat (v AND 255) + hash2 ! unat (drop_bit 8 v AND 255)
              + hash2 ! unat (drop_bit 16 v AND 255) + hash2 ! unat (drop_bit 24 v AND 255)
      in UINT_32_TO_HASH x)"

definition obj_hash2 :: "u32 \<Rightarrow> u32 \<Rightarrow> u32" where
  "obj_hash2 x y =
     (let h = 0x5DEFACE5;
          h = h + hash2 ! unat (x AND 0xFF);
          h = h + hash2 ! unat (drop_bit 8 (x + h) AND 0xFF);
          h = h + hash2 ! unat (drop_bit 16 (x + h) AND 0xFF);
          h = h + hash2 ! unat (drop_bit 24 (x + h) AND 0xFF);
          h = h + hash2 ! unat ((y + h) AND 0xFF);
          h = h + hash2 ! unat (drop_bit 8 (y + h) AND 0xFF);
          h = h + hash2 ! unat (drop_bit 16 (y + h) AND 0xFF);
          h = h + hash2 ! unat (drop_bit 24 (y + h) AND 0xFF)
      in UINT_32_TO_HASH h)"

definition hash_unicode_string :: "u16 list \<Rightarrow> u32" where
  "hash_unicode_string s = UINT_32_TO_HASH (crc_hash_unicode s)"

definition raw_bytes_hash :: "u8 list \<Rightarrow> u32" where
  "raw_bytes_hash bytes = UINT_32_TO_HASH (crc_hash bytes False)"

definition raw_ci_bytes_hash :: "u8 list \<Rightarrow> u32" where
  "raw_ci_bytes_hash bytes = UINT_32_TO_HASH (crc_hash bytes True)"

section \<open>The CRC is the remainder by its polynomial\<close>

definition poly_step :: "u32 \<Rightarrow> u32" where
  "poly_step h = (if bit h 31 then push_bit 1 h XOR crcPoly else push_bit 1 h)"

definition poly_byte :: "u32 \<Rightarrow> u8 \<Rightarrow> u32" where
  "poly_byte h b = (poly_step ^^ 8) (h XOR push_bit 24 (ucast b))"

definition crc_spec :: "u8 list \<Rightarrow> u32" where
  "crc_spec bytes = foldl poly_byte 0 bytes"

lemma poly_step_xor: "poly_step (x XOR y) = poly_step x XOR poly_step y"
  by (rule bit_word_eqI) (auto simp: poly_step_def bit_xor_iff bit_push_bit_iff)

lemma poly_steps_xor: "(poly_step ^^ n) (x XOR y) = (poly_step ^^ n) x XOR (poly_step ^^ n) y"
  by (induction n) (simp_all add: poly_step_xor)

lemma poly_steps_low:
  assumes "n \<le> k" "take_bit (32 - k) x = x"
  shows "(poly_step ^^ n) x = push_bit n x"
  using assms(1)
proof (induction n)
  case (Suc n)
  have "\<not> bit (push_bit n x) 31"
  proof
    assume "bit (push_bit n x) 31"
    then have "bit x (31 - n)" by (simp add: bit_push_bit_iff)
    then have "31 - n < 32 - k" using assms(2) by (metis bit_take_bit_iff)
    then show False using Suc.prems by simp
  qed
  then show ?case using Suc by (simp add: poly_step_def)
qed simp

text \<open>What \<^verbatim>\<open>build_table\<close> keeps: \<open>2 ^ d\<close> entries that are remainders, and the remainder of the next
  power of two.\<close>

lemma poly_step_power:
  assumes "k < 31"
  shows "poly_step (push_bit k 1) = push_bit (Suc k) 1"
  using assms by (simp add: poly_step_def bit_exp_iff push_bit_eq_mult)

lemma build_loop_poly:
  assumes "d + n \<le> 8" "length t = 2 ^ d" "\<forall>i < 2 ^ d. t ! i = (poly_step ^^ 8) (push_bit 24 (of_nat i))"
    and "n > 0 \<longrightarrow> p = (poly_step ^^ 8) (push_bit (24 + d) 1)"
  shows "\<forall>i < 2 ^ (d + n). build_loop n p t ! i = (poly_step ^^ 8) (push_bit 24 (of_nat i))"
  using assms
proof (induction n arbitrary: d p t)
  case (Suc n)
  define t' where "t' = t @ map (\<lambda>x. x XOR p) t"
  have p: "p = (poly_step ^^ 8) (push_bit (24 + d) 1)" using Suc.prems(4) by simp
  have t': "t' ! i = (poly_step ^^ 8) (push_bit 24 (of_nat i))" if "i < 2 ^ Suc d" for i
  proof (cases "i < 2 ^ d")
    case True
    then show ?thesis using Suc.prems(2,3) by (simp add: t'_def nth_append)
  next
    case False
    define j where "j = i - 2 ^ d"
    have j: "j < 2 ^ d" "i = 2 ^ d + j" using that False by (simp_all add: j_def)
    have "of_nat i = (push_bit d 1 XOR of_nat j :: u32)"
    proof -
      have "push_bit d 1 AND (of_nat j :: u32) = 0"
      proof (rule bit_word_eqI)
        fix m
        have "take_bit d j = j" using j(1) by (simp add: take_bit_nat_eq_self)
        then have "\<not> bit j d" by (metis bit_take_bit_iff less_irrefl)
        then show "bit (push_bit d 1 AND (of_nat j :: u32)) m = bit (0 :: u32) m"
          by (auto simp: bit_and_iff bit_exp_iff bit_of_nat_iff)
      qed
      then have "push_bit d 1 + of_nat j = (push_bit d 1 XOR of_nat j :: u32)"
        by (simp add: disjunctive_add_eq_xor)
      then show ?thesis unfolding j(2) by (simp add: push_bit_eq_mult)
    qed
    then have "push_bit 24 (of_nat i) = (push_bit (24 + d) 1 XOR push_bit 24 (of_nat j) :: u32)"
      by (simp only: push_bit_xor push_bit_push_bit)
    then have "(poly_step ^^ 8) (push_bit 24 (of_nat i)) = p XOR t ! j"
      using Suc.prems(3) j(1) by (simp only: poly_steps_xor p)
    moreover have "t' ! i = t ! j XOR p"
      using Suc.prems(2) j False by (simp add: t'_def nth_append)
    ultimately show ?thesis by (simp only: xor.commute)
  qed
  have "p AND push_bit 31 1 \<noteq> 0 \<longleftrightarrow> bit p 31" using and_exp_eq_0_iff_not_bit [of p 31] by simp
  then have eq: "build_loop (Suc n) p t = build_loop n (poly_step p) t'"
    by (simp only: build_loop.simps Let_def t'_def poly_step_def)
  have next_p: "poly_step p = (poly_step ^^ 8) (push_bit (24 + Suc d) 1)" if "n > 0"
  proof -
    have "poly_step p = (poly_step ^^ 8) (poly_step (push_bit (24 + d) 1))"
      unfolding p by (simp add: funpow_swap1)
    moreover have "poly_step (push_bit (24 + d) 1) = push_bit (Suc (24 + d)) 1"
      using that Suc.prems(1) by (intro poly_step_power) simp
    ultimately show ?thesis by (simp only: add_Suc_right)
  qed
  have "\<forall>i < 2 ^ (Suc d + n). build_loop n (poly_step p) t' ! i = (poly_step ^^ 8) (push_bit 24 (of_nat i))"
    using Suc.prems(1,2) t' next_p by (intro Suc.IH) (simp_all add: t'_def)
  then show ?case unfolding eq by simp
qed simp

lemma build_table_eq: "build_table = crc_table"
  by code_simp

lemma crc_table_poly: "i < 256 \<Longrightarrow> crc_table ! i = (poly_step ^^ 8) (push_bit 24 (of_nat i))"
proof -
  have "(poly_step ^^ 7) (push_bit 24 1) = push_bit 7 (push_bit 24 1)"
    by (rule poly_steps_low [of _ 7]) (simp_all add: take_bit_eq_mod)
  then have "(poly_step ^^ Suc 7) (push_bit 24 1) = poly_step (push_bit 31 1)"
    by (simp only: funpow.simps comp_apply) simp
  moreover have "poly_step (push_bit 31 1) = crcPoly" by code_simp
  ultimately have "crcPoly = (poly_step ^^ 8) (push_bit (24 + 0) 1)" by simp
  moreover have "(poly_step ^^ n) 0 = 0" for n by (induction n) (simp_all add: poly_step_def)
  ultimately show "i < 256 \<Longrightarrow> crc_table ! i = (poly_step ^^ 8) (push_bit 24 (of_nat i))"
    using build_loop_poly [of 0 8 "[0]" crcPoly] by (simp add: build_table_eq [symmetric] build_table_def)
qed

lemma HASH_IN_mask: "HASH_IN h byte = crc_table ! unat (drop_bit 24 h XOR byte) XOR push_bit 8 h"
proof -
  have "push_bit 1 (push_bit 31 1 - 1) + 1 = (- 1 :: u32)" by simp
  then show ?thesis by (simp only: HASH_IN_def and.right_neutral)
qed

lemma HASH_IN_poly: "HASH_IN h (ucast b) = poly_byte h b"
proof -
  define i where "i = drop_bit 24 h XOR ucast b"
  have "bit i n \<Longrightarrow> n < 8" for n
    by (auto simp: i_def bit_xor_iff bit_drop_bit_eq bit_ucast_iff dest: bit_imp_le_length)
  then have "take_bit 8 i = i" by (intro bit_word_eqI) (auto simp: bit_take_bit_iff)
  then have lt: "unat i < 256" using unat_take_bit_mod [of 8 i] by (simp add: )
  have "h XOR push_bit 24 (ucast b) = push_bit 24 i XOR take_bit 24 h"
    by (rule bit_word_eqI) (auto simp: i_def bit_xor_iff bit_push_bit_iff bit_take_bit_iff bit_drop_bit_eq)
  then have "poly_byte h b = (poly_step ^^ 8) (push_bit 24 i) XOR (poly_step ^^ 8) (take_bit 24 h)"
    by (simp only: poly_byte_def poly_steps_xor)
  also have "(poly_step ^^ 8) (take_bit 24 h) = push_bit 8 (take_bit 24 h)"
    by (rule poly_steps_low [of _ 8]) simp_all
  also have "push_bit 8 (take_bit 24 h) = push_bit 8 h"
    by (rule bit_word_eqI) (auto simp: bit_push_bit_iff bit_take_bit_iff)
  also have "(poly_step ^^ 8) (push_bit 24 i) = crc_table ! unat i"
    using crc_table_poly [OF lt] by simp
  finally show ?thesis by (simp only: HASH_IN_mask i_def)
qed


section \<open>Properties\<close>

text \<open>C31: the table-driven hash of a byte string is the remainder of its bits by the CRC polynomial, computed one
  bit at a time, for every string.\<close>

lemma crc_hash_poly: "crc_hash bytes False = crc_spec bytes"
proof -
  have "foldl (\<lambda>h b. HASH_IN h (ucast b)) h bytes = foldl poly_byte h bytes" for h
    by (induction bytes arbitrary: h) (simp_all add: HASH_IN_poly)
  then show ?thesis by (simp add: crc_hash_def crc_spec_def)
qed

text \<open>The table in the source is the one its generator computes, and entry \<open>i\<close> is the remainder of the byte
  \<open>i\<close>.\<close>

lemma crc_table_generated:
  assumes "i < 256"
  shows "crc_table = build_table \<and> crc_table ! i = (poly_step ^^ 8) (push_bit 24 (of_nat i))"
  using crc_table_poly [OF assms] build_table_eq by simp

lemma crc_table_generated_witness: "crc_table ! 1 = (poly_step ^^ 8) (push_bit 24 1)"
proof -
  have "(1 :: nat) < 256" by simp
  from conjunct2 [OF crc_table_generated [OF this]] show ?thesis by (simp only: of_nat_1)
qed

text \<open>The byte or character with the bit of the ASCII case folded.\<close>

definition fold_case :: "u8 \<Rightarrow> u8" where
  "fold_case b = b OR 0x20"

lemma crc_hash_fold: "crc_hash bytes True = crc_hash (map fold_case bytes) False"
  by (simp add: crc_hash_def fold_case_def foldl_map)

lemma bytes_of_u32: "ucast (ucast (x AND 0xFF) :: u8) = (x AND 0xFF :: u32)"
proof -
  have "x AND 0xFF = take_bit 8 x" by (simp add: take_bit_eq_mask mask_eq_exp_minus_1)
  then show ?thesis
    by (simp only:) (rule bit_word_eqI, auto simp: bit_take_bit_iff bit_ucast_iff)
qed

definition le_bytes :: "u32 \<Rightarrow> u8 list" where
  "le_bytes x = [ucast (x AND 0xFF), ucast (drop_bit 8 x AND 0xFF), ucast (drop_bit 16 x AND 0xFF),
     ucast (drop_bit 24 x AND 0xFF)]"

lemma int_step_bytes: "int_step h x = foldl (\<lambda>h b. HASH_IN h (ucast b)) h (le_bytes x)"
  by (simp only: int_step_def le_bytes_def foldl.simps bytes_of_u32 Let_def)

text \<open>Hashing a 32-bit integer, or two, is hashing the string of its bytes, least significant first; hashing a
  wide string whose characters are all below 256 is hashing it as bytes; and the
  case-insensitive hash is the hash of the folded string, so that strings that differ only in
  the folded bit get one hash.\<close>

lemma crc_hash_variants:
  "crc_hash_int x = crc_hash (le_bytes x) False \<and>
   crc_hash_int2 x y = crc_hash (le_bytes x @ le_bytes y) False \<and>
   crc_hash_unicode (map ucast bytes) = crc_hash bytes False \<and>
   crc_hash bytes True = crc_hash (map fold_case bytes) False"
proof -
  have "unicode_step h (ucast b) = HASH_IN h (ucast b)" for h and b :: u8
  proof -
    have "unat (ucast b :: u16) < 256" using unat_u8_less [of b] by (simp add: unat_ucast_up)
    then have "\<not> (256 :: u16) \<le> ucast b" by (simp add: word_le_nat_alt)
    moreover have "ucast (ucast b :: u16) = (ucast b :: u32)"
      by (rule bit_word_eqI) (auto simp: bit_ucast_iff dest: bit_imp_le_length)
    ultimately show ?thesis by (simp add: unicode_step_def)
  qed
  then have "foldl unicode_step h (map ucast bytes) = foldl (\<lambda>h b. HASH_IN h (ucast b)) h bytes" for h
    by (induction bytes arbitrary: h) simp_all
  then show ?thesis
    by (simp add: crc_hash_int_def crc_hash_int2_def int_step_bytes crc_hash_unicode_def crc_hash_fold)
      (simp add: crc_hash_def)
qed

lemma and_3_hash: "(u AND NOT 3) AND 3 = (0 :: u32)" "(u AND (m AND NOT 3)) AND 3 = (0 :: u32)"
proof -
  have "NOT 3 AND 3 = (0 :: u32)" by simp
  then show "(u AND NOT 3) AND 3 = (0 :: u32)" "(u AND (m AND NOT 3)) AND 3 = (0 :: u32)"
    by (simp_all only: and.assoc and_zero_eq)
qed

text \<open>Every hash value is a fixnum, as the hash tables require, and the one made for counting is not
  negative; the mixing functions never read outside their table of 256 words.\<close>

lemma hashes_are_fixnums:
  "FIXNUM_P (raw_bytes_hash bytes) \<and> FIXNUM_P (raw_ci_bytes_hash bytes) \<and>
   FIXNUM_P (hash_unicode_string us) \<and> FIXNUM_P (obj_hash x) \<and> FIXNUM_P (obj_hash2 x y) \<and>
   FIXNUM_P (rehash_fixnum x) \<and> FIXNUM_P (UINT_32_TO_NNHASH x) \<and> 0 \<le> sint (UINT_32_TO_NNHASH x) \<and>
   length hash2 = 256 \<and> unat (x AND 255) < 256 \<and> unat (drop_bit 24 x AND 255) < 256 \<and>
   unat ((drop_bit 30 x AND 3) + 7 * 16) < 256"
proof -
  have f: "FIXNUM_P (UINT_32_TO_HASH u)" for u
    by (simp only: UINT_32_TO_HASH_def FIXNUM_P_def TEST_PRIMARY_TAG_def primary_tag_value.simps add_0_right and_3_hash)
  have nn: "\<not> bit (UINT_32_TO_NNHASH x) 31"
  proof -
    have "\<not> bit (push_bit 31 1 - 1 :: u32) 31" by code_simp
    then show ?thesis by (simp only: UINT_32_TO_NNHASH_def primary_tag_value.simps add_0_right bit_and_iff simp_thms)
  qed
  have m: "unat (v AND mask k :: u32) < 2 ^ k" for v k
    by (simp only: take_bit_eq_mask [symmetric] unat_take_bit_mod) simp
  have m8: "unat (v AND 255 :: u32) < 256" for v using m [of v 8] by (simp add: mask_eq_exp_minus_1)
  have "unat ((drop_bit 30 x AND 3) + 7 * 16) < 256"
  proof -
    have "unat (drop_bit 30 x AND 3) < 4" using m [of "drop_bit 30 x" 2] by (simp add: mask_eq_exp_minus_1)
    then show ?thesis by (simp add: unat_add_u32)
  qed
  moreover have "0 \<le> sint (UINT_32_TO_NNHASH x)" using nn bit_last_iff [of "UINT_32_TO_NNHASH x"] by simp
  moreover have "FIXNUM_P (UINT_32_TO_NNHASH x)"
    by (simp only: UINT_32_TO_NNHASH_def FIXNUM_P_def TEST_PRIMARY_TAG_def primary_tag_value.simps add_0_right and_3_hash)
  ultimately show ?thesis
    using f m8 by (simp add: raw_bytes_hash_def raw_ci_bytes_hash_def hash_unicode_string_def obj_hash_def
        obj_hash2_def rehash_fixnum_def Let_def) (simp add: hash2_def)
qed

end
