(* ===== verification/OutPort.thy ===== *)
theory OutPort
  imports Obj
begin

text \<open>
  String output ports, \<^verbatim>\<open>modules/iolib/op_str.c\<close>: a current buffer with the number of bytes used, a fixnum,
  and the full buffers before it, the latest first.  \<open>SOP_write\<close> fills and pushes a buffer that a
  write does not fit in; \<open>SOP_flush\<close> collects everything in one string, filling it from its end.
  Positions and lengths are 32-bit words, as \<^verbatim>\<open>UINT_32\<close> and \<^verbatim>\<open>int\<close> are; a failed assertion and a copy that
  leaves a buffer are \<open>None\<close>.  A fresh buffer holds whatever the allocator left in it; the model has zeros
  there, and no theorem depends on them.  The locale \<open>byte_sink\<close> is what writers of bytes rely on.
\<close>

section \<open>The code\<close>

definition SOP_BLOCK_SIZE :: u32 where
  "SOP_BLOCK_SIZE = 128 - 16"

record sop_port =
  SOP_BUFFER :: "u8 list"
  SOP_INDEX :: u32
  SOP_OVERFLOW :: "u8 list list"

text \<open>\<^verbatim>\<open>memcpy\<close> of \<open>n\<close> bytes to offset \<open>pos\<close>, and with the check that it stays inside both objects.\<close>

definition memcpy :: "u8 list \<Rightarrow> nat \<Rightarrow> u8 list \<Rightarrow> nat \<Rightarrow> u8 list" where
  "memcpy dst pos src n = take pos dst @ take n src @ drop (pos + n) dst"

definition memcpy_within :: "u8 list \<Rightarrow> nat \<Rightarrow> u8 list \<Rightarrow> nat \<Rightarrow> u8 list option" where
  "memcpy_within dst pos src n =
     (if pos + n \<le> length dst \<and> n \<le> length src then Some (memcpy dst pos src n) else None)"

definition SOP_write :: "sop_port \<Rightarrow> u8 list \<Rightarrow> sop_port option" where
  "SOP_write port src =
     (let len = of_nat (length src) :: u32;
          buf = SOP_BUFFER port;
          fxpos = SOP_INDEX port;
          max = of_nat (length buf) :: u32;
          pos = fx2int fxpos
      in if \<not> FIXNUM_P fxpos then None
         else if pos + len \<ge> max
         then let n = max - pos
              in case memcpy_within buf (unat pos) src (unat n) of
                   None \<Rightarrow> None
                 | Some full \<Rightarrow>
                     let src = drop (unat n) src;
                         len = len - n;
                         newbuflen = (if len > SOP_BLOCK_SIZE then len + SOP_BLOCK_SIZE else SOP_BLOCK_SIZE)
                     in case memcpy_within (replicate (unat newbuflen) 0) 0 src (unat len) of
                          None \<Rightarrow> None
                        | Some buf \<Rightarrow>
                            Some \<lparr>SOP_BUFFER = buf, SOP_INDEX = int2fx (0 + len), SOP_OVERFLOW = full # SOP_OVERFLOW port\<rparr>
         else (case memcpy_within buf (unat pos) src (unat len) of
                 None \<Rightarrow> None
               | Some buf \<Rightarrow> Some (port\<lparr>SOP_BUFFER := buf, SOP_INDEX := int2fx (pos + len)\<rparr>)))"

text \<open>The two loops of \<^verbatim>\<open>SOP_flush\<close>: the total length, then the copy from the end.  A port closed
  by \<open>closeq\<close>, its buffers set to \<^verbatim>\<open>#f\<close>, is \<open>None\<close>.\<close>

fun flush_length :: "u32 \<Rightarrow> u8 list list \<Rightarrow> u32" where
  "flush_length len [] = len"
| "flush_length len (b # overflow) = flush_length (len + of_nat (length b)) overflow"

fun flush_loop :: "u8 list \<Rightarrow> u32 \<Rightarrow> u8 list \<Rightarrow> u32 \<Rightarrow> u8 list list \<Rightarrow> u8 list option" where
  "flush_loop dst endptr src len [] = memcpy_within dst (unat (endptr - len)) src (unat len)"
| "flush_loop dst endptr src len (b # overflow) =
     (case memcpy_within dst (unat (endptr - len)) src (unat len) of
        None \<Rightarrow> None
      | Some dst \<Rightarrow> flush_loop dst (endptr - len) b (of_nat (length b)) overflow)"

definition SOP_flush :: "sop_port \<Rightarrow> bool \<Rightarrow> (u8 list \<times> sop_port option) option" where
  "SOP_flush port closeq =
     (let len = flush_length (fx2int (SOP_INDEX port)) (SOP_OVERFLOW port);
          dst = replicate (unat (len + 1)) 0
      in if \<not> unat len < length dst then None
         else case flush_loop (dst[unat len := 0]) len (SOP_BUFFER port) (fx2int (SOP_INDEX port)) (SOP_OVERFLOW port) of
                None \<Rightarrow> None
              | Some dst \<Rightarrow> Some (dst, if closeq then None else Some port))"

section \<open>What has been written\<close>

definition sop_pos :: "sop_port \<Rightarrow> nat" where
  "sop_pos port = unat (fx2int (SOP_INDEX port))"

definition sop_ok :: "sop_port \<Rightarrow> bool" where
  "sop_ok port \<longleftrightarrow>
     FIXNUM_P (SOP_INDEX port) \<and> sop_pos port \<le> length (SOP_BUFFER port) \<and> length (SOP_BUFFER port) < 2 ^ 29"

definition sop_contents :: "sop_port \<Rightarrow> u8 list" where
  "sop_contents port = concat (rev (SOP_OVERFLOW port)) @ take (sop_pos port) (SOP_BUFFER port)"

text \<open>A write of this size leaves the position in a new buffer a fixnum that is not negative.\<close>

definition sop_fits :: "u8 list \<Rightarrow> bool" where
  "sop_fits src \<longleftrightarrow> length src + 112 < 2 ^ 29"

lemma length_memcpy: "pos + n \<le> length dst \<Longrightarrow> n \<le> length src \<Longrightarrow> length (memcpy dst pos src n) = length dst"
  by (simp add: memcpy_def)

lemma index_back: "n < 2 ^ 29 \<Longrightarrow> fx2int (int2fx (of_nat n)) = of_nat n"
  by (rule fx_small) (simp add: unat_of_nat take_bit_nat_eq_self)

lemma unat_len: "n < 2 ^ 32 \<Longrightarrow> unat (of_nat n :: u32) = n"
  by (simp add: unat_of_nat take_bit_nat_eq_self)

lemma sop_write_contents:
  assumes ok: "sop_ok port" and fits: "sop_fits src"
  obtains p where "SOP_write port src = Some p" "sop_ok p" "sop_contents p = sop_contents port @ src"
proof -
  let ?b = "SOP_BUFFER port" and ?l = "length src"
  define pos where "pos = sop_pos port"
  have fx: "FIXNUM_P (SOP_INDEX port)" and p: "pos \<le> length ?b" "length ?b < 2 ^ 29" and l: "?l + 112 < 2 ^ 29"
    using ok fits by (simp_all add: sop_ok_def sop_fits_def pos_def)
  have pw: "fx2int (SOP_INDEX port) = of_nat pos" by (simp add: pos_def sop_pos_def)
  have up: "unat (of_nat pos :: u32) = pos" "unat (of_nat ?l :: u32) = ?l" "unat (of_nat (length ?b) :: u32) = length ?b"
    using p l by (simp_all add: unat_len)
  have s: "of_nat pos + of_nat ?l = (of_nat (pos + ?l) :: u32)" "unat (of_nat (pos + ?l) :: u32) = pos + ?l"
    using p l by (simp, intro unat_len, simp)
  show thesis
  proof (cases "length ?b \<le> pos + ?l")
    case True
    define n where "n = length ?b - pos"
    have n: "n \<le> ?l" "pos + n = length ?b" using True p by (simp_all add: n_def)
    have w: "of_nat (length ?b) - of_nat pos = (of_nat n :: u32)" using p by (simp add: n_def of_nat_diff)
    define m where "m = (of_nat ?l - of_nat n :: u32)"
    have "m = of_nat (?l - n)" using n(1) by (simp add: m_def of_nat_diff)
    then have m: "unat m = ?l - n" using unat_len [of "?l - n"] l by simp
    have u: "unat (of_nat n :: u32) = n" using n p by (simp add: unat_len)
    define nb where "nb = (if m > SOP_BLOCK_SIZE then m + SOP_BLOCK_SIZE else SOP_BLOCK_SIZE)"
    have nb: "?l - n \<le> unat nb" "unat nb < 2 ^ 29"
    proof -
      have "m + 112 = of_nat (unat m + 112)" by simp
      moreover have "unat (of_nat (unat m + 112) :: u32) = unat m + 112" using m l by (intro unat_len) simp
      ultimately have "unat (m + 112) = unat m + 112" by metis
      then show "?l - n \<le> unat nb" "unat nb < 2 ^ 29" using l m
        by (auto simp: nb_def SOP_BLOCK_SIZE_def word_less_nat_alt)
    qed
    let ?p = "\<lparr>SOP_BUFFER = drop n src @ drop (?l - n) (replicate (unat nb) 0), SOP_INDEX = int2fx m,
      SOP_OVERFLOW = (take pos ?b @ take n src) # SOP_OVERFLOW port\<rparr>"
    have c: "\<not> of_nat pos + of_nat ?l < (of_nat (length ?b) :: u32)"
      unfolding s(1) word_less_nat_alt s(2) up(3) using True by simp
    have "memcpy_within ?b pos src n = Some (take pos ?b @ take n src)" using n p(1) by (simp add: memcpy_within_def memcpy_def)
    moreover have "memcpy_within (replicate (unat nb) 0) 0 (drop n src) (unat m) = Some (drop n src @ drop (?l - n) (replicate (unat nb) 0))"
      using nb(1) m by (simp add: memcpy_within_def memcpy_def)
    ultimately have "SOP_write port src = Some ?p"
      using fx c by (simp add: SOP_write_def Let_def pw w u up(1) m_def [symmetric] nb_def [symmetric] not_less)
    moreover have "sop_pos ?p = ?l - n" using fx_small [of m] l m by (simp add: sop_pos_def)
    ultimately show thesis using that [of ?p] nb n p(1)
      by (simp add: sop_ok_def sop_contents_def pos_def [symmetric])
  next
    case False
    let ?p = "port\<lparr>SOP_BUFFER := take pos ?b @ src @ drop (pos + ?l) ?b, SOP_INDEX := int2fx (of_nat (pos + ?l))\<rparr>"
    have c: "of_nat pos + of_nat ?l < (of_nat (length ?b) :: u32)"
      unfolding s(1) word_less_nat_alt s(2) up(3) using False by simp
    have "SOP_write port src = Some ?p"
      using fx c False up p(1) by (simp add: SOP_write_def Let_def pw memcpy_within_def memcpy_def not_less not_le)
    moreover have "sop_pos ?p = pos + ?l" using index_back [of "pos + ?l"] s(2) p False by (simp add: sop_pos_def)
    ultimately show thesis using that [of ?p] False p
      by (simp add: sop_ok_def sop_contents_def pos_def [symmetric])
  qed
qed

lemma flush_length_sum: "flush_length len overflow = len + of_nat (length (concat overflow))"
  by (induction len overflow rule: flush_length.induct) (simp_all add: add.assoc)

lemma flush_loop_contents:
  assumes "len \<le> length src" "endptr = len + length (concat overflow)" "endptr \<le> length dst" "length dst < 2 ^ 32"
  shows "flush_loop dst (of_nat endptr) src (of_nat len) overflow =
    Some (concat (rev overflow) @ take len src @ drop endptr dst)"
  using assms
proof (induction overflow arbitrary: dst endptr src len)
  case Nil
  then show ?case by (simp add: memcpy_within_def memcpy_def unat_len)
next
  case (Cons b overflow)
  have e: "endptr - len = length b + length (concat overflow)" "len \<le> endptr" using Cons.prems(2) by simp_all
  have w: "of_nat endptr - of_nat len = (of_nat (endptr - len) :: u32)" using e(2) by (simp add: of_nat_diff)
  have "endptr - len < 2 ^ 32" "len < 2 ^ 32" using Cons.prems by simp_all
  then have u: "unat (of_nat (endptr - len) :: u32) = endptr - len" "unat (of_nat len :: u32) = len"
    using unat_len by blast+
  let ?d = "take (endptr - len) dst @ take len src @ drop endptr dst"
  have m: "memcpy_within dst (endptr - len) src len = Some ?d"
    using Cons.prems(1,3) by (simp only: memcpy_within_def memcpy_def le_add_diff_inverse2 [OF e(2)]) simp
  have "flush_loop ?d (of_nat (endptr - len)) b (of_nat (length b)) overflow =
      Some (concat (rev overflow) @ take (length b) b @ drop (endptr - len) ?d)"
    using Cons.prems e by (intro Cons.IH) simp_all
  moreover have "length (take (endptr - len) dst) = endptr - len" using Cons.prems(3) by simp
  then have "drop (endptr - len) ?d = take len src @ drop endptr dst" by (metis append_eq_conv_conj)
  ultimately show ?case using m by (simp add: w u)
qed

section \<open>The contract of a byte sink\<close>

locale byte_sink =
  fixes ok :: "'p \<Rightarrow> bool" and fits :: "u8 list \<Rightarrow> bool" and contents :: "'p \<Rightarrow> u8 list"
    and put :: "'p \<Rightarrow> u8 list \<Rightarrow> 'p option"
  assumes put_law: "ok p \<Longrightarrow> fits bs \<Longrightarrow> \<exists>p'. put p bs = Some p' \<and> ok p' \<and> contents p' = contents p @ bs"
begin

fun puts :: "'p \<Rightarrow> u8 list list \<Rightarrow> 'p option" where
  "puts p [] = Some p"
| "puts p (bs # bss) = (case put p bs of None \<Rightarrow> None | Some p \<Rightarrow> puts p bss)"

lemma puts_contents:
  "ok p \<Longrightarrow> list_all fits bss \<Longrightarrow> \<exists>p'. puts p bss = Some p' \<and> ok p' \<and> contents p' = contents p @ concat bss"
proof (induction bss arbitrary: p)
  case (Cons bs bss)
  then obtain p1 where p1: "put p bs = Some p1" "ok p1" "contents p1 = contents p @ bs" using put_law [of p bs] by auto
  then show ?case using Cons.IH [OF p1(2)] Cons.prems(2) by auto
qed simp

end

interpretation sop: byte_sink sop_ok sop_fits sop_contents SOP_write
  by unfold_locales (blast elim: sop_write_contents)

section \<open>Properties\<close>

text \<open>C36: a string port holds exactly what has been written to it: any sequence of writes, each of less than
  \<open>2 ^ 29 - 112\<close> bytes, returns, with every copy inside its buffers, and \<open>SOP_flush\<close> then gives their concatenation,
  with its terminator, as long as the total fits in an \<^verbatim>\<open>int\<close>.\<close>

lemma sop_writes_flush:
  assumes "sop_ok port" "list_all sop_fits srcs" "length (sop_contents port) + length (concat srcs) < 2 ^ 31 - 1"
  shows "\<exists>p. sop.puts port srcs = Some p \<and> sop_ok p \<and> sop_contents p = sop_contents port @ concat srcs \<and>
    SOP_flush p closeq = Some (sop_contents port @ concat srcs @ [0], if closeq then None else Some p)"
proof -
  obtain p where p: "sop.puts port srcs = Some p" "sop_ok p" "sop_contents p = sop_contents port @ concat srcs"
    using sop.puts_contents [OF assms(1,2)] by blast
  define n where "n = sop_pos p + length (concat (SOP_OVERFLOW p))"
  have ps: "sop_pos p \<le> length (SOP_BUFFER p)" using p(2) by (simp add: sop_ok_def)
  have n: "n = length (sop_contents p)" using ps by (simp add: n_def sop_contents_def length_concat rev_map [symmetric] sum_list_rev)
  then have nb: "n + 1 < 2 ^ 31" using assms(3) p(3) by simp
  have pw: "fx2int (SOP_INDEX p) = of_nat (sop_pos p)" by (simp add: sop_pos_def)
  have len: "flush_length (of_nat (sop_pos p)) (SOP_OVERFLOW p) = of_nat n" by (simp add: flush_length_sum n_def)
  have u: "unat (of_nat n :: u32) = n" "unat (of_nat n + 1 :: u32) = n + 1"
    using nb unat_len [of n] unat_len [of "n + 1"] by (simp_all add: add.commute)
  define dst where "dst = (replicate (Suc n) (0 :: u8))[n := 0]"
  have dst: "dst = replicate (Suc n) 0"
    unfolding dst_def using list_update_id [of "replicate (Suc n) (0 :: u8)" n] by (simp del: replicate_Suc)
  have "drop n dst = [0]" unfolding dst by (simp only: drop_replicate) simp
  moreover have "flush_loop dst (of_nat n) (SOP_BUFFER p) (of_nat (sop_pos p)) (SOP_OVERFLOW p) =
      Some (concat (rev (SOP_OVERFLOW p)) @ take (sop_pos p) (SOP_BUFFER p) @ drop n dst)"
    by (rule flush_loop_contents) (use ps nb in \<open>simp_all add: n_def dst\<close>)
  ultimately have "SOP_flush p closeq = Some (sop_contents p @ [0], if closeq then None else Some p)"
    unfolding SOP_flush_def Let_def pw len u by (simp add: dst_def [symmetric] sop_contents_def del: replicate_Suc list_update.simps)
  then show ?thesis using p by simp
qed

lemma sop_writes_flush_witness:
  "\<exists>p. sop.puts \<lparr>SOP_BUFFER = [0, 0, 0], SOP_INDEX = 0, SOP_OVERFLOW = []\<rparr> [[1, 2], [3, 4, 5], []] = Some p \<and>
     SOP_flush p True = Some ([1, 2, 3, 4, 5, 0], None)"
proof -
  let ?p = "\<lparr>SOP_BUFFER = [0, 0, 0], SOP_INDEX = 0, SOP_OVERFLOW = []\<rparr> :: sop_port"
  have p: "sop_pos ?p = 0" "FIXNUM_P 0" by (simp_all add: sop_pos_def fx2int_def FIXNUM_P_def TEST_PRIMARY_TAG_def)
  then have "sop_ok ?p" "sop_contents ?p = []" by (simp_all add: sop_ok_def sop_contents_def)
  then have "\<exists>p. sop.puts ?p [[1, 2], [3, 4, 5], []] = Some p \<and> sop_ok p \<and> sop_contents p = [1, 2, 3, 4, 5] \<and>
      SOP_flush p True = Some ([1, 2, 3, 4, 5, 0], None)"
    using sop_writes_flush [of ?p "[[1, 2], [3, 4, 5], []]" True] by (simp add: sop_fits_def del: sop.puts.simps)
  then show ?thesis by blast
qed

text \<open>What the bound is for: a larger write makes the position negative.\<close>

lemma sop_index_wraps:
  assumes "SOP_INDEX port = ZERO" "length (SOP_BUFFER port) = 112" "length src = 2 ^ 29 + 112"
  shows "\<exists>p. SOP_write port src = Some p \<and> sint (fx2int (SOP_INDEX p)) = - (2 ^ 29)"
proof -
  have z: "fx2int (SOP_INDEX port) = 0" "FIXNUM_P (SOP_INDEX port)" unfolding assms(1) ZERO_def
    using index_back [of 0] by simp_all
  have l: "of_nat (length src) = (536871024 :: u32)" using arg_cong [OF assms(3), of "of_nat :: nat \<Rightarrow> u32"] by simp
  have "SOP_write port src = Some
      \<lparr>SOP_BUFFER = drop 112 src @ replicate 112 0, SOP_INDEX = int2fx 536870912, SOP_OVERFLOW = (take 112 src) # SOP_OVERFLOW port\<rparr>"
    using assms(2,3) by (simp add: SOP_write_def Let_def z l memcpy_within_def memcpy_def SOP_BLOCK_SIZE_def)
  moreover have "sint (fx2int (int2fx 536870912)) = - (2 ^ 29)"
    by (simp add: sint_fx2int_int2fx signed_take_bit_eq_take_bit_shift take_bit_eq_mod)
  ultimately show ?thesis by simp
qed

end
