(* ===== verification/Strings.thy ===== *)
theory Strings
  imports HashFn OutPort
begin

text \<open>
  The primitive string operations, \<^verbatim>\<open>handc/runtime/strings.c\<close>: byte vectors with their size and
  the padding to whole words that the comparison by words reads, comparison with and without
  case, access, copying, hashing of a part, and the search for a string or a character in a string
  of bytes or of 16-bit units.  A failed assertion, an error raised to Scheme and an access
  outside of an object are the values of \<open>str_error\<close>.
\<close>

unbundle bit_operations_syntax

section \<open>Byte vectors\<close>

text \<open>The data of an object fills whole words; \<open>pob_size\<close> is its size in bytes.\<close>

record bvec =
  pob_size :: nat
  pob_data :: "u8 list"

datatype str_error = Assert_failed | Scheme_error | Outside_object

definition words_for :: "nat \<Rightarrow> nat" where
  "words_for n = (n + 3) div 4"

text \<open>The last word is cleared; what \<^verbatim>\<open>alloc\<close> leaves in the others is taken to be zero too.\<close>

definition bvec_alloc :: "nat \<Rightarrow> bvec" where
  "bvec_alloc num_bytes = \<lparr>pob_size = num_bytes, pob_data = replicate (4 * words_for num_bytes) 0\<rparr>"

definition string_length :: "bvec \<Rightarrow> nat" where
  "string_length str = pob_size str - 1"

definition make_string :: "u8 list \<Rightarrow> bvec" where
  "make_string text =
     (let len = length text;
          str = bvec_alloc (len + 1)
      in str\<lparr>pob_data := memcpy (pob_data str) 0 text len\<rparr>)"

section \<open>Comparison\<close>

text \<open>\<^verbatim>\<open>string_eq\<close> reads word by word; two words are equal when their four bytes are.\<close>

function eq_loop :: "int \<Rightarrow> u8 list \<Rightarrow> u8 list \<Rightarrow> bool" where
  "eq_loop n s1 s2 =
     (if n > 0
      then if take 4 s1 \<noteq> take 4 s2 then False
           else eq_loop (n - 4) (drop 4 s1) (drop 4 s2)
      else True)"
  by pat_completeness auto
termination by (relation "measure (\<lambda>(n, s1, s2). nat n)") auto

declare eq_loop.simps [simp del]

definition string_eq :: "bvec \<Rightarrow> bvec \<Rightarrow> bool" where
  "string_eq str1 str2 =
     (if pob_size str1 \<noteq> pob_size str2 then False
      else eq_loop (int (pob_size str1)) (pob_data str1) (pob_data str2))"

fun cmp_loop :: "u8 list \<Rightarrow> nat \<Rightarrow> u8 list \<Rightarrow> nat \<Rightarrow> int" where
  "cmp_loop s1 (Suc len1) s2 (Suc len2) =
     (if hd s1 \<noteq> hd s2 then (if hd s1 < hd s2 then -1 else 1)
      else cmp_loop (tl s1) len1 (tl s2) len2)"
| "cmp_loop s1 (Suc len1) s2 0 = 1"
| "cmp_loop s1 0 s2 (Suc len2) = -1"
| "cmp_loop s1 0 s2 0 = 0"

definition string_cmp :: "bvec \<Rightarrow> bvec \<Rightarrow> int" where
  "string_cmp str1 str2 = cmp_loop (pob_data str1) (string_length str1) (pob_data str2) (string_length str2)"

text \<open>\<^verbatim>\<open>isupper\<close> and \<^verbatim>\<open>tolower\<close> of the C locale.\<close>

definition isupper :: "u8 \<Rightarrow> bool" where
  "isupper c \<longleftrightarrow> 65 \<le> c \<and> c \<le> 90"

definition tolower :: "u8 \<Rightarrow> u8" where
  "tolower c = (if isupper c then c + 32 else c)"

fun ci_cmp_loop :: "u8 list \<Rightarrow> nat \<Rightarrow> u8 list \<Rightarrow> nat \<Rightarrow> int" where
  "ci_cmp_loop s1 (Suc len1) s2 (Suc len2) =
     (let c1 = hd s1; c2 = hd s2;
          c1 = (if isupper c1 then tolower c1 else c1);
          c2 = (if isupper c2 then tolower c2 else c2)
      in if c1 \<noteq> c2 then (if c1 < c2 then -1 else 1)
         else ci_cmp_loop (tl s1) len1 (tl s2) len2)"
| "ci_cmp_loop s1 (Suc len1) s2 0 = 1"
| "ci_cmp_loop s1 0 s2 (Suc len2) = -1"
| "ci_cmp_loop s1 0 s2 0 = 0"

definition string_ci_cmp :: "bvec \<Rightarrow> bvec \<Rightarrow> int" where
  "string_ci_cmp str1 str2 =
     ci_cmp_loop (pob_data str1) (string_length str1) (pob_data str2) (string_length str2)"

definition string_ci_eq :: "bvec \<Rightarrow> bvec \<Rightarrow> bool" where
  "string_ci_eq str1 str2 \<longleftrightarrow> string_ci_cmp str1 str2 = 0"

section \<open>Access, copying, hashing of a part\<close>

definition string_ref :: "bvec \<Rightarrow> u32 \<Rightarrow> str_error + u32" where
  "string_ref str index =
     (if \<not> unat index < string_length str then Inl Assert_failed
      else Inr (MAKE_IMMOB ASCII_CHAR_TAG (ucast (pob_data str ! unat index))))"

definition string_set :: "bvec \<Rightarrow> u32 \<Rightarrow> u32 \<Rightarrow> str_error + bvec" where
  "string_set str index ch =
     (if \<not> unat index < string_length str then Inl Assert_failed
      else if \<not> TEST_SECONDARY_TAG ch ASCII_CHAR_TAG then Inl Assert_failed
      else Inr (str\<lparr>pob_data := (pob_data str)[unat index := ucast (GET_IMMEDIATE_VALUE ch)]\<rparr>))"

text \<open>\<^verbatim>\<open>memmove\<close> reads all it copies before it writes, so source and destination may be one object.\<close>

definition bvec_copy :: "bvec \<Rightarrow> u32 \<Rightarrow> bvec \<Rightarrow> u32 \<Rightarrow> u32 \<Rightarrow> str_error + bvec" where
  "bvec_copy dst dst_offset src src_offset len =
     (if \<not> (sint len \<ge> 0 \<and> sint dst_offset \<ge> 0 \<and> sint src_offset \<ge> 0) then Inl Assert_failed
      else if \<not> unat (dst_offset + len) \<le> pob_size dst then Inl Assert_failed
      else if \<not> unat (src_offset + len) \<le> pob_size src then Inl Assert_failed
      else Inr (dst\<lparr>pob_data := memcpy (pob_data dst) (unat dst_offset)
                                  (drop (unat src_offset) (pob_data src)) (unat len)\<rparr>))"

text \<open>The bytes from \<open>p + offset\<close>; before the data of the object lies its header.\<close>

definition bvec_part :: "bvec \<Rightarrow> u32 \<Rightarrow> u32 \<Rightarrow> str_error + u8 list" where
  "bvec_part b offset len =
     (if len = 0 then Inr []
      else if sint offset < 0 then Inl Outside_object
      else Inr (take (unat len) (drop (unat offset) (pob_data b))))"

definition bvec_hash :: "bvec \<Rightarrow> u32 \<Rightarrow> u32 \<Rightarrow> str_error + u32" where
  "bvec_hash b offset len =
     (if \<not> sint len \<ge> 0 then Inl Assert_failed
      else if \<not> unat (offset + len) \<le> pob_size b then Inl Assert_failed
      else case bvec_part b offset len of Inl e \<Rightarrow> Inl e | Inr bytes \<Rightarrow> Inr (raw_bytes_hash bytes))"

definition bvec_ci_hash :: "bvec \<Rightarrow> u32 \<Rightarrow> u32 \<Rightarrow> str_error + u32" where
  "bvec_ci_hash b offset len =
     (if \<not> sint len \<ge> 0 then Inl Assert_failed
      else if \<not> unat (offset + len) \<le> pob_size b then Inl Assert_failed
      else case bvec_part b offset len of Inl e \<Rightarrow> Inl e | Inr bytes \<Rightarrow> Inr (raw_ci_bytes_hash bytes))"

section \<open>Search\<close>

text \<open>
  The body of the macro \<^verbatim>\<open>rs_str_search\<close>, for units of any two widths: pointers are the part of the
  buffer from where they point.  Units of different widths are compared as integers.
\<close>

fun match_rest :: "'a::len word list \<Rightarrow> 'b::len word list \<Rightarrow> nat \<Rightarrow> str_error + bool" where
  "match_rest p seek 0 = Inr True"
| "match_rest (x # p) (y # seek) (Suc n) = (if unat x \<noteq> unat y then Inr False else match_rest p seek n)"
| "match_rest _ _ (Suc n) = Inl Outside_object"

fun search_loop :: "nat \<Rightarrow> nat \<Rightarrow> 'a::len word list \<Rightarrow> 'b::len word \<Rightarrow> 'b word list \<Rightarrow> nat \<Rightarrow> str_error + u32" where
  "search_loop pos 0 p first_ch seek seek_cnt = Inr FALSE_OBJ"
| "search_loop pos (Suc left) [] first_ch seek seek_cnt = Inl Outside_object"
| "search_loop pos (Suc left) (x # p) first_ch seek seek_cnt =
     (if unat x = unat first_ch
      then if seek_cnt = 0 then Inr (int2fx (of_nat pos))
           else case match_rest p seek seek_cnt of
                  Inl e \<Rightarrow> Inl e
                | Inr True \<Rightarrow> Inr (int2fx (of_nat pos))
                | Inr False \<Rightarrow> search_loop (Suc pos) left p first_ch seek seek_cnt
      else search_loop (Suc pos) left p first_ch seek seek_cnt)"

definition rs_str_search :: "'a::len word list \<Rightarrow> u32 \<Rightarrow> 'b::len word list \<Rightarrow> u32 \<Rightarrow> u32 \<Rightarrow> str_error + u32" where
  "rs_str_search str str_cnt seek seek_cnt skipn =
     (case seek of
        [] \<Rightarrow> Inl Outside_object
      | first_ch # seek \<Rightarrow>
          search_loop (unat skipn) (unat str_cnt - unat skipn) (drop (unat skipn) str) first_ch seek
            (unat (seek_cnt - 1)))"

text \<open>The values \<^verbatim>\<open>rs_string_search\<close> tells apart.  A unicode string has its size and its 16-bit units.\<close>

datatype str_obj =
    Byte_String bvec
  | Unicode_String nat "u16 list"
  | Byte_Char u8
  | Unicode_Char u16
  | Other_Obj

definition search_in :: "'a::len word list \<Rightarrow> u32 \<Rightarrow> str_obj \<Rightarrow> u32 \<Rightarrow> str_error + u32" where
  "search_in str_p str_cnt seek skipn =
     (if sint skipn < 0 \<or> skipn \<ge> str_cnt
      then if skipn = str_cnt then Inr FALSE_OBJ else Inl Scheme_error
      else case seek of
        Byte_String b \<Rightarrow> rs_str_search str_p str_cnt (pob_data b) (of_nat (pob_size b - 1)) skipn
      | Unicode_String sz us \<Rightarrow> rs_str_search str_p str_cnt us (of_nat (sz div 2 - 1)) skipn
      | Byte_Char ch \<Rightarrow> rs_str_search str_p str_cnt [ch] 1 skipn
      | Unicode_Char ch \<Rightarrow> rs_str_search str_p str_cnt [ch] 1 skipn
      | Other_Obj \<Rightarrow> Inl Scheme_error)"

definition rs_string_search :: "str_obj \<Rightarrow> str_obj \<Rightarrow> u32 \<Rightarrow> str_error + u32" where
  "rs_string_search str seek skipn =
     (case str of
        Byte_String b \<Rightarrow> search_in (pob_data b) (of_nat (pob_size b - 1)) seek skipn
      | Unicode_String sz us \<Rightarrow> search_in us (of_nat (sz div 2 - 1)) seek skipn
      | _ \<Rightarrow> Inl Scheme_error)"

section \<open>Contents\<close>

definition bvec_ok :: "bvec \<Rightarrow> bool" where
  "bvec_ok b \<longleftrightarrow> length (pob_data b) = 4 * words_for (pob_size b) \<and>
     (\<forall>x \<in> set (drop (pob_size b) (pob_data b)). x = 0)"

definition string_ok :: "bvec \<Rightarrow> bool" where
  "string_ok b \<longleftrightarrow> bvec_ok b \<and> 0 < pob_size b \<and> pob_size b < 2 ^ 31 \<and> pob_data b ! (pob_size b - 1) = 0"

definition text_of :: "bvec \<Rightarrow> u8 list" where
  "text_of b = take (string_length b) (pob_data b)"

lemma words_for_bounds: "n \<le> 4 * words_for n" "4 * words_for n < n + 4"
  by (auto simp: words_for_def)

lemma all_zero_replicate: "(\<forall>x \<in> set xs. x = 0) \<longleftrightarrow> xs = replicate (length xs) (0 :: u8)"
  by (induction xs) auto

lemma string_data:
  assumes "string_ok b"
  obtains pad where "pob_data b = text_of b @ replicate (Suc pad) 0"
    "pob_size b = Suc (length (text_of b))" "Suc pad = 4 * words_for (pob_size b) - length (text_of b)"
proof -
  let ?n = "pob_size b" and ?d = "pob_data b"
  have n: "0 < ?n" "?n \<le> length ?d" "length ?d = 4 * words_for ?n" "?d ! (?n - 1) = 0"
    "drop ?n ?d = replicate (length ?d - ?n) 0"
    using assms words_for_bounds [of ?n] by (auto simp: string_ok_def bvec_ok_def all_zero_replicate)
  have "?d = take (?n - 1) ?d @ ?d ! (?n - 1) # drop ?n ?d"
    using id_take_nth_drop [of "?n - 1" ?d] n by simp
  then have d: "?d = text_of b @ replicate (Suc (length ?d - ?n)) 0"
    using n by (simp add: text_of_def string_length_def)
  show ?thesis
  proof
    show "?d = text_of b @ replicate (Suc (length ?d - ?n)) 0" by (rule d)
    show "?n = Suc (length (text_of b))" "Suc (length ?d - ?n) = 4 * words_for ?n - length (text_of b)"
      using n by (auto simp: text_of_def string_length_def)
  qed
qed

lemma make_string_ok:
  assumes "length text < 2 ^ 31 - 1"
  shows "string_ok (make_string text)" "text_of (make_string text) = text"
proof -
  define w where "w = 4 * words_for (length text + 1)"
  have w: "length text < w" using words_for_bounds(1) [of "length text + 1"] by (simp add: w_def)
  have m: "make_string text = \<lparr>pob_size = length text + 1, pob_data = text @ replicate (w - length text) 0\<rparr>"
    by (simp add: make_string_def bvec_alloc_def Let_def memcpy_def w_def)
  show "string_ok (make_string text)"
    using assms w unfolding m string_ok_def bvec_ok_def by (auto simp: w_def nth_append)
  show "text_of (make_string text) = text"
    using w unfolding m by (simp add: text_of_def string_length_def)
qed

section \<open>Comparison: lemmas\<close>

lemma eq_loop_iff:
  assumes "length s1 = length s2" "4 * words_for (nat n) = length s1" "0 \<le> n"
  shows "eq_loop n s1 s2 \<longleftrightarrow> s1 = s2"
  using assms
proof (induction n s1 s2 rule: eq_loop.induct)
  case (1 n s1 s2)
  show ?case
  proof (cases "n > 0")
    case True
    have split: "s1 = s2 \<longleftrightarrow> take 4 s1 = take 4 s2 \<and> drop 4 s1 = drop 4 s2"
      by (metis append_take_drop_id)
    have w: "4 * words_for (nat n) = 4 + 4 * words_for (nat (n - 4))" if "4 \<le> n"
    proof -
      have n: "nat n = 4 + nat (n - 4)" using that by simp
      have "(4 + k + 3) div 4 = 1 + (k + 3) div 4" for k :: nat by simp
      from this [of "nat (n - 4)"] show ?thesis unfolding words_for_def n by simp
    qed
    show ?thesis
    proof (cases "4 \<le> n")
      case True
      then show ?thesis using 1 w split by (subst eq_loop.simps) auto
    next
      case False
      then have "n = 1 \<or> n = 2 \<or> n = 3" using \<open>n > 0\<close> by linarith
      then have "length s1 = 4" using 1(3) by (auto simp: words_for_def)
      moreover have "eq_loop (n - 4) (drop 4 s1) (drop 4 s2)" using False by (subst eq_loop.simps) simp
      ultimately show ?thesis using 1(2) \<open>n > 0\<close> by (subst eq_loop.simps) auto
    qed
  next
    case False
    then have "length s1 = 0" using 1(3,4) by (simp add: words_for_def)
    then show ?thesis using False 1(2) by (subst eq_loop.simps) auto
  qed
qed

lemma string_eq_iff:
  assumes "string_ok a" "string_ok b"
  shows "string_eq a b \<longleftrightarrow> text_of a = text_of b"
proof -
  obtain p where a: "pob_data a = text_of a @ replicate (Suc p) 0" "pob_size a = Suc (length (text_of a))"
    "Suc p = 4 * words_for (pob_size a) - length (text_of a)" by (rule string_data [OF assms(1)])
  obtain q where b: "pob_data b = text_of b @ replicate (Suc q) 0" "pob_size b = Suc (length (text_of b))"
    "Suc q = 4 * words_for (pob_size b) - length (text_of b)" by (rule string_data [OF assms(2)])
  show ?thesis
  proof (cases "pob_size a = pob_size b")
    case True
    then have l: "length (text_of a) = length (text_of b)" "p = q" using a b by simp_all
    have "length (pob_data a) = 4 * words_for (pob_size a)" using assms by (simp add: string_ok_def bvec_ok_def)
    moreover have "length (pob_data b) = 4 * words_for (pob_size b)" using assms by (simp add: string_ok_def bvec_ok_def)
    ultimately have "eq_loop (int (pob_size a)) (pob_data a) (pob_data b) \<longleftrightarrow> pob_data a = pob_data b"
      using True by (intro eq_loop_iff) simp_all
    then show ?thesis using True l unfolding string_eq_def a(1) b(1) by simp
  next
    case False
    then show ?thesis using a b by (auto simp: string_eq_def)
  qed
qed

lemma cmp_loop_take: "cmp_loop (xs @ r) (length xs) (ys @ q) (length ys) = cmp_loop xs (length xs) ys (length ys)"
proof (induction xs arbitrary: ys)
  case Nil
  then show ?case by (cases ys) simp_all
next
  case (Cons x xs)
  then show ?case by (cases ys) simp_all
qed

lemma ci_cmp_loop_map:
  "ci_cmp_loop (xs @ r) (length xs) (ys @ q) (length ys)
     = cmp_loop (map tolower xs) (length xs) (map tolower ys) (length ys)"
proof (induction xs arbitrary: ys)
  case Nil
  then show ?case by (cases ys) simp_all
next
  case (Cons x xs)
  have t: "(if isupper c then tolower c else c) = tolower c" for c by (simp add: tolower_def)
  show ?case using Cons by (cases ys) (simp_all add: t Let_def)
qed

definition byte_order :: "(u8 \<times> u8) set" where
  "byte_order = {(a, b). a < b}"

lemma cmp_loop_lexord:
  "cmp_loop xs (length xs) ys (length ys) =
     (if xs = ys then 0 else if (xs, ys) \<in> lexord byte_order then -1 else 1)"
proof (induction xs arbitrary: ys)
  case Nil
  then show ?case by (cases ys) simp_all
next
  case (Cons x xs)
  then show ?case by (cases ys) (auto simp: byte_order_def)
qed

lemma string_cmp_text:
  assumes "string_ok a" "string_ok b"
  shows "string_cmp a b = (if text_of a = text_of b then 0 else if (text_of a, text_of b) \<in> lexord byte_order then -1 else 1)"
    "string_ci_cmp a b = (let s = map tolower (text_of a); t = map tolower (text_of b)
                          in if s = t then 0 else if (s, t) \<in> lexord byte_order then -1 else 1)"
proof -
  obtain p where a: "pob_data a = text_of a @ replicate (Suc p) 0" "pob_size a = Suc (length (text_of a))"
    by (rule string_data [OF assms(1)])
  obtain q where b: "pob_data b = text_of b @ replicate (Suc q) 0" "pob_size b = Suc (length (text_of b))"
    by (rule string_data [OF assms(2)])
  have l: "string_length a = length (text_of a)" "string_length b = length (text_of b)"
    using a b by (simp_all add: string_length_def)
  show "string_cmp a b = (if text_of a = text_of b then 0 else if (text_of a, text_of b) \<in> lexord byte_order then -1 else 1)"
    unfolding string_cmp_def l unfolding a(1) b(1) cmp_loop_take by (rule cmp_loop_lexord)
  show "string_ci_cmp a b = (let s = map tolower (text_of a); t = map tolower (text_of b)
                          in if s = t then 0 else if (s, t) \<in> lexord byte_order then -1 else 1)"
    unfolding string_ci_cmp_def l unfolding a(1) b(1) ci_cmp_loop_map Let_def
    using cmp_loop_lexord [of "map tolower (text_of a)" "map tolower (text_of b)"] by simp
qed

section \<open>Search: lemmas\<close>

fun obj_units :: "str_obj \<Rightarrow> nat list" where
  "obj_units (Byte_String b) = map unat (text_of b)"
| "obj_units (Unicode_String sz us) = map unat (take (sz div 2 - 1) us)"
| "obj_units (Byte_Char ch) = [unat ch]"
| "obj_units (Unicode_Char ch) = [unat ch]"
| "obj_units Other_Obj = []"

fun units_ok :: "str_obj \<Rightarrow> bool" where
  "units_ok (Byte_String b) = string_ok b"
| "units_ok (Unicode_String sz us) = (2 \<le> sz \<and> sz < 2 ^ 31 \<and> sz div 2 \<le> length us \<and> us ! (sz div 2 - 1) = 0)"
| "units_ok (Byte_Char ch) = True"
| "units_ok (Unicode_Char ch) = True"
| "units_ok Other_Obj = False"

fun is_string :: "str_obj \<Rightarrow> bool" where
  "is_string (Byte_String b) = True"
| "is_string (Unicode_String sz us) = True"
| "is_string _ = False"

definition first_match :: "nat list \<Rightarrow> nat list \<Rightarrow> nat \<Rightarrow> u32" where
  "first_match text seek from =
     (case find (\<lambda>i. take (length seek) (drop i text) = seek) [from..<length text] of
        None \<Rightarrow> FALSE_OBJ | Some i \<Rightarrow> int2fx (of_nat i))"

lemma match_rest_terminated:
  fixes p :: "'a::len word list" and q :: "'b::len word list"
  assumes "unat z = 0" "0 \<notin> set (map unat q)"
  shows "match_rest (p @ z # r) (q @ r') (length q) = Inr (take (length q) (map unat p) = map unat q)"
  using assms(2)
proof (induction q arbitrary: p)
  case (Cons y q)
  then show ?case using assms(1) by (cases p) (auto simp: Cons.IH)
qed simp

lemma search_loop_terminated:
  fixes S :: "'a::len word list" and q :: "'b::len word list"
  assumes "unat z = 0" "0 \<notin> set (map unat q)" "from \<le> length S"
  shows "search_loop from (length S - from) (drop from (S @ z # r)) f (q @ r') (length q)
           = Inr (first_match (map unat S) (map unat (f # q)) from)"
  using assms(3)
proof (induction "length S - from" arbitrary: "from")
  case 0
  then show ?case by (simp add: first_match_def)
next
  case (Suc left)
  let ?m = "\<lambda>i. take (Suc (length q)) (drop i (map unat S)) = unat f # map unat q"
  have lt: "from < length S" using Suc(2) by simp
  then have d: "drop from (S @ z # r) = S ! from # drop (Suc from) S @ z # r"
    by (simp add: Cons_nth_drop_Suc [symmetric])
  have m: "?m from \<longleftrightarrow> unat (S ! from) = unat f \<and> take (length q) (map unat (drop (Suc from) S)) = map unat q"
    using lt by (simp add: Cons_nth_drop_Suc [symmetric] drop_map [symmetric])
  have u: "[from..<length S] = from # [Suc from..<length S]" using lt by (rule upt_conv_Cons)
  have IH: "search_loop (Suc from) left (drop (Suc from) S @ z # r) f (q @ r') (length q)
      = Inr (first_match (map unat S) (map unat (f # q)) (Suc from))"
    using Suc(1) [of "Suc from"] Suc(2) lt by (simp add: Suc_diff_Suc [symmetric])
  have fm: "first_match (map unat S) (map unat (f # q)) from =
      (if ?m from then int2fx (of_nat from) else first_match (map unat S) (map unat (f # q)) (Suc from))"
    by (simp add: first_match_def u)
  show ?case
    unfolding d Suc(2) [symmetric] fm m
    by (simp add: IH match_rest_terminated [OF assms(1,2)] split: bool.splits)
qed

lemma rs_str_search_terminated:
  fixes S :: "'a::len word list" and q :: "'b::len word list"
  assumes "unat z = 0" "q \<noteq> []" "0 \<notin> set (map unat q)" "unat skipn \<le> length S"
    "length S < 2 ^ 31" "length q < 2 ^ 31"
  shows "rs_str_search (S @ z # r) (of_nat (length S)) (q @ r') (of_nat (length q)) skipn
           = Inr (first_match (map unat S) (map unat q) (unat skipn))"
proof -
  obtain f q' where q: "q = f # q'" using assms(2) by (cases q) auto
  have "unat (of_nat (length q) - 1 :: u32) = length q'"
    using assms(6) by (simp add: q unat_of_nat)
  moreover have "unat (of_nat (length S) :: u32) = length S" using assms(5) by (simp add: unat_of_nat)
  ultimately show ?thesis
    using search_loop_terminated [of z q' "unat skipn" S r f r'] assms by (simp add: rs_str_search_def q)
qed

lemma sint_u32_neg: "sint (x :: u32) < 0 \<longleftrightarrow> 2147483648 \<le> unat x"
  using bit_last_iff [of x] by (simp add: bit31_u32)

text \<open>A string or character as its units, then a unit zero, then the rest of its object.\<close>

lemma string_buffer:
  assumes "string_ok b"
  obtains r where "pob_data b = text_of b @ 0 # r" "pob_size b - 1 = length (text_of b)" "length (text_of b) < 2 ^ 31"
proof -
  obtain p where "pob_data b = text_of b @ replicate (Suc p) 0" "pob_size b = Suc (length (text_of b))"
    by (rule string_data [OF assms])
  then show ?thesis using assms that by (simp add: string_ok_def)
qed

lemma unicode_buffer:
  assumes "units_ok (Unicode_String sz us)"
  obtains r where "us = take (sz div 2 - 1) us @ 0 # r" "sz div 2 - 1 = length (take (sz div 2 - 1) us)"
    "length (take (sz div 2 - 1) us) < 2 ^ 31"
proof -
  have "us = take (sz div 2 - 1) us @ us ! (sz div 2 - 1) # drop (Suc (sz div 2 - 1)) us"
    using assms by (intro id_take_nth_drop) auto
  then show ?thesis using assms that by auto
qed

lemma search_in_terminated:
  assumes "units_ok seek" "obj_units seek \<noteq> []" "0 \<notin> set (obj_units seek)"
    "unat skipn \<le> length S" "length S < 2 ^ 31" "unat z = 0"
  shows "search_in (S @ z # r) (of_nat (length S)) seek skipn
           = Inr (first_match (map unat S) (obj_units seek) (unat skipn))"
proof -
  have n: "unat (of_nat (length S) :: u32) = length S" using assms(5) by (simp add: unat_of_nat)
  have s: "\<not> sint skipn < 0"
    using assms(4,5) by (simp add: sint_u32_neg)
  show ?thesis
  proof (cases "skipn < of_nat (length S)")
    case False
    then have "unat skipn = length S" using assms(4) n by (simp add: word_less_nat_alt)
    moreover from this have "skipn = of_nat (length S)" by (metis unsigned_word_eqI n)
    ultimately show ?thesis using n by (simp add: search_in_def first_match_def)
  next
    case True
    then have g: "\<not> (sint skipn < 0 \<or> of_nat (length S) \<le> skipn)" using s by simp
    show ?thesis
    proof (cases seek)
      case (Byte_String b)
      obtain r' where "pob_data b = text_of b @ 0 # r'" "pob_size b - 1 = length (text_of b)" "length (text_of b) < 2 ^ 31"
        using string_buffer assms(1) Byte_String by auto
      then show ?thesis using g assms rs_str_search_terminated [of z "text_of b" skipn S r "0 # r'"] Byte_String
        by (simp add: search_in_def)
    next
      case (Unicode_String sz us)
      define t where "t = take (sz div 2 - 1) us"
      obtain r' where "us = t @ 0 # r'" "sz div 2 - 1 = length t" "length t < 2 ^ 31"
        using unicode_buffer [of sz us] assms(1) Unicode_String by (auto simp: t_def)
      then show ?thesis using g assms rs_str_search_terminated [of z t skipn S r "0 # r'"] Unicode_String
        by (simp add: search_in_def)
    next
      case (Byte_Char ch)
      then show ?thesis using g assms rs_str_search_terminated [of z "[ch]" skipn S r "[]"]
        by (simp add: search_in_def)
    next
      case (Unicode_Char ch)
      then show ?thesis using g assms rs_str_search_terminated [of z "[ch]" skipn S r "[]"]
        by (simp add: search_in_def)
    next
      case Other_Obj
      then show ?thesis using assms by simp
    qed
  qed
qed

section \<open>Copying: lemmas\<close>

lemma unat_add_nonneg:
  assumes "0 \<le> sint (x :: u32)" "0 \<le> sint y"
  shows "unat (x + y) = unat x + unat y"
  using assms sint_u32_neg [of x] sint_u32_neg [of y] by (simp add: unat_add_u32)

lemma nth_memcpy:
  assumes "pos + n \<le> length dst" "n \<le> length src" "i < length dst"
  shows "memcpy dst pos src n ! i = (if pos \<le> i \<and> i < pos + n then src ! (i - pos) else dst ! i)"
  using assms by (auto simp: memcpy_def nth_append min_def)

lemma tolower_case_bit: "tolower c OR 0x20 = c OR 0x20"
proof -
  have "\<forall>n \<in> set [0..<256]. tolower (of_nat n) OR 0x20 = (of_nat n :: u8) OR 0x20" by code_simp
  then have "tolower (of_nat (unat c)) OR 0x20 = (of_nat (unat c) :: u8) OR 0x20"
    using unat_u8_less [of c] by (simp only: set_upt atLeastLessThan_iff le0 simp_thms ball_simps)
  then show ?thesis by simp
qed

lemma ci_hash_tolower: "raw_ci_bytes_hash (map tolower bs) = raw_ci_bytes_hash bs"
  by (simp add: raw_ci_bytes_hash_def crc_hash_def foldl_map tolower_case_bit)

section \<open>Properties\<close>

text \<open>C30: the comparisons of strings read no more than the two objects and decide by their texts alone:
  \<open>string_eq\<close>, by words and with its padding, is equality, \<open>string_cmp\<close> is the lexicographic
  order of the bytes, and the two \<open>ci\<close> operations are the same on the texts in lower case.\<close>

lemma string_comparisons:
  assumes "string_ok a" "string_ok b"
  shows "(string_eq a b \<longleftrightarrow> text_of a = text_of b) \<and>
    string_cmp a b = (if text_of a = text_of b then 0 else if (text_of a, text_of b) \<in> lexord byte_order then -1 else 1) \<and>
    string_ci_cmp a b = (let s = map tolower (text_of a); t = map tolower (text_of b)
                         in if s = t then 0 else if (s, t) \<in> lexord byte_order then -1 else 1) \<and>
    (string_ci_eq a b \<longleftrightarrow> map tolower (text_of a) = map tolower (text_of b))"
  using string_eq_iff [OF assms] string_cmp_text [OF assms] by (simp add: string_ci_eq_def Let_def)

lemma string_comparisons_witness:
  "\<not> string_eq (make_string [65, 66]) (make_string [97, 98]) \<and> string_ci_eq (make_string [65, 66]) (make_string [97, 98])
   \<and> string_cmp (make_string [65, 66]) (make_string [65, 66]) = 0"
  using string_comparisons [of "make_string [65, 66]" "make_string [97, 98]"]
    string_comparisons [of "make_string [65, 66]" "make_string [65, 66]"]
  by (simp add: make_string_ok tolower_def isupper_def)

text \<open>C22: searching for a string or a character, of either width, in a string of either width returns the
  first place at or after the offset where its units stand, \<open>#f\<close> when there is none, and
  reads nothing outside of the objects, for every value sought that is not empty and has no zero unit.\<close>

lemma string_search_correct:
  assumes "units_ok str" "is_string str" "units_ok seek" "obj_units seek \<noteq> []" "0 \<notin> set (obj_units seek)"
    "unat skipn \<le> length (obj_units str)"
  shows "rs_string_search str seek skipn = Inr (first_match (obj_units str) (obj_units seek) (unat skipn))"
proof (cases str)
  case (Byte_String b)
  obtain r where "pob_data b = text_of b @ 0 # r" "pob_size b - 1 = length (text_of b)" "length (text_of b) < 2 ^ 31"
    using string_buffer assms(1) Byte_String by auto
  then show ?thesis using assms Byte_String search_in_terminated [of seek skipn "text_of b" 0 r]
    by (simp add: rs_string_search_def)
next
  case (Unicode_String sz us)
  define t where "t = take (sz div 2 - 1) us"
  obtain r where "us = t @ 0 # r" "sz div 2 - 1 = length t" "length t < 2 ^ 31"
    using unicode_buffer [of sz us] assms(1) Unicode_String by (auto simp: t_def)
  then show ?thesis using assms Unicode_String search_in_terminated [of seek skipn t 0 r]
    by (simp add: rs_string_search_def)
qed (use assms in simp_all)

lemma first_match_example: "first_match [97, 98, 97, 98, 99] [97, 98, 99] (Suc 0) = int2fx 2"
  by code_simp

lemma string_search_correct_witness:
  "rs_string_search (Byte_String (make_string [97, 98, 97, 98, 99])) (Unicode_String 8 [97, 98, 99, 0]) 1 = Inr (int2fx 2)"
proof -
  let ?s = "Byte_String (make_string [97, 98, 97, 98, 99])" and ?q = "Unicode_String 8 [97, 98, 99, 0]"
  have "units_ok ?s" "obj_units ?s = [97, 98, 97, 98, 99]" "units_ok ?q" "obj_units ?q = [97, 98, 99]"
    by (simp_all add: make_string_ok)
  then show ?thesis using string_search_correct [of ?s ?q 1] first_match_example by (simp del: obj_units.simps units_ok.simps)
qed

text \<open>The search takes the terminator of the searched string, and what follows it, for text: a string
  ending in a zero byte is found at the end of a string that has no zero byte, and the loop can read
  past the object.\<close>

lemma string_search_terminator:
  "rs_string_search (Byte_String (make_string [97, 98, 99])) (Byte_String (make_string [99, 0])) 0 = Inr (int2fx 2) \<and>
   rs_string_search (Byte_String (make_string [97, 98, 99])) (Byte_String (make_string [99, 0, 0, 0])) 0 = Inl Outside_object"
  by code_simp

text \<open>C29: \<open>bvec_copy\<close> passes its assertions for every range inside both objects and then sets exactly that
  range, from the bytes the source had before, also when both are one object.\<close>

lemma bvec_copy_correct:
  assumes "bvec_ok dst" "bvec_ok src" "sint dst_offset \<ge> 0" "sint src_offset \<ge> 0" "sint len \<ge> 0"
    "unat dst_offset + unat len \<le> pob_size dst" "unat src_offset + unat len \<le> pob_size src"
  shows "\<exists>d. bvec_copy dst dst_offset src src_offset len = Inr d \<and> pob_size d = pob_size dst \<and>
    length (pob_data d) = length (pob_data dst) \<and>
    (\<forall>i \<in> {..<length (pob_data dst)}. pob_data d ! i =
      (if unat dst_offset \<le> i \<and> i < unat dst_offset + unat len
       then pob_data src ! (unat src_offset + (i - unat dst_offset)) else pob_data dst ! i))"
proof -
  have l: "unat dst_offset + unat len \<le> length (pob_data dst)" "unat src_offset + unat len \<le> length (pob_data src)"
    using assms words_for_bounds(1) [of "pob_size dst"] words_for_bounds(1) [of "pob_size src"]
    by (auto simp: bvec_ok_def)
  have s: "unat (dst_offset + len) = unat dst_offset + unat len" "unat (src_offset + len) = unat src_offset + unat len"
    using assms by (simp_all add: unat_add_nonneg)
  show ?thesis using assms(3-7) l
    by (auto simp: bvec_copy_def s nth_memcpy length_memcpy less_diff_conv)
qed

lemma bvec_copy_correct_witness:
  "\<exists>d. bvec_copy (make_string [1, 2, 3, 4]) 1 (make_string [1, 2, 3, 4]) 0 3 = Inr d \<and> pob_data d ! 3 = 3"
proof -
  have b: "bvec_ok (make_string [1, 2, 3, 4])" using make_string_ok(1) [of "[1, 2, 3, 4]"] by (simp add: string_ok_def)
  have m: "make_string [1, 2, 3, 4] = \<lparr>pob_size = 5, pob_data = [1, 2, 3, 4, 0, 0, 0, 0]\<rparr>"
    by code_simp
  show ?thesis
    using bvec_copy_correct [OF b b, of 1 0 3] by (fastforce simp: m)
qed

text \<open>\<open>bvec_hash\<close> and \<open>bvec_ci_hash\<close> do not check that the offset is not negative: at offset -4 they hash the
  four bytes before the data of any byte vector.\<close>

lemma bvec_hash_negative_offset:
  "bvec_hash b (- 4) 4 = Inl Outside_object \<and> bvec_ci_hash b (- 4) 4 = Inl Outside_object"
  by (simp add: bvec_hash_def bvec_ci_hash_def bvec_part_def)

end
