(* ===== verification/HashTable.thy ===== *)
theory HashTable
  imports Strings
begin

text \<open>
  Extendible hash tables, \<^verbatim>\<open>handc/hasht\<close>: \<^verbatim>\<open>hashmain.c\<close>, \<^verbatim>\<open>special.ci\<close>, \<^verbatim>\<open>htsplit.c\<close>, \<^verbatim>\<open>chain.ci\<close>,
  \<^verbatim>\<open>tblcopy.c\<close>.  Buckets live in a heap, a list whose indices are the addresses; a directory slot or
  an overflow link is an address or \<open>None\<close> for \<^verbatim>\<open>#f\<close>.  The three regions of a bucket vector, hashes, keys and
  values, are one list of eight triples.  The macro parameter \<^verbatim>\<open>SPECIAL_CMP\<close> is an argument of the
  operations.
\<close>

unbundle bit_operations_syntax

section \<open>Data\<close>

definition BUCKET_CAPACITY :: nat where
  "BUCKET_CAPACITY = 8"

type_synonym entry = "u32 \<times> u32 \<times> u32"

record bucket =
  BUCKET_BITS :: nat
  BUCKET_OVERFLOW :: "nat option"
  SLOTS :: "entry list"

type_synonym heap = "bucket list"

record hashtable =
  HASHTABLE_DIRECTORY :: "nat option list"
  HASHTABLE_DIR_BITS :: nat
  HASHTABLE_COUNT :: u32

definition empty_entry :: entry where
  "empty_entry = (FALSE_OBJ, FALSE_OBJ, FALSE_OBJ)"

definition make_bucket :: "heap \<Rightarrow> nat \<Rightarrow> heap \<times> nat" where
  "make_bucket hp bits =
     (hp @ [\<lparr>BUCKET_BITS = bits, BUCKET_OVERFLOW = None, SLOTS = replicate BUCKET_CAPACITY empty_entry\<rparr>], length hp)"

text \<open>The directory index of a hash value: its bytes masked by the size of the directory.\<close>

definition DIR_SLOT :: "nat option list \<Rightarrow> u32 \<Rightarrow> nat" where
  "DIR_SLOT dir h = unat (h AND (of_nat (4 * length dir) - 4)) div 4"

definition read_dir :: "nat option list \<Rightarrow> u32 \<Rightarrow> nat option" where
  "read_dir dir h = dir ! DIR_SLOT dir h"

definition write_dir :: "nat option list \<Rightarrow> u32 \<Rightarrow> nat option \<Rightarrow> nat option list" where
  "write_dir dir h b = dir[DIR_SLOT dir h := b]"

definition write_slot :: "heap \<Rightarrow> nat \<Rightarrow> nat \<Rightarrow> entry \<Rightarrow> heap" where
  "write_slot hp a i e = hp[a := (hp ! a)\<lparr>SLOTS := (SLOTS (hp ! a))[i := e]\<rparr>]"

definition inserting_one :: "hashtable \<Rightarrow> hashtable" where
  "inserting_one t = t\<lparr>HASHTABLE_COUNT := ADD1 (HASHTABLE_COUNT t)\<rparr>"

definition removing_one :: "hashtable \<Rightarrow> hashtable" where
  "removing_one t = t\<lparr>HASHTABLE_COUNT := SUB1 (HASHTABLE_COUNT t)\<rparr>"

definition hashtable_size :: "hashtable \<Rightarrow> u32" where
  "hashtable_size t = fx2int (HASHTABLE_COUNT t)"

section \<open>Chains under construction\<close>

record bucket_chain =
  index :: nat
  last_bucket :: "nat option"
  first_bucket :: "nat option"
  bits :: nat

definition init_chain :: "nat \<Rightarrow> bucket_chain" where
  "init_chain n = \<lparr>index = BUCKET_CAPACITY, last_bucket = None, first_bucket = None, bits = n\<rparr>"

definition chain_insert :: "heap \<Rightarrow> bucket_chain \<Rightarrow> entry \<Rightarrow> heap \<times> bucket_chain" where
  "chain_insert hp b e =
     (if index b \<ge> BUCKET_CAPACITY
      then let (hp, last) = make_bucket hp (bits b);
               (hp, b) = (case last_bucket b of
                   None \<Rightarrow> (hp, b\<lparr>first_bucket := Some last\<rparr>)
                 | Some l \<Rightarrow> (hp[l := (hp ! l)\<lparr>BUCKET_OVERFLOW := Some last\<rparr>], b));
               ix = 0
           in (write_slot hp last ix e, b\<lparr>last_bucket := Some last, index := ix + 1\<rparr>)
      else let last = the (last_bucket b); ix = index b
           in (write_slot hp last ix e, b\<lparr>index := ix + 1\<rparr>))"

section \<open>Splitting a bucket\<close>

text \<open>The mask that tells the two new chains apart: the tagged one, shifted.\<close>

definition split_mask :: "nat \<Rightarrow> u32" where
  "split_mask bucket_bits = push_bit bucket_bits (int2fx 1)"

type_synonym chains = "heap \<times> bucket_chain \<times> bucket_chain"

definition split_entry :: "u32 \<Rightarrow> entry \<Rightarrow> chains \<Rightarrow> chains" where
  "split_entry m e s =
     (case s of (hp, hi, lo) \<Rightarrow>
        if fst e AND m \<noteq> 0 then (let (hp, hi) = chain_insert hp hi e in (hp, hi, lo))
        else (let (hp, lo) = chain_insert hp lo e in (hp, hi, lo)))"

partial_function (option) split_loop :: "u32 \<Rightarrow> nat option \<Rightarrow> chains \<Rightarrow> chains option" where
  "split_loop m b s =
     (case b of
        None \<Rightarrow> Some s
      | Some a \<Rightarrow>
          let s = fold (split_entry m) (SLOTS (fst s ! a)) s
          in split_loop m (BUCKET_OVERFLOW (fst s ! a)) s)"

fun install_loop :: "nat \<Rightarrow> nat \<Rightarrow> nat \<Rightarrow> nat option list \<Rightarrow> nat option \<Rightarrow> nat option \<Rightarrow> nat option list" where
  "install_loop 0 i di vec lo hi = vec"
| "install_loop (Suc j) i di vec lo hi = install_loop j (i + di + di) di (vec[i := lo, i + di := hi]) lo hi"

text \<open>A directory of \<open>2 ^ 30\<close> slots does not fit in the address space; there growing fails.\<close>

definition split_bucket :: "heap \<Rightarrow> hashtable \<Rightarrow> nat option \<Rightarrow> entry \<Rightarrow> (heap \<times> hashtable) option" where
  "split_bucket hp table bucket e =
     (let dir_bits = HASHTABLE_DIR_BITS table; vec = HASHTABLE_DIRECTORY table
      in case bucket of
        None \<Rightarrow>
          let (hp, b) = make_bucket hp dir_bits
          in Some (write_slot hp b 0 e, table\<lparr>HASHTABLE_DIRECTORY := write_dir vec (fst e) (Some b)\<rparr>)
      | Some a \<Rightarrow>
          let bucket_bits = BUCKET_BITS (hp ! a)
          in if dir_bits = bucket_bits \<and> dir_bits + 1 > 29 then None
             else let (vec, dir_bits) = (if dir_bits = bucket_bits then (vec @ vec, dir_bits + 1) else (vec, dir_bits));
                      hi = init_chain (bucket_bits + 1); lo = init_chain (bucket_bits + 1);
                      m = split_mask bucket_bits
                  in case split_loop m bucket (split_entry m e (hp, hi, lo)) of
                       None \<Rightarrow> None
                     | Some (hp, hi, lo) \<Rightarrow>
                         let i = unat (fx2int (fst e) AND (2 ^ bucket_bits - 1));
                             di = 2 ^ bucket_bits;
                             vec = install_loop (2 ^ (dir_bits - (bucket_bits + 1))) i di vec
                                     (first_bucket lo) (first_bucket hi)
                         in Some (hp, table\<lparr>HASHTABLE_DIRECTORY := vec, HASHTABLE_DIR_BITS := dir_bits\<rparr>))"

section \<open>The operations\<close>

fun find_slot :: "nat \<Rightarrow> (entry \<Rightarrow> bool) \<Rightarrow> entry list \<Rightarrow> nat option" where
  "find_slot i p [] = None"
| "find_slot i p (e # es) = (if p e then Some i else find_slot (Suc i) p es)"

text \<open>The two nested loops over a chain, and the bucket and slot where the comparison first holds.\<close>

partial_function (option) chain_search :: "heap \<Rightarrow> (entry \<Rightarrow> bool) \<Rightarrow> nat option \<Rightarrow> (nat \<times> nat) option option" where
  "chain_search hp p b =
     (case b of
        None \<Rightarrow> Some None
      | Some a \<Rightarrow>
          (case find_slot 0 p (SLOTS (hp ! a)) of
             Some i \<Rightarrow> Some (Some (a, i))
           | None \<Rightarrow> chain_search hp p (BUCKET_OVERFLOW (hp ! a))))"

type_synonym key_cmp = "u32 \<Rightarrow> u32 \<Rightarrow> u32 \<Rightarrow> u32 \<Rightarrow> bool"

definition cmp_entry :: "key_cmp \<Rightarrow> u32 \<Rightarrow> u32 \<Rightarrow> entry \<Rightarrow> bool" where
  "cmp_entry cmp h key e = (case e of (bh, bk, bv) \<Rightarrow> cmp h bh key bk)"

definition SPECIAL_TABLE_LOOKUP :: "key_cmp \<Rightarrow> heap \<Rightarrow> hashtable \<Rightarrow> u32 \<Rightarrow> u32 \<Rightarrow> u32 option" where
  "SPECIAL_TABLE_LOOKUP cmp hp table h key =
     (case chain_search hp (cmp_entry cmp h key) (read_dir (HASHTABLE_DIRECTORY table) h) of
        None \<Rightarrow> None
      | Some None \<Rightarrow> Some FALSE_OBJ
      | Some (Some (a, i)) \<Rightarrow> Some (snd (snd (SLOTS (hp ! a) ! i))))"

definition SPECIAL_TABLE_PROBE :: "key_cmp \<Rightarrow> heap \<Rightarrow> hashtable \<Rightarrow> u32 \<Rightarrow> u32 \<Rightarrow> bool option" where
  "SPECIAL_TABLE_PROBE cmp hp table h key =
     (case chain_search hp (cmp_entry cmp h key) (read_dir (HASHTABLE_DIRECTORY table) h) of
        None \<Rightarrow> None
      | Some None \<Rightarrow> Some False
      | Some (Some (a, i)) \<Rightarrow> Some True)"

definition SPECIAL_TABLE_REMOVE :: "key_cmp \<Rightarrow> heap \<Rightarrow> hashtable \<Rightarrow> u32 \<Rightarrow> u32 \<Rightarrow> (heap \<times> hashtable \<times> u32) option" where
  "SPECIAL_TABLE_REMOVE cmp hp table h key =
     (case chain_search hp (cmp_entry cmp h key) (read_dir (HASHTABLE_DIRECTORY table) h) of
        None \<Rightarrow> None
      | Some None \<Rightarrow> Some (hp, table, FALSE_OBJ)
      | Some (Some (a, i)) \<Rightarrow>
          let item = snd (snd (SLOTS (hp ! a) ! i))
          in Some (write_slot hp a i empty_entry, removing_one table, item))"

text \<open>Insertion looks for the key and remembers the first free slot on its way.\<close>

fun scan_slots :: "nat \<Rightarrow> (entry \<Rightarrow> bool) \<Rightarrow> entry list \<Rightarrow> nat \<Rightarrow> (nat \<times> nat) option \<Rightarrow> nat + (nat \<times> nat) option" where
  "scan_slots i p [] a nf = Inr nf"
| "scan_slots i p (e # es) a nf =
     (if p e then Inl i
      else scan_slots (Suc i) p es a (if fst e = FALSE_OBJ \<and> nf = None then Some (a, i) else nf))"

partial_function (option) insert_search :: "heap \<Rightarrow> (entry \<Rightarrow> bool) \<Rightarrow> nat option \<Rightarrow> (nat \<times> nat) option
    \<Rightarrow> ((nat \<times> nat) + (nat \<times> nat) option) option" where
  "insert_search hp p b nf =
     (case b of
        None \<Rightarrow> Some (Inr nf)
      | Some a \<Rightarrow>
          (case scan_slots 0 p (SLOTS (hp ! a)) a nf of
             Inl i \<Rightarrow> Some (Inl (a, i))
           | Inr nf \<Rightarrow> insert_search hp p (BUCKET_OVERFLOW (hp ! a)) nf))"

definition SPECIAL_TABLE_INSERT :: "key_cmp \<Rightarrow> heap \<Rightarrow> hashtable \<Rightarrow> u32 \<Rightarrow> u32 \<Rightarrow> u32 \<Rightarrow> (heap \<times> hashtable \<times> u32) option" where
  "SPECIAL_TABLE_INSERT cmp hp table h key v =
     (case insert_search hp (cmp_entry cmp h key) (read_dir (HASHTABLE_DIRECTORY table) h) None of
        None \<Rightarrow> None
      | Some (Inl (a, i)) \<Rightarrow>
          let (bh, bk, prev) = SLOTS (hp ! a) ! i
          in Some (write_slot hp a i (bh, key, v), table, prev)
      | Some (Inr (Some (a, i))) \<Rightarrow> Some (write_slot hp a i (h, key, v), inserting_one table, FALSE_OBJ)
      | Some (Inr None) \<Rightarrow>
          (case split_bucket hp (inserting_one table) (read_dir (HASHTABLE_DIRECTORY table) h) (h, key, v) of
             None \<Rightarrow> None
           | Some (hp, table) \<Rightarrow> Some (hp, table, FALSE_OBJ)))"

text \<open>\<^verbatim>\<open>hashtable_install\<close>, for the generic tables: the first free slot, without a look at the keys.\<close>

definition hashtable_install :: "heap \<Rightarrow> hashtable \<Rightarrow> u32 \<Rightarrow> u32 \<Rightarrow> u32 \<Rightarrow> (heap \<times> hashtable) option" where
  "hashtable_install hp table h key v =
     (let table = inserting_one table; vec = HASHTABLE_DIRECTORY table
      in case chain_search hp (\<lambda>e. fst e = FALSE_OBJ) (read_dir vec h) of
           None \<Rightarrow> None
         | Some (Some (a, i)) \<Rightarrow> Some (write_slot hp a i (h, key, v), table)
         | Some None \<Rightarrow> split_bucket hp table (read_dir vec h) (h, key, v))"

definition hashtable_clear :: "hashtable \<Rightarrow> hashtable" where
  "hashtable_clear table =
     (if HASHTABLE_COUNT table = ZERO then table
      else table\<lparr>HASHTABLE_DIRECTORY := map (\<lambda>_. None) (HASHTABLE_DIRECTORY table), HASHTABLE_COUNT := ZERO\<rparr>)"

text \<open>Slot \<open>j\<close> holds the chain for the first time when its index has no bit above the chain's own.\<close>

definition primary_slot :: "nat \<Rightarrow> nat \<Rightarrow> bool" where
  "primary_slot j n \<longleftrightarrow> (of_nat (4 * j) :: u32) AND push_bit n (NOT 3) = 0"

partial_function (option) foreach_chain :: "heap \<Rightarrow> ('i \<Rightarrow> entry \<Rightarrow> 'i) \<Rightarrow> nat option \<Rightarrow> 'i \<Rightarrow> 'i option" where
  "foreach_chain hp fn b info =
     (case b of
        None \<Rightarrow> Some info
      | Some a \<Rightarrow>
          foreach_chain hp fn (BUCKET_OVERFLOW (hp ! a))
            (foldl (\<lambda>info e. if fst e \<noteq> FALSE_OBJ then fn info e else info) info (SLOTS (hp ! a))))"

fun foreach_dir :: "heap \<Rightarrow> ('i \<Rightarrow> entry \<Rightarrow> 'i) \<Rightarrow> nat \<Rightarrow> nat option list \<Rightarrow> 'i \<Rightarrow> 'i option" where
  "foreach_dir hp fn j [] info = Some info"
| "foreach_dir hp fn j (b # vec) info =
     (case b of
        None \<Rightarrow> foreach_dir hp fn (Suc j) vec info
      | Some a \<Rightarrow>
          if primary_slot j (BUCKET_BITS (hp ! a))
          then (case foreach_chain hp fn b info of
                  None \<Rightarrow> None
                | Some info \<Rightarrow> foreach_dir hp fn (Suc j) vec info)
          else foreach_dir hp fn (Suc j) vec info)"

definition hashtable_foreach :: "heap \<Rightarrow> hashtable \<Rightarrow> ('i \<Rightarrow> entry \<Rightarrow> 'i) \<Rightarrow> 'i \<Rightarrow> 'i option" where
  "hashtable_foreach hp table fn info = foreach_dir hp fn 0 (HASHTABLE_DIRECTORY table) info"

fun hashtable_chains_loop :: "heap \<Rightarrow> nat \<Rightarrow> nat option list \<Rightarrow> nat list \<Rightarrow> nat list" where
  "hashtable_chains_loop hp j [] chain_list = chain_list"
| "hashtable_chains_loop hp j (b # vec) chain_list =
     hashtable_chains_loop hp (Suc j) vec
       (case b of
          None \<Rightarrow> chain_list
        | Some a \<Rightarrow> if primary_slot j (BUCKET_BITS (hp ! a)) then a # chain_list else chain_list)"

definition hashtable_chains :: "heap \<Rightarrow> hashtable \<Rightarrow> nat list" where
  "hashtable_chains hp table = hashtable_chains_loop hp 0 (HASHTABLE_DIRECTORY table) []"

definition accum_key :: "u32 list \<Rightarrow> entry \<Rightarrow> u32 list" where
  "accum_key info e = fst (snd e) # info"

definition accum_value :: "u32 list \<Rightarrow> entry \<Rightarrow> u32 list" where
  "accum_value info e = snd (snd e) # info"

definition hashtable_keys_to_list :: "heap \<Rightarrow> hashtable \<Rightarrow> u32 list option" where
  "hashtable_keys_to_list hp table = hashtable_foreach hp table accum_key []"

definition hashtable_values_to_list :: "heap \<Rightarrow> hashtable \<Rightarrow> u32 list option" where
  "hashtable_values_to_list hp table = hashtable_foreach hp table accum_value []"

section \<open>Copying\<close>

partial_function (option) copy_bucket_chain :: "heap \<Rightarrow> nat \<Rightarrow> (heap \<times> nat) option" where
  "copy_bucket_chain hp a =
     (let new = length hp; hp = hp @ [hp ! a]
      in case BUCKET_OVERFLOW (hp ! new) of
           None \<Rightarrow> Some (hp, new)
         | Some a' \<Rightarrow>
             Option.bind (copy_bucket_chain hp a')
               (\<lambda>(hp, b). Some (hp[new := (hp ! new)\<lparr>BUCKET_OVERFLOW := Some b\<rparr>], new)))"

fun copy_dir_loop :: "heap \<Rightarrow> nat \<Rightarrow> nat option list \<Rightarrow> nat option list \<Rightarrow> (heap \<times> nat option list) option" where
  "copy_dir_loop hp j [] dst = Some (hp, dst)"
| "copy_dir_loop hp j (b # src) dst =
     (case b of
        None \<Rightarrow> copy_dir_loop hp (Suc j) src (dst @ [None])
      | Some a \<Rightarrow>
          let n = BUCKET_BITS (hp ! a)
          in if \<not> primary_slot j n
             then copy_dir_loop hp (Suc j) src
                    (dst @ [dst ! (unat ((of_nat (4 * j) :: u32) AND NOT (push_bit n (NOT 3))) div 4)])
             else (case copy_bucket_chain hp a of
                     None \<Rightarrow> None
                   | Some (hp, b) \<Rightarrow> copy_dir_loop hp (Suc j) src (dst @ [Some b])))"

definition hashtable_copy :: "heap \<Rightarrow> hashtable \<Rightarrow> (heap \<times> hashtable) option" where
  "hashtable_copy hp table =
     (case copy_dir_loop hp 0 (HASHTABLE_DIRECTORY table) [] of
        None \<Rightarrow> None
      | Some (hp, dir) \<Rightarrow> Some (hp, table\<lparr>HASHTABLE_DIRECTORY := dir\<rparr>))"

section \<open>The instances\<close>

definition object_cmp :: key_cmp where
  "object_cmp h1 h2 k1 k2 \<longleftrightarrow> k1 = k2"

definition string_table_cmp :: "(u32 \<Rightarrow> bvec) \<Rightarrow> key_cmp" where
  "string_table_cmp text h1 h2 k1 k2 \<longleftrightarrow> h1 = h2 \<and> string_eq (text k1) (text k2)"

definition cistring_table_cmp :: "(u32 \<Rightarrow> bvec) \<Rightarrow> key_cmp" where
  "cistring_table_cmp text h1 h2 k1 k2 \<longleftrightarrow> h1 = h2 \<and> string_ci_eq (text k1) (text k2)"

end
