(* ===== verification/HashSplit.thy ===== *)
theory HashSplit
  imports HashTable
begin

text \<open>
  The heap of buckets: chains as lists of addresses, what the searches find in them, the masks read as
  arithmetic on indices, the invariant of a table (the sharing of chains by directory slots, the placing of
  entries, keys apart from each other) and what splitting a bucket does to it.
\<close>

section \<open>Chains in the heap\<close>

fun chain :: "heap \<Rightarrow> nat option \<Rightarrow> nat list \<Rightarrow> bool" where
  "chain hp b [] \<longleftrightarrow> b = None"
| "chain hp b (a # as) \<longleftrightarrow> b = Some a \<and> a < length hp \<and> chain hp (BUCKET_OVERFLOW (hp ! a)) as"

definition ents :: "heap \<Rightarrow> nat list \<Rightarrow> entry list" where
  "ents hp as = concat (map (\<lambda>a. SLOTS (hp ! a)) as)"

definition live :: "entry \<Rightarrow> bool" where
  "live e \<longleftrightarrow> fst e \<noteq> FALSE_OBJ"

definition hidx :: "u32 \<Rightarrow> nat" where
  "hidx h = unat h div 4"

lemma ents_simps [simp]:
  "ents hp [] = []" "ents hp (a # as) = SLOTS (hp ! a) @ ents hp as" "ents hp (as @ bs) = ents hp as @ ents hp bs"
  by (simp_all add: ents_def)

lemma set_ents: "set (ents hp as) = (\<Union>a \<in> set as. set (SLOTS (hp ! a)))"
  by (simp add: ents_def)

lemma chain_None [simp]: "chain hp None as \<longleftrightarrow> as = []"
  by (cases as) auto

lemma chain_Some: "chain hp (Some a) as \<longleftrightarrow> (\<exists>bs. as = a # bs \<and> a < length hp \<and> chain hp (BUCKET_OVERFLOW (hp ! a)) bs)"
  by (cases as) auto

lemma chain_unique: "chain hp b as \<Longrightarrow> chain hp b bs \<Longrightarrow> as = bs"
  by (induction as arbitrary: b bs) (auto simp: chain_Some)

lemma chain_suffix: "chain hp b (as @ a # bs) \<Longrightarrow> chain hp (Some a) (a # bs)"
  by (induction as arbitrary: b) auto

lemma chain_distinct: "chain hp b as \<Longrightarrow> distinct as"
proof (induction as arbitrary: b)
  case (Cons a as)
  have "a \<notin> set as"
  proof
    assume "a \<in> set as"
    then obtain us vs where "as = us @ a # vs" by (meson split_list)
    then have "chain hp (Some a) (a # vs)" "chain hp (Some a) (a # as)"
      using Cons(2) chain_suffix [of hp "BUCKET_OVERFLOW (hp ! a)" us a vs] by auto
    then show False using chain_unique \<open>as = us @ a # vs\<close> by fastforce
  qed
  then show ?case using Cons by auto
qed simp

lemma chain_bound: "chain hp b as \<Longrightarrow> a \<in> set as \<Longrightarrow> a < length hp"
  by (induction as arbitrary: b) auto

lemma chain_cong:
  assumes "\<And>a. a \<in> set as \<Longrightarrow> a < length hp \<Longrightarrow> a < length hp' \<and> BUCKET_OVERFLOW (hp' ! a) = BUCKET_OVERFLOW (hp ! a)"
    "chain hp b as"
  shows "chain hp' b as"
  using assms by (induction as arbitrary: b) auto

lemma ents_cong: "(\<And>a. a \<in> set as \<Longrightarrow> SLOTS (hp' ! a) = SLOTS (hp ! a)) \<Longrightarrow> ents hp' as = ents hp as"
  by (induction as) auto

lemma length_write_slot [simp]: "length (write_slot hp a i e) = length hp"
  by (simp add: write_slot_def)

lemma nth_write_slot: "a < length hp \<Longrightarrow>
    write_slot hp a i e ! b = (if b = a then (hp ! a)\<lparr>SLOTS := (SLOTS (hp ! a))[i := e]\<rparr> else hp ! b)"
  by (simp add: write_slot_def nth_list_update)

lemma chain_write_slot: "chain hp b as \<Longrightarrow> a < length hp \<Longrightarrow> chain (write_slot hp a i e) b as"
  by (erule chain_cong [rotated]) (simp add: nth_write_slot)

lemma ents_write_other: "a \<notin> set as \<Longrightarrow> a < length hp \<Longrightarrow> ents (write_slot hp a i e) as = ents hp as"
  by (rule ents_cong) (auto simp: nth_write_slot)

lemma ents_split:
  assumes "a \<in> set as" "distinct as" "a < length hp" "i < length (SLOTS (hp ! a))"
  obtains xs ys where "ents hp as = xs @ SLOTS (hp ! a) ! i # ys" "\<And>e. ents (write_slot hp a i e) as = xs @ e # ys"
proof -
  obtain us vs where as: "as = us @ a # vs" using assms(1) by (meson split_list)
  let ?s = "SLOTS (hp ! a)"
  have "?s = take i ?s @ ?s ! i # drop (Suc i) ?s" using assms(4) by (rule id_take_nth_drop)
  then have 1: "ents hp as = (ents hp us @ take i ?s) @ ?s ! i # drop (Suc i) ?s @ ents hp vs"
    by (simp add: as)
  have "?s[i := e] = take i ?s @ e # drop (Suc i) ?s" for e using assms(4) by (rule upd_conv_take_nth_drop)
  then have "ents (write_slot hp a i e) as = (ents hp us @ take i ?s) @ e # drop (Suc i) ?s @ ents hp vs" for e
    using assms(2,3) by (simp add: as ents_write_other nth_write_slot)
  with 1 show ?thesis by (rule that)
qed

subsection \<open>The searches\<close>

lemma find_slot_result:
  "(find_slot i p es = None \<and> (\<forall>e \<in> set es. \<not> p e)) \<or>
   (\<exists>k < length es. find_slot i p es = Some (i + k) \<and> p (es ! k))"
proof (induction es arbitrary: i)
  case (Cons e es)
  show ?case
  proof (cases "p e")
    case False
    then show ?thesis using Cons [of "Suc i"] by fastforce
  qed auto
qed simp

lemma chain_search_result:
  assumes "chain hp b as"
  shows "(chain_search hp p b = Some None \<and> (\<forall>e \<in> set (ents hp as). \<not> p e)) \<or>
    (\<exists>a i. chain_search hp p b = Some (Some (a, i)) \<and> a \<in> set as \<and> i < length (SLOTS (hp ! a)) \<and> p (SLOTS (hp ! a) ! i))"
  using assms
proof (induction as arbitrary: b)
  case Nil
  then show ?case by (simp add: chain_search.simps)
next
  case (Cons a as)
  then have b: "b = Some a" and IH: "chain hp (BUCKET_OVERFLOW (hp ! a)) as" by auto
  show ?case
    using find_slot_result [of 0 p "SLOTS (hp ! a)"] Cons(1) [OF IH]
    by (subst (1 2) chain_search.simps) (auto simp: b)
qed

lemma scan_slots_result:
  "(\<exists>k < length es. scan_slots i p es a nf = Inl (i + k) \<and> p (es ! k)) \<or>
   ((\<forall>e \<in> set es. \<not> p e) \<and>
    ((scan_slots i p es a nf = Inr nf \<and> (nf = None \<longrightarrow> (\<forall>e \<in> set es. live e))) \<or>
     (\<exists>k < length es. nf = None \<and> scan_slots i p es a nf = Inr (Some (a, i + k)) \<and> \<not> live (es ! k))))"
proof (induction es arbitrary: i nf)
  case (Cons e es)
  show ?case
  proof (cases "p e")
    case True
    then show ?thesis by auto
  next
    case False
    let ?nf = "if fst e = FALSE_OBJ \<and> nf = None then Some (a, i) else nf"
    show ?thesis
    proof (cases "fst e = FALSE_OBJ \<and> nf = None")
      case True
      then show ?thesis using Cons [of "Suc i" "Some (a, i)"] False by (fastforce simp: live_def)
    next
      case no: False
      then have "scan_slots i p (e # es) a nf = scan_slots (Suc i) p es a nf" using False by auto
      then show ?thesis using Cons [of "Suc i" nf] False no by (fastforce simp: live_def)
    qed
  qed
qed simp

lemma insert_search_result:
  assumes "chain hp b as"
  shows "(\<exists>a i. insert_search hp p b nf = Some (Inl (a, i)) \<and> a \<in> set as \<and> i < length (SLOTS (hp ! a)) \<and> p (SLOTS (hp ! a) ! i)) \<or>
    ((\<forall>e \<in> set (ents hp as). \<not> p e) \<and>
     ((insert_search hp p b nf = Some (Inr nf) \<and> (nf = None \<longrightarrow> (\<forall>e \<in> set (ents hp as). live e))) \<or>
      (\<exists>a i. nf = None \<and> insert_search hp p b nf = Some (Inr (Some (a, i))) \<and> a \<in> set as \<and> i < length (SLOTS (hp ! a))
        \<and> \<not> live (SLOTS (hp ! a) ! i))))"
  using assms
proof (induction as arbitrary: b nf)
  case Nil
  then show ?case by (simp add: insert_search.simps)
next
  case (Cons a as)
  then have b: "b = Some a" and IH: "chain hp (BUCKET_OVERFLOW (hp ! a)) as" by auto
  have step: "insert_search hp p b nf = (case scan_slots 0 p (SLOTS (hp ! a)) a nf of
      Inl i \<Rightarrow> Some (Inl (a, i)) | Inr nf \<Rightarrow> insert_search hp p (BUCKET_OVERFLOW (hp ! a)) nf)"
    by (subst insert_search.simps) (simp add: b)
  from scan_slots_result [of "SLOTS (hp ! a)" 0 p a nf] show ?case
  proof (elim disjE exE conjE)
    fix k assume "k < length (SLOTS (hp ! a))" "scan_slots 0 p (SLOTS (hp ! a)) a nf = Inl (0 + k)" "p (SLOTS (hp ! a) ! k)"
    then show ?thesis by (auto simp: step)
  next
    assume "\<forall>e \<in> set (SLOTS (hp ! a)). \<not> p e" "scan_slots 0 p (SLOTS (hp ! a)) a nf = Inr nf"
      "nf = None \<longrightarrow> (\<forall>e \<in> set (SLOTS (hp ! a)). live e)"
    then show ?thesis using Cons(1) [OF IH, of nf] by (auto simp: step)
  next
    fix k assume "\<forall>e \<in> set (SLOTS (hp ! a)). \<not> p e" "k < length (SLOTS (hp ! a))" "nf = None"
      "scan_slots 0 p (SLOTS (hp ! a)) a nf = Inr (Some (a, 0 + k))" "\<not> live (SLOTS (hp ! a) ! k)"
    then have "insert_search hp p b None = insert_search hp p (BUCKET_OVERFLOW (hp ! a)) (Some (a, k))"
      using step by simp
    then show ?thesis using Cons(1) [OF IH, of "Some (a, k)"] \<open>nf = None\<close> \<open>\<forall>e \<in> set (SLOTS (hp ! a)). \<not> p e\<close>
        \<open>k < length (SLOTS (hp ! a))\<close> \<open>\<not> live (SLOTS (hp ! a) ! k)\<close> by auto
  qed
qed

subsection \<open>The masks\<close>

lemma hidx_drop_bit: "hidx h = unat (drop_bit 2 h)"
  by (simp add: hidx_def unat_drop_bit_div)

lemma hidx_less: "hidx h < 2 ^ 30"
  using unat_u32_less [of h] by (simp add: hidx_def)

lemma DIR_SLOT_mod:
  assumes "length dir = 2 ^ n" "n \<le> 29"
  shows "DIR_SLOT dir h = hidx h mod 2 ^ n"
proof -
  have "of_nat (4 * length dir) - 4 = (push_bit 2 (mask n) :: u32)"
    by (simp add: assms(1) push_bit_eq_mult mask_eq_exp_minus_1 algebra_simps)
  moreover have "drop_bit 2 (h AND push_bit 2 (mask n)) = take_bit n (drop_bit 2 h)"
    using assms(2) by (intro bit_word_eqI) (auto simp: bit_drop_bit_eq bit_and_iff bit_push_bit_iff bit_take_bit_iff bit_mask_iff
        dest: bit_imp_le_length)
  ultimately have "DIR_SLOT dir h = unat (take_bit n (drop_bit 2 h))"
    using unat_drop_bit_div [of 2 "h AND push_bit 2 (mask n)"] by (simp add: DIR_SLOT_def)
  then show ?thesis by (simp only: unat_take_bit_mod hidx_drop_bit)
qed

lemma not3_mask: "push_bit n (NOT 3) = (NOT (mask (n + 2)) :: u32)"
proof -
  have "push_bit n (NOT (mask 2)) = (NOT (mask (n + 2)) :: u32)"
    by (rule bit_word_eqI) (auto simp: bit_simps)
  moreover have "mask 2 = (3 :: u32)" by (simp add: mask_eq_exp_minus_1)
  ultimately show ?thesis by (simp only:)
qed

lemma and_not_mask_zero: "(x :: u32) AND NOT (mask k) = 0 \<longleftrightarrow> take_bit k x = x"
  by (auto simp: bit_eq_iff bit_simps)

lemma unat_4j: "j < 2 ^ 29 \<Longrightarrow> unat (of_nat (4 * j) :: u32) = 4 * j"
  by (simp only: unat_of_nat) simp

lemma primary_slot_iff:
  assumes "j < 2 ^ 29" "n \<le> 29"
  shows "primary_slot j n \<longleftrightarrow> j < 2 ^ n"
proof -
  let ?x = "of_nat (4 * j) :: u32"
  have "?x AND NOT (mask (n + 2)) = 0 \<longleftrightarrow> take_bit (n + 2) ?x = ?x" by (rule and_not_mask_zero)
  also have "\<dots> \<longleftrightarrow> unat (take_bit (n + 2) ?x) = unat ?x" by (simp only: word_eq_iff_unsigned [where ?'a = nat])
  also have "\<dots> \<longleftrightarrow> 4 * j mod 2 ^ (n + 2) = 4 * j" by (simp only: unat_take_bit_mod unat_4j [OF assms(1)])
  also have "\<dots> \<longleftrightarrow> j mod 2 ^ n = j" by (simp add: mod_mult_mult1 [of 4 j "2 ^ n", simplified])
  also have "\<dots> \<longleftrightarrow> j < 2 ^ n" by (metis mod_less mod_less_divisor zero_less_numeral zero_less_power)
  finally show ?thesis by (simp only: primary_slot_def not3_mask)
qed

lemma primary_index:
  assumes "j < 2 ^ 29" "n \<le> 29"
  shows "unat ((of_nat (4 * j) :: u32) AND NOT (push_bit n (NOT 3))) div 4 = j mod 2 ^ n"
proof -
  have "(of_nat (4 * j) :: u32) AND NOT (push_bit n (NOT 3)) = take_bit (n + 2) (of_nat (4 * j))"
    by (simp only: not3_mask bit.double_compl take_bit_eq_mask)
  then have "unat ((of_nat (4 * j) :: u32) AND NOT (push_bit n (NOT 3))) = 4 * j mod 2 ^ (n + 2)"
    by (simp only: unat_take_bit_mod unat_4j [OF assms(1)])
  also have "\<dots> = 4 * (j mod 2 ^ n)" by (simp add: mod_mult_mult1 [of 4 j "2 ^ n", simplified])
  finally show ?thesis by simp
qed

lemma split_mask_bit:
  assumes "n \<le> 29"
  shows "h AND split_mask n \<noteq> 0 \<longleftrightarrow> odd (hidx h div 2 ^ n)"
proof -
  have "split_mask n = push_bit (n + 2) 1"
    by (simp only: split_mask_def int2fx_def push_bit_push_bit primary_tag_value.simps add_0)
  moreover have "h AND push_bit (n + 2) 1 \<noteq> 0 \<longleftrightarrow> bit h (n + 2)"
    by (simp add: bit_iff_and_push_bit_not_eq_0)
  moreover have "bit h (n + 2) \<longleftrightarrow> bit (hidx h) n"
    using assms by (auto simp: hidx_drop_bit bit_unsigned_iff bit_drop_bit_eq add.commute dest: bit_imp_le_length)
  ultimately show ?thesis by (simp add: bit_iff_odd)
qed

lemma split_index:
  assumes "n \<le> 29"
  shows "unat (fx2int h AND (2 ^ n - 1)) = hidx h mod 2 ^ n"
proof -
  have "fx2int h AND (2 ^ n - 1) = take_bit n (drop_bit 2 h)"
    unfolding mask_eq_exp_minus_1 [symmetric] using assms
    by (intro bit_word_eqI) (auto simp: bit_fx2int bit_and_iff bit_mask_iff bit_take_bit_iff bit_drop_bit_eq add.commute
        dest: bit_imp_le_length)
  then show ?thesis by (simp only: unat_take_bit_mod hidx_drop_bit)
qed

section \<open>Well-formed tables\<close>

definition dir_size :: "hashtable \<Rightarrow> nat" where
  "dir_size t = 2 ^ HASHTABLE_DIR_BITS t"

text \<open>\<open>cs j\<close> is the chain at slot \<open>j\<close> and \<open>bb j\<close> the number of bits of its buckets: the slots that agree with
  \<open>j\<close> in these bits share the chain, all others have none of its buckets.\<close>

definition sharing :: "hashtable \<Rightarrow> (nat \<Rightarrow> nat list) \<Rightarrow> (nat \<Rightarrow> nat) \<Rightarrow> bool" where
  "sharing t cs bb \<longleftrightarrow>
     (\<forall>i < dir_size t. \<forall>j < dir_size t. cs j \<noteq> [] \<longrightarrow>
        (if i mod 2 ^ bb j = j mod 2 ^ bb j then HASHTABLE_DIRECTORY t ! i = HASHTABLE_DIRECTORY t ! j
         else set (cs i) \<inter> set (cs j) = {}))"

definition slot_ok :: "heap \<Rightarrow> hashtable \<Rightarrow> (nat \<Rightarrow> nat list) \<Rightarrow> (nat \<Rightarrow> nat) \<Rightarrow> nat \<Rightarrow> bool" where
  "slot_ok hp t cs bb j \<longleftrightarrow> chain hp (HASHTABLE_DIRECTORY t ! j) (cs j) \<and>
     (cs j \<noteq> [] \<longrightarrow> bb j \<le> HASHTABLE_DIR_BITS t) \<and>
     (\<forall>a \<in> set (cs j). length (SLOTS (hp ! a)) = BUCKET_CAPACITY \<and> BUCKET_BITS (hp ! a) = bb j)"

definition shape :: "heap \<Rightarrow> hashtable \<Rightarrow> (nat \<Rightarrow> nat list) \<Rightarrow> (nat \<Rightarrow> nat) \<Rightarrow> bool" where
  "shape hp t cs bb \<longleftrightarrow>
     HASHTABLE_DIR_BITS t \<le> 29 \<and> length (HASHTABLE_DIRECTORY t) = dir_size t \<and>
     (\<forall>j < dir_size t. slot_ok hp t cs bb j) \<and> sharing t cs bb"

text \<open>An entry that is not free is where its hash says; the hash is that of the key.\<close>

definition placed :: "(u32 \<Rightarrow> u32) \<Rightarrow> (u32 \<Rightarrow> bool) \<Rightarrow> heap \<Rightarrow> hashtable \<Rightarrow> (nat \<Rightarrow> nat list) \<Rightarrow> (nat \<Rightarrow> nat) \<Rightarrow> bool" where
  "placed kh valid hp t cs bb \<longleftrightarrow>
     (\<forall>j < dir_size t. \<forall>(h, k, v) \<in> set (ents hp (cs j)).
        if h = FALSE_OBJ then k = FALSE_OBJ \<and> v = FALSE_OBJ
        else valid k \<and> h = kh k \<and> hidx h mod 2 ^ bb j = j mod 2 ^ bb j)"

definition apart :: "(u32 \<Rightarrow> u32 \<Rightarrow> bool) \<Rightarrow> entry list \<Rightarrow> bool" where
  "apart same es \<longleftrightarrow> sorted_wrt (\<lambda>x y. \<not> same (fst (snd x)) (fst (snd y))) (filter live es)"

definition unique_keys :: "(u32 \<Rightarrow> u32 \<Rightarrow> bool) \<Rightarrow> heap \<Rightarrow> hashtable \<Rightarrow> (nat \<Rightarrow> nat list) \<Rightarrow> bool" where
  "unique_keys same hp t cs \<longleftrightarrow> (\<forall>j < dir_size t. apart same (ents hp (cs j)))"

text \<open>The associations of the table, read where a lookup looks.\<close>

definition assocs :: "(u32 \<Rightarrow> u32) \<Rightarrow> (u32 \<Rightarrow> bool) \<Rightarrow> heap \<Rightarrow> hashtable \<Rightarrow> (nat \<Rightarrow> nat list) \<Rightarrow> (u32 \<times> u32) set" where
  "assocs kh valid hp t cs = {(k, v). valid k \<and> (kh k, k, v) \<in> set (ents hp (cs (hidx (kh k) mod dir_size t)))}"

text \<open>The addresses a table uses.\<close>

definition footprint :: "hashtable \<Rightarrow> (nat \<Rightarrow> nat list) \<Rightarrow> nat set" where
  "footprint t cs = (\<Union>j < dir_size t. set (cs j))"

text \<open>\<open>F\<close> is the set of the addresses the table uses.\<close>

definition table_rep :: "(u32 \<Rightarrow> u32) \<Rightarrow> (u32 \<Rightarrow> bool) \<Rightarrow> (u32 \<Rightarrow> u32 \<Rightarrow> bool) \<Rightarrow> heap \<Rightarrow> hashtable \<Rightarrow> nat set
    \<Rightarrow> (u32 \<times> u32) set \<Rightarrow> bool" where
  "table_rep kh valid same hp t F S \<longleftrightarrow>
     (\<exists>cs bb. shape hp t cs bb \<and> placed kh valid hp t cs bb \<and> unique_keys same hp t cs \<and>
        F = footprint t cs \<and> S = assocs kh valid hp t cs \<and>
        HASHTABLE_COUNT t = int2fx (of_nat (card S)))"

lemma shape_chain:
  assumes "shape hp t cs bb" "j < dir_size t"
  shows "chain hp (HASHTABLE_DIRECTORY t ! j) (cs j)" "distinct (cs j)"
    "a \<in> set (cs j) \<Longrightarrow> a < length hp" "a \<in> set (cs j) \<Longrightarrow> length (SLOTS (hp ! a)) = BUCKET_CAPACITY"
    "a \<in> set (cs j) \<Longrightarrow> BUCKET_BITS (hp ! a) = bb j" "cs j \<noteq> [] \<Longrightarrow> bb j \<le> HASHTABLE_DIR_BITS t"
proof -
  show c: "chain hp (HASHTABLE_DIRECTORY t ! j) (cs j)" using assms by (simp add: shape_def slot_ok_def)
  show "distinct (cs j)" by (rule chain_distinct [OF c])
  show "a \<in> set (cs j) \<Longrightarrow> a < length hp" by (rule chain_bound [OF c])
  show "a \<in> set (cs j) \<Longrightarrow> length (SLOTS (hp ! a)) = BUCKET_CAPACITY" "a \<in> set (cs j) \<Longrightarrow> BUCKET_BITS (hp ! a) = bb j"
    "cs j \<noteq> [] \<Longrightarrow> bb j \<le> HASHTABLE_DIR_BITS t" using assms by (simp_all add: shape_def slot_ok_def)
qed

lemma shape_pair:
  assumes "shape hp t cs bb" "i < dir_size t" "j < dir_size t" "cs j \<noteq> []"
  shows "if i mod 2 ^ bb j = j mod 2 ^ bb j then HASHTABLE_DIRECTORY t ! i = HASHTABLE_DIRECTORY t ! j
    else set (cs i) \<inter> set (cs j) = {}"
  using assms unfolding shape_def sharing_def by blast

lemma shape_share:
  assumes "shape hp t cs bb" "i < dir_size t" "j < dir_size t" "cs j \<noteq> []" "i mod 2 ^ bb j = j mod 2 ^ bb j"
  shows "HASHTABLE_DIRECTORY t ! i = HASHTABLE_DIRECTORY t ! j" "cs i = cs j" "bb i = bb j"
proof -
  have "if i mod 2 ^ bb j = j mod 2 ^ bb j then HASHTABLE_DIRECTORY t ! i = HASHTABLE_DIRECTORY t ! j
      else set (cs i) \<inter> set (cs j) = {}" by (rule shape_pair [OF assms(1-4)])
  then show d: "HASHTABLE_DIRECTORY t ! i = HASHTABLE_DIRECTORY t ! j" using assms(5) by simp
  show c: "cs i = cs j" using shape_chain(1) [OF assms(1,2)] shape_chain(1) [OF assms(1,3)] d chain_unique by metis
  have "hd (cs j) \<in> set (cs j)" using assms(4) by simp
  then show "bb i = bb j" using shape_chain(5) [OF assms(1,2)] shape_chain(5) [OF assms(1,3)] c by metis
qed

lemma shape_meet:
  assumes "shape hp t cs bb" "i < dir_size t" "j < dir_size t" "a \<in> set (cs i)" "a \<in> set (cs j)"
  shows "i mod 2 ^ bb j = j mod 2 ^ bb j" "cs i = cs j" "bb i = bb j"
proof -
  have ne: "cs j \<noteq> []" using assms(5) by auto
  have "if i mod 2 ^ bb j = j mod 2 ^ bb j then HASHTABLE_DIRECTORY t ! i = HASHTABLE_DIRECTORY t ! j
      else set (cs i) \<inter> set (cs j) = {}" by (rule shape_pair [OF assms(1-3) ne])
  then show m: "i mod 2 ^ bb j = j mod 2 ^ bb j" using assms(4,5) by (auto split: if_splits)
  show "cs i = cs j" "bb i = bb j" using shape_share [OF assms(1-3) ne m] by simp_all
qed

lemma shape_write:
  assumes "shape hp t cs bb" "a < length hp"
  shows "shape (write_slot hp a i e) t cs bb"
proof -
  have "BUCKET_BITS (write_slot hp a i e ! b) = BUCKET_BITS (hp ! b)"
    "length (SLOTS (write_slot hp a i e ! b)) = length (SLOTS (hp ! b))" for b
    using assms(2) by (simp_all add: nth_write_slot)
  then have "slot_ok hp t cs bb j \<Longrightarrow> slot_ok (write_slot hp a i e) t cs bb j" for j
    using assms(2) by (simp add: slot_ok_def chain_write_slot)
  then show ?thesis using assms(1) unfolding shape_def by blast
qed

lemma shape_same_slot:
  assumes "shape hp t cs bb" "j0 < dir_size t" "cs j0 \<noteq> []" "x mod 2 ^ bb j0 = j0 mod 2 ^ bb j0"
  shows "cs (x mod dir_size t) = cs j0"
proof -
  have "bb j0 \<le> HASHTABLE_DIR_BITS t" by (rule shape_chain(6) [OF assms(1-3)])
  then have "x mod dir_size t mod 2 ^ bb j0 = j0 mod 2 ^ bb j0"
    using assms(4) by (simp add: dir_size_def mod_mod_cancel le_imp_power_dvd)
  then show ?thesis using shape_share(2) [OF assms(1) _ assms(2,3)] by (simp add: dir_size_def)
qed

lemma placedD:
  assumes "placed kh valid hp t cs bb" "j < dir_size t" "(h, k, v) \<in> set (ents hp (cs j))"
  shows "if h = FALSE_OBJ then k = FALSE_OBJ \<and> v = FALSE_OBJ
    else valid k \<and> h = kh k \<and> hidx h mod 2 ^ bb j = j mod 2 ^ bb j"
proof -
  have "\<forall>e \<in> set (ents hp (cs j)). case e of (h, k, v) \<Rightarrow>
      if h = FALSE_OBJ then k = FALSE_OBJ \<and> v = FALSE_OBJ
      else valid k \<and> h = kh k \<and> hidx h mod 2 ^ bb j = j mod 2 ^ bb j"
    using assms(1,2) unfolding placed_def by blast
  from bspec [OF this assms(3)] show ?thesis by simp
qed

lemma fixnum_not_false: "FIXNUM_P x \<Longrightarrow> x \<noteq> FALSE_OBJ"
  by (auto simp: FIXNUM_P_def TEST_PRIMARY_TAG_def FALSE_OBJ_def MAKE_IMMOB_def)

section \<open>Splitting: lemmas\<close>

subsection \<open>Chains under construction\<close>

definition building :: "heap \<Rightarrow> nat \<Rightarrow> bucket_chain \<Rightarrow> nat list \<Rightarrow> entry list \<Rightarrow> bool" where
  "building hp base c as es \<longleftrightarrow> chain hp (first_bucket c) as \<and>
     (\<forall>a \<in> set as. base \<le> a \<and> length (SLOTS (hp ! a)) = BUCKET_CAPACITY \<and> BUCKET_BITS (hp ! a) = bits c) \<and>
     last_bucket c = (if as = [] then None else Some (last as)) \<and>
     index c \<le> BUCKET_CAPACITY \<and> (as = [] \<longrightarrow> index c = BUCKET_CAPACITY) \<and>
     ents hp as = es @ replicate (BUCKET_CAPACITY - index c) empty_entry"

lemma chain_snoc:
  assumes "chain hp b as" "as \<noteq> []" "distinct as" "length hp \<le> length hp'" "n < length hp'"
    "\<And>a. a \<in> set as \<Longrightarrow> a \<noteq> last as \<Longrightarrow> BUCKET_OVERFLOW (hp' ! a) = BUCKET_OVERFLOW (hp ! a)"
    "BUCKET_OVERFLOW (hp' ! last as) = Some n" "BUCKET_OVERFLOW (hp' ! n) = None"
  shows "chain hp' b (as @ [n])"
  using assms
proof (induction as arbitrary: b)
  case (Cons a as)
  show ?case
  proof (cases "as = []")
    case False
    then have "a \<noteq> last as" using Cons.prems(3) by auto
    moreover have "chain hp' (BUCKET_OVERFLOW (hp ! a)) (as @ [n])"
      using Cons.prems False by (intro Cons.IH) auto
    ultimately show ?thesis using Cons.prems False by auto
  qed (use Cons.prems in auto)
qed simp

lemma chain_cong_grow:
  assumes "chain hp b as" "length hp \<le> length hp'" "\<And>a. a \<in> set as \<Longrightarrow> hp' ! a = hp ! a"
  shows "chain hp' b as" "ents hp' as = ents hp as"
proof -
  show "chain hp' b as" by (rule chain_cong [OF _ assms(1)]) (use assms in auto)
  show "ents hp' as = ents hp as" by (rule ents_cong) (simp add: assms(3))
qed

lemma building_cong:
  assumes "building hp base c as es" "length hp \<le> length hp'" "\<And>a. a \<in> set as \<Longrightarrow> hp' ! a = hp ! a"
  shows "building hp' base c as es"
proof -
  have "chain hp (first_bucket c) as" using assms(1) by (simp add: building_def)
  from chain_cong_grow [OF this assms(2,3)] show ?thesis using assms(1,3) by (auto simp: building_def)
qed

lemma ents_update_last:
  assumes "distinct (us @ [l])" "l < length hp" "i < length (SLOTS (hp ! l))"
  shows "ents (write_slot hp l i e) (us @ [l]) = (ents hp (us @ [l]))[length (ents hp us) + i := e]"
  using assms by (simp add: ents_write_other nth_write_slot list_update_append)

lemma chain_insert_building:
  assumes b: "building hp base c as es" and base: "base \<le> length hp"
  obtains hp' c' as' where "chain_insert hp c e = (hp', c')" "building hp' base c' as' (es @ [e])" "bits c' = bits c"
    "length hp \<le> length hp'" "\<And>a. a < length hp \<Longrightarrow> a \<notin> set as \<Longrightarrow> hp' ! a = hp ! a"
    "set as' \<subseteq> set as \<union> {length hp..<length hp'}"
proof (cases "index c \<ge> BUCKET_CAPACITY")
  case True
  define n where "n = length hp"
  define nb where "nb = \<lparr>BUCKET_BITS = bits c, BUCKET_OVERFLOW = None, SLOTS = replicate BUCKET_CAPACITY empty_entry\<rparr>"
  define hp1 where "hp1 = (if as = [] then hp @ [nb]
      else (hp @ [nb])[last as := (hp ! last as)\<lparr>BUCKET_OVERFLOW := Some n\<rparr>])"
  have ch: "chain hp (first_bucket c) as" and sl: "\<And>a. a \<in> set as \<Longrightarrow> base \<le> a \<and> length (SLOTS (hp ! a)) = BUCKET_CAPACITY \<and> BUCKET_BITS (hp ! a) = bits c"
    and es: "ents hp as = es" and lb: "last_bucket c = (if as = [] then None else Some (last as))" and ix: "index c = BUCKET_CAPACITY"
    using b True by (auto simp: building_def)
  have lt: "\<And>a. a \<in> set as \<Longrightarrow> a < n" using chain_bound [OF ch] by (simp add: n_def)
  have len1: "length hp1 = Suc n" by (simp add: hp1_def n_def)
  have at_n: "hp1 ! n = nb" using lt [of "last as"] by (auto simp: hp1_def n_def nth_append nth_list_update)
  have at_old: "SLOTS (hp1 ! a) = SLOTS (hp ! a) \<and> BUCKET_BITS (hp1 ! a) = BUCKET_BITS (hp ! a)
      \<and> (a \<noteq> last as \<or> as = [] \<longrightarrow> hp1 ! a = hp ! a)" if "a < n" for a
    using that lt [of "last as"] by (auto simp: hp1_def n_def nth_append nth_list_update)
  define hp' where "hp' = write_slot hp1 n 0 e"
  define c' where "c' = (if as = [] then c\<lparr>first_bucket := Some n\<rparr> else c)\<lparr>last_bucket := Some n, index := 1\<rparr>"
  have h1: "(hp @ [nb]) ! last as = hp ! last as" if "as \<noteq> []"
    using lt [of "last as"] that by (simp add: nth_append n_def)
  have ins: "chain_insert hp c e = (hp', c')"
    using True lb h1 unfolding chain_insert_def make_bucket_def
    by (auto simp: n_def [symmetric] nb_def [symmetric] hp'_def c'_def hp1_def Let_def)
  have nth': "hp' ! a = (if a = n then nb\<lparr>SLOTS := e # replicate (BUCKET_CAPACITY - 1) empty_entry\<rparr> else hp1 ! a)" for a
    using at_n len1 by (simp add: hp'_def nth_write_slot nb_def BUCKET_CAPACITY_def eval_nat_numeral)
  have len': "length hp' = Suc n" by (simp add: hp'_def len1)
  have ov: "BUCKET_OVERFLOW (hp1 ! last as) = Some n" if "as \<noteq> []"
    using lt [of "last as"] that by (simp add: hp1_def n_def nth_list_update)
  have ch': "chain hp' (first_bucket c') (as @ [n])"
  proof (cases "as = []")
    case True
    then show ?thesis using len' by (simp add: c'_def nth' nb_def)
  next
    case False
    have nl: "last as \<noteq> n" using lt [of "last as"] False by auto
    show ?thesis unfolding c'_def using False
      by (simp, intro chain_snoc [OF ch False chain_distinct [OF ch]])
        (use len' lt ov nl at_old in \<open>auto simp: nth' nb_def n_def\<close>)
  qed
  have en: "ents hp' as = es"
  proof -
    have "SLOTS (hp' ! a) = SLOTS (hp ! a)" if "a \<in> set as" for a
      using at_old [OF lt [OF that]] lt [OF that] by (simp add: nth')
    then show ?thesis using es ents_cong [of as hp' hp] by simp
  qed
  have bu: "building hp' base c' (as @ [n]) (es @ [e])"
    unfolding building_def
  proof (intro conjI ballI)
    fix a assume "a \<in> set (as @ [n])"
    then consider "a \<in> set as" "a < n" | "a = n" using lt by auto
    then have "base \<le> a \<and> length (SLOTS (hp' ! a)) = BUCKET_CAPACITY \<and> BUCKET_BITS (hp' ! a) = bits c'"
    proof cases
      case 1
      then show ?thesis using sl [OF 1(1)] at_old [OF 1(2)] by (simp add: nth' c'_def)
    next
      case 2
      then show ?thesis using base by (simp add: nth' nb_def c'_def n_def BUCKET_CAPACITY_def)
    qed
    then show "base \<le> a" "length (SLOTS (hp' ! a)) = BUCKET_CAPACITY" "BUCKET_BITS (hp' ! a) = bits c'" by simp_all
  qed (use ch' en in \<open>auto simp: c'_def nth' BUCKET_CAPACITY_def\<close>)
  show ?thesis
  proof (rule that [OF ins bu])
    show "bits c' = bits c" by (simp add: c'_def)
    show "length hp \<le> length hp'" using len1 by (simp add: hp'_def n_def)
    show "set (as @ [n]) \<subseteq> set as \<union> {length hp..<length hp'}" using len1 by (auto simp: hp'_def n_def)
    show "hp' ! a = hp ! a" if "a < length hp" "a \<notin> set as" for a
    proof -
      have "a \<noteq> last as \<or> as = []" using that(2) by (metis last_in_set)
      then show ?thesis using at_old [of a] that(1) by (simp add: nth' n_def)
    qed
  qed
next
  case False
  have ch: "chain hp (first_bucket c) as" and ne: "as \<noteq> []" using b False by (auto simp: building_def)
  define l where "l = last as"
  define us where "us = butlast as"
  have as: "as = us @ [l]" using ne by (simp add: us_def l_def)
  have lb: "last_bucket c = Some l" using b ne by (simp add: building_def l_def)
  have l: "l < length hp" "length (SLOTS (hp ! l)) = BUCKET_CAPACITY" "distinct (us @ [l])"
    using b chain_bound [OF ch, of l] chain_distinct [OF ch] by (auto simp: building_def as)
  let ?hp = "write_slot hp l (index c) e" and ?c = "c\<lparr>index := index c + 1\<rparr>"
  have es: "ents hp as = es @ replicate (BUCKET_CAPACITY - index c) empty_entry" using b by (simp add: building_def)
  moreover have "length (ents hp as) = length (ents hp us) + BUCKET_CAPACITY" using l by (simp add: as)
  ultimately have le: "length (ents hp us) + index c = length es" using False by simp
  have "ents ?hp as = (ents hp as)[length es := e]"
    using ents_update_last [of us l hp "index c" e] l False le by (simp add: as)
  also have "\<dots> = (es @ [e]) @ replicate (BUCKET_CAPACITY - (index c + 1)) empty_entry"
  proof -
    obtain k where "BUCKET_CAPACITY - index c = Suc k" "BUCKET_CAPACITY - (index c + 1) = k"
      using False by (metis Suc_diff_Suc Suc_eq_plus1 not_le)
    then show ?thesis by (simp add: es list_update_append)
  qed
  finally have en: "ents ?hp as = (es @ [e]) @ replicate (BUCKET_CAPACITY - (index c + 1)) empty_entry" .
  show ?thesis
  proof (rule that [of ?hp ?c as])
    show "chain_insert hp c e = (?hp, ?c)" using False by (simp add: chain_insert_def lb Let_def)
    show "building ?hp base ?c as (es @ [e])"
      using b False en chain_write_slot [OF ch l(1)] ne l(1) by (auto simp: building_def nth_write_slot)
    show "?hp ! a = hp ! a" if "a < length hp" "a \<notin> set as" for a using that l(1) by (auto simp: nth_write_slot as)
  qed simp_all
qed

subsection \<open>Sorting a chain into two\<close>

definition splitting :: "heap \<Rightarrow> nat \<Rightarrow> chains \<Rightarrow> entry list \<Rightarrow> entry list \<Rightarrow> bool" where
  "splitting hp0 n s eh el \<longleftrightarrow>
     (case s of (hp, hi, lo) \<Rightarrow> bits hi = n \<and> bits lo = n \<and> length hp0 \<le> length hp \<and> (\<forall>a < length hp0. hp ! a = hp0 ! a) \<and>
        (\<exists>ah al. building hp (length hp0) hi ah eh \<and> building hp (length hp0) lo al el \<and> set ah \<inter> set al = {}))"

lemma building_bound: "building hp base c as es \<Longrightarrow> a \<in> set as \<Longrightarrow> base \<le> a \<and> a < length hp"
  using chain_bound by (auto simp: building_def)

lemma splitting_entry:
  assumes "splitting hp0 n s eh el"
  shows "splitting hp0 n (split_entry m e s) (eh @ filter (\<lambda>e. fst e AND m \<noteq> 0) [e]) (el @ filter (\<lambda>e. fst e AND m = 0) [e])"
proof -
  obtain hp hi lo where s: "s = (hp, hi, lo)" by (cases s)
  obtain ah al where b: "bits hi = n" "bits lo = n" "length hp0 \<le> length hp" "\<forall>a < length hp0. hp ! a = hp0 ! a"
    "building hp (length hp0) hi ah eh" "building hp (length hp0) lo al el" "set ah \<inter> set al = {}"
    using assms by (auto simp: splitting_def s)
  show ?thesis
  proof (cases "fst e AND m = 0")
    case True
    obtain hp' c' as' where c: "chain_insert hp lo e = (hp', c')" "building hp' (length hp0) c' as' (el @ [e])" "bits c' = bits lo"
      "length hp \<le> length hp'" "\<And>a. a < length hp \<Longrightarrow> a \<notin> set al \<Longrightarrow> hp' ! a = hp ! a"
      "set as' \<subseteq> set al \<union> {length hp..<length hp'}" using chain_insert_building [OF b(6,3)] by blast
    have "building hp' (length hp0) hi ah eh"
      by (rule building_cong [OF b(5) c(4)]) (use c(5) building_bound [OF b(5)] b(7) in blast)
    moreover have "set ah \<inter> set as' = {}" using c(6) b(7) building_bound [OF b(5)] by fastforce
    moreover have "hp' ! a = hp0 ! a" if "a < length hp0" for a
      using c(5) [of a] that b(3,4) building_bound [OF b(6), of a] by fastforce
    ultimately show ?thesis using True c b(1-3) by (auto simp: splitting_def split_entry_def s)
  next
    case False
    obtain hp' c' as' where c: "chain_insert hp hi e = (hp', c')" "building hp' (length hp0) c' as' (eh @ [e])" "bits c' = bits hi"
      "length hp \<le> length hp'" "\<And>a. a < length hp \<Longrightarrow> a \<notin> set ah \<Longrightarrow> hp' ! a = hp ! a"
      "set as' \<subseteq> set ah \<union> {length hp..<length hp'}" using chain_insert_building [OF b(5,3)] by blast
    have "building hp' (length hp0) lo al el"
      by (rule building_cong [OF b(6) c(4)]) (use c(5) building_bound [OF b(6)] b(7) in blast)
    moreover have "set as' \<inter> set al = {}" using c(6) b(7) building_bound [OF b(6)] by fastforce
    moreover have "hp' ! a = hp0 ! a" if "a < length hp0" for a
      using c(5) [of a] that b(3,4) building_bound [OF b(5), of a] by fastforce
    ultimately show ?thesis using False c b(1-3) by (auto simp: splitting_def split_entry_def s)
  qed
qed

lemma splitting_fold:
  "splitting hp0 n s eh el \<Longrightarrow> splitting hp0 n (fold (split_entry m) es s)
     (eh @ filter (\<lambda>e. fst e AND m \<noteq> 0) es) (el @ filter (\<lambda>e. fst e AND m = 0) es)"
proof (induction es arbitrary: s eh el)
  case (Cons e es)
  from Cons.IH [OF splitting_entry [OF Cons.prems, of m e]] show ?case by (cases "fst e AND m = 0") simp_all
qed simp

lemma splitting_loop:
  assumes "chain hp0 b as" "splitting hp0 n s eh el"
  shows "\<exists>s'. split_loop m b s = Some s' \<and> splitting hp0 n s'
     (eh @ filter (\<lambda>e. fst e AND m \<noteq> 0) (ents hp0 as)) (el @ filter (\<lambda>e. fst e AND m = 0) (ents hp0 as))"
  using assms
proof (induction as arbitrary: b s eh el)
  case Nil
  then show ?case by (simp add: split_loop.simps)
next
  case (Cons a as)
  let ?s = "fold (split_entry m) (SLOTS (hp0 ! a)) s"
  have b: "b = Some a" "a < length hp0" "chain hp0 (BUCKET_OVERFLOW (hp0 ! a)) as" using Cons.prems(1) by auto
  have same: "splitting hp0 n s eh el \<Longrightarrow> fst s ! a = hp0 ! a" for s eh el
    using b(2) by (auto simp: splitting_def)
  have f: "splitting hp0 n ?s (eh @ filter (\<lambda>e. fst e AND m \<noteq> 0) (SLOTS (hp0 ! a))) (el @ filter (\<lambda>e. fst e AND m = 0) (SLOTS (hp0 ! a)))"
    by (rule splitting_fold [OF Cons.prems(2)])
  have "split_loop m b s = split_loop m (BUCKET_OVERFLOW (hp0 ! a)) ?s"
    by (subst split_loop.simps) (simp add: b same [OF Cons.prems(2)] same [OF f] Let_def)
  then show ?case using Cons.IH [OF b(3) f] by simp
qed

subsection \<open>The directory\<close>

lemma install_loop_length [simp]: "length (install_loop c i di vec lo hi) = length vec"
  by (induction c i di vec lo hi rule: install_loop.induct) (auto simp: Let_def)

lemma nth_update: "j < length xs \<Longrightarrow> xs[i := x] ! j = (if j = i then x else xs ! j)"
  by (cases "i < length xs") (auto simp: nth_list_update)

lemma install_loop_nth:
  assumes "j < length vec" "0 < di"
  shows "install_loop c i di vec lo hi ! j =
    (if \<exists>m < c. j = i + 2 * m * di then lo else if \<exists>m < c. j = i + (2 * m + 1) * di then hi else vec ! j)"
  using assms
proof (induction c i di vec lo hi rule: install_loop.induct)
  case (2 c i di vec lo hi)
  have shift: "(\<exists>m < c. j = i + di + di + 2 * m * di) \<longleftrightarrow> (\<exists>m < Suc c. 0 < m \<and> j = i + 2 * m * di)"
    "(\<exists>m < c. j = i + di + di + (2 * m + 1) * di) \<longleftrightarrow> (\<exists>m < Suc c. 0 < m \<and> j = i + (2 * m + 1) * di)"
    by (auto simp: gr0_conv_Suc algebra_simps)
  have z: "(\<exists>m < Suc c. P m) \<longleftrightarrow> P 0 \<or> (\<exists>m < Suc c. 0 < m \<and> P m)" for P by (auto simp: gr0_conv_Suc less_Suc_eq_0_disj)
  have ne: "i + di \<noteq> i + 2 * m * di" "i \<noteq> i + (2 * m + 1) * di" for m
  proof -
    have "2 * m * di \<noteq> di" using 2(3) by (cases m) auto
    then show "i + di \<noteq> i + 2 * m * di" by simp
    show "i \<noteq> i + (2 * m + 1) * di" using 2(3) by simp
  qed
  have "install_loop (Suc c) i di vec lo hi ! j =
      (if \<exists>m < Suc c. 0 < m \<and> j = i + 2 * m * di then lo else if \<exists>m < Suc c. 0 < m \<and> j = i + (2 * m + 1) * di then hi
       else if j = i + di then hi else if j = i then lo else vec ! j)"
    using 2 shift by (auto simp: nth_update)
  also have "\<dots> = (if \<exists>m < Suc c. j = i + 2 * m * di then lo else if \<exists>m < Suc c. j = i + (2 * m + 1) * di then hi else vec ! j)"
    unfolding z [of "\<lambda>m. j = i + 2 * m * di"] z [of "\<lambda>m. j = i + (2 * m + 1) * di"] using ne by auto
  finally show ?case .
qed simp

lemma mod_Suc_power:
  "(x :: nat) mod 2 ^ Suc n = y mod 2 ^ Suc n \<longleftrightarrow> x mod 2 ^ n = y mod 2 ^ n \<and> (odd (x div 2 ^ n) \<longleftrightarrow> odd (y div 2 ^ n))"
proof -
  have e: "z mod 2 ^ Suc n = z mod 2 ^ n + 2 ^ n * (z div 2 ^ n mod 2)" for z :: nat
    using mod_mult2_eq [of z "2 ^ n" 2] by (simp add: mult.commute add.commute)
  have "x mod 2 ^ n < 2 ^ n" "y mod 2 ^ n < 2 ^ n" by simp_all
  moreover have "a + p * of_bool P = b + p * of_bool Q \<longleftrightarrow> a = b \<and> P = Q" if "a < p" "b < p" for a b p :: nat and P Q
    using that by (cases P; cases Q) auto
  ultimately show ?thesis unfolding e mod_2_eq_odd by simp
qed

lemma install_split:
  assumes "length vec = 2 ^ d" "n < d" "j < 2 ^ d" "i0 < 2 ^ n"
  shows "install_loop (2 ^ (d - (n + 1))) i0 (2 ^ n) vec lo hi ! j =
    (if j mod 2 ^ n = i0 then if odd (j div 2 ^ n) then hi else lo else vec ! j)"
proof -
  let ?c = "2 ^ (d - (n + 1)) :: nat" and ?q = "j div 2 ^ n"
  have jq: "j = j mod 2 ^ n + ?q * 2 ^ n" using div_mult_mod_eq [of j "2 ^ n"] by simp
  have d: "(2 :: nat) ^ d = 2 * ?c * 2 ^ n" using assms(2) by (simp flip: power_Suc power_add)
  have q: "?q < 2 * ?c" using assms(3) unfolding d by (simp add: less_mult_imp_div_less)
  have u: "j = i0 + p * 2 ^ n \<longleftrightarrow> j mod 2 ^ n = i0 \<and> ?q = p" for p
  proof
    assume "j = i0 + p * 2 ^ n"
    then show "j mod 2 ^ n = i0 \<and> ?q = p" using assms(4) by simp
  next
    assume "j mod 2 ^ n = i0 \<and> ?q = p"
    then show "j = i0 + p * 2 ^ n" using jq by simp
  qed
  have "(\<exists>m < ?c. j = i0 + 2 * m * 2 ^ n) \<longleftrightarrow> j mod 2 ^ n = i0 \<and> even ?q"
    unfolding u [of "2 * _"] using q by (auto elim!: evenE)
  moreover have "(\<exists>m < ?c. j = i0 + (2 * m + 1) * 2 ^ n) \<longleftrightarrow> j mod 2 ^ n = i0 \<and> odd ?q"
    unfolding u [of "2 * _ + 1"] using q by (auto elim!: oddE)
  ultimately show ?thesis using install_loop_nth [of j vec "2 ^ n" ?c i0 lo hi] assms(1,3) by auto
qed

subsection \<open>The split table\<close>

definition split_part :: "nat \<Rightarrow> nat \<Rightarrow> entry list \<Rightarrow> entry list" where
  "split_part n j es = filter (\<lambda>e. odd (hidx (fst e) div 2 ^ n) \<longleftrightarrow> odd (j div 2 ^ n)) es"

text \<open>What \<open>split_bucket\<close> does to a table: \<open>grown\<close> is the doubled directory, when it was doubled.\<close>

lemma shape_split:
  assumes sh: "shape hp t cs bb" and j1: "j1 < dir_size t" "cs j1 \<noteq> []"
    and n: "n = bb j1" "i0 = j1 mod 2 ^ n"
    and bits': "n < HASHTABLE_DIR_BITS t'" "HASHTABLE_DIR_BITS t' \<le> 29" "HASHTABLE_DIR_BITS t \<le> HASHTABLE_DIR_BITS t'"
    and dir': "length (HASHTABLE_DIRECTORY t') = dir_size t'"
      "\<And>j. j < dir_size t' \<Longrightarrow> HASHTABLE_DIRECTORY t' ! j =
        (if j mod 2 ^ n = i0 then if odd (j div 2 ^ n) then first_bucket hi else first_bucket lo
         else HASHTABLE_DIRECTORY t ! (j mod dir_size t))"
    and spl: "bits hi = n + 1" "bits lo = n + 1" "length hp \<le> length hp'" "\<And>a. a < length hp \<Longrightarrow> hp' ! a = hp ! a"
      "building hp' (length hp) hi ah eh" "building hp' (length hp) lo al el" "set ah \<inter> set al = {}"
    and cs': "cs' = (\<lambda>j. if j mod 2 ^ n = i0 then if odd (j div 2 ^ n) then ah else al else cs (j mod dir_size t))"
    and bb': "bb' = (\<lambda>j. if j mod 2 ^ n = i0 then n + 1 else bb (j mod dir_size t))"
  shows "shape hp' t' cs' bb'"
  unfolding shape_def
proof (intro conjI allI impI)
  show "HASHTABLE_DIR_BITS t' \<le> 29" "length (HASHTABLE_DIRECTORY t') = dir_size t'" by fact+
  have N: "j mod dir_size t < dir_size t" for j by (simp add: dir_size_def)
  have new: "length hp \<le> a" if "a \<in> set ah \<union> set al" for a
    using that building_bound [OF spl(5)] building_bound [OF spl(6)] by blast
  have old: "a < length hp" if "a \<in> set (cs (j mod dir_size t))" for a j
    by (rule shape_chain(3) [OF sh N that])
  fix j assume j: "j < dir_size t'"
  show "slot_ok hp' t' cs' bb' j"
  proof (cases "j mod 2 ^ n = i0")
    case True
    then show ?thesis using spl bits' unfolding slot_ok_def cs' bb' dir'(2) [OF j] building_def by auto
  next
    case False
    have "chain hp' (HASHTABLE_DIRECTORY t ! (j mod dir_size t)) (cs (j mod dir_size t))"
      by (rule chain_cong_grow [OF shape_chain(1) [OF sh N] spl(3)]) (simp add: spl(4) old)
    then show ?thesis
      using False shape_chain(4-6) [OF sh N [of j]] spl(4) old bits'(3) unfolding slot_ok_def cs' bb' dir'(2) [OF j]
      by auto
  qed
next
  have N: "j mod dir_size t < dir_size t" for j by (simp add: dir_size_def)
  have new: "length hp \<le> a" if "a \<in> set ah \<union> set al" for a
    using that building_bound [OF spl(5)] building_bound [OF spl(6)] by blast
  have old: "a < length hp" if "a \<in> set (cs (j mod dir_size t))" for a j
    by (rule shape_chain(3) [OF sh N that])
  have nd: "n \<le> HASHTABLE_DIR_BITS t" using shape_chain(6) [OF sh j1] n by simp
  have mm: "x mod dir_size t mod 2 ^ b = x mod 2 ^ b" if "b \<le> HASHTABLE_DIR_BITS t" for x b
    using that by (simp add: dir_size_def mod_mod_cancel le_imp_power_dvd)
  show "sharing t' cs' bb'"
    unfolding sharing_def
  proof (intro allI impI)
    fix i j assume i: "i < dir_size t'" and j: "j < dir_size t'" and ne: "cs' j \<noteq> []"
    show "if i mod 2 ^ bb' j = j mod 2 ^ bb' j then HASHTABLE_DIRECTORY t' ! i = HASHTABLE_DIRECTORY t' ! j
        else set (cs' i) \<inter> set (cs' j) = {}"
    proof (cases "j mod 2 ^ n = i0")
      case True
      have "i mod 2 ^ bb' j = j mod 2 ^ bb' j \<longleftrightarrow> i mod 2 ^ n = i0 \<and> (odd (i div 2 ^ n) \<longleftrightarrow> odd (j div 2 ^ n))"
        using True mod_Suc_power [of i n j] by (simp add: bb')
      moreover have "set (cs' i) \<inter> set (cs' j) = {}" if "\<not> (i mod 2 ^ n = i0 \<and> (odd (i div 2 ^ n) \<longleftrightarrow> odd (j div 2 ^ n)))"
      proof (cases "i mod 2 ^ n = i0")
        case True
        then show ?thesis using that \<open>j mod 2 ^ n = i0\<close> spl(7) by (auto simp: cs')
      next
        case False
        have "set (cs' j) \<subseteq> set ah \<union> set al" using True by (auto simp: cs')
        moreover have "set (cs' i) = set (cs (i mod dir_size t))" using False by (simp add: cs')
        ultimately show ?thesis using new old [of _ i] by fastforce
      qed
      ultimately show ?thesis using True dir'(2) [OF i] dir'(2) [OF j] by (cases "i mod 2 ^ n = i0") auto
    next
      case False
      define i' where "i' = i mod dir_size t"
      define j' where "j' = j mod dir_size t"
      have ij: "i' < dir_size t" "j' < dir_size t" using N by (simp_all add: i'_def j'_def)
      have csj: "cs' j = cs j'" "bb' j = bb j'" using False by (simp_all add: cs' bb' j'_def)
      have bj: "bb j' \<le> HASHTABLE_DIR_BITS t" using shape_chain(6) [OF sh ij(2)] ne csj by simp
      have iff: "i mod 2 ^ bb j' = j mod 2 ^ bb j' \<longleftrightarrow> i' mod 2 ^ bb j' = j' mod 2 ^ bb j'"
        using mm [OF bj] by (simp add: i'_def j'_def)
      show ?thesis
      proof (cases "i mod 2 ^ n = i0")
        case True
        have i1: "i' mod 2 ^ bb j1 = j1 mod 2 ^ bb j1"
          using mm [OF nd, of i] True n by (simp add: i'_def)
        have "cs i' = cs j1" "bb i' = bb j1" using shape_share [OF sh ij(1) j1 i1] by simp_all
        have "i' mod 2 ^ bb j' \<noteq> j' mod 2 ^ bb j'"
        proof
          assume "i' mod 2 ^ bb j' = j' mod 2 ^ bb j'"
          from shape_share [OF sh ij _ this] have "bb j' = n" using ne csj n \<open>bb i' = bb j1\<close> by simp
          then have "j mod 2 ^ n = i0"
            using \<open>i' mod 2 ^ bb j' = j' mod 2 ^ bb j'\<close> mm [OF nd, of i] mm [OF nd, of j] True by (simp add: i'_def j'_def)
          then show False using False by simp
        qed
        moreover have "set (cs' i) \<inter> set (cs' j) = {}"
        proof -
          have "set (cs' i) \<subseteq> set ah \<union> set al" using True by (auto simp: cs')
          then show ?thesis using new old [of _ j] unfolding csj(1) j'_def by fastforce
        qed
        ultimately show ?thesis unfolding csj(2) iff by simp
      next
        case iout: False
        have "cs' i = cs i'" using iout by (simp add: cs' i'_def)
        then show ?thesis
          using shape_pair [OF sh ij] ne dir'(2) [OF i] dir'(2) [OF j] False iout
          unfolding csj iff i'_def [symmetric] j'_def [symmetric] by simp
      qed
    qed
  qed
qed

lemma inserting_one_simps [simp]:
  "HASHTABLE_DIRECTORY (inserting_one t) = HASHTABLE_DIRECTORY t"
  "HASHTABLE_DIR_BITS (inserting_one t) = HASHTABLE_DIR_BITS t" "dir_size (inserting_one t) = dir_size t"
  by (simp_all add: inserting_one_def dir_size_def)

lemma removing_one_simps [simp]:
  "HASHTABLE_DIRECTORY (removing_one t) = HASHTABLE_DIRECTORY t"
  "HASHTABLE_DIR_BITS (removing_one t) = HASHTABLE_DIR_BITS t" "dir_size (removing_one t) = dir_size t"
  by (simp_all add: removing_one_def dir_size_def)

lemma shape_count:
  assumes "HASHTABLE_DIRECTORY t' = HASHTABLE_DIRECTORY t" "HASHTABLE_DIR_BITS t' = HASHTABLE_DIR_BITS t"
  shows "shape hp t' cs bb = shape hp t cs bb" "placed kh valid hp t' cs bb = placed kh valid hp t cs bb"
    "unique_keys same hp t' cs = unique_keys same hp t cs" "assocs kh valid hp t' cs = assocs kh valid hp t cs"
  using assms by (simp_all add: shape_def slot_ok_def sharing_def placed_def unique_keys_def assocs_def dir_size_def)

lemma split_bucket_chain:
  assumes sh: "shape hp t cs bb" and j1: "j1 = hidx (fst e) mod dir_size t" "cs j1 \<noteq> []"
    and room: "HASHTABLE_DIR_BITS t < 29"
  shows "\<exists>hp' t' cs' bb'. split_bucket hp t (HASHTABLE_DIRECTORY t ! j1) e = Some (hp', t') \<and> shape hp' t' cs' bb' \<and>
    HASHTABLE_COUNT t' = HASHTABLE_COUNT t \<and> HASHTABLE_DIR_BITS t' \<le> HASHTABLE_DIR_BITS t + 1 \<and> bb j1 < HASHTABLE_DIR_BITS t' \<and>
    dir_size t dvd dir_size t' \<and> length hp \<le> length hp' \<and> (\<forall>a < length hp. hp' ! a = hp ! a) \<and>
    (\<forall>j < dir_size t'. if j mod 2 ^ bb j1 = j1 mod 2 ^ bb j1
       then bb' j = bb j1 + 1 \<and> (\<forall>a \<in> set (cs' j). length hp \<le> a) \<and>
         (\<exists>r. ents hp' (cs' j) = split_part (bb j1) j (e # ents hp (cs j1)) @ replicate r empty_entry)
       else cs' j = cs (j mod dir_size t) \<and> bb' j = bb (j mod dir_size t))"
proof -
  define n where "n = bb j1"
  define d where "d = HASHTABLE_DIR_BITS t"
  define d' where "d' = (if d = n then d + 1 else d)"
  define vec where "vec = (if d = n then HASHTABLE_DIRECTORY t @ HASHTABLE_DIRECTORY t else HASHTABLE_DIRECTORY t)"
  define m where "m = split_mask n"
  have N: "j1 < dir_size t" by (simp add: j1(1) dir_size_def)
  have nd: "n \<le> d" using shape_chain(6) [OF sh N j1(2)] by (simp add: n_def d_def)
  have n29: "n \<le> 29" "n < d'" "d' \<le> 29" "d \<le> d'" using nd room by (auto simp: d_def d'_def)
  have ch: "chain hp (HASHTABLE_DIRECTORY t ! j1) (cs j1)" by (rule shape_chain(1) [OF sh N])
  then obtain a where a: "HASHTABLE_DIRECTORY t ! j1 = Some a" "a \<in> set (cs j1)"
    using j1(2) by (cases "cs j1") auto
  have ba: "BUCKET_BITS (hp ! a) = n" using shape_chain(5) [OF sh N a(2)] by (simp add: n_def)
  have s0: "splitting hp (n + 1) (hp, init_chain (n + 1), init_chain (n + 1)) [] []"
    by (simp add: splitting_def init_chain_def building_def exI [of _ "[]"])
  obtain hp' hi lo where sl: "split_loop m (HASHTABLE_DIRECTORY t ! j1) (split_entry m e (hp, init_chain (n + 1), init_chain (n + 1)))
      = Some (hp', hi, lo)"
    and sp: "splitting hp (n + 1) (hp', hi, lo) (filter (\<lambda>e. fst e AND m \<noteq> 0) (e # ents hp (cs j1)))
      (filter (\<lambda>e. fst e AND m = 0) (e # ents hp (cs j1)))"
    using splitting_loop [OF ch splitting_entry [OF s0, of m e], of m] by (cases "fst e AND m = 0") auto
  obtain ah al where b: "bits hi = n + 1" "bits lo = n + 1" "length hp \<le> length hp'" "\<And>a. a < length hp \<Longrightarrow> hp' ! a = hp ! a"
    "building hp' (length hp) hi ah (filter (\<lambda>e. fst e AND m \<noteq> 0) (e # ents hp (cs j1)))"
    "building hp' (length hp) lo al (filter (\<lambda>e. fst e AND m = 0) (e # ents hp (cs j1)))" "set ah \<inter> set al = {}"
    using sp by (auto simp: splitting_def)
  define i0 where "i0 = j1 mod 2 ^ n"
  have i0: "unat (fx2int (fst e) AND (2 ^ n - 1)) = i0"
    using split_index [OF n29(1)] nd by (simp add: i0_def j1(1) dir_size_def d_def mod_mod_cancel le_imp_power_dvd)
  define dir where "dir = install_loop (2 ^ (d' - (n + 1))) i0 (2 ^ n) vec (first_bucket lo) (first_bucket hi)"
  define t' where "t' = t\<lparr>HASHTABLE_DIRECTORY := dir, HASHTABLE_DIR_BITS := d'\<rparr>"
  have res: "split_bucket hp t (HASHTABLE_DIRECTORY t ! j1) e = Some (hp', t')"
    using sl room unfolding split_bucket_def a(1)
    by (simp add: Let_def ba m_def i0 t'_def dir_def vec_def d'_def d_def [symmetric])
  have lv: "length vec = 2 ^ d'"
    using sh by (simp add: vec_def d'_def shape_def dir_size_def d_def)
  have vn: "vec ! j = HASHTABLE_DIRECTORY t ! (j mod dir_size t)" if "j < 2 ^ d'" for j
  proof -
    have l: "length (HASHTABLE_DIRECTORY t) = dir_size t" "dir_size t = 2 ^ d" using sh by (simp_all add: shape_def dir_size_def d_def)
    show ?thesis
    proof (cases "j < dir_size t")
      case True
      then show ?thesis using l by (auto simp: vec_def nth_append)
    next
      case False
      then have "d = n" using that l by (simp add: d'_def split: if_splits)
      moreover have "j - dir_size t < dir_size t" using that False l \<open>d = n\<close> by (simp add: d'_def)
      ultimately show ?thesis using False l by (simp add: vec_def nth_append mod_if [of j])
    qed
  qed
  have dn: "dir_size t' = 2 ^ d'" by (simp add: t'_def dir_size_def)
  define cs' where "cs' = (\<lambda>j. if j mod 2 ^ n = i0 then if odd (j div 2 ^ n) then ah else al else cs (j mod dir_size t))"
  define bb' where "bb' = (\<lambda>j. if j mod 2 ^ n = i0 then n + 1 else bb (j mod dir_size t))"
  have sh': "shape hp' t' cs' bb'"
  proof (rule shape_split [OF sh N j1(2) n_def i0_def _ _ _ _ _ b cs'_def bb'_def])
    show "n < HASHTABLE_DIR_BITS t'" "HASHTABLE_DIR_BITS t' \<le> 29" "HASHTABLE_DIR_BITS t \<le> HASHTABLE_DIR_BITS t'"
      using n29 by (simp_all add: t'_def d_def)
    show "length (HASHTABLE_DIRECTORY t') = dir_size t'" using lv by (simp add: dn) (simp add: t'_def dir_def)
    fix j assume "j < dir_size t'"
    then show "HASHTABLE_DIRECTORY t' ! j =
        (if j mod 2 ^ n = i0 then if odd (j div 2 ^ n) then first_bucket hi else first_bucket lo
         else HASHTABLE_DIRECTORY t ! (j mod dir_size t))"
      using install_split [OF lv n29(2), of j i0] vn [of j] by (simp add: dn) (simp add: t'_def dir_def i0_def)
  qed
  have part: "filter (\<lambda>e. fst e AND m \<noteq> 0) es = split_part n j es" if "odd (j div 2 ^ n)" for j es
    using that split_mask_bit [OF n29(1)] by (simp add: split_part_def m_def)
  have part': "filter (\<lambda>e. fst e AND m = 0) es = split_part n j es" if "\<not> odd (j div 2 ^ n)" for j es
  proof -
    have "fst e AND m = 0 \<longleftrightarrow> even (hidx (fst e) div 2 ^ n)" for e :: entry
      using split_mask_bit [OF n29(1), of "fst e"] by (auto simp: m_def)
    then show ?thesis using that by (simp add: split_part_def)
  qed
  have grp: "bb' j = n + 1 \<and> (\<forall>a \<in> set (cs' j). length hp \<le> a) \<and>
      (\<exists>r. ents hp' (cs' j) = split_part n j (e # ents hp (cs j1)) @ replicate r empty_entry)" if "j mod 2 ^ n = i0" for j
  proof (cases "odd (j div 2 ^ n)")
    case True
    have "ents hp' ah = split_part n j (e # ents hp (cs j1)) @ replicate (BUCKET_CAPACITY - index hi) empty_entry"
      using b(5) unfolding part [OF True] building_def by blast
    then show ?thesis using that True building_bound [OF b(5)] by (auto simp: cs'_def bb'_def)
  next
    case False
    have "ents hp' al = split_part n j (e # ents hp (cs j1)) @ replicate (BUCKET_CAPACITY - index lo) empty_entry"
      using b(6) unfolding part' [OF False] building_def by blast
    then show ?thesis using that False building_bound [OF b(6)] by (auto simp: cs'_def bb'_def)
  qed
  have dv: "dir_size t dvd dir_size t'" using n29(4) by (simp add: dir_size_def t'_def d_def le_imp_power_dvd)
  have d1: "HASHTABLE_DIR_BITS t' \<le> HASHTABLE_DIR_BITS t + 1" "n < HASHTABLE_DIR_BITS t'" using n29 by (simp_all add: t'_def d'_def d_def)
  have cnt: "HASHTABLE_COUNT t' = HASHTABLE_COUNT t" by (simp add: t'_def)
  show ?thesis
    unfolding n_def [symmetric] i0_def [symmetric]
    using res sh' cnt d1 dv b(3,4) grp by (intro exI conjI) (auto simp: cs'_def bb'_def)
qed

end
