(* ===== verification/HashOps.thy ===== *)
theory HashOps
  imports HashSplit
begin

text \<open>
  The operations of hash tables as operations on sets of associations.  The locale
  \<open>key_contract\<close> is what they rely on: a hash function whose values are fixnums, an equivalence of keys that
  respects it, and a comparison that decides the equivalence and never takes a free slot for a key.  It is
  interpreted for the object, string and case-insensitive string tables.
\<close>

text \<open>The value \<open>r\<close> that \<open>S\<close> associates with \<open>k\<close>, \<^verbatim>\<open>#f\<close> when there is none, and what is left of \<open>S\<close>
  without that association.\<close>

definition takes :: "(u32 \<Rightarrow> u32 \<Rightarrow> bool) \<Rightarrow> (u32 \<times> u32) set \<Rightarrow> u32 \<Rightarrow> u32 \<Rightarrow> (u32 \<times> u32) set \<Rightarrow> bool" where
  "takes same S k r S0 \<longleftrightarrow>
     (\<exists>k'. (k', r) \<in> S \<and> same k k' \<and> S0 = S - {(k', r)}) \<or>
     (r = FALSE_OBJ \<and> (\<forall>(k', v) \<in> S. \<not> same k k') \<and> S0 = S)"

text \<open>The buckets of \<open>hp\<close> outside of \<open>F\<close> are as they were; new ones come at the end.\<close>

definition frame :: "heap \<Rightarrow> nat set \<Rightarrow> heap \<Rightarrow> nat set \<Rightarrow> bool" where
  "frame hp F hp' F' \<longleftrightarrow> length hp \<le> length hp' \<and> (\<forall>a < length hp. a \<notin> F \<longrightarrow> hp' ! a = hp ! a) \<and> F' \<subseteq> F \<union> {length hp..}"

lemma int2fx_SUB1: "int2fx (x - 1) = SUB1 (int2fx x)"
  by (simp add: int2fx_def SUB1_def push_bit_eq_mult algebra_simps)

lemma int2fx_ADD1: "int2fx (1 + x) = ADD1 (int2fx x)"
  by (simp add: int2fx_def ADD1_def push_bit_eq_mult algebra_simps)

lemma finite_assocs: "finite (assocs kh valid hp t cs)"
proof -
  have "assocs kh valid hp t cs \<subseteq> snd ` (\<Union>j < dir_size t. set (ents hp (cs j)))"
    by (force simp: assocs_def dir_size_def)
  then show ?thesis by (rule finite_subset) simp
qed

lemma apart_unique:
  assumes "apart same es" "x \<in> set es" "y \<in> set es" "live x" "live y" "same (fst (snd x)) (fst (snd y))" "same (fst (snd y)) (fst (snd x))"
  shows "x = y"
  using assms
proof (induction es)
  case (Cons e es)
  have a: "apart same es" "live e \<Longrightarrow> z \<in> set es \<Longrightarrow> live z \<Longrightarrow> \<not> same (fst (snd e)) (fst (snd z))" for z
    using Cons.prems(1) by (auto simp: apart_def split: if_splits simp del: split_paired_All)
  then show ?case using Cons.IH [OF a(1)] Cons.prems by (metis set_ConsD)
qed simp

section \<open>The contract of a kind of table, and its operations\<close>

locale key_contract =
  fixes kh :: "u32 \<Rightarrow> u32" and valid :: "u32 \<Rightarrow> bool" and same :: "u32 \<Rightarrow> u32 \<Rightarrow> bool" and cmp :: key_cmp
  assumes kh_fixnum: "valid k \<Longrightarrow> FIXNUM_P (kh k)"
    and cmp_same: "valid k \<Longrightarrow> valid k' \<Longrightarrow> cmp (kh k) (kh k') k k' \<longleftrightarrow> same k k'"
    and cmp_free: "valid k \<Longrightarrow> \<not> cmp (kh k) FALSE_OBJ k FALSE_OBJ"
    and same_refl: "valid k \<Longrightarrow> same k k"
    and same_sym: "valid k \<Longrightarrow> valid k' \<Longrightarrow> same k k' \<Longrightarrow> same k' k"
    and same_trans: "valid k \<Longrightarrow> valid k' \<Longrightarrow> valid k'' \<Longrightarrow> same k k' \<Longrightarrow> same k' k'' \<Longrightarrow> same k k''"
    and same_hash: "valid k \<Longrightarrow> valid k' \<Longrightarrow> same k k' \<Longrightarrow> kh k = kh k'"
begin

lemma kh_live: "valid k \<Longrightarrow> live (kh k, k, v)"
  using fixnum_not_false [OF kh_fixnum] by (simp add: live_def)

lemma entry_cases:
  assumes "placed kh valid hp t cs bb" "j < dir_size t" "e \<in> set (ents hp (cs j))"
  obtains (free) "e = empty_entry" "\<not> live e"
    | (used) k v where "e = (kh k, k, v)" "valid k" "hidx (kh k) mod 2 ^ bb j = j mod 2 ^ bb j" "live e"
proof -
  obtain h k v where e: "e = (h, k, v)" by (cases e)
  show ?thesis using placedD [OF assms(1,2), of h k v] assms(3) e free used
    by (cases "h = FALSE_OBJ") (auto simp: live_def empty_entry_def)
qed

lemma apart_insert:
  "apart same (xs @ e # ys) \<longleftrightarrow> apart same (xs @ ys) \<and>
     (live e \<longrightarrow> (\<forall>x \<in> set xs. live x \<longrightarrow> \<not> same (fst (snd x)) (fst (snd e))) \<and>
                 (\<forall>y \<in> set ys. live y \<longrightarrow> \<not> same (fst (snd e)) (fst (snd y))))"
  by (cases "live e"; simp add: apart_def sorted_wrt_append del: split_paired_All; blast)

lemma write_rep:
  assumes sh: "shape hp t cs bb" and pl: "placed kh valid hp t cs bb" and un: "unique_keys same hp t cs"
    and j0: "j0 < dir_size t" "a \<in> set (cs j0)" "i < length (SLOTS (hp ! a))"
    and e: "e = empty_entry \<or> (\<exists>k v. e = (kh k, k, v) \<and> valid k \<and> hidx (kh k) mod 2 ^ bb j0 = j0 mod 2 ^ bb j0 \<and>
      (\<forall>x \<in> set (ents (write_slot hp a i empty_entry) (cs j0)). live x \<longrightarrow> \<not> same k (fst (snd x))))"
  shows "shape (write_slot hp a i e) t cs bb \<and> placed kh valid (write_slot hp a i e) t cs bb \<and>
    unique_keys same (write_slot hp a i e) t cs \<and>
    assocs kh valid (write_slot hp a i e) t cs =
      assocs kh valid hp t cs - {(k, v). valid k \<and> (kh k, k, v) = SLOTS (hp ! a) ! i} \<union> {(k, v). valid k \<and> (kh k, k, v) = e}"
proof -
  let ?hp = "write_slot hp a i e" and ?old = "SLOTS (hp ! a) ! i"
  have al: "a < length hp" and dis: "distinct (cs j0)" using shape_chain [OF sh j0(1)] j0(2) by auto
  obtain xs ys where x: "ents hp (cs j0) = xs @ ?old # ys" and w: "\<And>e. ents (write_slot hp a i e) (cs j0) = xs @ e # ys"
    using ents_split [OF j0(2) dis al j0(3)] by blast
  have other: "ents ?hp (cs j) = ents hp (cs j)" if "j < dir_size t" "cs j \<noteq> cs j0" for j
    using shape_meet(2) [OF sh that(1) j0(1) _ j0(2)] that al by (intro ents_write_other) auto
  have bbj: "bb j = bb j0 \<and> j mod 2 ^ bb j0 = j0 mod 2 ^ bb j0" if "j < dir_size t" "cs j = cs j0" for j
  proof -
    have "a \<in> set (cs j)" using that(2) j0(2) by simp
    from shape_meet(1,3) [OF sh that(1) j0(1) this j0(2)] show ?thesis by (rule conjI [rotated])
  qed
  have ne: "\<not> live empty_entry" by (simp add: live_def empty_entry_def)
  have exy: "(\<forall>x \<in> set xs \<union> set ys. live x \<longrightarrow> \<not> same k (fst (snd x))) \<and> valid k \<and> hidx (kh k) mod 2 ^ bb j0 = j0 mod 2 ^ bb j0"
    if "e = (kh k, k, v)" "live e" for k v
  proof -
    have "e \<noteq> empty_entry" using ne that(2) by metis
    then obtain k' v' where k': "e = (kh k', k', v')" "valid k'" "hidx (kh k') mod 2 ^ bb j0 = j0 mod 2 ^ bb j0"
      "\<forall>x \<in> set (xs @ empty_entry # ys). live x \<longrightarrow> \<not> same k' (fst (snd x))"
      using e unfolding w by blast
    then have "k' = k" using that(1) by simp
    then show ?thesis using k' by (simp add: ball_Un)
  qed
  have uv: "(\<exists>k v. u = (kh k, k, v) \<and> valid k) \<or> \<not> live u" if "u \<in> set (xs @ ?old # ys)" for u
    using that x by (cases rule: entry_cases [OF pl j0(1), of u]) auto
  have ap: "apart same (xs @ e # ys)"
  proof -
    have "apart same (xs @ ys)" using un j0(1) x by (auto simp: unique_keys_def apart_insert)
    moreover have "\<not> same (fst (snd x)) k" if "x \<in> set xs" "live x" "e = (kh k, k, v)" "live e" for x k v
    proof -
      note a = that
      have k: "\<not> same k (fst (snd x))" "valid k" using exy [OF a(3,4)] a(1,2) by blast+
      moreover obtain k' v' where "x = (kh k', k', v')" "valid k'" using uv [of x] a(1,2) by auto
      ultimately show ?thesis using same_sym [of k' k] by auto
    qed
    ultimately show ?thesis
    proof (cases "live e")
      case True
      then have "e \<noteq> empty_entry" using ne by metis
      then obtain k v where k: "e = (kh k, k, v)" using e by blast
      show ?thesis using exy [OF k True] \<open>apart same (xs @ ys)\<close>
          \<open>\<And>x k v. x \<in> set xs \<Longrightarrow> live x \<Longrightarrow> e = (kh k, k, v) \<Longrightarrow> live e \<Longrightarrow> \<not> same (fst (snd x)) k\<close> [OF _ _ k True]
        unfolding apart_insert k fst_conv snd_conv by blast
    qed (simp add: apart_insert)
  qed
  have once: "?old \<notin> set (xs @ ys)" if "live ?old"
  proof -
    note l = that
    obtain k v where o: "?old = (kh k, k, v)" "valid k" using uv [of ?old] l by auto
    have "apart same (xs @ ?old # ys)" using un j0(1) x by (auto simp: unique_keys_def)
    then show ?thesis using l o same_refl [OF o(2)] by (auto simp: apart_insert)
  qed
  have at: "cs (hidx (kh k) mod dir_size t) = cs j0" if "hidx (kh k) mod 2 ^ bb j0 = j0 mod 2 ^ bb j0" for k
  proof -
    have "cs j0 \<noteq> []" using j0(2) by (metis empty_iff empty_set)
    then show ?thesis by (rule shape_same_slot [OF sh j0(1) _ that])
  qed
  have pl': "placed kh valid ?hp t cs bb"
    unfolding placed_def
  proof (intro allI impI ballI)
    fix j u assume j: "j < dir_size t" and u: "u \<in> set (ents ?hp (cs j))"
    show "case u of (h, k, v) \<Rightarrow> if h = FALSE_OBJ then k = FALSE_OBJ \<and> v = FALSE_OBJ
        else valid k \<and> h = kh k \<and> hidx h mod 2 ^ bb j = j mod 2 ^ bb j"
    proof (cases "u \<in> set (ents hp (cs j))")
      case True
      then obtain h k v where h: "u = (h, k, v)" "(h, k, v) \<in> set (ents hp (cs j))" by (metis prod_cases3)
      show ?thesis unfolding h(1) prod.case by (rule placedD [OF pl j h(2)])
    next
      case False
      then have "cs j = cs j0" using other [OF j] u by metis
      then have b: "bb j = bb j0" "j0 mod 2 ^ bb j0 = j mod 2 ^ bb j0" and "u = e"
        using bbj [OF j] False u w x by auto
      show ?thesis
      proof (cases "e = empty_entry")
        case True
        then show ?thesis by (simp add: \<open>u = e\<close> empty_entry_def)
      next
        case False
        then obtain k v where k: "e = (kh k, k, v)" "valid k" "hidx (kh k) mod 2 ^ bb j0 = j0 mod 2 ^ bb j0" using e by blast
        then have "kh k \<noteq> FALSE_OBJ" using kh_live [of k v] by (simp add: live_def)
        then show ?thesis using k b by (simp add: \<open>u = e\<close>)
      qed
    qed
  qed
  have un': "unique_keys same ?hp t cs"
    unfolding unique_keys_def using un ap other w by (metis unique_keys_def)
  have "(k, v) \<in> assocs kh valid ?hp t cs \<longleftrightarrow>
      (k, v) \<in> assocs kh valid hp t cs - {(k, v). valid k \<and> (kh k, k, v) = ?old} \<union> {(k, v). valid k \<and> (kh k, k, v) = e}" for k v
  proof (cases "valid k")
    case True
    let ?j = "hidx (kh k) mod dir_size t"
    have j: "?j < dir_size t" by (simp add: dir_size_def)
    note lv = kh_live [OF True, of v]
    show ?thesis
    proof (cases "cs ?j = cs j0")
      case same: True
      have "(kh k, k, v) \<in> set (xs @ e # ys) \<longleftrightarrow> (kh k, k, v) \<in> set (xs @ ?old # ys) \<and> (kh k, k, v) \<noteq> ?old \<or> (kh k, k, v) = e"
        using once lv by auto
      then show ?thesis using True same x w [of e] by (auto simp: assocs_def)
    next
      case diff: False
      have "(kh k, k, v) \<noteq> e" using exy [of k v] lv at [of k] diff by auto
      moreover have "(kh k, k, v) \<noteq> ?old"
      proof
        assume o: "(kh k, k, v) = ?old"
        have "?old \<in> set (ents hp (cs j0))" using x by simp
        then have "hidx (kh k) mod 2 ^ bb j0 = j0 mod 2 ^ bb j0"
          using placedD [OF pl j0(1), of "kh k" k v] lv unfolding o [symmetric] live_def fst_conv by simp
        then show False using at diff by blast
      qed
      ultimately show ?thesis using True other [OF j diff] by (auto simp: assocs_def)
    qed
  qed (simp add: assocs_def)
  then show ?thesis using shape_write [OF sh al] pl' un' by auto
qed

text \<open>The two ways in which a table gets an entry in a new bucket.\<close>

lemma apart_filter: "apart same es \<Longrightarrow> apart same (filter P es @ replicate r empty_entry)"
proof -
  assume "apart same es"
  then have "sorted_wrt (\<lambda>x y. \<not> same (fst (snd x)) (fst (snd y))) (filter P (filter live es))"
    unfolding apart_def by (rule sorted_wrt_filter)
  moreover have "filter live (replicate r empty_entry) = []" by (simp add: live_def empty_entry_def)
  ultimately show ?thesis by (simp add: apart_def conj_commute)
qed

lemma split_rep_chain:
  assumes sh: "shape hp t cs bb" and pl: "placed kh valid hp t cs bb" and un: "unique_keys same hp t cs"
    and k: "valid k" "e = (kh k, k, v)" "j1 = hidx (kh k) mod dir_size t" "cs j1 \<noteq> []"
    and fresh: "\<forall>x \<in> set (ents hp (cs j1)). live x \<longrightarrow> \<not> same k (fst (snd x))"
    and room: "HASHTABLE_DIR_BITS t < 29"
  shows "\<exists>hp' t' cs' bb'. split_bucket hp t (HASHTABLE_DIRECTORY t ! j1) e = Some (hp', t') \<and> shape hp' t' cs' bb' \<and>
    placed kh valid hp' t' cs' bb' \<and> unique_keys same hp' t' cs' \<and> assocs kh valid hp' t' cs' = insert (k, v) (assocs kh valid hp t cs) \<and>
    HASHTABLE_COUNT t' = HASHTABLE_COUNT t \<and> length hp \<le> length hp' \<and> (\<forall>a < length hp. hp' ! a = hp ! a) \<and>
    footprint t' cs' \<subseteq> footprint t cs \<union> {length hp..} \<and> HASHTABLE_DIR_BITS t' \<le> HASHTABLE_DIR_BITS t + 1"
proof -
  let ?n = "bb j1"
  have N: "j mod dir_size t < dir_size t" for j by (simp add: dir_size_def)
  have j1N: "j1 < dir_size t" using k(3) N by simp
  have "fst e = kh k" by (simp add: k(2))
  then obtain hp' t' cs' bb' where S: "split_bucket hp t (HASHTABLE_DIRECTORY t ! j1) e = Some (hp', t')"
    and sh': "shape hp' t' cs' bb'" and cnt: "HASHTABLE_COUNT t' = HASHTABLE_COUNT t"
    and db: "HASHTABLE_DIR_BITS t' \<le> HASHTABLE_DIR_BITS t + 1" and nb: "?n < HASHTABLE_DIR_BITS t'" and dv: "dir_size t dvd dir_size t'"
    and len: "length hp \<le> length hp'" and fr: "\<forall>a < length hp. hp' ! a = hp ! a"
    and J: "\<forall>j < dir_size t'. if j mod 2 ^ ?n = j1 mod 2 ^ ?n
       then bb' j = ?n + 1 \<and> (\<forall>a \<in> set (cs' j). length hp \<le> a) \<and>
         (\<exists>r. ents hp' (cs' j) = split_part ?n j (e # ents hp (cs j1)) @ replicate r empty_entry)
       else cs' j = cs (j mod dir_size t) \<and> bb' j = bb (j mod dir_size t)"
    using split_bucket_chain [OF sh, of j1 e] k(3,4) room by metis
  have grp: "bb' j = ?n + 1" "\<And>a. a \<in> set (cs' j) \<Longrightarrow> length hp \<le> a"
    "\<exists>r. ents hp' (cs' j) = split_part ?n j (e # ents hp (cs j1)) @ replicate r empty_entry"
    if "j < dir_size t'" "j mod 2 ^ ?n = j1 mod 2 ^ ?n" for j
    using J that by metis+
  have old: "cs' j = cs (j mod dir_size t)" "bb' j = bb (j mod dir_size t)"
    if "j < dir_size t'" "j mod 2 ^ ?n \<noteq> j1 mod 2 ^ ?n" for j
    using J that by metis+
  have eold: "ents hp' (cs' j) = ents hp (cs (j mod dir_size t))" if "j < dir_size t'" "j mod 2 ^ ?n \<noteq> j1 mod 2 ^ ?n" for j
    unfolding old(1) [OF that] using shape_chain(3) [OF sh N] fr by (intro ents_cong) simp
  have nd: "?n \<le> HASHTABLE_DIR_BITS t" by (rule shape_chain(6) [OF sh j1N k(4)])
  have dd: "2 ^ ?n dvd dir_size t" using nd by (simp add: dir_size_def le_imp_power_dvd)
  have mm: "x mod dir_size t mod 2 ^ ?n = x mod 2 ^ ?n" "x mod dir_size t' mod 2 ^ ?n = x mod 2 ^ ?n" for x
    using dd dv by (simp_all add: mod_mod_cancel dvd_trans [OF dd dv])
  have jk: "j1 mod 2 ^ ?n = hidx (kh k) mod 2 ^ ?n" using mm(1) k(3) by simp
  have nl: "\<not> live empty_entry" by (simp add: live_def empty_entry_def)
  have pl': "placed kh valid hp' t' cs' bb'"
    unfolding placed_def
  proof (intro allI impI ballI)
    fix j u assume j: "j < dir_size t'" and u: "u \<in> set (ents hp' (cs' j))"
    obtain h' k' v' where u': "u = (h', k', v')" by (cases u)
    have "if h' = FALSE_OBJ then k' = FALSE_OBJ \<and> v' = FALSE_OBJ
        else valid k' \<and> h' = kh k' \<and> hidx h' mod 2 ^ bb' j = j mod 2 ^ bb' j"
    proof (cases "j mod 2 ^ ?n = j1 mod 2 ^ ?n")
      case True
      from grp(3) [OF j True] u have "u = empty_entry \<or> u \<in> set (split_part ?n j (e # ents hp (cs j1)))" by auto
      then consider "u = empty_entry" | "u = e" "odd (hidx h' div 2 ^ ?n) \<longleftrightarrow> odd (j div 2 ^ ?n)"
        | "u \<in> set (ents hp (cs j1))" "odd (hidx h' div 2 ^ ?n) \<longleftrightarrow> odd (j div 2 ^ ?n)"
        by (auto simp: split_part_def u' split: if_splits)
      then show ?thesis
      proof cases
        case 1
        then show ?thesis by (simp add: u' empty_entry_def)
      next
        case 2
        have "kh k \<noteq> FALSE_OBJ" using kh_live [OF k(1)] by (simp add: live_def)
        moreover have "h' = kh k" "k' = k" using 2(1) by (simp_all add: u' k(2))
        moreover from this have "hidx h' mod 2 ^ Suc ?n = j mod 2 ^ Suc ?n" using 2(2) True jk unfolding mod_Suc_power by simp
        ultimately show ?thesis using k(1) grp(1) [OF j True] by simp
      next
        case 3
        note p = placedD [OF pl j1N, of h' k' v']
        have "hidx h' mod 2 ^ Suc ?n = j mod 2 ^ Suc ?n" if "h' \<noteq> FALSE_OBJ"
        proof -
          have "hidx h' mod 2 ^ ?n = j1 mod 2 ^ ?n" using p [OF 3(1) [unfolded u']] that by argo
          then show ?thesis unfolding mod_Suc_power using 3(2) True by argo
        qed
        then show ?thesis using p 3(1) grp(1) [OF j True] by (simp add: u')
      qed
    next
      case False
      then show ?thesis
      proof -
        let ?j = "j mod dir_size t"
        have "u \<in> set (ents hp (cs ?j))" using u eold [OF j False] by simp
        moreover have "cs ?j \<noteq> []" using calculation by auto
        then have "bb ?j \<le> HASHTABLE_DIR_BITS t" by (rule shape_chain(6) [OF sh N])
        then have "?j mod 2 ^ bb ?j = j mod 2 ^ bb ?j" by (simp add: dir_size_def mod_mod_cancel le_imp_power_dvd)
        ultimately show ?thesis using placedD [OF pl N, of h' k' v' j] old(2) [OF j False] by (simp add: u')
      qed
    qed
    then show "case u of (h, k, v) \<Rightarrow> if h = FALSE_OBJ then k = FALSE_OBJ \<and> v = FALSE_OBJ
        else valid k \<and> h = kh k \<and> hidx h mod 2 ^ bb' j = j mod 2 ^ bb' j" by (simp add: u')
  qed
  have "apart same (ents hp (cs j1))" using un j1N by (simp add: unique_keys_def)
  then have ap: "apart same (e # ents hp (cs j1))" using apart_insert [of "[]" e] fresh by (simp add: k(2))
  have un': "unique_keys same hp' t' cs'"
    unfolding unique_keys_def
  proof (intro allI impI)
    fix j assume j: "j < dir_size t'"
    show "apart same (ents hp' (cs' j))"
    proof (cases "j mod 2 ^ ?n = j1 mod 2 ^ ?n")
      case True
      then show ?thesis using grp(3) [OF j True] apart_filter [OF ap] unfolding split_part_def by metis
    next
      case False
      then show ?thesis using un N eold [OF j] by (simp add: unique_keys_def)
    qed
  qed
  have as': "(k', v') \<in> assocs kh valid hp' t' cs' \<longleftrightarrow> (k', v') \<in> insert (k, v) (assocs kh valid hp t cs)" for k' v'
  proof (cases "valid k'")
    case True
    let ?j = "hidx (kh k') mod dir_size t'"
    have j: "?j < dir_size t'" by (simp add: dir_size_def)
    note lv = kh_live [OF True, of v']
    show ?thesis
    proof (cases "?j mod 2 ^ ?n = j1 mod 2 ^ ?n")
      case g: True
      obtain r where r: "ents hp' (cs' ?j) = split_part ?n ?j (e # ents hp (cs j1)) @ replicate r empty_entry"
        using grp(3) [OF j g] by blast
      have "cs (hidx (kh k') mod dir_size t) = cs j1"
        using shape_same_slot [OF sh j1N k(4)] g mm(2) by simp
      moreover have "odd (hidx (kh k') div 2 ^ ?n) \<longleftrightarrow> odd (?j div 2 ^ ?n)"
      proof -
        have "2 ^ Suc ?n dvd dir_size t'" unfolding dir_size_def using nb by (intro le_imp_power_dvd) simp
        then have "hidx (kh k') mod 2 ^ Suc ?n = ?j mod 2 ^ Suc ?n" by (rule mod_mod_cancel [symmetric])
        then show ?thesis unfolding mod_Suc_power by simp
      qed
      moreover have "(kh k', k', v') \<noteq> empty_entry" using lv nl by metis
      ultimately have "(kh k', k', v') \<in> set (ents hp' (cs' ?j)) \<longleftrightarrow>
          (kh k', k', v') = e \<or> (kh k', k', v') \<in> set (ents hp (cs (hidx (kh k') mod dir_size t)))"
        by (auto simp: r split_part_def split: if_splits)
      then show ?thesis using True by (auto simp: assocs_def k(2))
    next
      case g: False
      have "(k', v') \<noteq> (k, v)" using g jk mm(2) by auto
      moreover have "?j mod dir_size t = hidx (kh k') mod dir_size t" using dv by (rule mod_mod_cancel)
      ultimately show ?thesis using eold [OF j g] by (auto simp: assocs_def)
    qed
  qed (use k in \<open>auto simp: assocs_def\<close>)
  have fp: "footprint t' cs' \<subseteq> footprint t cs \<union> {length hp..}"
  proof
    fix a assume "a \<in> footprint t' cs'"
    then obtain j where j: "j < dir_size t'" "a \<in> set (cs' j)" by (auto simp: footprint_def)
    then show "a \<in> footprint t cs \<union> {length hp..}"
      using grp(2) [OF j(1)] old(1) [OF j(1)] N [of j] by (cases "j mod 2 ^ ?n = j1 mod 2 ^ ?n") (auto simp: footprint_def)
  qed
  show ?thesis using S sh' pl' un' as' cnt len fr fp db by (intro exI conjI) auto
qed

lemma split_rep_empty:
  assumes sh: "shape hp t cs bb" and pl: "placed kh valid hp t cs bb" and un: "unique_keys same hp t cs"
    and k: "valid k" "e = (kh k, k, v)" "j1 = hidx (kh k) mod dir_size t" "cs j1 = []"
  shows "\<exists>hp' t' cs' bb'. split_bucket hp t (HASHTABLE_DIRECTORY t ! j1) e = Some (hp', t') \<and> shape hp' t' cs' bb' \<and>
    placed kh valid hp' t' cs' bb' \<and> unique_keys same hp' t' cs' \<and> assocs kh valid hp' t' cs' = insert (k, v) (assocs kh valid hp t cs) \<and>
    HASHTABLE_COUNT t' = HASHTABLE_COUNT t \<and> length hp \<le> length hp' \<and> (\<forall>a < length hp. hp' ! a = hp ! a) \<and>
    footprint t' cs' \<subseteq> footprint t cs \<union> {length hp..} \<and> HASHTABLE_DIR_BITS t' \<le> HASHTABLE_DIR_BITS t + 1"
proof -
  define n where "n = length hp"
  define d where "d = HASHTABLE_DIR_BITS t"
  define b where "b = \<lparr>BUCKET_BITS = d, BUCKET_OVERFLOW = None, SLOTS = e # replicate (BUCKET_CAPACITY - 1) empty_entry\<rparr>"
  define hp' where "hp' = hp @ [b]"
  define t' where "t' = t\<lparr>HASHTABLE_DIRECTORY := (HASHTABLE_DIRECTORY t)[j1 := Some n]\<rparr>"
  define cs' where "cs' = cs(j1 := [n])"
  define bb' where "bb' = bb(j1 := d)"
  have j1N: "j1 < dir_size t" and dl: "length (HASHTABLE_DIRECTORY t) = dir_size t" "d \<le> 29" and ds: "dir_size t' = dir_size t" "dir_size t = 2 ^ d"
    using k(3) sh by (simp_all add: shape_def dir_size_def t'_def d_def)
  have none: "HASHTABLE_DIRECTORY t ! j1 = None" using shape_chain(1) [OF sh j1N] k(4) by simp
  have slot: "DIR_SLOT (HASHTABLE_DIRECTORY t) (kh k) = j1" using DIR_SLOT_mod [of _ d] dl ds k(3) by simp
  have w: "write_slot (hp @ [\<lparr>BUCKET_BITS = d, BUCKET_OVERFLOW = None, SLOTS = replicate BUCKET_CAPACITY empty_entry\<rparr>]) n 0 e = hp'"
    by (simp add: write_slot_def n_def hp'_def b_def BUCKET_CAPACITY_def eval_nat_numeral)
  have res: "split_bucket hp t (HASHTABLE_DIRECTORY t ! j1) e = Some (hp', t')"
    using w slot by (simp add: split_bucket_def none make_bucket_def write_dir_def k(2) t'_def n_def d_def)
  have hp': "hp' ! a = (if a = n then b else hp ! a)" if "a \<le> n" for a using that by (auto simp: hp'_def n_def nth_append)
  have ln: "length hp' = Suc n" by (simp add: hp'_def n_def)
  have old: "a < n" if "a \<in> set (cs j)" "j < dir_size t" for a j using shape_chain(3) [OF sh that(2,1)] by (simp add: n_def)
  have oc: "chain hp' (HASHTABLE_DIRECTORY t ! j) (cs j)" "ents hp' (cs j) = ents hp (cs j)" if "j < dir_size t" for j
  proof -
    have "hp' ! a = hp ! a" if "a \<in> set (cs j)" for a using hp' [of a] old [OF that \<open>j < dir_size t\<close>] by simp
    then show "chain hp' (HASHTABLE_DIRECTORY t ! j) (cs j)" "ents hp' (cs j) = ents hp (cs j)"
      using chain_cong_grow [OF shape_chain(1) [OF sh that], of hp'] ln by (simp_all add: n_def)
  qed
  have dir: "HASHTABLE_DIRECTORY t' ! j = (if j = j1 then Some n else HASHTABLE_DIRECTORY t ! j)" if "j < dir_size t" for j
    using that dl by (simp add: t'_def nth_update)
  have en: "ents hp' (cs' j) = (if j = j1 then e # replicate (BUCKET_CAPACITY - 1) empty_entry else ents hp (cs j))" if "j < dir_size t" for j
    using oc [OF that] hp' [of n] by (simp add: cs'_def b_def)
  have "slot_ok hp' t' cs' bb' j" if j: "j < dir_size t" for j
  proof (cases "j = j1")
    case True
    then show ?thesis using ln hp' [of n] dir [OF j] by (simp add: slot_ok_def cs'_def bb'_def b_def t'_def d_def BUCKET_CAPACITY_def)
  next
    case False
    have "hp' ! a = hp ! a" if "a \<in> set (cs j)" for a using hp' old [OF that j] by simp
    then show ?thesis using False oc(1) [OF j] dir [OF j] shape_chain(4-6) [OF sh j]
      by (simp add: slot_ok_def cs'_def bb'_def t'_def)
  qed
  moreover have "sharing t' cs' bb'"
    unfolding sharing_def ds(1)
  proof (intro allI impI)
    fix i j assume i: "i < dir_size t" and j: "j < dir_size t" and ne: "cs' j \<noteq> []"
    show "if i mod 2 ^ bb' j = j mod 2 ^ bb' j then HASHTABLE_DIRECTORY t' ! i = HASHTABLE_DIRECTORY t' ! j
        else set (cs' i) \<inter> set (cs' j) = {}"
    proof (cases "j = j1")
      case True
      have "i mod 2 ^ d = j mod 2 ^ d \<longleftrightarrow> i = j" using i j ds by simp
      then show ?thesis using True old [OF _ i] by (auto simp: bb'_def cs'_def)
    next
      case False
      have ne': "cs j \<noteq> []" using ne False by (simp add: cs'_def)
      show ?thesis
      proof (cases "i = j1")
        case True
        then have "i mod 2 ^ bb j \<noteq> j mod 2 ^ bb j" using shape_share(2) [OF sh i j ne'] ne' k(4) by auto
        then show ?thesis using True False old [OF _ j] by (auto simp: bb'_def cs'_def)
      next
        case i1: False
        then show ?thesis using shape_pair [OF sh i j ne'] False dir [OF i] dir [OF j] by (simp add: bb'_def cs'_def)
      qed
    qed
  qed
  ultimately have sh': "shape hp' t' cs' bb'" using dl by (simp add: shape_def ds(1)) (simp add: t'_def d_def)
  have pl': "placed kh valid hp' t' cs' bb'"
    unfolding placed_def ds(1)
  proof (intro allI impI ballI)
    fix j u assume j: "j < dir_size t" and u: "u \<in> set (ents hp' (cs' j))"
    show "case u of (h, k, v) \<Rightarrow> if h = FALSE_OBJ then k = FALSE_OBJ \<and> v = FALSE_OBJ
        else valid k \<and> h = kh k \<and> hidx h mod 2 ^ bb' j = j mod 2 ^ bb' j"
    proof (cases "j = j1")
      case True
      then have "u = e \<or> u = empty_entry" using u en [OF j] by auto
      moreover have "kh k \<noteq> FALSE_OBJ" using kh_live [OF k(1)] by (simp add: live_def)
      ultimately show ?thesis using True k ds(2) by (auto simp: empty_entry_def bb'_def)
    next
      case False
      obtain h' k' v' where u': "u = (h', k', v')" by (cases u)
      show ?thesis using placedD [OF pl j, of h' k' v'] u en [OF j] False by (simp add: u' bb'_def)
    qed
  qed
  have nl: "\<not> live empty_entry" by (simp add: live_def empty_entry_def)
  have un': "unique_keys same hp' t' cs'"
    using un en nl by (simp add: unique_keys_def ds(1)) (simp add: apart_def)
  have "(k', v') \<in> assocs kh valid hp' t' cs' \<longleftrightarrow> (k', v') \<in> insert (k, v) (assocs kh valid hp t cs)" for k' v'
  proof (cases "valid k'")
    case True
    let ?j = "hidx (kh k') mod dir_size t"
    have j: "?j < dir_size t" by (simp add: ds)
    have "(kh k', k', v') \<noteq> empty_entry" using kh_live [OF True, of v'] nl by metis
    then show ?thesis using True en [OF j] k(2-4) by (auto simp: assocs_def ds(1))
  qed (use k in \<open>auto simp: assocs_def\<close>)
  moreover have "footprint t' cs' \<subseteq> footprint t cs \<union> {length hp..}"
    by (auto simp: footprint_def ds(1) cs'_def n_def split: if_splits)
  moreover have "\<forall>a < length hp. hp' ! a = hp ! a" by (simp add: hp'_def nth_append)
  moreover have "HASHTABLE_COUNT t' = HASHTABLE_COUNT t" "HASHTABLE_DIR_BITS t' = HASHTABLE_DIR_BITS t" by (simp_all add: t'_def)
  ultimately show ?thesis using res sh' pl' un' ln by (intro exI conjI) (auto simp: n_def)
qed

lemma search_rep:
  assumes sh: "shape hp t cs bb" and pl: "placed kh valid hp t cs bb" and k: "valid k" "j = hidx (kh k) mod dir_size t"
    and p: "p = cmp_entry cmp (kh k) k"
  shows "j < dir_size t" "read_dir (HASHTABLE_DIRECTORY t) (kh k) = HASHTABLE_DIRECTORY t ! j"
    "chain hp (HASHTABLE_DIRECTORY t ! j) (cs j)"
    "e \<in> set (ents hp (cs j)) \<Longrightarrow> p e \<longleftrightarrow> live e \<and> same k (fst (snd e))"
    "e \<in> set (ents hp (cs j)) \<Longrightarrow> live e \<Longrightarrow> same k (fst (snd e)) \<Longrightarrow>
      \<exists>k' v. e = (kh k, k', v) \<and> kh k' = kh k \<and> valid k' \<and> (k', v) \<in> assocs kh valid hp t cs"
    "(k', v) \<in> assocs kh valid hp t cs \<Longrightarrow> same k k' \<Longrightarrow> (kh k', k', v) \<in> set (ents hp (cs j)) \<and> live (kh k', k', v)"
proof -
  show j: "j < dir_size t" by (simp add: k(2) dir_size_def)
  have "length (HASHTABLE_DIRECTORY t) = 2 ^ HASHTABLE_DIR_BITS t" "HASHTABLE_DIR_BITS t \<le> 29"
    using sh by (simp_all add: shape_def dir_size_def)
  then show "read_dir (HASHTABLE_DIRECTORY t) (kh k) = HASHTABLE_DIRECTORY t ! j"
    by (simp add: read_dir_def DIR_SLOT_mod k(2) dir_size_def)
  show "chain hp (HASHTABLE_DIRECTORY t ! j) (cs j)" by (rule shape_chain(1) [OF sh j])
  show "e \<in> set (ents hp (cs j)) \<Longrightarrow> p e \<longleftrightarrow> live e \<and> same k (fst (snd e))"
    by (cases rule: entry_cases [OF pl j, of e]) (auto simp: p cmp_entry_def empty_entry_def cmp_free cmp_same k(1) live_def)
  show "\<exists>k' v. e = (kh k, k', v) \<and> kh k' = kh k \<and> valid k' \<and> (k', v) \<in> assocs kh valid hp t cs"
    if "e \<in> set (ents hp (cs j))" "live e" "same k (fst (snd e))"
  proof (cases rule: entry_cases [OF pl j that(1)])
    case (2 k' v)
    then show ?thesis using same_hash [OF k(1), of k'] that k(2) by (auto simp: assocs_def)
  qed (use that in simp)
  show "(kh k', k', v) \<in> set (ents hp (cs j)) \<and> live (kh k', k', v)" if "(k', v) \<in> assocs kh valid hp t cs" "same k k'"
    using that same_hash [OF k(1), of k'] kh_live [of k' v] by (auto simp: assocs_def k(2))
qed

lemma assocs_unique:
  assumes sh: "shape hp t cs bb" and pl: "placed kh valid hp t cs bb" and un: "unique_keys same hp t cs"
    and S: "(k1, v1) \<in> assocs kh valid hp t cs" "(k2, v2) \<in> assocs kh valid hp t cs" "same k1 k2"
  shows "k1 = k2 \<and> v1 = v2"
proof -
  have v: "valid k1" "valid k2" using S by (auto simp: assocs_def)
  define j where "j = hidx (kh k1) mod dir_size t"
  note s = search_rep [OF sh pl v(1) j_def refl]
  have "(kh k1, k1, v1) = (kh k2, k2, v2)"
    using s(6) [OF S(2,3)] s(6) [OF S(1) same_refl [OF v(1)]] un s(1) S(3) same_sym [OF v S(3)]
    by (intro apart_unique [of same "ents hp (cs j)"]) (auto simp: unique_keys_def)
  then show ?thesis by simp
qed

lemma lookup_rep:
  assumes "table_rep kh valid same hp t F S" "valid k"
  shows "\<exists>r S0. SPECIAL_TABLE_LOOKUP cmp hp t (kh k) k = Some r \<and> takes same S k r S0 \<and>
    SPECIAL_TABLE_PROBE cmp hp t (kh k) k = Some (\<exists>k' v. (k', v) \<in> S \<and> same k k')"
proof -
  obtain cs bb where sh: "shape hp t cs bb" and pl: "placed kh valid hp t cs bb" and S: "S = assocs kh valid hp t cs"
    using assms(1) by (auto simp: table_rep_def)
  define j where "j = hidx (kh k) mod dir_size t"
  note s = search_rep [OF sh pl assms(2) j_def refl]
  let ?p = "cmp_entry cmp (kh k) k"
  from chain_search_result [OF s(3), of ?p] show ?thesis
  proof (elim disjE exE conjE)
    assume r: "chain_search hp ?p (HASHTABLE_DIRECTORY t ! j) = Some None" "\<forall>e \<in> set (ents hp (cs j)). \<not> ?p e"
    then have "\<not> same k k'" if "(k', v) \<in> S" for k' v
      using s(4) s(6) that unfolding S by (metis fst_conv snd_conv)
    then show ?thesis using r(1) s(2) by (auto simp: SPECIAL_TABLE_LOOKUP_def SPECIAL_TABLE_PROBE_def takes_def)
  next
    fix a i assume r: "chain_search hp ?p (HASHTABLE_DIRECTORY t ! j) = Some (Some (a, i))" "a \<in> set (cs j)"
      "i < length (SLOTS (hp ! a))" "?p (SLOTS (hp ! a) ! i)"
    then have m: "SLOTS (hp ! a) ! i \<in> set (ents hp (cs j))" by (auto simp: set_ents intro!: bexI [of _ a] nth_mem)
    then have l: "live (SLOTS (hp ! a) ! i)" "same k (fst (snd (SLOTS (hp ! a) ! i)))" using s(4) r(4) by blast+
    obtain k' v where "SLOTS (hp ! a) ! i = (kh k, k', v)" "(k', v) \<in> S" "same k k'"
      using s(5) [OF m l] l(2) S by auto
    then show ?thesis using r(1) s(2) by (auto simp: SPECIAL_TABLE_LOOKUP_def SPECIAL_TABLE_PROBE_def takes_def)
  qed
qed

text \<open>The two ways of writing a slot: over an association, over a free slot.\<close>

lemma write_used:
  assumes sh: "shape hp t cs bb" and pl: "placed kh valid hp t cs bb" and un: "unique_keys same hp t cs"
    and j: "j < dir_size t" "a \<in> set (cs j)" "i < length (SLOTS (hp ! a))" "SLOTS (hp ! a) ! i = (kh k', k', r)" "valid k'"
    and e: "e = empty_entry \<or> (\<exists>v. e = (kh k', k, v) \<and> valid k \<and> kh k = kh k' \<and> same k k')"
  shows "shape (write_slot hp a i e) t cs bb \<and> placed kh valid (write_slot hp a i e) t cs bb \<and>
    unique_keys same (write_slot hp a i e) t cs \<and>
    assocs kh valid (write_slot hp a i e) t cs = assocs kh valid hp t cs - {(k', r)} \<union> {(k, v). valid k \<and> (kh k, k, v) = e}"
proof -
  have old: "{(k, v). valid k \<and> (kh k, k, v) = SLOTS (hp ! a) ! i} = {(k', r)}" using j(4,5) by auto
  have al: "a < length hp" "distinct (cs j)" using shape_chain [OF sh j(1)] j(2) by auto
  obtain xs ys where x: "ents hp (cs j) = xs @ SLOTS (hp ! a) ! i # ys" and w: "\<And>e. ents (write_slot hp a i e) (cs j) = xs @ e # ys"
    using ents_split [OF j(2) al(2,1) j(3)] by blast
  have place: "hidx (kh k') mod 2 ^ bb j = j mod 2 ^ bb j"
    using placedD [OF pl j(1), of "kh k'" k' r] x j(4) kh_live [OF j(5), of r] by (simp add: live_def)
  have "apart same (xs @ (kh k', k', r) # ys)" using un j(1) x j(4) by (auto simp: unique_keys_def)
  then have ap: "\<forall>x \<in> set xs. live x \<longrightarrow> \<not> same (fst (snd x)) k'" "\<forall>x \<in> set ys. live x \<longrightarrow> \<not> same k' (fst (snd x))"
    using kh_live [OF j(5), of r] by (simp_all add: apart_insert)
  have fresh: "\<not> same k (fst (snd x))" if "x \<in> set (xs @ ys)" "live x" "valid k" "same k k'" for x k
  proof
    assume s: "same k (fst (snd x))"
    have m: "x \<in> set (ents hp (cs j))" using that(1) x by auto
    note lx = that(2)
    obtain kx vx where kx: "x = (kh kx, kx, vx)" "valid kx"
      using lx by (cases rule: entry_cases [OF pl j(1) m]) auto
    have s': "same k kx" using s by (simp add: kx(1))
    have a: "same k' kx" by (rule same_trans [OF j(5) that(3) kx(2) same_sym [OF that(3) j(5) that(4)] s'])
    then have "same kx k'" by (rule same_sym [OF j(5) kx(2)])
    with a show False using ap that(1,2) by (auto simp: kx(1))
  qed
  have nl: "\<not> live empty_entry" by (simp add: live_def empty_entry_def)
  show ?thesis
    unfolding old [symmetric]
  proof (rule write_rep [OF sh pl un j(1-3)])
    show "e = empty_entry \<or> (\<exists>k v. e = (kh k, k, v) \<and> valid k \<and> hidx (kh k) mod 2 ^ bb j = j mod 2 ^ bb j \<and>
      (\<forall>x \<in> set (ents (write_slot hp a i empty_entry) (cs j)). live x \<longrightarrow> \<not> same k (fst (snd x))))"
      using e
    proof
      assume "\<exists>v. e = (kh k', k, v) \<and> valid k \<and> kh k = kh k' \<and> same k k'"
      then obtain v where v: "e = (kh k, k, v)" "valid k" "kh k = kh k'" "same k k'" by auto
      have "\<forall>x \<in> set (xs @ empty_entry # ys). live x \<longrightarrow> \<not> same k (fst (snd x))"
        using fresh [OF _ _ v(2,4)] nl by auto
      then show ?thesis using v place unfolding w by metis
    qed simp
  qed
qed

lemma write_free:
  assumes sh: "shape hp t cs bb" and pl: "placed kh valid hp t cs bb" and un: "unique_keys same hp t cs"
    and j: "j = hidx (kh k) mod dir_size t" "a \<in> set (cs j)" "i < length (SLOTS (hp ! a))" "\<not> live (SLOTS (hp ! a) ! i)" "valid k"
    and fresh: "\<forall>x \<in> set (ents hp (cs j)). live x \<longrightarrow> \<not> same k (fst (snd x))"
  shows "shape (write_slot hp a i (kh k, k, v)) t cs bb \<and> placed kh valid (write_slot hp a i (kh k, k, v)) t cs bb \<and>
    unique_keys same (write_slot hp a i (kh k, k, v)) t cs \<and>
    assocs kh valid (write_slot hp a i (kh k, k, v)) t cs = insert (k, v) (assocs kh valid hp t cs)"
proof -
  have jN: "j < dir_size t" by (simp add: j(1) dir_size_def)
  have al: "a < length hp" "distinct (cs j)" using shape_chain [OF sh jN] j(2) by auto
  have old: "{(k, v). valid k \<and> (kh k, k, v) = SLOTS (hp ! a) ! i} = {}"
  proof -
    have False if "valid k" "(kh k, k, v) = SLOTS (hp ! a) ! i" for k v using kh_live [OF that(1), of v] j(4) that(2) by simp
    then show ?thesis by blast
  qed
  obtain xs ys where x: "ents hp (cs j) = xs @ SLOTS (hp ! a) ! i # ys" and w: "\<And>e. ents (write_slot hp a i e) (cs j) = xs @ e # ys"
    using ents_split [OF j(2) al(2,1) j(3)] by blast
  have "cs j \<noteq> []" using j(2) by auto
  then have "bb j \<le> HASHTABLE_DIR_BITS t" by (rule shape_chain(6) [OF sh jN])
  then have place: "hidx (kh k) mod 2 ^ bb j = j mod 2 ^ bb j" by (simp add: j(1) dir_size_def mod_mod_cancel le_imp_power_dvd)
  have nl: "\<not> live empty_entry" by (simp add: live_def empty_entry_def)
  have "shape (write_slot hp a i (kh k, k, v)) t cs bb \<and> placed kh valid (write_slot hp a i (kh k, k, v)) t cs bb \<and>
    unique_keys same (write_slot hp a i (kh k, k, v)) t cs \<and>
    assocs kh valid (write_slot hp a i (kh k, k, v)) t cs = assocs kh valid hp t cs - {(k, v). valid k \<and> (kh k, k, v) = SLOTS (hp ! a) ! i}
      \<union> {(k', v'). valid k' \<and> (kh k', k', v') = (kh k, k, v)}"
  proof (rule write_rep [OF sh pl un jN j(2,3)])
    have "\<forall>x \<in> set (ents (write_slot hp a i empty_entry) (cs j)). live x \<longrightarrow> \<not> same k (fst (snd x))"
      using fresh nl unfolding x w by simp
    then show "(kh k, k, v) = empty_entry \<or> (\<exists>ka va. (kh k, k, v) = (kh ka, ka, va) \<and> valid ka \<and>
        hidx (kh ka) mod 2 ^ bb j = j mod 2 ^ bb j \<and>
        (\<forall>x \<in> set (ents (write_slot hp a i empty_entry) (cs j)). live x \<longrightarrow> \<not> same ka (fst (snd x))))"
      using j(5) place by blast
  qed
  moreover have "{(k', v'). valid k' \<and> (kh k', k', v') = (kh k, k, v)} = {(k, v)}" using j(5) by auto
  ultimately show ?thesis unfolding old by auto
qed

lemma count_insert:
  assumes sh: "shape hp t cs bb" and pl: "placed kh valid hp t cs bb" and S: "S = assocs kh valid hp t cs"
    and c: "HASHTABLE_COUNT t = int2fx (of_nat (card S))"
    and k: "valid k" "j = hidx (kh k) mod dir_size t" "\<forall>x \<in> set (ents hp (cs j)). live x \<longrightarrow> \<not> same k (fst (snd x))"
  shows "HASHTABLE_COUNT (inserting_one t) = int2fx (of_nat (card (insert (k, v) S)))"
proof -
  have "(k, v) \<notin> S" using search_rep(6) [OF sh pl k(1,2) refl, of k v] k(3) same_refl [OF k(1)] S by fastforce
  moreover have "finite S" using finite_assocs S by simp
  ultimately show ?thesis using c int2fx_ADD1 [of "of_nat (card S)"] by (simp add: inserting_one_def)
qed

lemma footprint_count:
  "HASHTABLE_DIR_BITS t' = HASHTABLE_DIR_BITS t \<Longrightarrow> footprint t' cs = footprint t cs"
  by (simp add: footprint_def dir_size_def)

lemma write_slot_frame:
  assumes "a \<in> F" "a < length hp"
  shows "frame hp F (write_slot hp a i e) F"
  using assms by (auto simp: frame_def nth_write_slot)

lemma remove_rep:
  assumes R: "table_rep kh valid same hp t F S" "valid k"
  shows "\<exists>hp' t' r S'. SPECIAL_TABLE_REMOVE cmp hp t (kh k) k = Some (hp', t', r) \<and> takes same S k r S' \<and>
    table_rep kh valid same hp' t' F S' \<and> frame hp F hp' F"
proof -
  obtain cs bb where sh: "shape hp t cs bb" and pl: "placed kh valid hp t cs bb" and un: "unique_keys same hp t cs"
    and S: "S = assocs kh valid hp t cs" and F: "F = footprint t cs" and c: "HASHTABLE_COUNT t = int2fx (of_nat (card S))"
    using assms(1) by (auto simp: table_rep_def)
  define j where "j = hidx (kh k) mod dir_size t"
  note s = search_rep [OF sh pl assms(2) j_def refl]
  let ?p = "cmp_entry cmp (kh k) k"
  from chain_search_result [OF s(3), of ?p] show ?thesis
  proof (elim disjE exE conjE)
    assume r: "chain_search hp ?p (HASHTABLE_DIRECTORY t ! j) = Some None" "\<forall>e \<in> set (ents hp (cs j)). \<not> ?p e"
    then have "\<not> same k k'" if "(k', v) \<in> S" for k' v
      using s(4) s(6) that unfolding S by (metis fst_conv snd_conv)
    then show ?thesis using r(1) s(2) R(1) by (auto simp: SPECIAL_TABLE_REMOVE_def takes_def frame_def)
  next
    fix a i assume r: "chain_search hp ?p (HASHTABLE_DIRECTORY t ! j) = Some (Some (a, i))" "a \<in> set (cs j)"
      "i < length (SLOTS (hp ! a))" "?p (SLOTS (hp ! a) ! i)"
    have m: "SLOTS (hp ! a) ! i \<in> set (ents hp (cs j))" using r by (auto simp: set_ents intro!: bexI [of _ a] nth_mem)
    then have l: "live (SLOTS (hp ! a) ! i)" "same k (fst (snd (SLOTS (hp ! a) ! i)))" using s(4) r(4) by blast+
    obtain k' v where kv: "SLOTS (hp ! a) ! i = (kh k', k', v)" "(k', v) \<in> S" "same k k'" "valid k'"
      using s(5) [OF m l] l(2) S by auto
    let ?hp = "write_slot hp a i empty_entry" and ?t = "removing_one t"
    have nl: "\<not> live empty_entry" by (simp add: live_def empty_entry_def)
    have "\<not> (valid k \<and> (kh k, k, v) = empty_entry)" for k v using kh_live [of k v] nl by auto
    then have "{(k, v). valid k \<and> (kh k, k, v) = empty_entry} = {}" by blast
    then have w: "shape ?hp t cs bb" "placed kh valid ?hp t cs bb" "unique_keys same ?hp t cs"
      "assocs kh valid ?hp t cs = S - {(k', v)}"
      using write_used [OF sh pl un s(1) r(2,3) kv(1,4), of empty_entry] S by auto
    have "card (S - {(k', v)}) = card S - 1" "0 < card S"
      using kv(2) finite_assocs [of kh valid hp t cs] S by (auto simp: card_gt_0_iff)
    then have cnt: "HASHTABLE_COUNT ?t = int2fx (of_nat (card (S - {(k', v)})))"
      using c int2fx_SUB1 [of "of_nat (card S)"] by (simp add: removing_one_def of_nat_diff)
    have "table_rep kh valid same ?hp ?t F (S - {(k', v)})"
      unfolding table_rep_def F
      using w cnt by (intro exI [of _ cs] exI [of _ bb]) (simp add: shape_count [of "removing_one t" t] footprint_count [of "removing_one t" t])
    moreover have "a \<in> F" "a < length hp" using r(2) s(1) shape_chain(3) [OF sh s(1)] by (auto simp: F footprint_def)
    ultimately show ?thesis using r(1) s(2) kv write_slot_frame [of a F hp i empty_entry]
      by (auto simp: SPECIAL_TABLE_REMOVE_def takes_def)
  qed
qed

text \<open>Adding an association for a key that has none: in a free slot or by a split.\<close>

lemma add_free:
  assumes sh: "shape hp t cs bb" and pl: "placed kh valid hp t cs bb" and un: "unique_keys same hp t cs"
    and S: "S = assocs kh valid hp t cs" and F: "F = footprint t cs" and c: "HASHTABLE_COUNT t = int2fx (of_nat (card S))"
    and k: "valid k" "j = hidx (kh k) mod dir_size t" "\<forall>x \<in> set (ents hp (cs j)). live x \<longrightarrow> \<not> same k (fst (snd x))"
    and a: "a \<in> set (cs j)" "i < length (SLOTS (hp ! a))" "\<not> live (SLOTS (hp ! a) ! i)"
  shows "table_rep kh valid same (write_slot hp a i (kh k, k, v)) (inserting_one t) F (insert (k, v) S) \<and>
    frame hp F (write_slot hp a i (kh k, k, v)) F"
proof -
  have jN: "j < dir_size t" by (simp add: k(2) dir_size_def)
  have w: "shape (write_slot hp a i (kh k, k, v)) t cs bb" "placed kh valid (write_slot hp a i (kh k, k, v)) t cs bb"
    "unique_keys same (write_slot hp a i (kh k, k, v)) t cs"
    "assocs kh valid (write_slot hp a i (kh k, k, v)) t cs = insert (k, v) S"
    using write_free [OF sh pl un k(2) a k(1,3)] S by auto
  have cnt: "HASHTABLE_COUNT (inserting_one t) = int2fx (of_nat (card (insert (k, v) S)))"
    by (rule count_insert [OF sh pl S c k])
  have "a \<in> F" "a < length hp" using a(1) jN shape_chain(3) [OF sh jN] by (auto simp: F footprint_def)
  then show ?thesis
    using write_slot_frame [of a F hp i] w cnt unfolding table_rep_def F
    by (intro conjI exI [of _ cs] exI [of _ bb]) (simp_all add: shape_count [of "inserting_one t" t] footprint_count [of "inserting_one t" t])
qed

lemma add_split:
  assumes sh: "shape hp t cs bb" and pl: "placed kh valid hp t cs bb" and un: "unique_keys same hp t cs"
    and S: "S = assocs kh valid hp t cs" and F: "F = footprint t cs" and c: "HASHTABLE_COUNT t = int2fx (of_nat (card S))"
    and k: "valid k" "j = hidx (kh k) mod dir_size t" "\<forall>x \<in> set (ents hp (cs j)). live x \<longrightarrow> \<not> same k (fst (snd x))"
    and room: "HASHTABLE_DIR_BITS t < 29"
  shows "\<exists>hp' t' F'. split_bucket hp (inserting_one t) (HASHTABLE_DIRECTORY t ! j) (kh k, k, v) = Some (hp', t') \<and>
    table_rep kh valid same hp' t' F' (insert (k, v) S) \<and> frame hp F hp' F' \<and> HASHTABLE_DIR_BITS t' \<le> HASHTABLE_DIR_BITS t + 1"
proof -
  let ?t = "inserting_one t"
  have i: "shape hp ?t cs bb" "placed kh valid hp ?t cs bb" "unique_keys same hp ?t cs" "j = hidx (kh k) mod dir_size ?t"
    "HASHTABLE_DIR_BITS ?t < 29"
    using sh pl un k(2) room by (simp_all add: shape_count [of "inserting_one t" t])
  have cnt: "HASHTABLE_COUNT ?t = int2fx (of_nat (card (insert (k, v) S)))"
    by (rule count_insert [OF sh pl S c k])
  have eq: "assocs kh valid hp ?t cs = S" "footprint ?t cs = F"
    using S F by (simp_all add: shape_count [of "inserting_one t" t] footprint_count [of "inserting_one t" t])
  have "\<exists>hp' t' cs' bb'. split_bucket hp ?t (HASHTABLE_DIRECTORY ?t ! j) (kh k, k, v) = Some (hp', t') \<and> shape hp' t' cs' bb' \<and>
    placed kh valid hp' t' cs' bb' \<and> unique_keys same hp' t' cs' \<and> assocs kh valid hp' t' cs' = insert (k, v) (assocs kh valid hp ?t cs) \<and>
    HASHTABLE_COUNT t' = HASHTABLE_COUNT ?t \<and> length hp \<le> length hp' \<and> (\<forall>a < length hp. hp' ! a = hp ! a) \<and>
    footprint t' cs' \<subseteq> footprint ?t cs \<union> {length hp..} \<and> HASHTABLE_DIR_BITS t' \<le> HASHTABLE_DIR_BITS ?t + 1"
  proof (cases "cs j = []")
    case True
    then show ?thesis by (rule split_rep_empty [OF i(1-3) k(1) refl i(4)])
  next
    case False
    then show ?thesis by (rule split_rep_chain [OF i(1-3) k(1) refl i(4) _ k(3) i(5)])
  qed
  then show ?thesis unfolding eq inserting_one_simps table_rep_def frame_def using cnt by metis
qed

lemma insert_rep:
  assumes R: "table_rep kh valid same hp t F S" "valid k" and room: "HASHTABLE_DIR_BITS t < 29"
  shows "\<exists>hp' t' r S' F'. SPECIAL_TABLE_INSERT cmp hp t (kh k) k v = Some (hp', t', r) \<and> takes same S k r S' \<and>
    table_rep kh valid same hp' t' F' (insert (k, v) S') \<and> frame hp F hp' F' \<and> HASHTABLE_DIR_BITS t' \<le> HASHTABLE_DIR_BITS t + 1"
proof -
  obtain cs bb where sh: "shape hp t cs bb" and pl: "placed kh valid hp t cs bb" and un: "unique_keys same hp t cs"
    and S: "S = assocs kh valid hp t cs" and F: "F = footprint t cs" and c: "HASHTABLE_COUNT t = int2fx (of_nat (card S))"
    using assms(1) by (auto simp: table_rep_def)
  define j where "j = hidx (kh k) mod dir_size t"
  note s = search_rep [OF sh pl assms(2) j_def refl]
  let ?p = "cmp_entry cmp (kh k) k"
  have none: "(\<forall>x \<in> set (ents hp (cs j)). live x \<longrightarrow> \<not> same k (fst (snd x))) \<and> takes same S k FALSE_OBJ S"
    if "\<forall>e \<in> set (ents hp (cs j)). \<not> ?p e"
  proof
    show f: "\<forall>x \<in> set (ents hp (cs j)). live x \<longrightarrow> \<not> same k (fst (snd x))" using that s(4) by blast
    have "\<not> same k k'" if "(k', v) \<in> S" for k' v using f s(6) that unfolding S by (metis fst_conv snd_conv)
    then show "takes same S k FALSE_OBJ S" by (auto simp: takes_def)
  qed
  from insert_search_result [OF s(3), of ?p None] show ?thesis
  proof (elim disjE exE conjE)
    fix a i assume r: "insert_search hp ?p (HASHTABLE_DIRECTORY t ! j) None = Some (Inl (a, i))" "a \<in> set (cs j)"
      "i < length (SLOTS (hp ! a))" "?p (SLOTS (hp ! a) ! i)"
    have m: "SLOTS (hp ! a) ! i \<in> set (ents hp (cs j))" using r by (auto simp: set_ents intro!: bexI [of _ a] nth_mem)
    then have l: "live (SLOTS (hp ! a) ! i)" "same k (fst (snd (SLOTS (hp ! a) ! i)))" using s(4) r(4) by blast+
    obtain k' r' where kv: "SLOTS (hp ! a) ! i = (kh k', k', r')" "(k', r') \<in> S" "same k k'" "valid k'" "kh k' = kh k"
      using s(5) [OF m l] l(2) S by auto
    let ?hp = "write_slot hp a i (kh k', k, v)"
    have "{(k2, v2). valid k2 \<and> (kh k2, k2, v2) = (kh k', k, v)} = {(k, v)}" using kv(5) assms(2) by auto
    then have w: "shape ?hp t cs bb" "placed kh valid ?hp t cs bb" "unique_keys same ?hp t cs"
      "assocs kh valid ?hp t cs = insert (k, v) (S - {(k', r')})"
      using write_used [OF sh pl un s(1) r(2,3) kv(1,4), of "(kh k', k, v)" k] S kv(3,5) assms(2) by auto
    have "(k, v) \<notin> S - {(k', r')}" using assocs_unique [OF sh pl un, of k v k' r'] kv(2,3) S by auto
    moreover have "finite S" using finite_assocs S by simp
    ultimately have "card (insert (k, v) (S - {(k', r')})) = card S"
      using kv(2) card_Suc_Diff1 [of S "(k', r')"] by simp
    then have "table_rep kh valid same ?hp t F (insert (k, v) (S - {(k', r')}))"
      unfolding table_rep_def F using w c by (intro exI [of _ cs] exI [of _ bb]) simp
    moreover have "a \<in> F" "a < length hp" using r(2) s(1) shape_chain(3) [OF sh s(1)] by (auto simp: F footprint_def)
    ultimately show ?thesis using r(1) s(2) kv write_slot_frame [of a F hp i "(kh k', k, v)"]
      by (intro exI [of _ ?hp] exI [of _ t] exI [of _ r'] exI [of _ "S - {(k', r')}"] exI [of _ F])
        (auto simp: SPECIAL_TABLE_INSERT_def takes_def)
  next
    assume r: "\<forall>e \<in> set (ents hp (cs j)). \<not> ?p e" "insert_search hp ?p (HASHTABLE_DIRECTORY t ! j) None = Some (Inr None)"
    from add_split [OF sh pl un S F c assms(2) j_def _ room, of v] none [OF r(1)] show ?thesis
      using r(2) s(2) by (fastforce simp: SPECIAL_TABLE_INSERT_def)
  next
    fix a i assume r: "\<forall>e \<in> set (ents hp (cs j)). \<not> ?p e"
      "insert_search hp ?p (HASHTABLE_DIRECTORY t ! j) None = Some (Inr (Some (a, i)))"
      "a \<in> set (cs j)" "i < length (SLOTS (hp ! a))" "\<not> live (SLOTS (hp ! a) ! i)"
    from add_free [OF sh pl un S F c assms(2) j_def _ r(3-5), of v] none [OF r(1)] show ?thesis
      using r(2) s(2) by (fastforce simp: SPECIAL_TABLE_INSERT_def)
  qed
qed

lemma install_rep:
  assumes R: "table_rep kh valid same hp t F S" "valid k" and room: "HASHTABLE_DIR_BITS t < 29"
    and new: "\<forall>(k', v) \<in> S. \<not> same k k'"
  shows "\<exists>hp' t' F'. hashtable_install hp t (kh k) k v = Some (hp', t') \<and>
    table_rep kh valid same hp' t' F' (insert (k, v) S) \<and> frame hp F hp' F' \<and> HASHTABLE_DIR_BITS t' \<le> HASHTABLE_DIR_BITS t + 1"
proof -
  obtain cs bb where sh: "shape hp t cs bb" and pl: "placed kh valid hp t cs bb" and un: "unique_keys same hp t cs"
    and S: "S = assocs kh valid hp t cs" and F: "F = footprint t cs" and c: "HASHTABLE_COUNT t = int2fx (of_nat (card S))"
    using assms(1) by (auto simp: table_rep_def)
  define j where "j = hidx (kh k) mod dir_size t"
  note s = search_rep [OF sh pl assms(2) j_def refl]
  let ?p = "\<lambda>e :: entry. fst e = FALSE_OBJ"
  have none: "\<forall>x \<in> set (ents hp (cs j)). live x \<longrightarrow> \<not> same k (fst (snd x))"
    using s(5) new unfolding S by fastforce
  from chain_search_result [OF s(3), of ?p] show ?thesis
  proof (elim disjE exE conjE)
    assume r: "chain_search hp ?p (HASHTABLE_DIRECTORY t ! j) = Some None"
    from add_split [OF sh pl un S F c assms(2) j_def none room, of v] show ?thesis
      using r s(2) by (simp add: hashtable_install_def Let_def)
  next
    fix a i assume r: "chain_search hp ?p (HASHTABLE_DIRECTORY t ! j) = Some (Some (a, i))" "a \<in> set (cs j)"
      "i < length (SLOTS (hp ! a))" "fst (SLOTS (hp ! a) ! i) = FALSE_OBJ"
    from add_free [OF sh pl un S F c assms(2) j_def none r(2,3), of v] r(4) show ?thesis
      using r(1) s(2) by (auto simp: hashtable_install_def Let_def live_def)
  qed
qed

end

end
