(* ===== verification/HashIter.thy ===== *)
theory HashIter
  imports HashOps
begin

text \<open>
  What goes over a whole hash table: the empty table, clearing, iteration and copying; the interpretations
  of \<open>key_contract\<close>, and the properties of the tables.
\<close>

section \<open>Iteration\<close>

lemma foreach_chain_foldl:
  "chain hp b as \<Longrightarrow> foreach_chain hp fn b info = Some (foldl fn info (filter live (ents hp as)))"
proof (induction as arbitrary: b info)
  case Nil
  then show ?case by (simp add: foreach_chain.simps)
next
  case (Cons a as)
  have f: "foldl (\<lambda>info e. if fst e \<noteq> FALSE_OBJ then fn info e else info) i es = foldl fn i (filter live es)" for i es
    by (induction es arbitrary: i) (auto simp: live_def)
  show ?case using Cons by (subst foreach_chain.simps) (auto simp: f)
qed

definition visit :: "heap \<Rightarrow> (nat \<Rightarrow> nat list) \<Rightarrow> (nat \<Rightarrow> nat) \<Rightarrow> nat \<Rightarrow> entry list" where
  "visit hp cs bb j = (if cs j \<noteq> [] \<and> j < 2 ^ bb j then filter live (ents hp (cs j)) else [])"

lemma shape_first:
  assumes "shape hp t cs bb" "j < dir_size t"
  shows "(HASHTABLE_DIRECTORY t ! j = None \<longleftrightarrow> cs j = []) \<and>
    (HASHTABLE_DIRECTORY t ! j = Some a \<longrightarrow> cs j \<noteq> [] \<and> a = hd (cs j) \<and> BUCKET_BITS (hp ! a) = bb j \<and>
      primary_slot j (bb j) = (j < 2 ^ bb j))"
proof -
  have c: "chain hp (HASHTABLE_DIRECTORY t ! j) (cs j)" by (rule shape_chain(1) [OF assms])
  have "HASHTABLE_DIR_BITS t \<le> 29" using assms(1) by (simp add: shape_def)
  moreover have "dir_size t \<le> 2 ^ 29" using power_increasing [OF \<open>HASHTABLE_DIR_BITS t \<le> 29\<close>, of "2 :: nat"] by (simp add: dir_size_def)
  ultimately have p: "cs j \<noteq> [] \<Longrightarrow> primary_slot j (bb j) = (j < 2 ^ bb j)"
    using primary_slot_iff [of j "bb j"] shape_chain(6) [OF assms] assms(2) by simp
  show ?thesis
  proof (cases "cs j")
    case Nil
    then show ?thesis using c by simp
  next
    case (Cons a' as)
    then show ?thesis using c p shape_chain(5) [OF assms, of a'] by auto
  qed
qed

lemma foreach_dir_foldl:
  assumes sh: "shape hp t cs bb" and j: "j \<le> dir_size t"
  shows "foreach_dir hp fn j (drop j (HASHTABLE_DIRECTORY t)) info =
    Some (foldl fn info (concat (map (visit hp cs bb) [j..<dir_size t])))"
  using j
proof (induction "dir_size t - j" arbitrary: j info)
  case 0
  then show ?case using sh by (simp add: shape_def)
next
  case (Suc n)
  then have jN: "j < dir_size t" by simp
  have l: "length (HASHTABLE_DIRECTORY t) = dir_size t" using sh by (simp add: shape_def)
  have d: "drop j (HASHTABLE_DIRECTORY t) = HASHTABLE_DIRECTORY t ! j # drop (Suc j) (HASHTABLE_DIRECTORY t)"
    using jN l by (simp add: Cons_nth_drop_Suc)
  have IH: "foreach_dir hp fn (Suc j) (drop (Suc j) (HASHTABLE_DIRECTORY t)) i =
      Some (foldl fn i (concat (map (visit hp cs bb) [Suc j..<dir_size t])))" for i
    using Suc(1) [of "Suc j"] Suc(2) jN by simp
  have ch: "chain hp (HASHTABLE_DIRECTORY t ! j) (cs j)" by (rule shape_chain(1) [OF sh jN])
  show ?case
  proof (cases "HASHTABLE_DIRECTORY t ! j")
    case None
    then have "visit hp cs bb j = []" using shape_first [OF sh jN] by (simp add: visit_def)
    then show ?thesis unfolding d upt_conv_Cons [OF jN] by (simp add: None IH)
  next
    case (Some a)
    then have f: "cs j \<noteq> []" "BUCKET_BITS (hp ! a) = bb j" "primary_slot j (bb j) = (j < 2 ^ bb j)"
      using shape_first [OF sh jN, of a] by auto
    have "foreach_chain hp fn (Some a) info = Some (foldl fn info (filter live (ents hp (cs j))))"
      using foreach_chain_foldl [OF ch] Some by simp
    then show ?thesis unfolding d upt_conv_Cons [OF jN] using f by (simp add: Some IH visit_def)
  qed
qed

lemma distinct_concat_map:
  assumes "distinct is" "\<And>i. i \<in> set is \<Longrightarrow> distinct (G i)"
    "\<And>i j. i \<in> set is \<Longrightarrow> j \<in> set is \<Longrightarrow> i \<noteq> j \<Longrightarrow> set (G i) \<inter> set (G j) = {}"
  shows "distinct (concat (map G is))"
  using assms
proof (induction "is")
  case (Cons i "is")
  moreover have "set (G i) \<inter> set (G j) = {}" if "j \<in> set is" for j using Cons.prems(1,3) that by auto
  ultimately show ?case by auto
qed simp

section \<open>Copying: lemmas\<close>

definition twins :: "heap \<Rightarrow> nat list \<Rightarrow> heap \<Rightarrow> nat list \<Rightarrow> bool" where
  "twins hp as hp' as' \<longleftrightarrow> list_all2 (\<lambda>a a'. BUCKET_BITS (hp ! a) = BUCKET_BITS (hp' ! a') \<and> SLOTS (hp ! a) = SLOTS (hp' ! a')) as as'"

lemma twins_ents: "twins hp as hp' as' \<Longrightarrow> ents hp as = ents hp' as'"
  unfolding twins_def by (induction as as' rule: list_all2_induct) simp_all

lemma twins_cong:
  "twins hp as hp' as' \<Longrightarrow> (\<And>a. a \<in> set as \<Longrightarrow> hp2 ! a = hp ! a) \<Longrightarrow> (\<And>a. a \<in> set as' \<Longrightarrow> hp2' ! a = hp' ! a)
     \<Longrightarrow> twins hp2 as hp2' as'"
  unfolding twins_def by (induction as as' rule: list_all2_induct) simp_all

lemma copy_chain_result:
  assumes "chain hp (Some a) as"
  shows "\<exists>hp' as'. copy_bucket_chain hp a = Some (hp', length hp) \<and> chain hp' (Some (length hp)) as' \<and> twins hp as hp' as' \<and>
    set as' \<subseteq> {length hp..} \<and> length hp \<le> length hp' \<and> (\<forall>b < length hp. hp' ! b = hp ! b)"
  using assms
proof (induction as arbitrary: hp a)
  case (Cons a' as)
  let ?n = "length hp" and ?hp1 = "hp @ [hp ! a]"
  have a: "a' = a" "a < ?n" "chain hp (BUCKET_OVERFLOW (hp ! a)) as" using Cons.prems by auto
  show ?case
  proof (cases "BUCKET_OVERFLOW (hp ! a)")
    case None
    then have "as = []" using a(3) by simp
    have "copy_bucket_chain hp a = Some (?hp1, ?n)" by (subst copy_bucket_chain.simps) (simp add: None Let_def)
    moreover have "chain ?hp1 (Some ?n) [?n]" by (simp add: None)
    moreover have "twins hp [a] ?hp1 [?n]" by (simp add: twins_def)
    ultimately show ?thesis using a(1) \<open>as = []\<close> by (intro exI [of _ ?hp1] exI [of _ "[?n]"]) (simp add: nth_append)
  next
    case (Some b)
    have ch: "chain hp (Some b) as" using a(3) Some by simp
    then have "chain ?hp1 (Some b) as" "\<And>x. x \<in> set as \<Longrightarrow> ?hp1 ! x = hp ! x"
      using chain_cong_grow(1) [OF ch, of ?hp1] chain_bound [OF ch] by (simp_all add: nth_append)
    then obtain hp2 as2 where c: "copy_bucket_chain ?hp1 b = Some (hp2, Suc ?n)" "chain hp2 (Some (Suc ?n)) as2" "twins ?hp1 as hp2 as2"
      "set as2 \<subseteq> {Suc ?n..}" "Suc ?n \<le> length hp2" "\<And>x. x < Suc ?n \<Longrightarrow> hp2 ! x = ?hp1 ! x"
      using Cons.IH [of ?hp1 b] by auto
    define hp3 where "hp3 = hp2[?n := (hp2 ! ?n)\<lparr>BUCKET_OVERFLOW := Some (Suc ?n)\<rparr>]"
    have n: "hp3 ! x = (if x = ?n then (hp ! a)\<lparr>BUCKET_OVERFLOW := Some (Suc ?n)\<rparr> else hp2 ! x)" for x
      using c(5) c(6) [of ?n] by (simp add: hp3_def nth_list_update)
    have "copy_bucket_chain hp a = Some (hp3, ?n)"
      by (subst copy_bucket_chain.simps) (simp add: Some Let_def c(1) hp3_def)
    moreover have "chain hp3 (Some ?n) (?n # as2)"
    proof -
      have "chain hp3 (Some (Suc ?n)) as2" by (rule chain_cong [OF _ c(2)]) (use c(4) n in \<open>auto simp: hp3_def\<close>)
      then show ?thesis using n [of ?n] c(5) by (simp add: hp3_def)
    qed
    moreover have "twins hp (a # as) hp3 (?n # as2)"
    proof -
      have "twins hp as hp3 as2"
        by (rule twins_cong [OF c(3)]) (use chain_bound [OF ch] c(4) n in \<open>auto simp: nth_append\<close>)
      then show ?thesis using n [of ?n] by (simp add: twins_def)
    qed
    moreover have "\<forall>x < ?n. hp3 ! x = hp ! x" using n c(6) by (simp add: nth_append)
    moreover have "?n \<le> length hp3" "set (?n # as2) \<subseteq> {?n..}" using c(4,5) by (auto simp: hp3_def)
    ultimately show ?thesis using a(1) by blast
  qed
qed simp

text \<open>The copied slots below \<open>j\<close>, with \<open>cs'\<close> their chains.\<close>

definition copied :: "heap \<Rightarrow> hashtable \<Rightarrow> (nat \<Rightarrow> nat list) \<Rightarrow> nat \<Rightarrow> heap \<Rightarrow> nat option list \<Rightarrow> (nat \<Rightarrow> nat list) \<Rightarrow> bool" where
  "copied hp t cs j hp' dst cs' \<longleftrightarrow> length dst = j \<and> length hp \<le> length hp' \<and> (\<forall>b < length hp. hp' ! b = hp ! b) \<and>
     (\<forall>i < j. chain hp' (dst ! i) (cs' i) \<and> twins hp (cs i) hp' (cs' i) \<and> set (cs' i) \<subseteq> {length hp..}) \<and>
     (\<forall>i < j. \<forall>k < j. if HASHTABLE_DIRECTORY t ! i = HASHTABLE_DIRECTORY t ! k then dst ! i = dst ! k
        else set (cs' i) \<inter> set (cs' k) = {})"

lemma copied_shape:
  assumes sh: "shape hp t cs bb" and c: "copied hp t cs (dir_size t) hp' dst cs'"
    and t': "t' = t\<lparr>HASHTABLE_DIRECTORY := dst\<rparr>"
  shows "shape hp' t' cs' bb" "\<And>j. j < dir_size t \<Longrightarrow> ents hp' (cs' j) = ents hp (cs j)" "footprint t' cs' \<subseteq> {length hp..}"
proof -
  have ds: "dir_size t' = dir_size t" by (simp add: t' dir_size_def)
  have j: "chain hp' (dst ! j) (cs' j) \<and> twins hp (cs j) hp' (cs' j) \<and> set (cs' j) \<subseteq> {length hp..}" if "j < dir_size t" for j
    using c that unfolding copied_def by blast
  show "ents hp' (cs' j) = ents hp (cs j)" if "j < dir_size t" for j using twins_ents j [OF that] by metis
  show "footprint t' cs' \<subseteq> {length hp..}" using j by (auto simp: footprint_def ds)
  have ne: "cs' i = [] \<longleftrightarrow> cs i = []" if "i < dir_size t" for i using j [OF that] by (auto simp: twins_def)
  have "slot_ok hp' t' cs' bb i" if "i < dir_size t" for i
  proof -
    have l: "length (cs i) = length (cs' i)" "\<forall>n < length (cs i). BUCKET_BITS (hp ! (cs i ! n)) = BUCKET_BITS (hp' ! (cs' i ! n))
        \<and> SLOTS (hp ! (cs i ! n)) = SLOTS (hp' ! (cs' i ! n))"
      using j [OF that] by (auto simp: twins_def list_all2_conv_all_nth)
    have "length (SLOTS (hp' ! a)) = BUCKET_CAPACITY \<and> BUCKET_BITS (hp' ! a) = bb i" if a: "a \<in> set (cs' i)" for a
    proof -
      obtain n where n: "n < length (cs i)" "a = cs' i ! n" using a l(1) by (metis in_set_conv_nth)
      then have "cs i ! n \<in> set (cs i)" by simp
      then show ?thesis using shape_chain(4,5) [OF sh \<open>i < dir_size t\<close>] l(2) n by metis
    qed
    then show ?thesis using j [OF that] ne [OF that] shape_chain(6) [OF sh that] by (simp add: slot_ok_def t')
  qed
  moreover have "sharing t' cs' bb"
    unfolding sharing_def ds
  proof (intro allI impI)
    fix i k assume i: "i < dir_size t" and k: "k < dir_size t" and n: "cs' k \<noteq> []"
    have nk: "cs k \<noteq> []" using ne [OF k] n by simp
    have p: "if HASHTABLE_DIRECTORY t ! i = HASHTABLE_DIRECTORY t ! k then dst ! i = dst ! k else set (cs' i) \<inter> set (cs' k) = {}"
      using c i k unfolding copied_def by blast
    have "i mod 2 ^ bb k = k mod 2 ^ bb k \<longleftrightarrow> HASHTABLE_DIRECTORY t ! i = HASHTABLE_DIRECTORY t ! k"
    proof
      assume "HASHTABLE_DIRECTORY t ! i = HASHTABLE_DIRECTORY t ! k"
      then have "cs i = cs k" using shape_chain(1) [OF sh i] shape_chain(1) [OF sh k] chain_unique by metis
      then have "hd (cs k) \<in> set (cs i)" "hd (cs k) \<in> set (cs k)" using nk by simp_all
      then show "i mod 2 ^ bb k = k mod 2 ^ bb k" by (rule shape_meet(1) [OF sh i k])
    qed (rule shape_share(1) [OF sh i k nk])
    then show "if i mod 2 ^ bb k = k mod 2 ^ bb k then HASHTABLE_DIRECTORY t' ! i = HASHTABLE_DIRECTORY t' ! k
        else set (cs' i) \<inter> set (cs' k) = {}" using p by (simp add: t')
  qed
  ultimately show "shape hp' t' cs' bb" using sh c by (simp add: shape_def ds) (simp add: t' copied_def)
qed

lemma copied_step:
  assumes c: "copied hp t cs j hp' dst cs'" and j: "length hp' \<le> length hp2" "\<forall>b < length hp'. hp2 ! b = hp' ! b"
    and new: "chain hp2 d as" "twins hp (cs j) hp2 as" "set as \<subseteq> {length hp..}"
    and sep: "\<And>i. i < j \<Longrightarrow> if HASHTABLE_DIRECTORY t ! i = HASHTABLE_DIRECTORY t ! j then dst ! i = d else set (cs' i) \<inter> set as = {}"
    and old: "\<And>i a. i < j \<Longrightarrow> a \<in> set (cs i) \<Longrightarrow> a < length hp"
  shows "copied hp t cs (Suc j) hp2 (dst @ [d]) (cs'(j := as))"
proof -
  have l: "length dst = j" "length hp \<le> length hp'" "\<forall>b < length hp. hp' ! b = hp ! b"
    "\<And>i. i < j \<Longrightarrow> chain hp' (dst ! i) (cs' i) \<and> twins hp (cs i) hp' (cs' i) \<and> set (cs' i) \<subseteq> {length hp..}"
    "\<And>i k. i < j \<Longrightarrow> k < j \<Longrightarrow> if HASHTABLE_DIRECTORY t ! i = HASHTABLE_DIRECTORY t ! k then dst ! i = dst ! k
        else set (cs' i) \<inter> set (cs' k) = {}"
    using c unfolding copied_def by blast+
  have up: "chain hp2 (dst ! i) (cs' i) \<and> twins hp (cs i) hp2 (cs' i)" if "i < j" for i
  proof
    have h: "hp2 ! a = hp' ! a" if "a \<in> set (cs' i)" for a using chain_bound [of hp' "dst ! i"] l(4) [OF \<open>i < j\<close>] that j(2) by blast
    show "chain hp2 (dst ! i) (cs' i)" using chain_cong_grow(1) [of hp' _ _ hp2] l(4) [OF that] j(1) h by blast
    show "twins hp (cs i) hp2 (cs' i)" using twins_cong [of hp "cs i" hp' "cs' i" hp hp2] l(4) [OF that] h by blast
  qed
  show ?thesis
    unfolding copied_def
  proof (intro conjI allI impI)
    show "length (dst @ [d]) = Suc j" "length hp \<le> length hp2" using l(1,2) j(1) by simp_all
    show "hp2 ! b = hp ! b" if "b < length hp" for b using that l(2,3) j(2) by simp
    fix i assume i: "i < Suc j"
    have "chain hp2 ((dst @ [d]) ! i) ((cs'(j := as)) i) \<and> twins hp (cs i) hp2 ((cs'(j := as)) i) \<and> set ((cs'(j := as)) i) \<subseteq> {length hp..}"
    proof (cases "i = j")
      case True
      then show ?thesis using new l(1) by (simp add: nth_append)
    next
      case False
      then have "i < j" using i by simp
      then show ?thesis using up [of i] l(4) [of i] l(1) False by (simp add: nth_append)
    qed
    then show "chain hp2 ((dst @ [d]) ! i) ((cs'(j := as)) i)" "twins hp (cs i) hp2 ((cs'(j := as)) i)" "set ((cs'(j := as)) i) \<subseteq> {length hp..}"
      by blast+
    fix k assume k: "k < Suc j"
    show "if HASHTABLE_DIRECTORY t ! i = HASHTABLE_DIRECTORY t ! k then (dst @ [d]) ! i = (dst @ [d]) ! k
        else set ((cs'(j := as)) i) \<inter> set ((cs'(j := as)) k) = {}"
    proof (cases "i = j"; cases "k = j")
      assume "i = j" "k \<noteq> j"
      then have n: "(dst @ [d]) ! i = d" "(dst @ [d]) ! k = dst ! k" "k < j" using k l(1) by (simp_all add: nth_append)
      then show ?thesis using sep [OF n(3)] \<open>i = j\<close> \<open>k \<noteq> j\<close>
        by (cases "HASHTABLE_DIRECTORY t ! k = HASHTABLE_DIRECTORY t ! j") (simp_all add: Int_commute)
    next
      assume "i \<noteq> j" "k = j"
      then have n: "(dst @ [d]) ! k = d" "(dst @ [d]) ! i = dst ! i" "i < j" using i l(1) by (simp_all add: nth_append)
      then show ?thesis using sep [OF n(3)] \<open>k = j\<close> \<open>i \<noteq> j\<close>
        by (cases "HASHTABLE_DIRECTORY t ! i = HASHTABLE_DIRECTORY t ! j") simp_all
    next
      assume "i \<noteq> j" "k \<noteq> j"
      then show ?thesis using l(5) [of i k] i k l(1) by (simp add: nth_append)
    qed simp
  qed
qed

lemma copy_dir_result:
  assumes sh: "shape hp t cs bb" and j: "j \<le> dir_size t" and c: "copied hp t cs j hp' dst cs'"
  shows "\<exists>hp2 dst2 cs2. copy_dir_loop hp' j (drop j (HASHTABLE_DIRECTORY t)) dst = Some (hp2, dst2) \<and>
    copied hp t cs (dir_size t) hp2 dst2 cs2"
  using j c
proof (induction "dir_size t - j" arbitrary: j hp' dst cs')
  case 0
  then show ?case using sh by (auto simp: shape_def)
next
  case (Suc n)
  then have jN: "j < dir_size t" by simp
  have l: "length (HASHTABLE_DIRECTORY t) = dir_size t" "HASHTABLE_DIR_BITS t \<le> 29" using sh by (simp_all add: shape_def)
  have d: "drop j (HASHTABLE_DIRECTORY t) = HASHTABLE_DIRECTORY t ! j # drop (Suc j) (HASHTABLE_DIRECTORY t)"
    using jN l(1) by (simp add: Cons_nth_drop_Suc)
  have IH: "\<exists>hp2 dst2 cs2. copy_dir_loop hp' (Suc j) (drop (Suc j) (HASHTABLE_DIRECTORY t)) dst = Some (hp2, dst2) \<and>
      copied hp t cs (dir_size t) hp2 dst2 cs2" if "copied hp t cs (Suc j) hp' dst cs'" for hp' dst cs'
    using Suc(1) [OF _ _ that] Suc(2) jN by simp
  have old: "a < length hp" if "i < j" "a \<in> set (cs i)" for i a using shape_chain(3) [OF sh _ that(2)] that(1) jN by simp
  have lh: "length hp \<le> length hp'" "\<forall>b < length hp. hp' ! b = hp ! b" using Suc(4) unfolding copied_def by blast+
  note step = copied_step [OF Suc(4) _ _ _ _ _ _ old]
  have ch: "chain hp (HASHTABLE_DIRECTORY t ! j) (cs j)" by (rule shape_chain(1) [OF sh jN])
  show ?case
  proof (cases "HASHTABLE_DIRECTORY t ! j")
    case None
    then have e: "cs j = []" using ch by simp
    have "copied hp t cs (Suc j) hp' (dst @ [None]) (cs'(j := []))"
    proof (rule step)
      fix i assume i: "i < j"
      have "chain hp (HASHTABLE_DIRECTORY t ! i) (cs i)" by (rule shape_chain(1) [OF sh]) (use i jN in simp)
      moreover have "chain hp' (dst ! i) (cs' i)" "twins hp (cs i) hp' (cs' i)" using Suc(4) i unfolding copied_def by blast+
      ultimately show "if HASHTABLE_DIRECTORY t ! i = HASHTABLE_DIRECTORY t ! j then dst ! i = None else set (cs' i) \<inter> set [] = {}"
        using None by (auto simp: twins_def)
    qed (simp_all add: e twins_def)
    from IH [OF this] show ?thesis by (simp add: d None)
  next
    case (Some a)
    then have f: "cs j \<noteq> []" "BUCKET_BITS (hp ! a) = bb j" "primary_slot j (bb j) = (j < 2 ^ bb j)"
      using shape_first [OF sh jN, of a] by auto
    have a: "a \<in> set (cs j)" using ch Some f(1) by (cases "cs j") auto
    then have "a < length hp" by (rule shape_chain(3) [OF sh jN])
    then have ba: "BUCKET_BITS (hp' ! a) = bb j" using lh f(2) by simp
    have bj: "bb j \<le> HASHTABLE_DIR_BITS t" by (rule shape_chain(6) [OF sh jN f(1)])
    show ?thesis
    proof (cases "j < 2 ^ bb j")
      case False
      define i0 where "i0 = j mod 2 ^ bb j"
      have "i0 < 2 ^ bb j" by (simp add: i0_def)
      then have i0: "i0 < j" "i0 < dir_size t" using False jN by simp_all
      have "j < 2 ^ 29" using jN power_increasing [OF l(2), of "2 :: nat"] by (simp add: dir_size_def)
      then have ix: "unat ((of_nat (4 * j) :: u32) AND NOT (push_bit (bb j) (NOT 3))) div 4 = i0"
        using primary_index [of j "bb j"] bj l(2) by (simp add: i0_def)
      have s: "HASHTABLE_DIRECTORY t ! i0 = HASHTABLE_DIRECTORY t ! j" "cs i0 = cs j"
        using shape_share [OF sh i0(2) jN f(1)] by (simp_all add: i0_def)
      have ci: "chain hp' (dst ! i0) (cs' i0)" "twins hp (cs i0) hp' (cs' i0)" "set (cs' i0) \<subseteq> {length hp..}"
        using Suc(4) i0(1) unfolding copied_def by blast+
      have "copied hp t cs (Suc j) hp' (dst @ [dst ! i0]) (cs'(j := cs' i0))"
      proof (rule step)
        fix i assume i: "i < j"
        have "if HASHTABLE_DIRECTORY t ! i = HASHTABLE_DIRECTORY t ! i0 then dst ! i = dst ! i0 else set (cs' i) \<inter> set (cs' i0) = {}"
          using Suc(4) i i0(1) unfolding copied_def by blast
        then show "if HASHTABLE_DIRECTORY t ! i = HASHTABLE_DIRECTORY t ! j then dst ! i = dst ! i0 else set (cs' i) \<inter> set (cs' i0) = {}"
          using s(1) by simp
      qed (use ci s in simp_all)
      from IH [OF this] show ?thesis using f(3) False ix by (simp add: d Some ba Let_def)
    next
      case True
      have ch': "chain hp' (Some a) (cs j)"
        using chain_cong_grow(1) [OF ch lh(1)] lh(2) shape_chain(3) [OF sh jN] Some by simp
      obtain hp2 as where k: "copy_bucket_chain hp' a = Some (hp2, length hp')" "chain hp2 (Some (length hp')) as" "twins hp' (cs j) hp2 as"
        "set as \<subseteq> {length hp'..}" "length hp' \<le> length hp2" "\<forall>b < length hp'. hp2 ! b = hp' ! b"
        using copy_chain_result [OF ch'] by blast
      have tw: "twins hp (cs j) hp2 as"
        by (rule twins_cong [OF k(3)]) (use lh(2) shape_chain(3) [OF sh jN] in auto)
      have "copied hp t cs (Suc j) hp2 (dst @ [Some (length hp')]) (cs'(j := as))"
      proof (rule step [OF k(5,6,2) tw])
        show "set as \<subseteq> {length hp..}" using k(4) lh(1) by auto
        fix i assume i: "i < j"
        have iN: "i < dir_size t" using i jN by simp
        have "HASHTABLE_DIRECTORY t ! i \<noteq> HASHTABLE_DIRECTORY t ! j"
        proof
          assume "HASHTABLE_DIRECTORY t ! i = HASHTABLE_DIRECTORY t ! j"
          then have "cs i = cs j" using shape_chain(1) [OF sh iN] ch chain_unique by metis
          then have "i mod 2 ^ bb j = j mod 2 ^ bb j" using shape_meet(1) [OF sh iN jN _ a] a by simp
          then show False using True i by simp
        qed
        moreover have "set (cs' i) \<inter> set as = {}"
        proof -
          have "chain hp' (dst ! i) (cs' i)" using Suc(4) i unfolding copied_def by blast
          then show ?thesis using chain_bound k(4) by fastforce
        qed
        ultimately show "if HASHTABLE_DIRECTORY t ! i = HASHTABLE_DIRECTORY t ! j then dst ! i = Some (length hp') else set (cs' i) \<inter> set as = {}"
          by simp
      qed
      from IH [OF this] show ?thesis using f(3) True by (simp add: d Some ba Let_def k(1))
    qed
  qed
qed

context key_contract
begin

lemma visit_entry:
  assumes sh: "shape hp t cs bb" and pl: "placed kh valid hp t cs bb" and j: "j < dir_size t"
    and e: "e \<in> set (visit hp cs bb j)"
  shows "\<exists>k v. e = (kh k, k, v) \<and> (k, v) \<in> assocs kh valid hp t cs \<and> cs (hidx (kh k) mod dir_size t) = cs j \<and> cs j \<noteq> [] \<and> j < 2 ^ bb j"
proof -
  have m: "e \<in> set (ents hp (cs j))" "live e" "cs j \<noteq> []" "j < 2 ^ bb j"
    using e by (auto simp: visit_def split: if_splits)
  from entry_cases [OF pl j m(1)] obtain k v where "e = (kh k, k, v)" "valid k" "hidx (kh k) mod 2 ^ bb j = j mod 2 ^ bb j"
    using m(2) by metis
  then show ?thesis using m shape_same_slot [OF sh j m(3), of "hidx (kh k)"] by (auto simp: assocs_def)
qed

lemma apart_distinct:
  assumes "apart same es" "\<And>e. e \<in> set es \<Longrightarrow> live e \<Longrightarrow> valid (fst (snd e))"
  shows "distinct (filter live es)"
  using assms
proof (induction es)
  case (Cons e es)
  have a: "apart same es" "live e \<Longrightarrow> z \<in> set es \<Longrightarrow> live z \<Longrightarrow> \<not> same (fst (snd e)) (fst (snd z))" for z
    using Cons.prems(1) by (auto simp: apart_def split: if_splits simp del: split_paired_All)
  have "live e \<Longrightarrow> e \<notin> set es" using a(2) [of e] same_refl [OF Cons.prems(2) [of e]] by auto
  then show ?case using Cons.IH [OF a(1)] Cons.prems(2) by auto
qed simp

lemma foreach_rep:
  assumes R: "table_rep kh valid same hp t F S"
  shows "\<exists>es. distinct es \<and> set es = (\<lambda>(k, v). (kh k, k, v)) ` S \<and>
    (\<forall>fn info. hashtable_foreach hp t fn info = Some (foldl fn info es))"
proof -
  obtain cs bb where sh: "shape hp t cs bb" and pl: "placed kh valid hp t cs bb" and un: "unique_keys same hp t cs"
    and S: "S = assocs kh valid hp t cs"
    using R by (auto simp: table_rep_def)
  let ?G = "visit hp cs bb" and ?N = "dir_size t"
  let ?es = "concat (map ?G [0..<?N])"
  have "distinct ?es"
  proof (rule distinct_concat_map)
    fix j assume "j \<in> set [0..<?N]"
    then have j: "j < ?N" by simp
    have "valid (fst (snd e))" if "e \<in> set (ents hp (cs j))" "live e" for e
      using entry_cases [OF pl j that(1)] that(2) by (metis fst_conv snd_conv)
    then show "distinct (?G j)" using un j apart_distinct [of "ents hp (cs j)"] by (simp add: visit_def unique_keys_def)
  next
    fix i j assume "i \<in> set [0..<?N]" "j \<in> set [0..<?N]" and ne: "i \<noteq> j"
    then have ij: "i < ?N" "j < ?N" by simp_all
    show "set (?G i) \<inter> set (?G j) = {}"
    proof (rule ccontr)
      assume "set (?G i) \<inter> set (?G j) \<noteq> {}"
      then obtain e where e: "e \<in> set (?G i)" "e \<in> set (?G j)" by blast
      obtain k v where 1: "e = (kh k, k, v)" "cs (hidx (kh k) mod ?N) = cs i" "i < 2 ^ bb i" using visit_entry [OF sh pl ij(1) e(1)] by blast
      obtain k' v' where 2: "e = (kh k', k', v')" "cs (hidx (kh k') mod ?N) = cs j" "j < 2 ^ bb j" "cs j \<noteq> []"
        using visit_entry [OF sh pl ij(2) e(2)] by blast
      have c: "cs i = cs j" using 1 2 by simp
      then have h: "hd (cs j) \<in> set (cs i)" "hd (cs j) \<in> set (cs j)" using 2(4) by simp_all
      have "i mod 2 ^ bb j = j mod 2 ^ bb j" "bb i = bb j" using shape_meet [OF sh ij h] by blast+
      then show False using 1(3) 2(3) ne by simp
    qed
  qed simp
  moreover have "set ?es = (\<lambda>(k, v). (kh k, k, v)) ` S"
  proof (intro equalityI subsetI)
    fix e assume "e \<in> set ?es"
    then obtain j where "j < ?N" "e \<in> set (?G j)" by auto
    then show "e \<in> (\<lambda>(k, v). (kh k, k, v)) ` S" using visit_entry [OF sh pl, of j e] S by fastforce
  next
    fix e assume "e \<in> (\<lambda>(k, v). (kh k, k, v)) ` S"
    then obtain k v where e: "e = (kh k, k, v)" "(k, v) \<in> S" by auto
    define i where "i = hidx (kh k) mod ?N"
    have k: "valid k" "e \<in> set (ents hp (cs i))" using e S by (auto simp: assocs_def i_def)
    have i: "i < ?N" by (simp add: i_def dir_size_def)
    have ne: "cs i \<noteq> []" using k(2) by auto
    define j where "j = i mod 2 ^ bb i"
    have j: "j < ?N" unfolding j_def by (rule le_less_trans [OF mod_less_eq_dividend i])
    have "j mod 2 ^ bb i = i mod 2 ^ bb i" by (simp add: j_def)
    from shape_share [OF sh j i ne this] have c: "cs j = cs i" "bb j = bb i" by simp_all
    then have "e \<in> set (?G j)" using k kh_live [OF k(1), of v] e(1) ne by (simp add: visit_def j_def)
    then show "e \<in> set ?es" using j by auto
  qed
  moreover have "\<forall>fn info. hashtable_foreach hp t fn info = Some (foldl fn info ?es)"
    by (simp add: hashtable_foreach_def foreach_dir_foldl [OF sh, of 0, simplified])
  ultimately show ?thesis by blast
qed

lemma keys_rep:
  assumes R: "table_rep kh valid same hp t F S"
  shows "\<exists>ks vs. hashtable_keys_to_list hp t = Some ks \<and> hashtable_values_to_list hp t = Some vs \<and>
    distinct ks \<and> set (zip ks vs) = S \<and> length vs = length ks"
proof -
  obtain cs bb where sh: "shape hp t cs bb" and pl: "placed kh valid hp t cs bb" and un: "unique_keys same hp t cs"
    and S: "S = assocs kh valid hp t cs"
    using R by (auto simp: table_rep_def)
  obtain es where es: "distinct es" "set es = (\<lambda>(k, v). (kh k, k, v)) ` S"
    "\<And>fn info. hashtable_foreach hp t fn (info :: u32 list) = Some (foldl fn info es)"
    using foreach_rep [OF R] by blast
  define key where "key = (\<lambda>e :: entry. fst (snd e))"
  define val where "val = (\<lambda>e :: entry. snd (snd e))"
  have f: "foldl accum_key i es = rev (map key es) @ i" "foldl accum_value i es = rev (map val es) @ i" for i
    by (induction es arbitrary: i) (auto simp: accum_key_def accum_value_def key_def val_def)
  have "inj_on key (set es)"
  proof (rule inj_onI)
    fix x y assume "x \<in> set es" "y \<in> set es" and k: "key x = key y"
    then obtain k1 v1 k2 v2 where x: "x = (kh k1, k1, v1)" "(k1, v1) \<in> S" and y: "y = (kh k2, k2, v2)" "(k2, v2) \<in> S"
      using es(2) by auto
    then have "k1 = k2" "valid k1" using k S by (auto simp: key_def assocs_def)
    then show "x = y" using assocs_unique [OF sh pl un, of k1 v1 k2 v2] x y S same_refl by auto
  qed
  then have "distinct (rev (map key es))" using es(1) by (simp add: distinct_map)
  moreover have "set (zip (rev (map key es)) (rev (map val es))) = S"
  proof -
    have "zip (map key es) (map val es) = map (\<lambda>e. (key e, val e)) es" by (induction es) simp_all
    then have "set (zip (map key es) (map val es)) = (\<lambda>e. (key e, val e)) ` set es" by simp
    also have "\<dots> = S" unfolding es(2) by (force simp: key_def val_def)
    finally show ?thesis by (simp add: zip_rev)
  qed
  ultimately show ?thesis
    using es(3) f by (simp add: hashtable_keys_to_list_def hashtable_values_to_list_def)
qed

lemma empty_rep:
  assumes "HASHTABLE_DIR_BITS t \<le> 29" "HASHTABLE_DIRECTORY t = replicate (dir_size t) None" "HASHTABLE_COUNT t = ZERO"
  shows "table_rep kh valid same hp t {} {}"
  unfolding table_rep_def
proof (intro exI conjI)
  show "shape hp t (\<lambda>_. []) (\<lambda>_. 0)" using assms by (simp add: shape_def slot_ok_def sharing_def)
  show "placed kh valid hp t (\<lambda>_. []) (\<lambda>_. 0)" "unique_keys same hp t (\<lambda>_. [])"
    by (simp_all add: placed_def unique_keys_def apart_def)
  show "{} = footprint t (\<lambda>_. [])" "{} = assocs kh valid hp t (\<lambda>_. [])" by (simp_all add: footprint_def assocs_def)
qed (use assms(3) in \<open>simp add: ZERO_def\<close>)

lemma clear_rep:
  assumes R: "table_rep kh valid same hp t F S" and small: "card S < 2 ^ 29"
  shows "\<exists>F'. table_rep kh valid same hp (hashtable_clear t) F' {} \<and> F' \<subseteq> F"
proof (cases "HASHTABLE_COUNT t = ZERO")
  case True
  have "HASHTABLE_COUNT t = int2fx (of_nat (card S))" "finite S" using R finite_assocs by (auto simp: table_rep_def)
  then have "push_bit 2 (of_nat (card S) :: u32) = 0" using True by (simp add: ZERO_def int2fx_def)
  then have "unat (push_bit 2 (of_nat (card S) :: u32)) = 0" by simp
  then have "card S = 0" using small by (simp add: push_bit_eq_mult unat_word_ariths unat_of_nat)
  then show ?thesis using R True \<open>finite S\<close> by (auto simp: hashtable_clear_def)
next
  case False
  obtain cs bb where sh: "shape hp t cs bb" using R by (auto simp: table_rep_def)
  have "table_rep kh valid same hp (hashtable_clear t) {} {}"
    using sh False by (intro empty_rep) (auto simp: hashtable_clear_def shape_def dir_size_def map_replicate_const)
  then show ?thesis by blast
qed

lemma copy_rep:
  assumes R: "table_rep kh valid same hp t F S"
  shows "\<exists>hp' t' F'. hashtable_copy hp t = Some (hp', t') \<and> table_rep kh valid same hp' t' F' S \<and> F' \<subseteq> {length hp..} \<and>
    length hp \<le> length hp' \<and> (\<forall>b < length hp. hp' ! b = hp ! b)"
proof -
  obtain cs bb where sh: "shape hp t cs bb" and pl: "placed kh valid hp t cs bb" and un: "unique_keys same hp t cs"
    and S: "S = assocs kh valid hp t cs" and c: "HASHTABLE_COUNT t = int2fx (of_nat (card S))"
    using R by (auto simp: table_rep_def)
  have "copied hp t cs 0 hp [] cs" by (simp add: copied_def)
  then obtain hp' dst cs' where d: "copy_dir_loop hp 0 (HASHTABLE_DIRECTORY t) [] = Some (hp', dst)" "copied hp t cs (dir_size t) hp' dst cs'"
    using copy_dir_result [OF sh, of 0] by fastforce
  define t' where "t' = t\<lparr>HASHTABLE_DIRECTORY := dst\<rparr>"
  note s = copied_shape [OF sh d(2) t'_def]
  have ds: "dir_size t' = dir_size t" by (simp add: t'_def dir_size_def)
  have N: "x mod dir_size t < dir_size t" for x by (simp add: dir_size_def)
  have "placed kh valid hp' t' cs' bb" using pl s(2) by (simp add: placed_def ds)
  moreover have "unique_keys same hp' t' cs'" using un s(2) by (simp add: unique_keys_def ds)
  moreover have "assocs kh valid hp' t' cs' = S" using s(2) N S by (simp add: assocs_def ds)
  ultimately have "table_rep kh valid same hp' t' (footprint t' cs') S"
    using s(1) c unfolding table_rep_def by (intro exI [of _ cs'] exI [of _ bb]) (simp add: t'_def)
  moreover have "length hp \<le> length hp'" "\<forall>b < length hp. hp' ! b = hp ! b" using d(2) unfolding copied_def by blast+
  ultimately show ?thesis using d(1) s(3) by (auto simp: hashtable_copy_def t'_def)
qed

lemma frame_rep:
  assumes R: "table_rep kh valid same hp t F S" and fr: "length hp \<le> length hp'" "\<And>a. a \<in> F \<Longrightarrow> hp' ! a = hp ! a"
  shows "table_rep kh valid same hp' t F S"
proof -
  obtain cs bb where sh: "shape hp t cs bb" and pl: "placed kh valid hp t cs bb" and un: "unique_keys same hp t cs"
    and S: "S = assocs kh valid hp t cs" and F: "F = footprint t cs" and c: "HASHTABLE_COUNT t = int2fx (of_nat (card S))"
    using R by (auto simp: table_rep_def)
  have h: "hp' ! a = hp ! a" if "j < dir_size t" "a \<in> set (cs j)" for j a using that fr(2) F by (auto simp: footprint_def)
  have e: "ents hp' (cs j) = ents hp (cs j)" if "j < dir_size t" for j using h [OF that] by (intro ents_cong) simp
  have "slot_ok hp' t cs bb j" if "j < dir_size t" for j
    using chain_cong_grow(1) [OF shape_chain(1) [OF sh that] fr(1) h [OF that]] h [OF that] shape_chain(4-6) [OF sh that]
    by (simp add: slot_ok_def)
  then have "shape hp' t cs bb" using sh by (simp add: shape_def)
  moreover have "placed kh valid hp' t cs bb" "unique_keys same hp' t cs" using pl un e by (simp_all add: placed_def unique_keys_def)
  moreover have "assocs kh valid hp' t cs = S" using e S by (simp add: assocs_def dir_size_def)
  ultimately show ?thesis using F c by (auto simp: table_rep_def)
qed

end

section \<open>Tables as maps\<close>

text \<open>The map a table stands for, from what \<open>key\<close> makes of the key objects: two keys are the same when it makes
  the same of them.\<close>

definition denotes :: "(u32 \<Rightarrow> u32) \<Rightarrow> (u32 \<Rightarrow> bool) \<Rightarrow> (u32 \<Rightarrow> 'x) \<Rightarrow> heap \<Rightarrow> hashtable \<Rightarrow> nat set \<Rightarrow> ('x \<Rightarrow> u32 option) \<Rightarrow> bool" where
  "denotes kh valid key hp t F m \<longleftrightarrow>
     (\<exists>S. table_rep kh valid (\<lambda>k k'. key k = key k') hp t F S \<and> (\<forall>x v. m x = Some v \<longleftrightarrow> (\<exists>k. (k, v) \<in> S \<and> key k = x)))"

definition value_or_false :: "u32 option \<Rightarrow> u32" where
  "value_or_false r = (case r of None \<Rightarrow> FALSE_OBJ | Some v \<Rightarrow> v)"

locale keyed_table = key_contract kh valid "\<lambda>k k'. key k = key k'" cmp
  for kh :: "u32 \<Rightarrow> u32" and valid :: "u32 \<Rightarrow> bool" and key :: "u32 \<Rightarrow> 'x" and cmp :: key_cmp
begin

lemma rep_unique:
  assumes "table_rep kh valid (\<lambda>k k'. key k = key k') hp t F S" "(k1, v1) \<in> S" "(k2, v2) \<in> S" "key k1 = key k2"
  shows "k1 = k2" "v1 = v2"
proof -
  obtain cs bb where "shape hp t cs bb" "placed kh valid hp t cs bb" "unique_keys (\<lambda>k k'. key k = key k') hp t cs"
    "S = assocs kh valid hp t cs" using assms(1) by (auto simp: table_rep_def)
  then show "k1 = k2" "v1 = v2" using assocs_unique [of hp t cs bb k1 v1 k2 v2] assms(2-4) by auto
qed

lemma takes_map:
  assumes R: "table_rep kh valid (\<lambda>k k'. key k = key k') hp t F S" and m: "\<forall>x v. m x = Some v \<longleftrightarrow> (\<exists>k. (k, v) \<in> S \<and> key k = x)"
    and t: "takes (\<lambda>k k'. key k = key k') S k r S0"
  shows "r = value_or_false (m (key k)) \<and> (\<forall>x v. (m(key k := None)) x = Some v \<longleftrightarrow> (\<exists>k. (k, v) \<in> S0 \<and> key k = x))"
  using t unfolding takes_def
proof (elim disjE exE conjE)
  fix k' assume k': "(k', r) \<in> S" "key k = key k'" "S0 = S - {(k', r)}"
  have "m (key k) = Some r" using m k'(1,2) by metis
  then have "r = value_or_false (m (key k))" by (simp add: value_or_false_def)
  moreover have n: "\<not> (\<exists>k2. (k2, v) \<in> S0 \<and> key k2 = key k)" for v using rep_unique [OF R _ k'(1)] k'(2,3) by fastforce
  moreover have "(\<exists>k2. (k2, v) \<in> S0 \<and> key k2 = x) \<longleftrightarrow> (\<exists>k2. (k2, v) \<in> S \<and> key k2 = x)" if "x \<noteq> key k" for x v
    using k'(2,3) that by auto
  then have "(m(key k := None)) x = Some v \<longleftrightarrow> (\<exists>k. (k, v) \<in> S0 \<and> key k = x)" for x v
    using m [rule_format, of x v] n [of v] by (cases "x = key k") simp_all
  ultimately show ?thesis by blast
next
  assume k': "r = FALSE_OBJ" "\<forall>(k', v) \<in> S. key k \<noteq> key k'" "S0 = S"
  have "m (key k) \<noteq> Some v" for v
  proof
    assume "m (key k) = Some v"
    then obtain k2 where "(k2, v) \<in> S" "key k2 = key k" using m by blast
    then show False using k'(2) by fastforce
  qed
  then have n: "m (key k) = None" by (meson not_Some_eq)
  then have "m(key k := None) = m" by (simp add: fun_upd_idem)
  then show ?thesis using n m k'(1,3) by (simp add: value_or_false_def)
qed

lemma insert_map:
  assumes "\<forall>x v. (m(key k := None)) x = Some v \<longleftrightarrow> (\<exists>k. (k, v) \<in> S0 \<and> key k = x)"
  shows "\<forall>x v'. (m(key k \<mapsto> v)) x = Some v' \<longleftrightarrow> (\<exists>k'. (k', v') \<in> insert (k, v) S0 \<and> key k' = x)"
proof (intro allI)
  fix x v'
  show "(m(key k \<mapsto> v)) x = Some v' \<longleftrightarrow> (\<exists>k'. (k', v') \<in> insert (k, v) S0 \<and> key k' = x)"
    using assms [rule_format, of x v'] by (cases "x = key k") auto
qed

lemma map_lookup:
  assumes "denotes kh valid key hp t F m" "valid k"
  shows "SPECIAL_TABLE_LOOKUP cmp hp t (kh k) k = Some (value_or_false (m (key k))) \<and>
    SPECIAL_TABLE_PROBE cmp hp t (kh k) k = Some (m (key k) \<noteq> None)"
proof -
  obtain S where R: "table_rep kh valid (\<lambda>k k'. key k = key k') hp t F S" and m: "\<forall>x v. m x = Some v \<longleftrightarrow> (\<exists>k. (k, v) \<in> S \<and> key k = x)"
    using assms(1) by (auto simp: denotes_def)
  have "(\<exists>k' v. (k', v) \<in> S \<and> key k = key k') \<longleftrightarrow> m (key k) \<noteq> None" using m by (metis not_Some_eq)
  moreover obtain r S0 where l: "SPECIAL_TABLE_LOOKUP cmp hp t (kh k) k = Some r" "takes (\<lambda>k k'. key k = key k') S k r S0"
    "SPECIAL_TABLE_PROBE cmp hp t (kh k) k = Some (\<exists>k' v. (k', v) \<in> S \<and> key k = key k')"
    using lookup_rep [OF R assms(2)] by blast
  ultimately show ?thesis using takes_map [OF R m l(2)] by simp
qed

lemma map_remove:
  assumes "denotes kh valid key hp t F m" "valid k"
  shows "\<exists>hp' t'. SPECIAL_TABLE_REMOVE cmp hp t (kh k) k = Some (hp', t', value_or_false (m (key k))) \<and>
    denotes kh valid key hp' t' F (m(key k := None)) \<and> frame hp F hp' F"
proof -
  obtain S where R: "table_rep kh valid (\<lambda>k k'. key k = key k') hp t F S" and m: "\<forall>x v. m x = Some v \<longleftrightarrow> (\<exists>k. (k, v) \<in> S \<and> key k = x)"
    using assms(1) by (auto simp: denotes_def)
  obtain hp' t' r S' where r: "SPECIAL_TABLE_REMOVE cmp hp t (kh k) k = Some (hp', t', r)" "takes (\<lambda>k k'. key k = key k') S k r S'"
    "table_rep kh valid (\<lambda>k k'. key k = key k') hp' t' F S'" "frame hp F hp' F"
    using remove_rep [OF R assms(2)] by blast
  then have "denotes kh valid key hp' t' F (m(key k := None))" unfolding denotes_def using takes_map [OF R m r(2)] by blast
  then show ?thesis using r(1,4) takes_map [OF R m r(2)] by auto
qed

lemma map_insert:
  assumes "denotes kh valid key hp t F m" "valid k" "HASHTABLE_DIR_BITS t < 29"
  shows "\<exists>hp' t' F'. SPECIAL_TABLE_INSERT cmp hp t (kh k) k v = Some (hp', t', value_or_false (m (key k))) \<and>
    denotes kh valid key hp' t' F' (m(key k \<mapsto> v)) \<and> frame hp F hp' F' \<and> HASHTABLE_DIR_BITS t' \<le> HASHTABLE_DIR_BITS t + 1"
proof -
  obtain S where R: "table_rep kh valid (\<lambda>k k'. key k = key k') hp t F S" and m: "\<forall>x v. m x = Some v \<longleftrightarrow> (\<exists>k. (k, v) \<in> S \<and> key k = x)"
    using assms(1) by (auto simp: denotes_def)
  obtain hp' t' r S' F' where i: "SPECIAL_TABLE_INSERT cmp hp t (kh k) k v = Some (hp', t', r)" "takes (\<lambda>k k'. key k = key k') S k r S'"
    "table_rep kh valid (\<lambda>k k'. key k = key k') hp' t' F' (insert (k, v) S')" "frame hp F hp' F'" "HASHTABLE_DIR_BITS t' \<le> HASHTABLE_DIR_BITS t + 1"
    using insert_rep [OF R assms(2,3), of v] by blast
  have "denotes kh valid key hp' t' F' (m(key k \<mapsto> v))"
    unfolding denotes_def using i(3) insert_map [of m k S' v] takes_map [OF R m i(2)] by blast
  then show ?thesis using i(1,4,5) takes_map [OF R m i(2)] by auto
qed

lemma map_install:
  assumes "denotes kh valid key hp t F m" "valid k" "HASHTABLE_DIR_BITS t < 29" "m (key k) = None"
  shows "\<exists>hp' t' F'. hashtable_install hp t (kh k) k v = Some (hp', t') \<and>
    denotes kh valid key hp' t' F' (m(key k \<mapsto> v)) \<and> frame hp F hp' F'"
proof -
  obtain S where R: "table_rep kh valid (\<lambda>k k'. key k = key k') hp t F S" and m: "\<forall>x v. m x = Some v \<longleftrightarrow> (\<exists>k. (k, v) \<in> S \<and> key k = x)"
    using assms(1) by (auto simp: denotes_def)
  have "\<not> key k = key k'" if "(k', v) \<in> S" for k' v using m assms(4) that by (metis option.distinct(1))
  then have n: "\<forall>(k', v) \<in> S. \<not> key k = key k'" by blast
  have "m(key k := None) = m" using assms(4) by (simp add: fun_upd_idem)
  then have "\<forall>x v'. (m(key k \<mapsto> v)) x = Some v' \<longleftrightarrow> (\<exists>k'. (k', v') \<in> insert (k, v) S \<and> key k' = x)"
    using insert_map [of m k S v] m by simp
  then show ?thesis using install_rep [OF R assms(2,3) n, of v] unfolding denotes_def by blast
qed

lemma map_keys:
  assumes "denotes kh valid key hp t F m"
  shows "\<exists>ks vs. hashtable_keys_to_list hp t = Some ks \<and> hashtable_values_to_list hp t = Some vs \<and> length vs = length ks \<and>
    distinct (map key ks) \<and> map_of (zip (map key ks) vs) = m \<and> HASHTABLE_COUNT t = int2fx (of_nat (length ks))"
proof -
  obtain S where R: "table_rep kh valid (\<lambda>k k'. key k = key k') hp t F S" and m: "\<forall>x v. m x = Some v \<longleftrightarrow> (\<exists>k. (k, v) \<in> S \<and> key k = x)"
    using assms(1) by (auto simp: denotes_def)
  obtain ks vs where k: "hashtable_keys_to_list hp t = Some ks" "hashtable_values_to_list hp t = Some vs" "distinct ks"
    "set (zip ks vs) = S" "length vs = length ks" using keys_rep [OF R] by blast
  have "inj_on key (set ks)"
  proof (rule inj_onI)
    fix x y assume "x \<in> set ks" "y \<in> set ks" "key x = key y"
    then show "x = y" using rep_unique(1) [OF R] k(4,5) by (metis in_set_impl_in_set_zip1)
  qed
  then have d: "distinct (map key ks)" using k(3) by (simp add: distinct_map)
  have "map_of (zip (map key ks) vs) x = Some v \<longleftrightarrow> m x = Some v" for x v
  proof -
    have "map_of (zip (map key ks) vs) x = Some v \<longleftrightarrow> (x, v) \<in> set (zip (map key ks) vs)"
      using d k(5) by (intro map_of_eq_Some_iff) simp
    also have "\<dots> \<longleftrightarrow> (\<exists>k. (k, v) \<in> S \<and> key k = x)" unfolding zip_map1 k(4) [symmetric] by force
    finally show ?thesis using m by simp
  qed
  then have "map_of (zip (map key ks) vs) = m" by (intro ext) (metis not_None_eq)
  moreover have "card S = length ks" using distinct_card [of "zip ks vs"] k(3-5) by (simp add: distinct_zipI1)
  moreover have "HASHTABLE_COUNT t = int2fx (of_nat (card S))" using R by (auto simp: table_rep_def)
  ultimately show ?thesis using k d by auto
qed

lemma map_copy:
  assumes "denotes kh valid key hp t F m"
  shows "\<exists>hp' t' F'. hashtable_copy hp t = Some (hp', t') \<and> denotes kh valid key hp' t' F' m \<and> denotes kh valid key hp' t F m \<and>
    F' \<inter> F = {} \<and> length hp \<le> length hp'"
proof -
  obtain S where R: "table_rep kh valid (\<lambda>k k'. key k = key k') hp t F S" and m: "\<forall>x v. m x = Some v \<longleftrightarrow> (\<exists>k. (k, v) \<in> S \<and> key k = x)"
    using assms(1) by (auto simp: denotes_def)
  obtain cs bb where sh: "shape hp t cs bb" and F: "F = footprint t cs" using R by (auto simp: table_rep_def)
  have b: "a < length hp" if "a \<in> F" for a using that shape_chain(3) [OF sh] by (auto simp: F footprint_def)
  obtain hp' t' F' where c: "hashtable_copy hp t = Some (hp', t')" "table_rep kh valid (\<lambda>k k'. key k = key k') hp' t' F' S"
    "F' \<subseteq> {length hp..}" "length hp \<le> length hp'" "\<forall>b < length hp. hp' ! b = hp ! b" using copy_rep [OF R] by blast
  have "table_rep kh valid (\<lambda>k k'. key k = key k') hp' t F S" using frame_rep [OF R c(4)] c(5) b by blast
  moreover have "F' \<inter> F = {}" using c(3) b by fastforce
  ultimately show ?thesis using c(1,2,4) m unfolding denotes_def by blast
qed

lemma map_empty:
  assumes "HASHTABLE_DIR_BITS t \<le> 29" "HASHTABLE_DIRECTORY t = replicate (dir_size t) None" "HASHTABLE_COUNT t = ZERO"
  shows "denotes kh valid key hp t {} Map.empty"
  using empty_rep [OF assms] by (auto simp: denotes_def)

lemma map_clear:
  assumes "denotes kh valid key hp t F m" "card (dom m) < 2 ^ 29"
  shows "\<exists>F'. denotes kh valid key hp (hashtable_clear t) F' Map.empty \<and> F' \<subseteq> F"
proof -
  obtain S where R: "table_rep kh valid (\<lambda>k k'. key k = key k') hp t F S" and m: "\<forall>x v. m x = Some v \<longleftrightarrow> (\<exists>k. (k, v) \<in> S \<and> key k = x)"
    using assms(1) by (auto simp: denotes_def)
  have "card S = card (dom m)"
  proof (rule bij_betw_same_card)
    have "dom m = (\<lambda>(k, v). key k) ` S" using m by (force simp: dom_def)
    moreover have "inj_on (\<lambda>(k, v). key k) S" using rep_unique [OF R] by (force intro!: inj_onI)
    ultimately show "bij_betw (\<lambda>(k, v). key k) S (dom m)" by (simp add: bij_betw_def)
  qed
  then show ?thesis using clear_rep [OF R] assms(2) by (auto simp: denotes_def)
qed

lemma map_bound:
  assumes "denotes kh valid key hp t F m"
  shows "F \<subseteq> {..<length hp}"
proof -
  obtain cs bb where sh: "shape hp t cs bb" and F: "F = footprint t cs"
    using assms(1) by (auto simp: denotes_def table_rep_def)
  then show ?thesis using shape_chain(3) [OF sh] by (auto simp: F footprint_def)
qed

lemma map_frame:
  assumes "denotes kh valid key hp t F m" "frame hp G hp' G'" "F \<inter> G = {}"
  shows "denotes kh valid key hp' t F m"
proof -
  obtain S where R: "table_rep kh valid (\<lambda>k k'. key k = key k') hp t F S" and m: "\<forall>x v. m x = Some v \<longleftrightarrow> (\<exists>k. (k, v) \<in> S \<and> key k = x)"
    using assms(1) by (auto simp: denotes_def)
  obtain cs bb where sh: "shape hp t cs bb" and F: "F = footprint t cs" using R by (auto simp: table_rep_def)
  have b: "a < length hp" if "a \<in> F" for a using that shape_chain(3) [OF sh] by (auto simp: F footprint_def)
  have "table_rep kh valid (\<lambda>k k'. key k = key k') hp' t F S"
    using frame_rep [OF R, of hp'] assms(2,3) b unfolding frame_def by blast
  then show ?thesis using m unfolding denotes_def by blast
qed

end

section \<open>The three kinds of table\<close>

definition string_hash_of :: "(u32 \<Rightarrow> bvec) \<Rightarrow> u32 \<Rightarrow> u32" where
  "string_hash_of text k = raw_bytes_hash (text_of (text k))"

definition ci_string_hash_of :: "(u32 \<Rightarrow> bvec) \<Rightarrow> u32 \<Rightarrow> u32" where
  "ci_string_hash_of text k = raw_ci_bytes_hash (text_of (text k))"

lemma hash_fixnum: "FIXNUM_P (UINT_32_TO_HASH u)"
  by (simp only: UINT_32_TO_HASH_def FIXNUM_P_def TEST_PRIMARY_TAG_def primary_tag_value.simps add_0_right and_3_hash)

interpretation object_table: keyed_table obj_hash "\<lambda>k. k \<noteq> FALSE_OBJ" "\<lambda>k. k" object_cmp
  by unfold_locales (auto simp: object_cmp_def obj_hash_def Let_def hash_fixnum)

interpretation string_table: keyed_table "string_hash_of str" "\<lambda>k. string_ok (str k)" "\<lambda>k. text_of (str k)" "string_table_cmp str"
  for str
  by unfold_locales
    (auto simp: string_table_cmp_def string_eq_iff string_hash_of_def raw_bytes_hash_def hash_fixnum fixnum_not_false [OF hash_fixnum])

interpretation cistring_table: keyed_table "ci_string_hash_of str" "\<lambda>k. string_ok (str k)" "\<lambda>k. map tolower (text_of (str k))"
    "cistring_table_cmp str"
  for str
proof unfold_locales
  show "FIXNUM_P (ci_string_hash_of str k)" for k by (simp add: ci_string_hash_of_def raw_ci_bytes_hash_def hash_fixnum)
  then show "\<not> cistring_table_cmp str (ci_string_hash_of str k) FALSE_OBJ k FALSE_OBJ" for k
    using fixnum_not_false by (simp add: cistring_table_cmp_def)
  have h: "ci_string_hash_of str k = ci_string_hash_of str k'" if "map tolower (text_of (str k)) = map tolower (text_of (str k'))" for k k'
    using that ci_hash_tolower by (metis ci_string_hash_of_def)
  then show "map tolower (text_of (str k)) = map tolower (text_of (str k')) \<Longrightarrow> ci_string_hash_of str k = ci_string_hash_of str k'" for k k' .
  show "cistring_table_cmp str (ci_string_hash_of str k) (ci_string_hash_of str k') k k' \<longleftrightarrow>
      map tolower (text_of (str k)) = map tolower (text_of (str k'))"
    if "string_ok (str k)" "string_ok (str k')" for k k'
    using h [of k k'] string_cmp_text(2) [OF that] by (auto simp: cistring_table_cmp_def string_ci_eq_def Let_def)
qed auto

section \<open>Properties\<close>

text \<open>The empty table of a directory with one slot, for examples.\<close>

definition new_table :: hashtable where
  "new_table = \<lparr>HASHTABLE_DIRECTORY = [None], HASHTABLE_DIR_BITS = 0, HASHTABLE_COUNT = ZERO\<rparr>"

lemma new_table_empty: "HASHTABLE_DIR_BITS new_table = 0" "HASHTABLE_DIRECTORY new_table = replicate (dir_size new_table) None"
  "HASHTABLE_COUNT new_table = ZERO"
  by (simp_all add: new_table_def dir_size_def)

text \<open>C1: a table of objects is a map: a lookup gives the value of the key or \<^verbatim>\<open>#f\<close>, a probe says whether it has one,
  removing and inserting return the old value and change the map at the key alone, whether a slot is written or a
  bucket is split and the directory doubled; the count, the sharing of buckets by directory slots and the
  buckets of everything else are kept.  Every key but \<^verbatim>\<open>#f\<close> may be used, and the directory has to have
  fewer than \<open>2 ^ 29\<close> slots.\<close>

lemma object_table_map:
  assumes "denotes obj_hash (\<lambda>k. k \<noteq> FALSE_OBJ) (\<lambda>k. k) hp t F m" "k \<noteq> FALSE_OBJ" "HASHTABLE_DIR_BITS t < 29"
  shows "SPECIAL_TABLE_LOOKUP object_cmp hp t (obj_hash k) k = Some (value_or_false (m k)) \<and>
    SPECIAL_TABLE_PROBE object_cmp hp t (obj_hash k) k = Some (m k \<noteq> None) \<and>
    (\<exists>hp' t'. SPECIAL_TABLE_REMOVE object_cmp hp t (obj_hash k) k = Some (hp', t', value_or_false (m k)) \<and>
      denotes obj_hash (\<lambda>k. k \<noteq> FALSE_OBJ) (\<lambda>k. k) hp' t' F (m(k := None)) \<and> frame hp F hp' F) \<and>
    (\<exists>hp' t' F'. SPECIAL_TABLE_INSERT object_cmp hp t (obj_hash k) k v = Some (hp', t', value_or_false (m k)) \<and>
      denotes obj_hash (\<lambda>k. k \<noteq> FALSE_OBJ) (\<lambda>k. k) hp' t' F' (m(k \<mapsto> v)) \<and> frame hp F hp' F' \<and>
      HASHTABLE_DIR_BITS t' \<le> HASHTABLE_DIR_BITS t + 1)"
  using object_table.map_lookup [OF assms(1,2)] object_table.map_remove [OF assms(1,2)] object_table.map_insert [OF assms] by auto

lemma object_table_map_witness:
  "SPECIAL_TABLE_LOOKUP object_cmp [] new_table (obj_hash TRUE_OBJ) TRUE_OBJ = Some FALSE_OBJ"
proof -
  have "denotes obj_hash (\<lambda>k. k \<noteq> FALSE_OBJ) (\<lambda>k. k) [] new_table {} Map.empty"
    by (rule object_table.map_empty) (simp_all add: new_table_empty)
  moreover have "TRUE_OBJ \<noteq> FALSE_OBJ" by (simp add: TRUE_OBJ_def FALSE_OBJ_def MAKE_IMMOB_def)
  ultimately show ?thesis using object_table_map [of "[]" new_table "{}" Map.empty TRUE_OBJ]
    by (simp add: value_or_false_def new_table_empty)
qed

text \<open>A string table is a map from texts: keys are found by their text, whatever the string objects are, with the
  hash of \<open>raw_bytes_hash\<close>, through every insertion, removal and split.\<close>

lemma string_table_map:
  assumes "denotes (string_hash_of str) (\<lambda>k. string_ok (str k)) (\<lambda>k. text_of (str k)) hp t F m" "string_ok (str k)"
    "HASHTABLE_DIR_BITS t < 29"
  shows "SPECIAL_TABLE_LOOKUP (string_table_cmp str) hp t (string_hash_of str k) k = Some (value_or_false (m (text_of (str k)))) \<and>
    (\<exists>hp' t'. SPECIAL_TABLE_REMOVE (string_table_cmp str) hp t (string_hash_of str k) k = Some (hp', t', value_or_false (m (text_of (str k)))) \<and>
      denotes (string_hash_of str) (\<lambda>k. string_ok (str k)) (\<lambda>k. text_of (str k)) hp' t' F (m(text_of (str k) := None))) \<and>
    (\<exists>hp' t' F'. SPECIAL_TABLE_INSERT (string_table_cmp str) hp t (string_hash_of str k) k v = Some (hp', t', value_or_false (m (text_of (str k)))) \<and>
      denotes (string_hash_of str) (\<lambda>k. string_ok (str k)) (\<lambda>k. text_of (str k)) hp' t' F' (m(text_of (str k) \<mapsto> v)))"
  using string_table.map_lookup [OF assms(1,2)] string_table.map_remove [OF assms(1,2)] string_table.map_insert [OF assms] by metis

lemma string_table_map_witness:
  "SPECIAL_TABLE_LOOKUP (string_table_cmp (\<lambda>k. make_string [])) [] new_table (string_hash_of (\<lambda>k. make_string []) 3) 3 = Some FALSE_OBJ"
proof -
  have "denotes (string_hash_of (\<lambda>k. make_string [])) (\<lambda>k. string_ok (make_string [])) (\<lambda>k. text_of (make_string [])) [] new_table {} Map.empty"
    by (rule string_table.map_empty) (simp_all add: new_table_empty)
  then show ?thesis using string_table_map [of "\<lambda>k. make_string []" "[]" new_table "{}" Map.empty 3]
    by (simp add: value_or_false_def new_table_empty make_string_ok)
qed

text \<open>C9: a case-insensitive string table is a map from texts in lower case: the hash, made with bit 5 of every byte
  set, is the same for texts that \<open>string_ci_eq\<close> takes for equal.\<close>

lemma cistring_table_map:
  assumes "denotes (ci_string_hash_of str) (\<lambda>k. string_ok (str k)) (\<lambda>k. map tolower (text_of (str k))) hp t F m" "string_ok (str k)"
    "HASHTABLE_DIR_BITS t < 29"
  shows "SPECIAL_TABLE_LOOKUP (cistring_table_cmp str) hp t (ci_string_hash_of str k) k
      = Some (value_or_false (m (map tolower (text_of (str k))))) \<and>
    (\<exists>hp' t' F'. SPECIAL_TABLE_INSERT (cistring_table_cmp str) hp t (ci_string_hash_of str k) k v
        = Some (hp', t', value_or_false (m (map tolower (text_of (str k))))) \<and>
      denotes (ci_string_hash_of str) (\<lambda>k. string_ok (str k)) (\<lambda>k. map tolower (text_of (str k))) hp' t' F'
        (m(map tolower (text_of (str k)) \<mapsto> v)))"
  using cistring_table.map_lookup [OF assms(1,2)] cistring_table.map_insert [OF assms] by metis

lemma cistring_table_map_witness:
  "SPECIAL_TABLE_LOOKUP (cistring_table_cmp (\<lambda>k. make_string [])) [] new_table (ci_string_hash_of (\<lambda>k. make_string []) 3) 3 = Some FALSE_OBJ"
proof -
  have "denotes (ci_string_hash_of (\<lambda>k. make_string [])) (\<lambda>k. string_ok (make_string [])) (\<lambda>k. map tolower (text_of (make_string []))) [] new_table {} Map.empty"
    by (rule cistring_table.map_empty) (simp_all add: new_table_empty)
  then show ?thesis using cistring_table_map [of "\<lambda>k. make_string []" "[]" new_table "{}" Map.empty 3]
    by (simp add: value_or_false_def new_table_empty make_string_ok)
qed

text \<open>C10: iteration over a table of objects, a chain shared by several directory slots being visited at the first of them
  only, gives every association once: the lists of keys and of values list the map without repetition, and the count
  of the table is their length.\<close>

lemma hashtable_lists:
  assumes "denotes obj_hash (\<lambda>k. k \<noteq> FALSE_OBJ) (\<lambda>k. k) hp t F m"
  shows "\<exists>ks vs. hashtable_keys_to_list hp t = Some ks \<and> hashtable_values_to_list hp t = Some vs \<and> length vs = length ks \<and>
    distinct ks \<and> map_of (zip ks vs) = m \<and> HASHTABLE_COUNT t = int2fx (of_nat (length ks))"
  using object_table.map_keys [OF assms] by simp

lemma hashtable_lists_witness: "\<exists>ks. hashtable_keys_to_list [] new_table = Some ks"
proof -
  have "denotes obj_hash (\<lambda>k. k \<noteq> FALSE_OBJ) (\<lambda>k. k) [] new_table {} Map.empty"
    by (rule object_table.map_empty) (simp_all add: new_table_empty)
  from hashtable_lists [OF this] show ?thesis by blast
qed

text \<open>C11: a copy of a table is independent of it: the copy stands for the same map, an insertion in the copy
  changes the copy alone, and one in the original would leave the copy.\<close>

lemma hashtable_copy_independent:
  assumes "denotes obj_hash (\<lambda>k. k \<noteq> FALSE_OBJ) (\<lambda>k. k) hp t F m" "k \<noteq> FALSE_OBJ" "HASHTABLE_DIR_BITS t < 29"
  shows "\<exists>hp1 t1 hp2 t2 F1 F2. hashtable_copy hp t = Some (hp1, t1) \<and>
    SPECIAL_TABLE_INSERT object_cmp hp1 t1 (obj_hash k) k v = Some (hp2, t2, value_or_false (m k)) \<and>
    denotes obj_hash (\<lambda>k. k \<noteq> FALSE_OBJ) (\<lambda>k. k) hp1 t1 F1 m \<and>
    denotes obj_hash (\<lambda>k. k \<noteq> FALSE_OBJ) (\<lambda>k. k) hp2 t2 F2 (m(k \<mapsto> v)) \<and>
    denotes obj_hash (\<lambda>k. k \<noteq> FALSE_OBJ) (\<lambda>k. k) hp2 t F m \<and> F2 \<inter> F = {}"
proof -
  obtain hp1 t1 F1 where c: "hashtable_copy hp t = Some (hp1, t1)" "denotes obj_hash (\<lambda>k. k \<noteq> FALSE_OBJ) (\<lambda>k. k) hp1 t1 F1 m"
    "denotes obj_hash (\<lambda>k. k \<noteq> FALSE_OBJ) (\<lambda>k. k) hp1 t F m" "F1 \<inter> F = {}"
    using object_table.map_copy [OF assms(1)] by blast
  have "HASHTABLE_DIR_BITS t1 = HASHTABLE_DIR_BITS t" using c(1) by (auto simp: hashtable_copy_def split: option.splits)
  then obtain hp2 t2 F2 where i: "SPECIAL_TABLE_INSERT object_cmp hp1 t1 (obj_hash k) k v = Some (hp2, t2, value_or_false (m k))"
    "denotes obj_hash (\<lambda>k. k \<noteq> FALSE_OBJ) (\<lambda>k. k) hp2 t2 F2 (m(k \<mapsto> v))" "frame hp1 F1 hp2 F2"
    using object_table.map_insert [OF c(2) assms(2)] assms(3) by force
  have o: "denotes obj_hash (\<lambda>k. k \<noteq> FALSE_OBJ) (\<lambda>k. k) hp2 t F m"
    by (rule object_table.map_frame [OF c(3) i(3)]) (use c(4) in blast)
  have "F2 \<inter> F = {}" using object_table.map_bound [OF c(3)] i(3) c(4) by (fastforce simp: frame_def)
  then show ?thesis using c i o by blast
qed

lemma hashtable_copy_independent_witness:
  "\<exists>hp1 t1. hashtable_copy [] new_table = Some (hp1, t1)"
proof -
  have "denotes obj_hash (\<lambda>k. k \<noteq> FALSE_OBJ) (\<lambda>k. k) [] new_table {} Map.empty"
    by (rule object_table.map_empty) (simp_all add: new_table_empty)
  moreover have "TRUE_OBJ \<noteq> FALSE_OBJ" by (simp add: TRUE_OBJ_def FALSE_OBJ_def MAKE_IMMOB_def)
  ultimately show ?thesis using hashtable_copy_independent [of "[]" new_table "{}" Map.empty TRUE_OBJ FALSE_OBJ]
    by (auto simp: new_table_empty)
qed

text \<open>\<open>hashtable_clear\<close> leaves an empty map, unless the count has run over (it is a fixnum, and the test for an empty
  table trusts it), and \<open>hashtable_install\<close> adds an association for a key that has none, as the generic
  tables use it.\<close>

lemma hashtable_clear_install:
  assumes "denotes obj_hash (\<lambda>k. k \<noteq> FALSE_OBJ) (\<lambda>k. k) hp t F m" "card (dom m) < 2 ^ 29"
    "k \<noteq> FALSE_OBJ" "HASHTABLE_DIR_BITS t < 29" "m k = None"
  shows "(\<exists>F'. denotes obj_hash (\<lambda>k. k \<noteq> FALSE_OBJ) (\<lambda>k. k) hp (hashtable_clear t) F' Map.empty) \<and>
    (\<exists>hp' t' F'. hashtable_install hp t (obj_hash k) k v = Some (hp', t') \<and>
      denotes obj_hash (\<lambda>k. k \<noteq> FALSE_OBJ) (\<lambda>k. k) hp' t' F' (m(k \<mapsto> v)))"
  using object_table.map_clear [OF assms(1,2)] object_table.map_install [OF assms(1,3-5), of v] by metis

lemma hashtable_clear_install_witness:
  "\<exists>hp' t'. hashtable_install [] new_table (obj_hash TRUE_OBJ) TRUE_OBJ NIL_OBJ = Some (hp', t')"
proof -
  have "denotes obj_hash (\<lambda>k. k \<noteq> FALSE_OBJ) (\<lambda>k. k) [] new_table {} Map.empty"
    by (rule object_table.map_empty) (simp_all add: new_table_empty)
  moreover have "TRUE_OBJ \<noteq> FALSE_OBJ" by (simp add: TRUE_OBJ_def FALSE_OBJ_def MAKE_IMMOB_def)
  ultimately show ?thesis using hashtable_clear_install [of "[]" new_table "{}" Map.empty TRUE_OBJ NIL_OBJ]
    by (auto simp: new_table_empty)
qed

text \<open>The key \<^verbatim>\<open>#f\<close> breaks a table of objects, whose comparison looks at the keys alone and takes a free slot for it:
  in a table that holds one other key, \<^verbatim>\<open>#f\<close> is found, removing it makes the count zero, and
  inserting it stores it in a slot that stays free.\<close>

lemma object_table_false_key:
  fixes h k v :: u32 and hp :: heap and t :: hashtable
  defines "hp \<equiv> [\<lparr>BUCKET_BITS = 0, BUCKET_OVERFLOW = None, SLOTS = (h, TRUE_OBJ, v) # replicate 7 empty_entry\<rparr>]"
    and "t \<equiv> \<lparr>HASHTABLE_DIRECTORY = [Some 0], HASHTABLE_DIR_BITS = 0, HASHTABLE_COUNT = int2fx 1\<rparr>"
  shows "SPECIAL_TABLE_PROBE object_cmp hp t h FALSE_OBJ = Some True \<and>
    (\<exists>hp'. SPECIAL_TABLE_REMOVE object_cmp hp t h FALSE_OBJ = Some (hp', t\<lparr>HASHTABLE_COUNT := ZERO\<rparr>, FALSE_OBJ)) \<and>
    (\<exists>hp'. SPECIAL_TABLE_INSERT object_cmp hp t h FALSE_OBJ v = Some (hp', t, FALSE_OBJ))"
proof -
  have d: "read_dir [Some 0] h = Some 0" by (simp add: read_dir_def DIR_SLOT_def)
  have n: "TRUE_OBJ \<noteq> FALSE_OBJ" by (simp add: TRUE_OBJ_def FALSE_OBJ_def MAKE_IMMOB_def)
  have r: "replicate 7 empty_entry = empty_entry # replicate 6 empty_entry" by (simp add: eval_nat_numeral)
  have sl: "SLOTS (hp ! 0) = (h, TRUE_OBJ, v) # (FALSE_OBJ, FALSE_OBJ, FALSE_OBJ) # replicate 6 empty_entry"
    unfolding hp_def r by (simp add: empty_entry_def)
  have f: "chain_search hp (cmp_entry object_cmp h FALSE_OBJ) (Some 0) = Some (Some (0, 1))"
    using n by (subst chain_search.simps) (simp add: sl cmp_entry_def object_cmp_def)
  have g: "insert_search hp (cmp_entry object_cmp h FALSE_OBJ) (Some 0) None = Some (Inl (0, 1))"
    using n by (subst insert_search.simps) (simp add: sl cmp_entry_def object_cmp_def)
  have "SUB1 (int2fx 1) = ZERO" by (simp add: ZERO_def SUB1_def int2fx_def)
  then show ?thesis
    using d f g by (simp add: SPECIAL_TABLE_PROBE_def SPECIAL_TABLE_REMOVE_def SPECIAL_TABLE_INSERT_def t_def removing_one_def sl)
qed

end
