(* ===== verification/IOText.thy ===== *)
theory IOText
  imports Strings
begin

text \<open>
  Text written and read by the port library: the escaping of strings in chunks,
  \<^verbatim>\<open>modules/iolib/escapstr.c\<close> (in the configuration without \<^verbatim>\<open>UTF_PROCESS_CODE\<close>), and the parser of
  format strings, \<^verbatim>\<open>modules/iolib/parsefmt.c\<close>.  Texts are the bytes of the string object; a read at
  the position of the terminator gives 0.
\<close>

unbundle bit_operations_syntax

section \<open>Escaping\<close>

definition TEMP_LENGTH :: nat where
  "TEMP_LENGTH = 200"

text \<open>The cases of the switch: the letter after the backslash.\<close>

definition escape_letter :: "u8 \<Rightarrow> u8 option" where
  "escape_letter c =
     (if c = 34 then Some 34
      else if c = 92 then Some 92
      else if c = 10 then Some 110
      else if c = 9 then Some 116
      else if c = 7 then Some 97
      else if c = 8 then Some 98
      else if c = 11 then Some 118
      else if c = 12 then Some 102
      else if c = 13 then Some 114
      else None)"

definition isprint :: "u8 \<Rightarrow> bool" where
  "isprint c \<longleftrightarrow> 32 \<le> c \<and> c < 127"

text \<open>\<^verbatim>\<open>sprintf( d, "\\%o", *(UINT_8 *)s )\<close>\<close>

definition octal_digits :: "u8 \<Rightarrow> u8 list" where
  "octal_digits c =
     (if c < 8 then [48 + c]
      else if c < 64 then [48 + c div 8, 48 + c mod 8]
      else [48 + c div 64, 48 + c div 8 mod 8, 48 + c mod 8])"

definition escape_char :: "u8 \<Rightarrow> u8 list" where
  "escape_char c =
     (case escape_letter c of
        Some ec \<Rightarrow> [92, ec]
      | None \<Rightarrow> if isprint c then [c] else 92 # octal_digits c)"

text \<open>The loop: what is left of the string and what is in \<open>temp\<close>.\<close>

fun escape_loop :: "u8 list \<Rightarrow> u8 list \<Rightarrow> u8 list \<times> u8 list" where
  "escape_loop [] temp = ([], temp)"
| "escape_loop (c # s) temp =
     (if length temp < TEMP_LENGTH then escape_loop s (temp @ escape_char c) else (c # s, temp))"

text \<open>
  The result is what is left in \<^verbatim>\<open>REG0\<close> and \<^verbatim>\<open>REG1\<close>: the string (the argument itself when nothing had to be
  escaped) and the index where to go on, or \<^verbatim>\<open>#f\<close>, at the end.
\<close>

datatype printable = Same_string | New_string "u8 list"

definition printablize_string :: "u8 list \<Rightarrow> nat \<Rightarrow> printable \<times> nat option" where
  "printablize_string str str_index =
     (let (s, temp) = escape_loop (drop str_index str) [];
          d = length temp + 1
      in if s \<noteq> [] then (New_string temp, Some (str_index + (length (drop str_index str) - length s)))
         else if str_index = 0 \<and> d = length str + 1 then (Same_string, None)
         else (New_string temp, None))"

section \<open>Format strings\<close>

text \<open>An entry: a literal piece, a directive of one character, or one with parameters, in the order of the
  vector that \<^verbatim>\<open>maken\<close> fills.  A number is the one that the fixnum in its slot stands for, \<open>None\<close> is \<^verbatim>\<open>#f\<close>.\<close>

record directive =
  letter :: u8
  sharp_flag :: bool
  star_flag :: bool
  at_flag :: bool
  negative_flag :: bool
  pre_dot_lead_zero :: bool
  pre_dot_num :: "int option"
  post_dot_digits :: "int option"
  post_dot_num :: "int option"
  braced :: "u8 list option"

datatype fmt_entry = Literal "u8 list" | Directive_char u8 | Directive directive

definition isdigit :: "u8 \<Rightarrow> bool" where
  "isdigit c \<longleftrightarrow> 48 \<le> c \<and> c \<le> 57"

text \<open>\<^verbatim>\<open>*s\<close>: the list is what lies between \<open>s\<close> and \<open>limit\<close>, the terminator comes after it.\<close>

definition at :: "u8 list \<Rightarrow> u8" where
  "at s = (case s of [] \<Rightarrow> 0 | c # _ \<Rightarrow> c)"

text \<open>\<^verbatim>\<open>while (isdigit(*s)) num = num * 10 + *s++ - '0'\<close>, with the number of digits; both are an \<^verbatim>\<open>int\<close>, which
  the compiled code lets wrap around.\<close>

fun digits_loop :: "u32 \<Rightarrow> u32 \<Rightarrow> u8 list \<Rightarrow> u32 \<times> u32 \<times> u8 list" where
  "digits_loop num n [] = (num, n, [])"
| "digits_loop num n (c # s) =
     (if isdigit c then digits_loop (num * 10 + ucast c - 48) (n + 1) s else (num, n, c # s))"

text \<open>\<^verbatim>\<open>(num < 0) ? FALSE_OBJ : int2fx(num)\<close>.\<close>

definition fx_slot :: "u32 \<Rightarrow> int option" where
  "fx_slot num = (if sint num < 0 then None else Some (sint (fx2int (int2fx num))))"

text \<open>The loop of the label \<open>another\<close>: the flags and the text in braces.\<close>

record fmt_flags =
  f_sharp :: bool
  f_star :: bool
  f_at :: bool
  f_braced :: "u8 list option"

function another :: "fmt_flags \<Rightarrow> u8 list \<Rightarrow> fmt_flags \<times> u8 list" where
  "another fl s =
     (case s of
        [] \<Rightarrow> (fl, s)
      | c # s' \<Rightarrow>
          if c = 35 then another (fl\<lparr>f_sharp := True\<rparr>) s'
          else if c = 42 then another (fl\<lparr>f_star := True\<rparr>) s'
          else if c = 64 then another (fl\<lparr>f_at := True\<rparr>) s'
          else if c = 123
          then let inside = takeWhile (\<lambda>x. x \<noteq> 125) s';
                   rest = dropWhile (\<lambda>x. x \<noteq> 125) s'
               in another (fl\<lparr>f_braced := Some inside\<rparr>) (tl rest)
          else (fl, s))"
  by pat_completeness auto
termination
proof (relation "measure (\<lambda>(fl, s). length s)", goal_cases)
  case (5 fl s c s')
  have "length (tl (dropWhile (\<lambda>x. x \<noteq> 125) s')) \<le> length s'"
    using length_dropWhile_le [of "\<lambda>x. x \<noteq> 125" s'] by simp
  then show ?case using 5 by simp
qed auto

declare another.simps [simp del]

text \<open>The number before the dot, with the flag of its leading zero, and the one after it.\<close>

definition pre_part :: "u8 list \<Rightarrow> bool \<times> u32 \<times> u8 list" where
  "pre_part s =
     (if isdigit (at s)
      then let lz = (at s = 48);
               s = (if lz then tl s else s);
               (num, n, s) = digits_loop 0 0 s
           in (lz, num, s)
      else (False, -1, s))"

definition post_part :: "u8 list \<Rightarrow> u32 \<times> u32 \<times> u8 list" where
  "post_part s =
     (if at s = 46 then let (num, n, s) = digits_loop 0 0 (tl s) in (n, num, s) else (-1, -1, s))"

text \<open>What follows the tilde, up to and with the letter.\<close>

definition parse_directive :: "u8 list \<Rightarrow> fmt_entry \<times> u8 list" where
  "parse_directive begin =
     (let (fl, s) = another \<lparr>f_sharp = False, f_star = False, f_at = False, f_braced = None\<rparr> begin;
          neg = (at s = 45);
          s = (if neg then tl s else s);
          (lead_zero, pre, s) = pre_part s;
          (post_digits, post, s) = post_part s;
          entry =
            (if length s = length begin then Directive_char (at s)
             else Directive \<lparr>letter = at s, sharp_flag = f_sharp fl, star_flag = f_star fl, at_flag = f_at fl,
                    negative_flag = neg, pre_dot_lead_zero = lead_zero,
                    pre_dot_num = fx_slot pre,
                    post_dot_digits = fx_slot post_digits, post_dot_num = fx_slot post,
                    braced = f_braced fl\<rparr>)
      in (entry, tl s))"

lemma length_digits_loop: "length (snd (snd (digits_loop num n s))) \<le> length s"
  by (induction num n s rule: digits_loop.induct) auto

lemma length_pre_part: "length (snd (snd (pre_part s))) \<le> length s"
  using length_digits_loop [of 0 0 s] length_digits_loop [of 0 0 "tl s"]
  by (auto simp: pre_part_def Let_def case_prod_unfold)

lemma length_post_part: "length (snd (snd (post_part s))) \<le> length s"
  using length_digits_loop [of 0 0 "tl s"] by (auto simp: post_part_def Let_def case_prod_unfold)

lemma length_brace: "length (tl (dropWhile (\<lambda>x. x \<noteq> 125) s)) \<le> length s"
  using length_dropWhile_le [of "\<lambda>x. x \<noteq> 125" s] by simp

lemma length_another: "length (snd (another fl s)) \<le> length s"
proof (induction fl s rule: another.induct)
  case (1 fl s)
  show ?case
  proof (cases s)
    case Nil
    then show ?thesis by (subst another.simps) simp
  next
    case (Cons c s')
    have "length (snd (another f (tl (dropWhile (\<lambda>x. x \<noteq> 125) s')))) \<le> Suc (length s')"
      if "length (snd (another f (tl (dropWhile (\<lambda>x. x \<noteq> 125) s')))) \<le> length (tl (dropWhile (\<lambda>x. x \<noteq> 125) s'))" for f
      using that length_brace [of s'] by linarith
    then show ?thesis using 1 [OF Cons] Cons
      by (subst another.simps) (simp add: Let_def le_SucI del: length_tl)
  qed
qed

lemma length_parse_directive: "length (snd (parse_directive s)) \<le> length s - 1"
proof -
  obtain fl s1 where a: "another \<lparr>f_sharp = False, f_star = False, f_at = False, f_braced = None\<rparr> s = (fl, s1)" by force
  define s2 where "s2 = (if at s1 = 45 then tl s1 else s1)"
  obtain lz pre s3 where b: "pre_part s2 = (lz, pre, s3)" by (metis prod_cases3)
  obtain pd po s4 where c: "post_part s3 = (pd, po, s4)" by (metis prod_cases3)
  have "length s1 \<le> length s" using length_another [of _ s] a by (metis snd_conv)
  moreover have "length s2 \<le> length s1" by (simp add: s2_def)
  moreover have "length s3 \<le> length s2" using length_pre_part [of s2] b by simp
  moreover have "length s4 \<le> length s3" using length_post_part [of s3] c by simp
  ultimately have "length s4 \<le> length s" by simp
  moreover have "snd (parse_directive s) = tl s4"
    by (simp add: parse_directive_def a b c s2_def [symmetric] Let_def)
  ultimately show ?thesis by simp
qed

text \<open>The main loop: \<open>seen\<close> is the text from \<open>begin\<close> to \<open>s\<close>.\<close>

function format_loop :: "u8 list \<Rightarrow> u8 list \<Rightarrow> fmt_entry list" where
  "format_loop seen s =
     (case s of
        [] \<Rightarrow> if seen \<noteq> [] then [Literal seen] else []
      | c # s' \<Rightarrow>
          if c = 126 \<and> s' \<noteq> []
          then let (entry, rest) = parse_directive s'
               in (if seen \<noteq> [] then [Literal seen] else []) @ entry # format_loop [] rest
          else format_loop (seen @ [c]) s')"
  by pat_completeness auto
termination
proof (relation "measure (\<lambda>(seen, s). length s)", goal_cases)
  case (2 seen s c s' x entry rest)
  then have "length rest \<le> length s' - 1" using length_parse_directive [of s'] by (metis snd_conv)
  then show ?case using 2 by simp
qed auto

declare format_loop.simps [simp del]

definition parse_format_string :: "u8 list \<Rightarrow> fmt_entry list" where
  "parse_format_string str = format_loop [] str"

section \<open>Escaping: lemmas\<close>

definition escape :: "u8 list \<Rightarrow> u8 list" where
  "escape s = concat (map escape_char s)"

fun printed :: "u8 list \<Rightarrow> printable \<Rightarrow> u8 list" where
  "printed str Same_string = str"
| "printed str (New_string t) = t"

lemma escape_char_length: "1 \<le> length (escape_char c)" "length (escape_char c) \<le> 4"
  by (auto simp: escape_char_def octal_digits_def split: option.splits)

lemma escape_loop_result:
  assumes "length temp \<le> TEMP_LENGTH + 3"
  shows "\<exists>n \<le> length s. escape_loop s temp = (drop n s, temp @ escape (take n s)) \<and>
    length (temp @ escape (take n s)) \<le> TEMP_LENGTH + 3 \<and> (s \<noteq> [] \<and> length temp < TEMP_LENGTH \<longrightarrow> 0 < n)"
  using assms
proof (induction s temp rule: escape_loop.induct)
  case (1 temp)
  then show ?case by (simp add: escape_def)
next
  case (2 c s temp)
  show ?case
  proof (cases "length temp < TEMP_LENGTH")
    case True
    then have "length (temp @ escape_char c) \<le> TEMP_LENGTH + 3" using escape_char_length(2) [of c] by simp
    from 2(1) [OF True this] obtain n where
      "n \<le> length s" "escape_loop s (temp @ escape_char c) = (drop n s, (temp @ escape_char c) @ escape (take n s))"
      "length ((temp @ escape_char c) @ escape (take n s)) \<le> TEMP_LENGTH + 3" by blast
    then show ?thesis using True by (intro exI [of _ "Suc n"]) (simp add: escape_def)
  next
    case False
    then show ?thesis using 2(2) by (intro exI [of _ 0]) (simp add: escape_def)
  qed
qed

lemma escape_length_eq: "length s \<le> length (escape s)" "length (escape s) = length s \<Longrightarrow> escape s = s"
proof (induction s)
  case (Cons c s)
  { case 1 then show ?case using Cons.IH(1) escape_char_length(1) [of c] by (simp add: escape_def) }
  { case 2
    then have "length (escape_char c) = 1" "length (escape s) = length s"
      using Cons.IH(1) escape_char_length(1) [of c] by (simp_all add: escape_def)
    moreover from this have "escape_char c = [c]"
      by (auto simp: escape_char_def octal_digits_def split: option.splits if_splits)
    ultimately show ?case using Cons.IH(2) by (simp add: escape_def) }
qed (simp_all add: escape_def)





section \<open>Format strings: lemmas\<close>

text \<open>The text of an entry.\<close>

fun number_text :: "nat \<Rightarrow> u8 list" where
  "number_text n = (if n < 10 then [] else number_text (n div 10)) @ [48 + of_nat (n mod 10)]"

fun fixed_text :: "nat \<Rightarrow> nat \<Rightarrow> u8 list" where
  "fixed_text 0 n = []"
| "fixed_text (Suc k) n = fixed_text k (n div 10) @ [48 + of_nat (n mod 10)]"

declare number_text.simps [simp del]

definition flags_text :: "bool \<Rightarrow> bool \<Rightarrow> bool \<Rightarrow> u8 list option \<Rightarrow> u8 list" where
  "flags_text sharp star at_f br =
     (if sharp then [35] else []) @ (if star then [42] else []) @ (if at_f then [64] else []) @
     (case br of None \<Rightarrow> [] | Some t \<Rightarrow> 123 # t @ [125])"

definition pre_text :: "bool \<Rightarrow> int option \<Rightarrow> u8 list" where
  "pre_text lz pre =
     (case pre of None \<Rightarrow> [] | Some n \<Rightarrow> (if lz then [48] else []) @ (if n = 0 then [] else number_text (nat n)))"

definition post_text :: "int option \<Rightarrow> int option \<Rightarrow> u8 list" where
  "post_text pd po = (case (pd, po) of (Some k, Some n) \<Rightarrow> 46 # fixed_text (nat k) (nat n) | _ \<Rightarrow> [])"

definition directive_text :: "directive \<Rightarrow> u8 list" where
  "directive_text d =
     flags_text (sharp_flag d) (star_flag d) (at_flag d) (braced d) @ (if negative_flag d then [45] else []) @
     pre_text (pre_dot_lead_zero d) (pre_dot_num d) @ post_text (post_dot_digits d) (post_dot_num d) @ [letter d]"

fun entry_text :: "fmt_entry \<Rightarrow> u8 list" where
  "entry_text (Literal t) = t"
| "entry_text (Directive_char c) = [126, c]"
| "entry_text (Directive d) = 126 # directive_text d"

definition letter_ok :: "u8 \<Rightarrow> bool" where
  "letter_ok c \<longleftrightarrow> c \<notin> {35, 42, 64, 123, 45, 46} \<and> \<not> isdigit c"

definition directive_ok :: "directive \<Rightarrow> bool" where
  "directive_ok d \<longleftrightarrow> letter_ok (letter d) \<and>
     (case braced d of None \<Rightarrow> True | Some t \<Rightarrow> 125 \<notin> set t) \<and>
     (case pre_dot_num d of None \<Rightarrow> \<not> pre_dot_lead_zero d | Some n \<Rightarrow> 0 \<le> n \<and> n < 2 ^ 29 \<and> (n = 0 \<longrightarrow> pre_dot_lead_zero d)) \<and>
     (case (post_dot_digits d, post_dot_num d) of (None, None) \<Rightarrow> True
      | (Some k, Some n) \<Rightarrow> 0 \<le> k \<and> k < 2 ^ 29 \<and> 0 \<le> n \<and> n < 2 ^ 29 \<and> n < 10 ^ nat k | _ \<Rightarrow> False) \<and>
     directive_text d \<noteq> [letter d]"

fun entries_ok :: "fmt_entry list \<Rightarrow> bool" where
  "entries_ok [] = True"
| "entries_ok (Literal t # es) = (t \<noteq> [] \<and> 126 \<notin> set t \<and> (case es of Literal u # _ \<Rightarrow> False | _ \<Rightarrow> True) \<and> entries_ok es)"
| "entries_ok (Directive_char c # es) = (letter_ok c \<and> entries_ok es)"
| "entries_ok (Directive d # es) = (directive_ok d \<and> entries_ok es)"

lemma unat_digit: "unat (48 + of_nat (n mod 10) :: u8) = 48 + n mod 10"
  by (simp add: unat_word_ariths unat_of_nat)

lemma uint_digit: "uint (48 + of_nat (n mod 10) :: u8) = 48 + int (n mod 10)"
  using unat_digit [of n] by (metis of_nat_add of_nat_numeral uint_nat)

lemma isdigit_digit: "isdigit (48 + of_nat (n mod 10))"
  by (simp add: isdigit_def word_le_nat_alt unat_digit)

definition digits_value :: "u8 list \<Rightarrow> int" where
  "digits_value ds = foldl (\<lambda>m c. m * 10 + int (unat c) - 48) 0 ds"

lemma digits_loop_append:
  assumes "\<forall>c \<in> set ds. isdigit c" "\<not> isdigit (at rest)"
  shows "digits_loop 0 0 (ds @ rest) = (word_of_int (digits_value ds), of_nat (length ds), rest)"
proof -
  have "digits_loop (word_of_int m) n (ds @ rest) =
      (word_of_int (foldl (\<lambda>m c. m * 10 + int (unat c) - 48) m ds), n + of_nat (length ds), rest)" for m n
    using assms(1)
  proof (induction ds arbitrary: m n)
    case Nil
    then show ?case using assms(2) by (cases rest) (simp_all add: at_def)
  next
    case (Cons c ds)
    have "ucast c = (word_of_int (int (unat c)) :: u32)" by (rule bit_word_eqI) (auto simp: bit_ucast_iff bit_of_nat_iff bit_unsigned_iff dest: bit_imp_le_length)
    then have "(word_of_int m :: u32) * 10 + ucast c - 48 = word_of_int (m * 10 + int (unat c) - 48)" by simp
    then show ?case using Cons by (simp del: of_int_diff of_int_add of_int_mult add: add.assoc)
  qed
  from this [of 0 0] show ?thesis by (simp add: digits_value_def)
qed

text \<open>A number that a fixnum can hold is kept; \<open>-1\<close> gives \<^verbatim>\<open>#f\<close>.\<close>

lemma fx_slot_number: "0 \<le> n \<Longrightarrow> n < 2 ^ 29 \<Longrightarrow> fx_slot (word_of_int n) = Some n"
proof -
  assume n: "0 \<le> n" "n < 2 ^ 29"
  have s: "sint (word_of_int n :: u32) = n" using n by (simp add: signed_of_int signed_take_bit_int_eq_self)
  then have "fits_fixnum (sint (word_of_int n :: u32))" using n by (simp add: fits_fixnum_def)
  then show ?thesis using s n(1) by (simp add: fx_slot_def fx2int_int2fx)
qed

lemma fx_slot_none: "fx_slot (- 1) = None"
  by (simp add: fx_slot_def)

definition slot_int :: "int option \<Rightarrow> u32" where
  "slot_int x = (case x of None \<Rightarrow> - 1 | Some n \<Rightarrow> word_of_int n)"

lemma fx_slot_int: "(case x of None \<Rightarrow> True | Some n \<Rightarrow> 0 \<le> n \<and> n < 2 ^ 29) \<Longrightarrow> fx_slot (slot_int x) = x"
  by (cases x) (simp_all add: slot_int_def fx_slot_none fx_slot_number del: of_int_minus)

lemma unat_48: "unat (48 :: u8) = 48"
  by simp

lemma number_text_digits: "(\<forall>c \<in> set (number_text n). isdigit c) \<and> (0 < n \<longrightarrow> at (number_text n) \<noteq> 48 \<and> number_text n \<noteq> []) \<and>
    digits_value (number_text n) = int n"
  unfolding digits_value_def
proof (induction n rule: number_text.induct)
  case (1 n)
  show ?case
  proof (cases "n < 10")
    case True
    then have "unat (48 + of_nat n :: u8) = 48 + n" using unat_digit [of n] by simp
    then have "48 + of_nat n \<noteq> (48 :: u8)" if "0 < n"
      using that by (metis add_cancel_left_right less_irrefl unat_48)
    then show ?thesis using True uint_digit [of n] isdigit_digit [of n] by (simp add: number_text.simps [of n] at_def)
  next
    case False
    have "int (n div 10) * 10 + int (n mod 10) = int n" by (metis div_mult_mod_eq of_nat_add of_nat_mult of_nat_numeral)
    then show ?thesis using 1 False uint_digit [of n] isdigit_digit [of n]
      by (auto simp: number_text.simps [of n] at_def split: list.splits)
  qed
qed

lemma fixed_text_digits: "(\<forall>c \<in> set (fixed_text k n). isdigit c) \<and> length (fixed_text k n) = k \<and>
    (n < 10 ^ k \<longrightarrow> digits_value (fixed_text k n) = int n)"
  unfolding digits_value_def
proof (induction k arbitrary: n)
  case (Suc k)
  have "n < 10 ^ Suc k \<Longrightarrow> n div 10 < 10 ^ k" by (simp add: less_mult_imp_div_less mult.commute)
  moreover have "int (n div 10) * 10 + int (n mod 10) = int n" by (metis div_mult_mod_eq of_nat_add of_nat_mult of_nat_numeral)
  ultimately show ?case using Suc [of "n div 10"] uint_digit [of n] isdigit_digit [of n] by auto
qed simp

lemma at_Cons [simp]: "at (c # s) = c"
  by (simp add: at_def)

lemma another_step:
  "another fl (35 # s) = another (fl\<lparr>f_sharp := True\<rparr>) s"
  "another fl (42 # s) = another (fl\<lparr>f_star := True\<rparr>) s"
  "another fl (64 # s) = another (fl\<lparr>f_at := True\<rparr>) s"
  by (subst another.simps, simp)+

lemma another_brace: "125 \<notin> set t \<Longrightarrow> another fl (123 # t @ 125 # s) = another (fl\<lparr>f_braced := Some t\<rparr>) s"
proof -
  assume "125 \<notin> set t"
  then have t: "\<forall>x \<in> set t. x \<noteq> 125" by auto
  have "takeWhile (\<lambda>x. x \<noteq> 125) (t @ 125 # s) = t" "dropWhile (\<lambda>x. x \<noteq> 125) (t @ 125 # s) = 125 # s"
    using t by (simp_all add: takeWhile_append2 dropWhile_append2)
  then show ?thesis by (subst another.simps) (simp add: Let_def)
qed

lemma another_stop: "at s \<notin> {35, 42, 64, 123} \<Longrightarrow> another fl s = (fl, s)"
  by (cases s) (subst another.simps, simp)+

lemma another_flags:
  assumes "at s \<notin> {35, 42, 64, 123}" "case br of None \<Rightarrow> True | Some t \<Rightarrow> 125 \<notin> set t"
  shows "another \<lparr>f_sharp = False, f_star = False, f_at = False, f_braced = None\<rparr> (flags_text a b c br @ s)
    = (\<lparr>f_sharp = a, f_star = b, f_at = c, f_braced = br\<rparr>, s)"
  using assms by (cases a; cases b; cases c; cases br)
    (simp_all add: flags_text_def another_step another_brace another_stop)

lemma at_append: "s \<noteq> [] \<Longrightarrow> at (s @ t) = at s"
  by (cases s) simp_all

lemma isdigit_at: "s \<noteq> [] \<Longrightarrow> \<forall>c \<in> set s. isdigit c \<Longrightarrow> isdigit (at s)"
  by (cases s) simp_all

lemma isdigit_48: "isdigit 48"
  by (simp add: isdigit_def)

lemma pre_part_text:
  assumes "\<not> isdigit (at s)" "case pre of None \<Rightarrow> \<not> lz | Some n \<Rightarrow> 0 \<le> n \<and> (n = 0 \<longrightarrow> lz)"
  shows "pre_part (pre_text lz pre @ s) = (lz, slot_int pre, s)"
proof (cases pre)
  case None
  then show ?thesis using assms by (simp add: pre_part_def pre_text_def slot_int_def)
next
  case (Some n)
  define ds where "ds = (if n = 0 then [] else number_text (nat n))"
  have d: "\<forall>c \<in> set ds. isdigit c" "digits_value ds = n" "n \<noteq> 0 \<Longrightarrow> at ds \<noteq> 48 \<and> ds \<noteq> []"
    using number_text_digits [of "nat n"] assms(2) Some by (simp_all add: ds_def digits_value_def [of "[]"])
  have l: "digits_loop 0 0 (ds @ s) = (word_of_int n, of_nat (length ds), s)"
    using digits_loop_append [OF d(1) assms(1)] d(2) by simp
  have p: "pre_text lz pre = (if lz then [48] else []) @ ds" by (simp add: pre_text_def Some ds_def)
  show ?thesis
  proof (cases lz)
    case True
    then show ?thesis unfolding pre_part_def p using l by (simp add: Some isdigit_48 slot_int_def)
  next
    case False
    then have "at ds \<noteq> 48" "ds \<noteq> []" using d(3) assms(2) Some by auto
    then show ?thesis unfolding pre_part_def p using l False d(1) by (simp add: Some at_append isdigit_at slot_int_def)
  qed
qed

lemma post_part_text:
  assumes "\<not> isdigit (at s)" "at s \<noteq> 46"
    "case (pd, po) of (None, None) \<Rightarrow> True | (Some k, Some n) \<Rightarrow> 0 \<le> k \<and> 0 \<le> n \<and> n < 10 ^ nat k | _ \<Rightarrow> False"
  shows "post_part (post_text pd po @ s) =
    (slot_int pd, slot_int po, s)"
proof (cases pd)
  case None
  then show ?thesis using assms by (auto simp: post_part_def post_text_def slot_int_def split: option.splits)
next
  case (Some k)
  then obtain n where po: "po = Some n" "0 \<le> k" "0 \<le> n" "n < 10 ^ nat k" using assms(3) by (cases po) auto
  then have "nat n < 10 ^ nat k" by (simp add: nat_less_iff)
  then show ?thesis
    using fixed_text_digits [of "nat k" "nat n"] po Some assms(1) digits_loop_append [of "fixed_text (nat k) (nat n)" s]
    by (simp add: post_part_def post_text_def slot_int_def)
qed

lemma at_post_text: "at (post_text pd po @ s) \<in> {46, at s}"
  by (simp add: post_text_def split: option.splits)

lemma at_pre_text:
  assumes "case pre of None \<Rightarrow> True | Some n \<Rightarrow> 0 \<le> n"
  shows "isdigit (at (pre_text lz pre @ s)) \<or> at (pre_text lz pre @ s) = at s"
proof (cases pre)
  case (Some n)
  then show ?thesis using number_text_digits [of "nat n"] assms
    by (auto simp: pre_text_def isdigit_48 at_append intro: isdigit_at)
qed (simp add: pre_text_def)

lemma isdigit_not: "isdigit c \<Longrightarrow> c \<notin> {35, 42, 64, 123, 45, 46}"
  by (auto simp: isdigit_def)

lemma parse_directive_text:
  assumes "directive_ok d"
  shows "parse_directive (directive_text d @ s) = (Directive d, s)"
proof -
  let ?post = "post_text (post_dot_digits d) (post_dot_num d) @ letter d # s"
  let ?pre = "pre_text (pre_dot_lead_zero d) (pre_dot_num d) @ ?post"
  let ?neg = "(if negative_flag d then [45] else []) @ ?pre"
  have l: "letter_ok (letter d)" and ok: "directive_text d \<noteq> [letter d]" using assms by (simp_all add: directive_ok_def)
  have post: "post_part ?post = (slot_int (post_dot_digits d), slot_int (post_dot_num d), letter d # s)"
    using assms l by (intro post_part_text) (auto simp: directive_ok_def letter_ok_def split: option.splits)
  have atp: "at ?post \<in> {46, letter d}" using at_post_text [of _ _ "letter d # s"] by simp
  moreover have "\<not> isdigit 46" by (simp add: isdigit_def)
  ultimately have np: "\<not> isdigit (at ?post)" using l by (auto simp: letter_ok_def)
  have pre: "pre_part ?pre = (pre_dot_lead_zero d, slot_int (pre_dot_num d), ?post)"
    using assms np by (intro pre_part_text) (auto simp: directive_ok_def split: option.splits)
  have "isdigit (at ?pre) \<or> at ?pre = at ?post"
    using assms by (intro at_pre_text) (auto simp: directive_ok_def split: option.splits)
  then have atq: "at ?pre \<notin> {35, 42, 64, 123, 45}"
    using atp l isdigit_not [of "at ?pre"] by (auto simp: letter_ok_def)
  then have fl: "another \<lparr>f_sharp = False, f_star = False, f_at = False, f_braced = None\<rparr> (directive_text d @ s)
     = (\<lparr>f_sharp = sharp_flag d, f_star = star_flag d, f_at = at_flag d, f_braced = braced d\<rparr>, ?neg)"
    using assms by (subst another_flags [symmetric, of ?neg])
      (auto simp: directive_text_def directive_ok_def)
  have n1: "at ?neg = 45 \<longleftrightarrow> negative_flag d" using atq by simp
  have n2: "(if negative_flag d then tl ?neg else ?neg) = ?pre" by simp
  have len: "length (letter d # s) \<noteq> length (directive_text d @ s)"
    using ok by (auto simp: directive_text_def)
  have p: "fx_slot (slot_int (pre_dot_num d)) = pre_dot_num d" "fx_slot (slot_int (post_dot_digits d)) = post_dot_digits d"
    "fx_slot (slot_int (post_dot_num d)) = post_dot_num d"
    using assms by (intro fx_slot_int; auto simp: directive_ok_def split: option.splits)+
  show ?thesis
    unfolding parse_directive_def fl Let_def prod.case n1 n2 pre post p using len by simp
qed

lemma parse_directive_char: "letter_ok c \<Longrightarrow> parse_directive (c # s) = (Directive_char c, s)"
  by (simp add: parse_directive_def another_stop letter_ok_def pre_part_def post_part_def)

lemma format_loop_literal: "126 \<notin> set t \<Longrightarrow> format_loop seen (t @ s) = format_loop (seen @ t) s"
proof (induction t arbitrary: seen)
  case (Cons c t)
  then show ?case by (subst format_loop.simps) simp
qed simp

lemma format_loop_directive:
  assumes "t \<noteq> []"
  shows "format_loop seen (126 # t) =
    (if seen \<noteq> [] then [Literal seen] else []) @ fst (parse_directive t) # format_loop [] (snd (parse_directive t))"
  using assms by (subst format_loop.simps) (simp add: case_prod_unfold Let_def)

lemma format_loop_entries:
  assumes "entries_ok es" "126 \<notin> set seen" "seen \<noteq> [] \<Longrightarrow> case es of Literal u # _ \<Rightarrow> False | _ \<Rightarrow> True"
  shows "format_loop seen (concat (map entry_text es)) = (if seen \<noteq> [] then [Literal seen] else []) @ es"
  using assms
proof (induction es arbitrary: seen rule: entries_ok.induct)
  case 1
  then show ?case by (subst format_loop.simps) simp
next
  case (2 t es)
  then have "seen = []" by auto
  then show ?case using 2 "2.IH" [of t] format_loop_literal [of t "[]"] by simp
next
  case (3 c es)
  then show ?case using "3.IH" [of "[]"] by (simp add: format_loop_directive parse_directive_char)
next
  case (4 d es)
  have "directive_text d @ concat (map entry_text es) \<noteq> []" by (simp add: directive_text_def)
  then show ?case using 4 "4.IH" [of "[]"] by (simp add: format_loop_directive parse_directive_text)
qed

section \<open>Properties\<close>

text \<open>C26: a call of \<open>printablize_string\<close> escapes a part of the string that is not empty unless it was at the
  end, never writes more than 203 bytes and a terminator to its 206-byte buffer, and what the calls from the
  returned index on give completes it to the escaped string; it returns its argument only when that is it.\<close>

lemma printablize_chunk:
  assumes "printablize_string str i = (r, j)" "i < length str"
  shows "i < (case j of None \<Rightarrow> length str | Some k \<Rightarrow> k) \<and> (case j of None \<Rightarrow> length str | Some k \<Rightarrow> k) \<le> length str \<and>
    printed str r @ escape (case j of None \<Rightarrow> [] | Some k \<Rightarrow> drop k str) = escape (drop i str) \<and>
    length (snd (escape_loop (drop i str) [])) \<le> TEMP_LENGTH + 3"
proof -
  obtain n where n: "n \<le> length (drop i str)" "escape_loop (drop i str) [] = (drop n (drop i str), escape (take n (drop i str)))"
    "length (escape (take n (drop i str))) \<le> TEMP_LENGTH + 3" "0 < n"
    using escape_loop_result [of "[]" "drop i str"] assms(2) by (auto simp: TEMP_LENGTH_def)
  have e: "escape (take n (drop i str)) @ escape (drop n (drop i str)) = escape (drop i str)"
    by (metis append_take_drop_id concat_append escape_def map_append)
  show ?thesis
  proof (cases "n + i < length str")
    case True
    then show ?thesis using assms n e by (auto simp: printablize_string_def Let_def drop_drop add.commute)
  next
    case False
    then have all: "take n (drop i str) = drop i str" "drop n (drop i str) = []" using n(1) by simp_all
    then show ?thesis using assms n(3) n(2) escape_length_eq(2) [of str]
      by (auto simp: printablize_string_def Let_def escape_def [of "[]"] split: if_splits)
  qed
qed

lemma printablize_chunk_witness:
  "printed [97, 10, 200] (fst (printablize_string [97, 10, 200] 0)) @ [] = escape (drop 0 [97, 10, 200])"
proof -
  have "printablize_string [97, 10, 200] 0 = (New_string [97, 92, 110, 92, 51, 49, 48], None)" by code_simp
  then show ?thesis using printablize_chunk [of "[97, 10, 200]" 0] by (simp add: escape_def)
qed



definition wrapped_number :: "u8 \<Rightarrow> directive" where
  "wrapped_number c = \<lparr>letter = c, sharp_flag = False, star_flag = False, at_flag = False, negative_flag = False,
     pre_dot_lead_zero = False, pre_dot_num = Some (- (2 ^ 29)), post_dot_digits = None, post_dot_num = None, braced = None\<rparr>"

lemma parse_wrapped:
  "parse_format_string [126, 53, 51, 54, 56, 55, 48, 57, 49, 50, 100] = [Directive (wrapped_number 100)]"
  by code_simp

text \<open>C28: the parser of format strings reads every list of entries back from its text: literal pieces,
  directives of one character and directives with flags, a text in braces, sign and numbers below \<open>2 ^ 29\<close>, the
  least that \<^verbatim>\<open>int2fx\<close> does not keep: the number of \<^verbatim>\<open>~536870912d\<close> comes out negative.\<close>

lemma parse_format_roundtrip:
  assumes "entries_ok es"
  shows "parse_format_string (concat (map entry_text es)) = es \<and>
    parse_format_string [126, 53, 51, 54, 56, 55, 48, 57, 49, 50, 100] = [Directive (wrapped_number 100)]"
  using format_loop_entries [OF assms, of "[]"] parse_wrapped by (simp add: parse_format_string_def)

definition example_directive :: directive where
  "example_directive = \<lparr>letter = 102, sharp_flag = False, star_flag = False, at_flag = True, negative_flag = True,
     pre_dot_lead_zero = True, pre_dot_num = Some 12, post_dot_digits = Some 3, post_dot_num = Some 7, braced = Some [120]\<rparr>"

lemma parse_format_roundtrip_witness:
  "parse_format_string (concat (map entry_text [Literal [97], Directive example_directive, Directive_char 37]))
     = [Literal [97], Directive example_directive, Directive_char 37]"
proof (rule parse_format_roundtrip [THEN conjunct1])
  show "entries_ok [Literal [97], Directive example_directive, Directive_char 37]" by code_simp
qed

end
