(* ===== verification/Ber.thy ===== *)
theory Ber
  imports BaseMath HashFn
begin

text \<open>
  The BER encoder and parser of \<^verbatim>\<open>lib/rs/net/asn1\<close> (\<^verbatim>\<open>ber_encode_rec.c\<close>, \<^verbatim>\<open>ber_parse_rec.c\<close>,
  \<^verbatim>\<open>ber.h\<close>).  The parser works on addresses: a memory of 32-bit addresses and the address of the
  string that is parsed, so that its pointer comparisons wrap around as those of the machine.
  The dequeues that collect items are the lists of these items.
\<close>

unbundle bit_operations_syntax

lemma unat_plus1: "(p :: u32) < q \<Longrightarrow> unat (p + 1) = unat p + 1"
  using unat_u32_less [of q] by (simp add: word_less_nat_alt unat_add_u32)

section \<open>GMP and hashing\<close>

record 'z ber_gmp = "'z gmp" +
  mpz_fits_ulong_p :: "'z \<Rightarrow> bool"
  mpz_import :: "u8 list \<Rightarrow> 'z"
  mpz_setbit :: "'z \<Rightarrow> nat \<Rightarrow> 'z"

definition oid_hash_mix :: "u32 list" where
  "oid_hash_mix = [
    0x00000000, 0x04c11db7, 0x09823b6e, 0x0d4326d9, 0x130476dc, 0x17c56b6b,
    0x1a864db2, 0x1e475005, 0x2608edb8, 0x22c9f00f, 0x2f8ad6d6, 0x2b4bcb61,
    0x350c9b64, 0x31cd86d3, 0x3c8ea00a, 0x384fbdbd, 0x4c11db70, 0x48d0c6c7,
    0x4593e01e, 0x4152fda9, 0x5f15adac, 0x5bd4b01b, 0x569796c2, 0x52568b75,
    0x6a1936c8, 0x6ed82b7f, 0x639b0da6, 0x675a1011, 0x791d4014, 0x7ddc5da3,
    0x709f7b7a, 0x745e66cd, 0x9823b6e0, 0x9ce2ab57, 0x91a18d8e, 0x95609039,
    0x8b27c03c, 0x8fe6dd8b, 0x82a5fb52, 0x8664e6e5, 0xbe2b5b58, 0xbaea46ef,
    0xb7a96036, 0xb3687d81, 0xad2f2d84, 0xa9ee3033, 0xa4ad16ea, 0xa06c0b5d,
    0xd4326d90, 0xd0f37027, 0xddb056fe, 0xd9714b49, 0xc7361b4c, 0xc3f706fb,
    0xceb42022, 0xca753d95, 0xf23a8028, 0xf6fb9d9f, 0xfbb8bb46, 0xff79a6f1,
    0xe13ef6f4, 0xe5ffeb43, 0xe8bccd9a, 0xec7dd02d, 0x34867077, 0x30476dc0,
    0x3d044b19, 0x39c556ae, 0x278206ab, 0x23431b1c, 0x2e003dc5, 0x2ac12072,
    0x128e9dcf, 0x164f8078, 0x1b0ca6a1, 0x1fcdbb16, 0x018aeb13, 0x054bf6a4,
    0x0808d07d, 0x0cc9cdca, 0x7897ab07, 0x7c56b6b0, 0x71159069, 0x75d48dde,
    0x6b93dddb, 0x6f52c06c, 0x6211e6b5, 0x66d0fb02, 0x5e9f46bf, 0x5a5e5b08,
    0x571d7dd1, 0x53dc6066, 0x4d9b3063, 0x495a2dd4, 0x44190b0d, 0x40d816ba,
    0xaca5c697, 0xa864db20, 0xa527fdf9, 0xa1e6e04e, 0xbfa1b04b, 0xbb60adfc,
    0xb6238b25, 0xb2e29692, 0x8aad2b2f, 0x8e6c3698, 0x832f1041, 0x87ee0df6,
    0x99a95df3, 0x9d684044, 0x902b669d, 0x94ea7b2a, 0xe0b41de7, 0xe4750050,
    0xe9362689, 0xedf73b3e, 0xf3b06b3b, 0xf771768c, 0xfa325055, 0xfef34de2,
    0xc6bcf05f, 0xc27dede8, 0xcf3ecb31, 0xcbffd686, 0xd5b88683, 0xd1799b34,
    0xdc3abded, 0xd8fba05a, 0x690ce0ee, 0x6dcdfd59, 0x608edb80, 0x644fc637,
    0x7a089632, 0x7ec98b85, 0x738aad5c, 0x774bb0eb, 0x4f040d56, 0x4bc510e1,
    0x46863638, 0x42472b8f, 0x5c007b8a, 0x58c1663d, 0x558240e4, 0x51435d53,
    0x251d3b9e, 0x21dc2629, 0x2c9f00f0, 0x285e1d47, 0x36194d42, 0x32d850f5,
    0x3f9b762c, 0x3b5a6b9b, 0x0315d626, 0x07d4cb91, 0x0a97ed48, 0x0e56f0ff,
    0x1011a0fa, 0x14d0bd4d, 0x19939b94, 0x1d528623, 0xf12f560e, 0xf5ee4bb9,
    0xf8ad6d60, 0xfc6c70d7, 0xe22b20d2, 0xe6ea3d65, 0xeba91bbc, 0xef68060b,
    0xd727bbb6, 0xd3e6a601, 0xdea580d8, 0xda649d6f, 0xc423cd6a, 0xc0e2d0dd,
    0xcda1f604, 0xc960ebb3, 0xbd3e8d7e, 0xb9ff90c9, 0xb4bcb610, 0xb07daba7,
    0xae3afba2, 0xaafbe615, 0xa7b8c0cc, 0xa379dd7b, 0x9b3660c6, 0x9ff77d71,
    0x92b45ba8, 0x9675461f, 0x8832161a, 0x8cf30bad, 0x81b02d74, 0x857130c3,
    0x5d8a9099, 0x594b8d2e, 0x5408abf7, 0x50c9b640, 0x4e8ee645, 0x4a4ffbf2,
    0x470cdd2b, 0x43cdc09c, 0x7b827d21, 0x7f436096, 0x7200464f, 0x76c15bf8,
    0x68860bfd, 0x6c47164a, 0x61043093, 0x65c52d24, 0x119b4be9, 0x155a565e,
    0x18197087, 0x1cd86d30, 0x029f3d35, 0x065e2082, 0x0b1d065b, 0x0fdc1bec,
    0x3793a651, 0x3352bbe6, 0x3e119d3f, 0x3ad08088, 0x2497d08d, 0x2056cd3a,
    0x2d15ebe3, 0x29d4f654, 0xc5a92679, 0xc1683bce, 0xcc2b1d17, 0xc8ea00a0,
    0xd6ad50a5, 0xd26c4d12, 0xdf2f6bcb, 0xdbee767c, 0xe3a1cbc1, 0xe760d676,
    0xea23f0af, 0xeee2ed18, 0xf0a5bd1d, 0xf464a0aa, 0xf9278673, 0xfde69bc4,
    0x89b8fd09, 0x8d79e0be, 0x803ac667, 0x84fbdbd0, 0x9abc8bd5, 0x9e7d9662,
    0x933eb0bb, 0x97ffad0c, 0xafb010b1, 0xab710d06, 0xa6322bdf, 0xa2f33668,
    0xbcb4666d, 0xb8757bda, 0xb5365d03, 0xb1f740b4
  ]"

definition OID_HASH_MIX :: "u32 \<Rightarrow> u32 \<Rightarrow> u32" where
  "OID_HASH_MIX seed i =
     (oid_hash_mix ! unat ((drop_bit 24 seed XOR i) AND 0xFF) XOR push_bit 8 seed) + i"

definition OID_HASH_TO_OBJ :: "u32 \<Rightarrow> u32" where
  "OID_HASH_TO_OBJ h = int2fx (crc_hash_int h AND 0x1FFFFFFF)"

definition uint_32_compact :: "u32 \<Rightarrow> 'z obj" where
  "uint_32_compact a = (if a < 0x20000000 then Imm (int2fx a) else uint_32_big a)"

section \<open>Headers\<close>

text \<open>\<^verbatim>\<open>emit_header\<close> as the octets it stores from \<open>p[0]\<close> on; their number is what it returns.\<close>

definition emit_header :: "u8 \<Rightarrow> u32 \<Rightarrow> u8 list" where
  "emit_header tag len =
     (if len < 128 then [tag, ucast len]
      else if len < 0x100 then [tag, 0x81, ucast len]
      else if len < 0x10000 then [tag, 0x82, ucast (drop_bit 8 len), ucast (len AND 0xFF)]
      else if len < 0x1000000 then
        [tag, 0x83, ucast (drop_bit 16 len), ucast (drop_bit 8 len AND 0xFF), ucast (len AND 0xFF)]
      else
        [tag, 0x83, ucast (drop_bit 24 len), ucast (drop_bit 16 len AND 0xFF),
         ucast (drop_bit 8 len AND 0xFF), ucast (len AND 0xFF)])"

text \<open>A store through a pointer into a buffer; outside it there is no next state.\<close>

fun stores :: "u8 list \<Rightarrow> (int \<times> u8) list \<Rightarrow> u8 list option" where
  "stores buf [] = Some buf"
| "stores buf ((i, b) # ibs) =
     (if 0 \<le> i \<and> i < int (length buf) then stores (buf[nat i := b]) ibs else None)"

definition emit_header_rev :: "u8 list \<Rightarrow> int \<Rightarrow> u8 \<Rightarrow> u32 \<Rightarrow> (int \<times> u8 list) option" where
  "emit_header_rev buf p tag len =
     (if len < 128 then map_option (Pair 2) (stores buf [(p - 2, tag), (p - 1, ucast len)])
      else if len < 0x100 then
        map_option (Pair 3) (stores buf [(p - 3, tag), (p - 2, 0x81), (p - 1, ucast len)])
      else if len < 0x10000 then
        map_option (Pair 4) (stores buf [(p - 4, tag), (p - 3, 0x82), (p - 2, ucast (drop_bit 8 len)),
          (p - 1, ucast (len AND 0xFF))])
      else if len < 0x1000000 then
        map_option (Pair 5) (stores buf [(p - 5, tag), (p - 4, 0x83), (p - 3, ucast (drop_bit 16 len)),
          (p - 2, ucast (drop_bit 8 len AND 0xFF)), (p - 1, ucast (len AND 0xFF))])
      else
        map_option (Pair 6) (stores buf [(p - 6, tag), (p - 5, 0x83), (p - 4, ucast (drop_bit 24 len)),
          (p - 3, ucast (drop_bit 16 len AND 0xFF)), (p - 2, ucast (drop_bit 8 len AND 0xFF)),
          (p - 1, ucast (len AND 0xFF))]))"

section \<open>The encoder\<close>

datatype 'z encode_error = Integer_out_of_range "'z obj" | Integer_expected "'z obj"
  | Subid_out_of_range nat "'z obj" | Store_outside_buffer

definition extract_uint_32_big :: "('z, 'b) ber_gmp_scheme \<Rightarrow> 'z obj \<Rightarrow> 'z encode_error + u32" where
  "extract_uint_32_big G x =
     (case x of
        Bignum z \<Rightarrow> if \<not> mpz_fits_ulong_p G z then Inl (Integer_out_of_range x) else Inr (mpz_get_ui G z)
      | _ \<Rightarrow> Inl (Integer_expected x))"

definition extract_uint_32 :: "('z, 'b) ber_gmp_scheme \<Rightarrow> 'z obj \<Rightarrow> 'z encode_error + u32" where
  "extract_uint_32 G x =
     (case x of
        Imm w \<Rightarrow> if FIXNUM_P w then if FX_LT w ZERO then Inl (Integer_out_of_range x) else Inr (fx2int w)
                 else extract_uint_32_big G x
      | _ \<Rightarrow> extract_uint_32_big G x)"

definition subid_octets :: "u32 \<Rightarrow> u8 list" where
  "subid_octets subid =
     (if subid < push_bit (1 * 7) 1 then [ucast subid]
      else if subid < push_bit (2 * 7) 1 then
        [ucast (0x80 OR (drop_bit 7 subid AND 0x7F)), ucast (subid AND 0x7F)]
      else if subid < push_bit (3 * 7) 1 then
        [ucast (0x80 OR (drop_bit 14 subid AND 0x7F)), ucast (0x80 OR (drop_bit 7 subid AND 0x7F)),
         ucast (subid AND 0x7F)]
      else if subid < push_bit (4 * 7) 1 then
        [ucast (0x80 OR (drop_bit 21 subid AND 0x7F)), ucast (0x80 OR (drop_bit 14 subid AND 0x7F)),
         ucast (0x80 OR (drop_bit 7 subid AND 0x7F)), ucast (subid AND 0x7F)]
      else
        [ucast (0x80 OR (drop_bit 28 subid AND 0x7F)), ucast (0x80 OR (drop_bit 21 subid AND 0x7F)),
         ucast (0x80 OR (drop_bit 14 subid AND 0x7F)), ucast (0x80 OR (drop_bit 7 subid AND 0x7F)),
         ucast (subid AND 0x7F)])"

text \<open>\<^verbatim>\<open>*p++ = b\<close> for octet after octet.\<close>

definition append_at :: "u8 list \<Rightarrow> nat \<Rightarrow> u8 list \<Rightarrow> u8 list option" where
  "append_at buf p bs = stores buf (zip (map int [p..<p + length bs]) bs)"

fun subid_loop :: "('z, 'b) ber_gmp_scheme \<Rightarrow> 'z obj list \<Rightarrow> u8 list \<Rightarrow> nat \<Rightarrow> u32 \<Rightarrow>
    'z encode_error + (u8 list \<times> nat \<times> u32)" where
  "subid_loop G [] buf p hash = Inr (buf, p, hash)"
| "subid_loop G (v # vec) buf p hash =
     (case extract_uint_32 G v of
        Inl e \<Rightarrow> Inl e
      | Inr subid \<Rightarrow>
          (case append_at buf p (subid_octets subid) of
             None \<Rightarrow> Inl Store_outside_buffer
           | Some buf \<Rightarrow>
               subid_loop G vec buf (p + length (subid_octets subid)) (OID_HASH_MIX hash subid)))"

text \<open>The port is the list of the chunks pushed on it, a string for a \<^verbatim>\<open>memstr\<close> (without the NUL).
  \<open>fill\<close> is what \<^verbatim>\<open>alloca\<close> leaves in the buffer.\<close>

datatype chunk = Chunk "u8 list" | Chunks "chunk list"

definition ber_encode_oid :: "('z, 'b) ber_gmp_scheme \<Rightarrow> (nat \<Rightarrow> u8) \<Rightarrow> chunk list \<Rightarrow> 'z obj list \<Rightarrow>
    'z encode_error + (nat \<times> u32 \<times> chunk list)" where
  "ber_encode_oid G fill port vec =
     (let buf = map fill [0..<6 + 5 * length vec]; p0 = 4; hash = 0x1234567
      in case extract_uint_32 G (vec ! 0) of
           Inl e \<Rightarrow> Inl e
         | Inr major \<Rightarrow>
             if major \<ge> 6 then Inl (Subid_out_of_range 0 (vec ! 0))
             else let hash = OID_HASH_MIX hash major
             in case extract_uint_32 G (vec ! 1) of
                  Inl e \<Rightarrow> Inl e
                | Inr minor \<Rightarrow>
                    if minor \<ge> 40 then Inl (Subid_out_of_range 1 (vec ! 1))
                    else let hash = OID_HASH_MIX hash minor
                    in case append_at buf p0 [ucast (major * 40 + minor)] of
                         None \<Rightarrow> Inl Store_outside_buffer
                       | Some buf \<Rightarrow>
                           (case subid_loop G (drop 2 vec) buf (p0 + 1) hash of
                              Inl e \<Rightarrow> Inl e
                            | Inr (buf, p, hash) \<Rightarrow>
                                (case emit_header_rev buf (int p0) 0x06 (of_nat (p - p0)) of
                                   None \<Rightarrow> Inl Store_outside_buffer
                                 | Some (n, buf) \<Rightarrow>
                                     let p0 = p0 - nat n
                                     in Inr (p - p0, OID_HASH_TO_OBJ hash,
                                             port @ [Chunk (take (p - p0) (drop p0 buf))]))))"

definition ber_encode_fx :: "chunk list \<Rightarrow> u32 \<Rightarrow> nat \<times> chunk list" where
  "ber_encode_fx port data =
     (let x = fx2int data;
          buf = (if sint x \<ge> -128 \<and> sint x \<le> 127 then emit_header 0x02 1 @ [ucast (x AND 0xFF)]
                 else if sint x \<ge> -32768 \<and> sint x \<le> 32767 then
                   emit_header 0x02 2 @ [ucast (signed_drop_bit 8 x AND 0xFF), ucast (x AND 0xFF)]
                 else if sint x \<ge> -8388608 \<and> sint x \<le> 8388607 then
                   emit_header 0x02 3 @ [ucast (signed_drop_bit 16 x AND 0xFF),
                     ucast (signed_drop_bit 8 x AND 0xFF), ucast (x AND 0xFF)]
                 else
                   emit_header 0x02 4 @ [ucast (signed_drop_bit 24 x AND 0xFF),
                     ucast (signed_drop_bit 16 x AND 0xFF), ucast (signed_drop_bit 8 x AND 0xFF),
                     ucast (x AND 0xFF)])
      in (length buf, port @ [Chunk buf]))"

definition ber_encode_header :: "chunk list \<Rightarrow> u32 \<Rightarrow> u32 \<Rightarrow> nat \<times> chunk list" where
  "ber_encode_header port tag len =
     (let buf = emit_header (ucast tag) len in (length buf, Chunk buf # port))"

definition ber_encode_str :: "chunk list \<Rightarrow> u8 list \<Rightarrow> nat \<times> chunk list" where
  "ber_encode_str port str =
     (let n = length str; buf = emit_header 0x04 (of_nat n)
      in (length buf + n, port @ [Chunk buf] @ [Chunk str]))"

text \<open>The methods of \<^verbatim>\<open>ber-encode*\<close> in \<^verbatim>\<open>asn1.scm\<close> on fixnums, strings and vectors of such, and
  \<^verbatim>\<open>ber-encode\<close>, which writes the strings of the tree out one after the other.\<close>

datatype item = Fixnum u32 | Str "u8 list" | Vec "item list"

fun ber_encode_item :: "item \<Rightarrow> chunk list \<Rightarrow> nat \<times> chunk list"
and ber_encode_items :: "item list \<Rightarrow> nat \<Rightarrow> chunk list \<Rightarrow> nat \<times> chunk list" where
  "ber_encode_item (Fixnum x) accum = ber_encode_fx accum x"
| "ber_encode_item (Str s) accum = ber_encode_str accum s"
| "ber_encode_item (Vec vs) accum =
     (let (n, q) = ber_encode_items vs 0 [];
          (h, q) = ber_encode_header q 0x30 (of_nat n)
      in (n + h, accum @ [Chunks q]))"
| "ber_encode_items [] n q = (n, q)"
| "ber_encode_items (v # vs) n q =
     (let (k, q) = ber_encode_item v q in ber_encode_items vs (n + k) q)"

fun flatten :: "chunk \<Rightarrow> u8 list" where
  "flatten (Chunk s) = s"
| "flatten (Chunks cs) = concat (map flatten cs)"

definition ber_encode :: "item \<Rightarrow> u8 list" where
  "ber_encode v = concat (map flatten (snd (ber_encode_item v [])))"

section \<open>The parser\<close>

record source =
  mem :: "u32 \<Rightarrow> u8"
  orig_base :: u32

record substring =
  sub_offset :: u32
  sub_length :: u32

datatype ber_error = Parse_error nat substring u32 | Assertion_failed | Argument_not_integer

datatype 'z asn = Integer "'z obj" | Bit_string u32 substring | Octet_string substring
  | Printable_string substring | Utctime substring | Null
  | Oid u32 "'z obj list" | Sequence "'z asn list" | Set_of "'z asn list" | Unknown u32 substring

definition make_substring :: "source \<Rightarrow> u32 \<Rightarrow> u32 \<Rightarrow> substring" where
  "make_substring src ptr limit =
     \<lparr>sub_offset = int2fx (ptr - orig_base src), sub_length = int2fx (limit - ptr)\<rparr>"

definition bail1 :: "nat \<Rightarrow> source \<Rightarrow> u32 \<Rightarrow> u32 \<Rightarrow> u32 \<Rightarrow> ber_error + 'a" where
  "bail1 code src ptr limit extra = Inl (Parse_error code (make_substring src ptr limit) extra)"

definition bail0 :: "nat \<Rightarrow> source \<Rightarrow> u32 \<Rightarrow> u32 \<Rightarrow> ber_error + 'a" where
  "bail0 code src ptr limit = bail1 code src ptr limit FALSE_OBJ"

function oid_loop :: "source \<Rightarrow> u32 \<Rightarrow> u32 \<Rightarrow> u32 \<Rightarrow> u32 \<Rightarrow> u32 \<Rightarrow> 'z obj list \<Rightarrow>
    ber_error + (u32 \<times> 'z obj list)" where
  "oid_loop src len lim ptr subid hash q =
     (if ptr < lim
      then let b = ucast (mem src ptr) :: u32
           in if b AND 0x80 \<noteq> 0
              then let subid = push_bit 7 (subid OR (b AND 0x7F))
                   in if subid = 0 then bail0 7362 src ptr (ptr + len)
                      else oid_loop src len lim (ptr + 1) subid hash q
              else let subid = subid OR (b AND 0x7F)
                   in oid_loop src len lim (ptr + 1) 0 (OID_HASH_MIX hash subid)
                        (q @ [uint_32_compact subid])
      else if subid \<noteq> 0 then bail0 7361 src ptr (ptr + len)
      else Inr (hash, q))"
  by auto

termination
proof (relation "measure (\<lambda>(src, len, lim, ptr, subid, hash, q). unat lim - unat ptr)")
  fix lim ptr :: u32
  assume "ptr < lim"
  moreover from this have "unat (ptr + 1) = unat ptr + 1"
    by (rule unat_plus1)
  ultimately have "unat lim - unat (ptr + 1) < unat lim - unat ptr"
    by (simp add: word_less_nat_alt)
  note step = this
  fix src :: source and len subid hash :: u32 and q :: "'z obj list" and b s :: u32
  show "((src, len, lim, ptr + 1, s, hash, q), src, len, lim, ptr, subid, hash, q)
      \<in> measure (\<lambda>(src, len, lim, ptr, subid, hash, q). unat lim - unat ptr)"
    using step by simp
  fix h' q'
  show "((src, len, lim, ptr + 1, 0, h', q'), src, len, lim, ptr, subid, hash, q)
      \<in> measure (\<lambda>(src, len, lim, ptr, subid, hash, q). unat lim - unat ptr)"
    using step by simp
qed simp

declare oid_loop.simps [simp del]

lemma oid_loop_unfold:
  fixes src :: source and ptr subid :: u32
  defines "b \<equiv> ucast (mem src ptr) :: u32"
  defines "s1 \<equiv> push_bit 7 (subid OR (b AND 0x7F))" and "s2 \<equiv> subid OR (b AND 0x7F)"
  shows "oid_loop src len lim ptr subid hash q =
    (if ptr < lim
     then if b AND 0x80 \<noteq> 0
          then if s1 = 0 then bail0 7362 src ptr (ptr + len)
               else oid_loop src len lim (ptr + 1) s1 hash q
          else oid_loop src len lim (ptr + 1) 0 (OID_HASH_MIX hash s2) (q @ [uint_32_compact s2])
     else if subid \<noteq> 0 then bail0 7361 src ptr (ptr + len) else Inr (hash, q))"
  by (subst oid_loop.simps) (simp only: Let_def b_def s1_def s2_def)

lemma oid_loop_rule:
  fixes lim :: u32 and q :: "'z obj list"
  assumes "\<And>src len lim ptr subid hash (q :: 'z obj list).
    (\<And>s h q. ptr < lim \<Longrightarrow> P src len lim (ptr + 1) s h q) \<Longrightarrow> P src len lim ptr subid hash q"
  shows "P src len lim ptr subid hash q"
proof (induction "unat lim - unat ptr" arbitrary: ptr subid hash q rule: less_induct)
  case less
  show ?case
  proof (rule assms, rule less)
    assume "ptr < lim"
    then show "unat lim - unat (ptr + 1) < unat lim - unat ptr"
      using unat_plus1 [of ptr lim] by (simp add: word_less_nat_alt)
  qed
qed

definition ber_parse_oid :: "source \<Rightarrow> u32 \<Rightarrow> u32 \<Rightarrow> ber_error + 'z asn" where
  "ber_parse_oid src ptr len =
     (let lim = ptr + len;
          subid = ucast (mem src ptr) div 40 :: u32;
          hash = OID_HASH_MIX 0x1234567 subid;
          subid' = ucast (mem src ptr) mod 40 :: u32;
          hash = OID_HASH_MIX hash subid'
      in case oid_loop src (len - 1) lim (ptr + 1) 0 hash [Imm (int2fx subid), Imm (int2fx subid')] of
           Inl e \<Rightarrow> Inl e
         | Inr (hash, q) \<Rightarrow> Inr (Oid (OID_HASH_TO_OBJ hash) q))"

text \<open>\<^verbatim>\<open>basic_minus\<close> of two integers has a value (\<open>the_integer\<close>); the default case hands the octets to GMP.\<close>

definition octets :: "source \<Rightarrow> u32 \<Rightarrow> nat \<Rightarrow> u8 list" where
  "octets src ptr n = map (\<lambda>i. mem src (ptr + of_nat i)) [0..<n]"

definition ber_parse_int :: "('z, 'b) ber_gmp_scheme \<Rightarrow> source \<Rightarrow> u32 \<Rightarrow> u32 \<Rightarrow> 'z dispatch_error + 'z obj" where
  "ber_parse_int G src ptr len =
     (let b = (\<lambda>i. ucast (mem src (ptr + i)) :: u32)
      in if len = 0 then Inr (Imm ZERO)
         else if len = 1 then
           let tmp = b 0; tmp = (if tmp AND 0x80 \<noteq> 0 then tmp OR (-1 AND NOT 0xFF) else tmp)
           in Inr (Imm (int2fx tmp))
         else if len = 2 then
           let tmp = push_bit 8 (b 0) OR b 1;
               tmp = (if tmp AND 0x8000 \<noteq> 0 then tmp OR (-1 XOR 0xFFFF) else tmp)
           in Inr (Imm (int2fx tmp))
         else if len = 3 then
           let tmp = push_bit 16 (b 0) OR push_bit 8 (b 1) OR b 2;
               tmp = (if tmp AND 0x800000 \<noteq> 0 then tmp OR (-1 XOR 0xFFFFFF) else tmp)
           in Inr (Imm (int2fx tmp))
         else if len = 4 then
           let tmp = push_bit 24 (b 0) OR push_bit 16 (b 1) OR push_bit 8 (b 2) OR b 3
           in if tmp AND 0x80000000 \<noteq> 0
              then basic_minus (gmp.truncate G) (Imm ZERO) (uint_32_compact (- tmp))
              else Inr (uint_32_compact tmp)
         else
           let zn = mpz_import G (octets src ptr (unat len));
               zn = (if b 0 AND 0x80 \<noteq> 0
                     then mpz_sub G zn (mpz_setbit G (mpz_set_ui G 0) (unat (len * 8))) else zn)
           in Inr (Bignum zn))"

text \<open>The header: the tag, the length and the address after it.\<close>

definition parse_header :: "source \<Rightarrow> u32 \<Rightarrow> u32 \<Rightarrow> ber_error + (u8 \<times> u32 \<times> u32)" where
  "parse_header src src_ptr src_limit =
     (if src_ptr \<ge> src_limit then bail0 7301 src src_ptr src_limit
      else let tag = mem src src_ptr; src_ptr = src_ptr + 1
      in if src_ptr \<ge> src_limit then bail0 7302 src src_ptr src_limit
      else let len = ucast (mem src src_ptr) :: u32; src_ptr = src_ptr + 1;
               b = (\<lambda>i. ucast (mem src (src_ptr + i)) :: u32)
      in if len AND 0x80 \<noteq> 0
         then if len = 0x81 then
                if src_ptr + 1 > src_limit then bail0 7303 src src_ptr src_limit
                else Inr (tag, b 0, src_ptr + 1)
              else if len = 0x82 then
                if src_ptr + 2 > src_limit then bail0 7304 src src_ptr src_limit
                else Inr (tag, push_bit 8 (b 0) + b 1, src_ptr + 2)
              else if len = 0x83 then
                if src_ptr + 3 > src_limit then bail0 7305 src src_ptr src_limit
                else Inr (tag, push_bit 16 (b 0) + push_bit 8 (b 1) + b 2, src_ptr + 3)
              else if len = 0x84 then
                if src_ptr + 4 > src_limit then bail0 7306 src src_ptr src_limit
                else Inr (tag, push_bit 24 (b 0) + push_bit 16 (b 1) + push_bit 8 (b 2) + b 3, src_ptr + 4)
              else if len = 0x80 then bail0 7307 src src_ptr src_limit
              else bail0 7308 src src_ptr src_limit
         else Inr (tag, len, src_ptr))"

text \<open>The cases of \<^verbatim>\<open>switch (tag)\<close> with a content that is not made of items.\<close>

definition parse_primitive :: "('z, 'b) ber_gmp_scheme \<Rightarrow> source \<Rightarrow> u8 \<Rightarrow> u32 \<Rightarrow> u32 \<Rightarrow> ber_error + 'z asn" where
  "parse_primitive G src tag src_ptr len =
     (if tag = 0x02 then
        (case ber_parse_int G src src_ptr len of
           Inl _ \<Rightarrow> Inl Argument_not_integer
         | Inr n \<Rightarrow> Inr (Integer n))
      else if tag = 0x03 then
        Inr (Bit_string (int2fx (ucast (mem src src_ptr)))
               (make_substring src (src_ptr + 1) (src_ptr + len)))
      else if tag = 0x04 then Inr (Octet_string (make_substring src src_ptr (src_ptr + len)))
      else if tag = 0x13 then Inr (Printable_string (make_substring src src_ptr (src_ptr + len)))
      else if tag = 0x17 then Inr (Utctime (make_substring src src_ptr (src_ptr + len)))
      else if tag = 0x05 then Inr Null
      else if tag = 0x06 then ber_parse_oid src src_ptr len
      else Inr (Unknown (int2fx (ucast tag)) (make_substring src src_ptr (src_ptr + len))))"

text \<open>\<^verbatim>\<open>ber_parse_rec\<close> gives the item and the address after it.  The recursion and the loop over the
  items of a SEQUENCE or a SET have a fuel; \<open>None\<close> is running out of it.\<close>

fun ber_parse_rec :: "('z, 'b) ber_gmp_scheme \<Rightarrow> source \<Rightarrow> nat \<Rightarrow> u32 \<Rightarrow> u32 \<Rightarrow>
    (ber_error + (u32 \<times> 'z asn)) option"
and item_loop :: "('z, 'b) ber_gmp_scheme \<Rightarrow> source \<Rightarrow> nat \<Rightarrow> u32 \<Rightarrow> u32 \<Rightarrow> 'z asn list \<Rightarrow>
    (ber_error + (u32 \<times> 'z asn list)) option" where
  "ber_parse_rec G src 0 src_ptr src_limit = None"
| "ber_parse_rec G src (Suc fuel) src_ptr src_limit =
     (case parse_header src src_ptr src_limit of
        Inl e \<Rightarrow> Some (Inl e)
      | Inr (tag, len, src_ptr) \<Rightarrow>
          if src_ptr + len > src_limit then Some (bail1 7309 src src_ptr src_limit (int2fx len))
          else if tag = 0x31 \<or> tag = 0x30 then
            (case item_loop G src fuel src_ptr (src_ptr + len) [] of
               None \<Rightarrow> None
             | Some (Inl e) \<Rightarrow> Some (Inl e)
             | Some (Inr (p, q)) \<Rightarrow>
                 if p \<noteq> src_ptr + len then Some (Inl Assertion_failed)
                 else if tag = 0x31 then Some (Inr (p, Set_of q))
                 else Some (Inr (p, Sequence q)))
          else
            (case parse_primitive G src tag src_ptr len of
               Inl e \<Rightarrow> Some (Inl e)
             | Inr r \<Rightarrow> Some (Inr (src_ptr + len, r))))"
| "item_loop G src 0 p lim q = None"
| "item_loop G src (Suc fuel) p lim q =
     (if p < lim
      then case ber_parse_rec G src fuel p lim of
             None \<Rightarrow> None
           | Some (Inl e) \<Rightarrow> Some (Inl e)
           | Some (Inr (p, item)) \<Rightarrow> item_loop G src fuel p lim (q @ [item])
      else Some (Inr (p, q)))"

end
