(* ===== verification/BerInt.thy ===== *)
theory BerInt
  imports Ber
begin

text \<open>
  The integers of the BER parser: addresses and octets of a word, headers read back, the two's
  complement value of an INTEGER in each of the representations the parser chooses, and the octets
  the encoder writes for a fixnum.
\<close>

unbundle bit_operations_syntax

section \<open>Addresses\<close>

lemma unat_plus_of_nat: "unat (p :: u32) + n < 4294967296 \<Longrightarrow> unat (p + of_nat n) = unat p + n"
  by (simp add: unat_add_u32 unsigned_of_nat take_bit_eq_mod)

lemma u32_le_nat: "(p :: u32) \<le> q \<longleftrightarrow> unat p \<le> unat q"
  by (rule word_le_nat_alt)

lemma u32_less_nat: "(p :: u32) < q \<longleftrightarrow> unat p < unat q"
  by (rule word_less_nat_alt)

fun holds :: "source \<Rightarrow> u32 \<Rightarrow> u8 list \<Rightarrow> bool" where
  "holds src p [] \<longleftrightarrow> True"
| "holds src p (b # bs) \<longleftrightarrow> mem src p = b \<and> holds src (p + 1) bs"

lemma holds_append: "holds src p (xs @ ys) \<longleftrightarrow> holds src p xs \<and> holds src (p + of_nat (length xs)) ys"
  by (induction xs arbitrary: p) (auto simp: algebra_simps)

lemma holds_octets: "holds src p bs \<longleftrightarrow> octets src p (length bs) = bs"
proof (induction bs arbitrary: p)
  case (Cons b bs)
  have "octets src p (length (b # bs)) = mem src p # octets src (p + 1) (length bs)"
    unfolding octets_def list.size by (simp add: upt_conv_Cons map_Suc_upt [symmetric] add.assoc del: upt_Suc)
  then show ?case by (simp add: Cons.IH)
qed (simp add: octets_def)

section \<open>Octets of a word\<close>

lemma bit_u8: "bit (b :: u8) n \<Longrightarrow> n < 8"
  using bit_imp_le_length [of b n] by simp

lemma ucast_and_ff [simp]: "(ucast (x AND 0xFF :: u32) :: u8) = ucast x"
proof -
  have "(ucast (x AND mask 8) :: u8) = ucast x"
    by (rule bit_word_eqI) (auto simp: bit_unsigned_iff bit_and_iff bit_mask_iff)
  then show ?thesis by (simp add: mask_eq_exp_minus_1)
qed

lemma bit_octet: "bit (ucast (ucast (x :: u32) :: u8) :: u32) n \<longleftrightarrow> n < 8 \<and> bit x n"
  by (auto simp: bit_unsigned_iff dest: bit_imp_le_length)

lemma bit_shifted_octet:
  "bit (push_bit k (ucast (ucast (drop_bit k x) :: u8)) :: u32) n \<longleftrightarrow>
     k \<le> n \<and> n < k + 8 \<and> n < 32 \<and> bit (x :: u32) n"
proof -
  have "k + (n - k) = n" if "k \<le> n" using that by simp
  then show ?thesis by (auto simp: bit_push_bit_iff bit_octet bit_drop_bit_eq)
qed

lemma octets_of_word:
  "(ucast (ucast (x :: u32) :: u8) :: u32) = take_bit 8 x"
  "push_bit 8 (ucast (ucast (drop_bit 8 x) :: u8)) OR ucast (ucast x :: u8) = take_bit 16 x"
  "push_bit 16 (ucast (ucast (drop_bit 16 x) :: u8)) OR push_bit 8 (ucast (ucast (drop_bit 8 x) :: u8))
     OR ucast (ucast x :: u8) = take_bit 24 x"
  "push_bit 24 (ucast (ucast (drop_bit 24 x) :: u8)) OR push_bit 16 (ucast (ucast (drop_bit 16 x) :: u8))
     OR push_bit 8 (ucast (ucast (drop_bit 8 x) :: u8)) OR ucast (ucast x :: u8) = x"
  by (rule bit_word_eqI; auto simp: bit_or_iff bit_shifted_octet bit_octet bit_take_bit_iff
      dest: bit_imp_le_length)+

lemma disj_plus_octets:
  "push_bit 8 (ucast (a :: u8)) + (ucast (b :: u8) :: u32) = push_bit 8 (ucast a) OR ucast b"
  "push_bit 16 (ucast (c :: u8)) + push_bit 8 (ucast a) + (ucast b :: u32) =
     push_bit 16 (ucast c) OR push_bit 8 (ucast a) OR ucast b"
  "push_bit 24 (ucast (d :: u8)) + push_bit 16 (ucast c) + push_bit 8 (ucast a) + (ucast b :: u32) =
     push_bit 24 (ucast d) OR push_bit 16 (ucast c) OR push_bit 8 (ucast a) OR ucast b"
proof -
  have *: "x + y = x OR y" if "x AND y = 0" for x y :: u32
    using that by (rule disjunctive_add_eq_or)
  have z: "push_bit 8 (ucast a) AND (ucast b :: u32) = 0"
    by (rule bit_word_eqI) (auto simp: bit_and_iff bit_push_bit_iff bit_unsigned_iff dest: bit_u8)
  show 1: "push_bit 8 (ucast a) + (ucast b :: u32) = push_bit 8 (ucast a) OR ucast b"
    by (rule *) (rule z)
  have z: "push_bit 16 (ucast c) AND (push_bit 8 (ucast a) OR ucast b :: u32) = 0"
    by (rule bit_word_eqI) (auto simp: bit_and_iff bit_or_iff bit_push_bit_iff bit_unsigned_iff dest: bit_u8)
  show 2: "push_bit 16 (ucast c) + push_bit 8 (ucast a) + (ucast b :: u32) =
     push_bit 16 (ucast c) OR push_bit 8 (ucast a) OR ucast b"
    unfolding add.assoc 1 or.assoc by (rule *) (rule z)
  have z: "push_bit 24 (ucast d) AND (push_bit 16 (ucast c) OR push_bit 8 (ucast a) OR ucast b :: u32) = 0"
    by (rule bit_word_eqI) (auto simp: bit_and_iff bit_or_iff bit_push_bit_iff bit_unsigned_iff dest: bit_u8)
  have "push_bit 24 (ucast d) + (push_bit 16 (ucast c) + push_bit 8 (ucast a) + (ucast b :: u32)) =
     push_bit 24 (ucast d) OR (push_bit 16 (ucast c) OR push_bit 8 (ucast a) OR ucast b)"
    unfolding 2 by (rule *) (rule z)
  then show "push_bit 24 (ucast d) + push_bit 16 (ucast c) + push_bit 8 (ucast a) + (ucast b :: u32) =
     push_bit 24 (ucast d) OR push_bit 16 (ucast c) OR push_bit 8 (ucast a) OR ucast b"
    by (simp only: add.assoc or.assoc)
qed

lemma shifted_plus:
  "push_bit 16 (ucast (ucast (drop_bit 16 x) :: u8)) + take_bit 16 x = take_bit 24 (x :: u32)"
  "push_bit 24 (ucast (ucast (drop_bit 24 x) :: u8)) + take_bit 24 x = (x :: u32)"
  by (subst disjunctive_add_eq_or; rule bit_word_eqI;
      auto simp: bit_and_iff bit_or_iff bit_shifted_octet bit_take_bit_iff dest: bit_imp_le_length)+

lemma take_bit_small: "unat x < 2 ^ n \<Longrightarrow> take_bit n (x :: u32) = x"
  by (simp add: unsigned_take_bit_eq take_bit_nat_eq_self word_unat_eq_iff)

lemma take_bit_lits:
  "x < 0x80 \<Longrightarrow> take_bit 7 (x :: u32) = x"
  "x < 0x100 \<Longrightarrow> take_bit 8 (x :: u32) = x" "x < 0x10000 \<Longrightarrow> take_bit 16 (x :: u32) = x"
  "x < 0x1000000 \<Longrightarrow> take_bit 24 (x :: u32) = x"
  by (rule take_bit_small; simp add: word_less_nat_alt)+

section \<open>Headers\<close>

lemma length_emit_header: "2 \<le> length (emit_header tag len)" "length (emit_header tag len) \<le> 6"
  by (simp_all add: emit_header_def)

lemma parse_short: "x < 128 \<Longrightarrow> (x :: u32) AND 0x80 = 0"
  using and_exp_eq_0_iff_not_bit [of x 7] take_bit_lits(1) [of x] bit_take_bit_iff [of 7 x 7]
  by simp

lemma unat_plus_lit:
  assumes "unat (p :: u32) + k < 4294967296"
  shows "k \<ge> 1 \<Longrightarrow> unat (p + 1) = unat p + 1" "k \<ge> 2 \<Longrightarrow> unat (2 + p) = unat p + 2"
    "k \<ge> 3 \<Longrightarrow> unat (3 + p) = unat p + 3" "k \<ge> 4 \<Longrightarrow> unat (4 + p) = unat p + 4"
    "k \<ge> 5 \<Longrightarrow> unat (5 + p) = unat p + 5" "k \<ge> 6 \<Longrightarrow> unat (6 + p) = unat p + 6"
    "k \<ge> 2 \<Longrightarrow> unat (p + 2) = unat p + 2"
    "k \<ge> 3 \<Longrightarrow> unat (p + 3) = unat p + 3" "k \<ge> 4 \<Longrightarrow> unat (p + 4) = unat p + 4"
    "k \<ge> 5 \<Longrightarrow> unat (p + 5) = unat p + 5" "k \<ge> 6 \<Longrightarrow> unat (p + 6) = unat p + 6"
  using assms by (simp_all add: unat_add_u32)

lemma parse_header_emit:
  assumes h: "holds src p (emit_header tag len)" and l: "len < 0x1000000"
    and lim: "unat p + length (emit_header tag len) \<le> unat limit"
  shows "parse_header src p limit = Inr (tag, len, p + of_nat (length (emit_header tag len)))"
proof -
  have small: "unat p + length (emit_header tag len) < 4294967296"
    using lim unat_u32_less [of limit] by linarith
  note u = unat_plus_lit [OF small]
  consider "len < 128" | "128 \<le> len" "len < 0x100" | "0x100 \<le> len" "len < 0x10000"
    | "0x10000 \<le> len" by fastforce
  then show ?thesis
  proof cases
    case 1
    then have "len < 0x100" by (simp add: word_less_nat_alt)
    from 1 this show ?thesis using h lim u small
      by (simp add: parse_header_def Let_def emit_header_def octets_of_word take_bit_lits parse_short
          word_le_nat_alt)
  next
    case 2
    then show ?thesis using h lim u small
      by (simp add: parse_header_def Let_def emit_header_def octets_of_word take_bit_lits
          word_le_nat_alt word_less_nat_alt)
  next
    case 3
    then show ?thesis using h lim u small
      by (simp add: parse_header_def Let_def emit_header_def octets_of_word(2-) take_bit_lits disj_plus_octets shifted_plus
          word_le_nat_alt word_less_nat_alt add.assoc)
  next
    case 4
    then show ?thesis using h lim u small l
      by (simp add: parse_header_def Let_def emit_header_def octets_of_word(2-) take_bit_lits disj_plus_octets shifted_plus
          word_le_nat_alt word_less_nat_alt add.assoc)
  qed
qed

section \<open>Integers\<close>

definition unsigned_val :: "u8 list \<Rightarrow> int" where
  "unsigned_val bs = foldl (\<lambda>a b. a * 256 + uint b) 0 bs"

definition twos :: "u8 list \<Rightarrow> int" where
  "twos bs = unsigned_val bs - (if bs \<noteq> [] \<and> bit (hd bs) 7 then 2 ^ (8 * length bs) else 0)"

definition ber_gmp_spec :: "('z, 'b) ber_gmp_scheme \<Rightarrow> ('z \<Rightarrow> int) \<Rightarrow> bool" where
  "ber_gmp_spec G val \<longleftrightarrow>
     gmp_spec (gmp.truncate G) val \<and> (\<forall>bs. val (mpz_import G bs) = unsigned_val bs) \<and>
     (\<forall>z n. val z = 0 \<longrightarrow> val (mpz_setbit G z n) = 2 ^ n) \<and>
     (\<forall>z. mpz_fits_ulong_p G z \<longleftrightarrow> 0 \<le> val z \<and> val z < 2 ^ 32)"

lemma compact_canonical:
  assumes "wf64 b" "fits_fixnum (sint (i64 b))"
  shows "int_64_compact b = Imm (int2fx (of_int (sint (i64 b))))"
proof -
  have "ucast (i64 b) = (of_int (sint (i64 b)) :: u32)"
    by (rule bit_word_eqI) (simp del: of_int_sint add: bit_unsigned_iff bit_word_of_int_iff bit_sint_iff)
  then show ?thesis using assms by (simp add: int_64_compact_def to_int_32 fit_in_30_iff)
qed

lemma int_minus_zero:
  assumes "0 < sint b" "sint b < 2 ^ 29"
  shows "(int_minus 0 b :: 'z obj) = Imm (int2fx (- b))"
proof -
  have w: "wf64 (int_64_sub (int_32_to_int_64 0) (int_32_to_int_64 b))" by (simp add: int_64_sub_def)
  have "sint (i64 (int_64_sub (int_32_to_int_64 0) (int_32_to_int_64 b))) = - sint b"
    using assms sint_minus_64 [of 0 "i64 (int_32_to_int_64 b)"] by (simp add: i64_sub sint_int_32 i64_int_32)
  then have "(int_64_compact (int_64_sub (int_32_to_int_64 0) (int_32_to_int_64 b)) :: 'z obj) = Imm (int2fx (- b))"
    using compact_canonical [OF w] assms by (simp add: fits_fixnum_def)
  then show ?thesis by (simp add: int_minus_def Let_def)
qed

lemma uint_of_int_u32: "0 \<le> k \<Longrightarrow> k < 4294967296 \<Longrightarrow> uint (of_int k :: u32) = k"
  by (simp add: uint_word_of_int)

lemma sign_extend:
  assumes t: "take_bit m t = (t :: u32)" and m: "0 < m" "m < 32"
  shows "sint (if bit t (m - 1) then t OR NOT (mask m) else t) = uint t - (if bit t (m - 1) then 2 ^ m else 0)"
proof -
  have lt: "uint t < 2 ^ m"
    using t by (metis take_bit_int_less_exp unsigned_take_bit_eq)
  have "(2 :: int) ^ m \<le> 2 ^ 31" using m by (intro power_increasing) auto
  then have le: "(2 :: int) ^ m \<le> 2147483648" by simp
  show ?thesis
  proof (cases "bit t (m - 1)")
    case True
    have "t AND NOT (mask m) = 0"
      by (subst t [symmetric]) (rule bit_word_eqI, auto simp: bit_and_iff bit_not_iff bit_mask_iff bit_take_bit_iff)
    then have "t OR NOT (mask m) = t + NOT (mask m)" by (simp add: disjunctive_add_eq_or)
    also have "\<dots> = t - 2 ^ m" by (simp add: not_eq_complement mask_eq_exp_minus_1)
    also have "\<dots> = of_int (uint t - 2 ^ m)" by simp
    finally have eq: "t OR NOT (mask m) = of_int (uint t - 2 ^ m)" .
    have "0 \<le> uint t" by simp
    then have "sint (of_int (uint t - 2 ^ m) :: u32) = uint t - 2 ^ m"
      using lt le by (intro sint_of_int_32) linarith+
    then show ?thesis using True by (simp only: eq if_True)
  next
    case False
    have "take_bit (m - 1) t = t"
    proof (rule bit_word_eqI)
      fix n
      have "bit t n \<longleftrightarrow> n < m \<and> bit t n" by (metis t bit_take_bit_iff)
      then show "bit (take_bit (m - 1) t) n \<longleftrightarrow> bit t n"
        using False m by (cases "n = m - 1") (auto simp: bit_take_bit_iff)
    qed
    then have "uint t < 2 ^ (m - 1)"
      by (metis take_bit_int_less_exp unsigned_take_bit_eq)
    also have "(2 :: int) ^ (m - 1) \<le> 2 ^ 31" using m by (intro power_increasing) auto
    finally have "uint t < 2147483648" by simp
    moreover have "0 \<le> uint t" by simp
    ultimately have "sint (of_int (uint t) :: u32) = uint t"
      by (intro sint_of_int_32) linarith+
    then have "sint t = uint t" by simp
    then show ?thesis using False by simp
  qed
qed

lemma and_pow_bit: "(x :: u32) AND 2 ^ n \<noteq> 0 \<longleftrightarrow> bit x n"
  using and_exp_eq_0_iff_not_bit [of x n] by simp

lemma assembled:
  fixes a b c d :: u8
  defines "t1 \<equiv> ucast a :: u32" and "t2 \<equiv> push_bit 8 (ucast a) OR ucast b :: u32"
    and "t3 \<equiv> push_bit 16 (ucast a) OR push_bit 8 (ucast b) OR ucast c :: u32"
    and "t4 \<equiv> push_bit 24 (ucast a) OR push_bit 16 (ucast b) OR push_bit 8 (ucast c) OR ucast d :: u32"
  shows "uint t1 = unsigned_val [a]" "uint t2 = unsigned_val [a, b]"
    "uint t3 = unsigned_val [a, b, c]" "uint t4 = unsigned_val [a, b, c, d]"
    "bit t1 7 = bit a 7" "bit t2 15 = bit a 7" "bit t3 23 = bit a 7" "bit t4 31 = bit a 7"
    "take_bit 8 t1 = t1" "take_bit 16 t2 = t2" "take_bit 24 t3 = t3"
proof -
  have b: "0 \<le> uint (x :: u8)" "uint (x :: u8) < 256" for x
    using unsigned_less [of x, where 'a = int] by simp_all
  note bs = b [of a] b [of b] b [of c] b [of d]
  have e: "ucast (x :: u8) = (of_int (uint x) :: u32)" for x
    by (rule bit_word_eqI) (auto simp del: of_int_uint simp: bit_unsigned_iff bit_word_of_int_iff bit_uint_iff)
  show "uint t1 = unsigned_val [a]"
    unfolding t1_def e unsigned_val_def using bs by (subst uint_of_int_u32) simp_all
  have "t2 = of_int (unsigned_val [a, b])"
    unfolding t2_def disj_plus_octets(1) [symmetric] by (simp del: of_int_uint add: e push_bit_eq_mult unsigned_val_def)
  then show "uint t2 = unsigned_val [a, b]"
    by (rule ssubst) (rule uint_of_int_u32; use bs in \<open>simp add: unsigned_val_def\<close>)
  have "t3 = of_int (unsigned_val [a, b, c])"
    unfolding t3_def disj_plus_octets(2) [symmetric]
    by (simp del: of_int_uint add: e push_bit_eq_mult unsigned_val_def algebra_simps)
  then show "uint t3 = unsigned_val [a, b, c]"
    by (rule ssubst) (rule uint_of_int_u32; use bs in \<open>simp add: unsigned_val_def\<close>)
  have "t4 = of_int (unsigned_val [a, b, c, d])"
    unfolding t4_def disj_plus_octets(3) [symmetric]
    by (simp del: of_int_uint add: e push_bit_eq_mult unsigned_val_def algebra_simps)
  then show "uint t4 = unsigned_val [a, b, c, d]"
    by (rule ssubst) (rule uint_of_int_u32; use bs in \<open>simp add: unsigned_val_def\<close>)
  show "bit t1 7 = bit a 7" "bit t2 15 = bit a 7" "bit t3 23 = bit a 7" "bit t4 31 = bit a 7"
    by (auto simp: t1_def t2_def t3_def t4_def bit_or_iff bit_push_bit_iff bit_unsigned_iff dest: bit_u8)
  show "take_bit 8 t1 = t1" "take_bit 16 t2 = t2" "take_bit 24 t3 = t3"
    by (rule bit_word_eqI; auto simp: t1_def t2_def t3_def bit_or_iff bit_push_bit_iff bit_unsigned_iff
        bit_take_bit_iff dest: bit_u8)+
qed

definition big64 :: "u32 \<Rightarrow> INT_64" where
  "big64 a = \<lparr>digits = [0, 0, ucast (drop_bit 16 a AND 0xFFFF), ucast (a AND 0xFFFF)]\<rparr>"

lemma wf64_big64 [simp]: "wf64 (big64 a)"
  by (simp add: big64_def)

lemma sint_big64: "sint (i64 (big64 a)) = uint a"
proof -
  have "(ucast (x AND 0xFFFF :: u32) :: u16) = ucast x" for x
  proof -
    have "(ucast (x AND mask 16) :: u16) = ucast x"
      by (rule bit_word_eqI) (auto simp: bit_unsigned_iff bit_and_iff bit_mask_iff)
    then show ?thesis by (simp add: mask_eq_exp_minus_1)
  qed
  moreover have "unat a div 65536 < 65536" using unat_u32_less [of a] by auto
  ultimately have u: "uval (big64 a) = unat a"
    using div_mult_mod_eq [of "unat a" 65536]
    by (simp add: big64_def uval_lit unat_ucast_32_16 unat_drop_bit_div del: div_mult_mod_eq)
  have "unat a < 9223372036854775808" using unat_u32_less [of a] by linarith
  then show ?thesis by (simp only: sint_uval [OF wf64_big64] u if_True) simp
qed

lemma sint_small: "uint (a :: u32) < 2147483648 \<Longrightarrow> sint a = uint a"
proof -
  assume "uint a < 2147483648"
  moreover have "0 \<le> uint a" by simp
  ultimately have "sint (of_int (uint a) :: u32) = uint a" by (intro sint_of_int_32) linarith+
  then show ?thesis by simp
qed

lemma uint_32_compact_val: "obj_val val (uint_32_compact a :: 'z obj) = uint a"
proof (cases "a < 0x20000000")
  case True
  then have u: "uint a < 536870912" by (simp add: word_less_def)
  then have "sint a = uint a" by (intro sint_small) simp
  moreover have "0 \<le> uint a" by simp
  then have "fits_fixnum (uint a)" using u by (simp add: fits_fixnum_def order.trans [of _ 0])
  ultimately show ?thesis using True by (simp add: uint_32_compact_def fx2int_int2fx)
next
  case False
  then show ?thesis
    by (simp add: uint_32_compact_def uint_32_big_def make_long_int_def flip: big64_def) (simp add: sint_big64)
qed

lemma bignum_compact_canonical:
  assumes G: "gmp_spec G val" and f: "fits_fixnum (val z)"
  shows "bignum_compact G z = Imm (int2fx (of_int (val z)))"
proof -
  have v: "\<bar>val z\<bar> < 2 ^ (32 * 1)" using f by (auto simp: fits_fixnum_def)
  then have "mpz_size G z \<le> 1" using gmpD(13) [OF G, of z 1] by blast
  moreover define l where "l = mpz_get_ui G z"
  moreover define b where "b = \<lparr>digits = [ucast (drop_bit 16 (0 :: u32)), ucast (0 AND 0xFFFF :: u32),
    ucast (drop_bit 16 l), ucast (l AND 0xFFFF)]\<rparr>"
  moreover define b' where "b' = (if mpz_sgn G z < 0 then int_64_neg b else b)"
  ultimately have b: "wf64 b'" "bignum_compact G z = int_64_compact b'"
    by (simp_all add: bignum_compact_def Let_def)
  have "obj_val val (int_64_compact b' :: 'a obj) = val z"
    using bignum_compact_val [OF G, of z] f by (simp add: b(2) compact_gap_def fits_fixnum_def)
  then have "sint (i64 b') = val z" using compact_val [OF b(1), of val] by metis
  then show ?thesis using compact_canonical [OF b(1)] f b(2) by simp
qed

lemma basic_minus_compact:
  assumes G: "gmp_spec G val" and y: "0 < uint y" "uint y \<le> 2147483648"
  shows "\<exists>r. basic_minus G (Imm ZERO) (uint_32_compact y) = Inr r \<and> obj_val val r = - uint y \<and>
    (uint y \<le> 2 ^ 29 \<longrightarrow> r = Imm (int2fx (- y)))"
proof (cases "y < 0x20000000")
  case True
  then have u: "uint y < 536870912" by (simp add: word_less_def)
  then have s: "sint y = uint y" by (intro sint_small) simp
  then have "sint (- y) = - uint y"
    using sint_minus_32 [of 0 y] u by (simp add: order.strict_trans1 [of "- uint y" 0])
  then show ?thesis using True u s y
    by (simp add: basic_minus_def dispatch_def uint_32_compact_def ZERO_def fx2int_int2fx fits_fixnum_def
        int_minus_zero)
next
  case False
  define r :: "'a obj" where "r = long_minus G (fx2int64 ZERO) (big64 y)"
  have z_wf: "i64 (fx2int64 ZERO) = 0" "wf64 (fx2int64 ZERO)"
    by (simp_all add: fx2int64_def ZERO_def i64_int_32 fx2int_int2fx fits_fixnum_def)
  have b: "basic_minus G (Imm ZERO) (uint_32_compact y) = Inr r"
    using False by (simp add: basic_minus_def dispatch_def uint_32_compact_def uint_32_big_def
        make_long_int_def r_def ZERO_def flip: big64_def)
  have v: "obj_val val r = - uint y"
    unfolding r_def using y by (simp add: long_minus_val [OF G] z_wf sint_big64 signed_take_bit_int_eq_self)
  have "r = Imm (int2fx (- y))" if "uint y \<le> 2 ^ 29"
  proof -
    have "uint y = 2 ^ 29" using that False by (simp add: word_less_def)
    then have f: "fits_fixnum (- uint y)" by (simp add: fits_fixnum_def)
    have w: "wf64 (int_64_sub (fx2int64 ZERO) (big64 y))" by (simp add: int_64_sub_def)
    show ?thesis
    proof (cases "HI_TEST_64 (fx2int64 ZERO) (big64 y) (int_64_sub (fx2int64 ZERO) (big64 y))")
      case True
      define z where "z = mpz_sub G (int64_to_bignum G (fx2int64 ZERO)) (int64_to_bignum G (big64 y))"
      have "val z = - uint y"
        by (simp add: z_def gmpD [OF G] int64_to_bignum_val [OF G] sint_big64 z_wf)
      moreover have "r = bignum_compact G z"
        using True by (simp add: r_def long_minus_def bignum_minus_def z_def)
      ultimately show ?thesis using bignum_compact_canonical [OF G, of z] f by simp
    next
      case False
      then have "r = int_64_compact (int_64_sub (fx2int64 ZERO) (big64 y))"
        by (simp add: r_def long_minus_def)
      moreover from this have "sint (i64 (int_64_sub (fx2int64 ZERO) (big64 y))) = - uint y"
        using v compact_val [OF w, of val] by simp
      ultimately show ?thesis using compact_canonical [OF w] f by simp
    qed
  qed
  then show ?thesis using b v by blast
qed

lemma sign_extends:
  "take_bit 8 t = t \<Longrightarrow> sint (if bit t 7 then t OR - 256 else t :: u32) = uint t - (if bit t 7 then 256 else 0)"
  "take_bit 16 t = t \<Longrightarrow> sint (if bit t 15 then t OR - 65536 else t :: u32) = uint t - (if bit t 15 then 65536 else 0)"
  "take_bit 24 t = t \<Longrightarrow> sint (if bit t 23 then t OR - 16777216 else t :: u32) = uint t - (if bit t 23 then 16777216 else 0)"
proof -
  have m: "NOT (mask 8) = (- 256 :: u32)" "NOT (mask 16) = (- 65536 :: u32)" "NOT (mask 24) = (- 16777216 :: u32)"
    by (simp_all add: mask_eq_exp_minus_1)
  show "take_bit 8 t = t \<Longrightarrow> sint (if bit t 7 then t OR - 256 else t :: u32) = uint t - (if bit t 7 then 256 else 0)"
    using sign_extend [of 8 t, unfolded m] by simp
  show "take_bit 16 t = t \<Longrightarrow> sint (if bit t 15 then t OR - 65536 else t :: u32) = uint t - (if bit t 15 then 65536 else 0)"
    using sign_extend [of 16 t, unfolded m] by simp
  show "take_bit 24 t = t \<Longrightarrow> sint (if bit t 23 then t OR - 16777216 else t :: u32) = uint t - (if bit t 23 then 16777216 else 0)"
    using sign_extend [of 24 t, unfolded m] by simp
qed

lemma sign_tests:
  "(x :: u32) AND 0x80 \<noteq> 0 \<longleftrightarrow> bit x 7" "x AND 0x8000 \<noteq> 0 \<longleftrightarrow> bit x 15"
  "x AND 0x800000 \<noteq> 0 \<longleftrightarrow> bit x 23" "x AND 0x80000000 \<noteq> 0 \<longleftrightarrow> bit x 31"
  using and_pow_bit [of x 7] and_pow_bit [of x 15] and_pow_bit [of x 23] and_pow_bit [of x 31] by simp_all

lemma octets_unfold:
  "octets src p 0 = []" "octets src p (Suc 0) = [mem src p]" "octets src p 2 = [mem src p, mem src (p + 1)]"
  "octets src p 3 = [mem src p, mem src (p + 1), mem src (p + 2)]"
  "octets src p 4 = [mem src p, mem src (p + 1), mem src (p + 2), mem src (p + 3)]"
  by (simp_all add: octets_def upt_rec [of _ "numeral _"] upt_rec)

lemma fixnum_octets:
  assumes "x = Inr (Imm (int2fx t))" "sint t = v" "fits_fixnum v"
  shows "\<exists>r. x = Inr r \<and> obj_val val r = v \<and> (fits_fixnum v \<longrightarrow> r = Imm (int2fx (of_int v)))"
proof -
  have "of_int v = t" using assms(2) by auto
  then show ?thesis using assms by (simp add: fx2int_int2fx)
qed

lemma twos_small:
  "fits_fixnum (twos [a])" "fits_fixnum (twos [a, b])" "fits_fixnum (twos [a, b, c])"
proof -
  have "0 \<le> uint (x :: u8)" "uint (x :: u8) < 256" for x
    using unsigned_less [of x, where 'a = int] by simp_all
  note bs = this [of a] this [of b] this [of c]
  define x y z where "x = uint a" and "y = uint b" and "z = uint c"
  then show "fits_fixnum (twos [a])" "fits_fixnum (twos [a, b])" "fits_fixnum (twos [a, b, c])"
    unfolding fits_fixnum_def twos_def unsigned_val_def using bs [folded x_def y_def z_def]
    by (simp_all flip: x_def y_def z_def)
qed

lemma ber_parse_int_cases:
  fixes src :: source and p :: u32
  defines "t1 \<equiv> ucast (mem src p) :: u32"
  defines "t2 \<equiv> push_bit 8 (ucast (mem src p)) OR ucast (mem src (p + 1)) :: u32"
  defines "t3 \<equiv> push_bit 16 (ucast (mem src p)) OR push_bit 8 (ucast (mem src (p + 1))) OR ucast (mem src (p + 2)) :: u32"
  defines "t4 \<equiv> push_bit 24 (ucast (mem src p)) OR push_bit 16 (ucast (mem src (p + 1)))
      OR push_bit 8 (ucast (mem src (p + 2))) OR ucast (mem src (p + 3)) :: u32"
  shows "len = 1 \<Longrightarrow> ber_parse_int G src p len = Inr (Imm (int2fx (if bit t1 7 then t1 OR - 256 else t1)))"
    "len = 2 \<Longrightarrow> ber_parse_int G src p len = Inr (Imm (int2fx (if bit t2 15 then t2 OR - 65536 else t2)))"
    "len = 3 \<Longrightarrow> ber_parse_int G src p len = Inr (Imm (int2fx (if bit t3 23 then t3 OR - 16777216 else t3)))"
    "len = 4 \<Longrightarrow> ber_parse_int G src p len = (if bit t4 31
       then basic_minus (gmp.truncate G) (Imm ZERO) (uint_32_compact (- t4)) else Inr (uint_32_compact t4))"
  unfolding ber_parse_int_def Let_def sign_tests t1_def t2_def t3_def t4_def by simp_all

lemma ber_parse_int_short:
  fixes src :: source and p :: u32
  assumes G: "gmp_spec (gmp.truncate G) val" and len: "len \<le> 4"
  defines "v \<equiv> twos (octets src p (unat len))"
  shows "\<exists>r. ber_parse_int G src p len = Inr r \<and> obj_val val r = v \<and>
    (fits_fixnum v \<longrightarrow> r = Imm (int2fx (of_int v)))"
proof -
  note d = ber_parse_int_def Let_def sign_tests v_def octets_unfold
  have "unat len \<le> 4" using len by (simp add: word_le_nat_alt)
  then consider "unat len = 0" | "unat len = 1" | "unat len = 2" | "unat len = 3" | "unat len = 4"
    by linarith
  then have "len = 0 \<or> len = 1 \<or> len = 2 \<or> len = 3 \<or> len = 4"
    by cases (auto simp: word_unat_eq_iff)
  then consider "len = 0" | "len = 1" | "len = 2" | "len = 3" | "len = 4" by blast
  then show ?thesis
  proof cases
    case 1
    then show ?thesis by (simp add: d twos_def unsigned_val_def ZERO_def fx2int_int2fx fits_fixnum_def)
  next
    case 2
    let ?t = "ucast (mem src p) :: u32"
    have s: "sint (if bit ?t 7 then ?t OR - 256 else ?t) = v"
      using sign_extends(1) [OF assembled(9) [of "mem src p"]] 2
      by (simp only: assembled) (simp add: v_def octets_unfold twos_def)
    have f: "fits_fixnum v" using 2 by (simp add: v_def octets_unfold twos_small)
    have e: "ber_parse_int G src p len = Inr (Imm (int2fx (if bit ?t 7 then ?t OR - 256 else ?t)))"
      using 2 by (rule ber_parse_int_cases(1))
    show ?thesis by (rule fixnum_octets [OF e s f])
  next
    case 3
    let ?t = "push_bit 8 (ucast (mem src p)) OR ucast (mem src (p + 1)) :: u32"
    have s: "sint (if bit ?t 15 then ?t OR - 65536 else ?t) = v"
      using sign_extends(2) [OF assembled(10) [of "mem src p" "mem src (p + 1)"]] 3
      by (simp only: assembled) (simp add: v_def octets_unfold twos_def)
    have f: "fits_fixnum v" using 3 by (simp add: v_def octets_unfold twos_small)
    have e: "ber_parse_int G src p len = Inr (Imm (int2fx (if bit ?t 15 then ?t OR - 65536 else ?t)))"
      using 3 by (rule ber_parse_int_cases(2))
    show ?thesis by (rule fixnum_octets [OF e s f])
  next
    case 4
    let ?t = "push_bit 16 (ucast (mem src p)) OR push_bit 8 (ucast (mem src (p + 1))) OR ucast (mem src (p + 2)) :: u32"
    have s: "sint (if bit ?t 23 then ?t OR - 16777216 else ?t) = v"
      using sign_extends(3) [OF assembled(11) [of "mem src p" "mem src (p + 1)" "mem src (p + 2)"]] 4
      by (simp only: assembled) (simp add: v_def octets_unfold twos_def)
    have f: "fits_fixnum v" using 4 by (simp add: v_def octets_unfold twos_small)
    have e: "ber_parse_int G src p len = Inr (Imm (int2fx (if bit ?t 23 then ?t OR - 16777216 else ?t)))"
      using 4 by (rule ber_parse_int_cases(3))
    show ?thesis by (rule fixnum_octets [OF e s f])
  next
    case 5
    define t where "t = (push_bit 24 (ucast (mem src p)) OR push_bit 16 (ucast (mem src (p + 1)))
      OR push_bit 8 (ucast (mem src (p + 2))) OR ucast (mem src (p + 3)) :: u32)"
    have t: "uint t = unsigned_val [mem src p, mem src (p + 1), mem src (p + 2), mem src (p + 3)]"
      "bit t 31 = bit (mem src p) 7"
      unfolding t_def by (rule assembled)+
    have v: "v = uint t - (if bit t 31 then 4294967296 else 0)"
      using 5 by (simp add: d t twos_def)
    have c: "ber_parse_int G src p len = (if bit t 31
        then basic_minus (gmp.truncate G) (Imm ZERO) (uint_32_compact (- t)) else Inr (uint_32_compact t))"
      unfolding t_def using 5 by (rule ber_parse_int_cases(4))
    have b: "bit t 31 \<longleftrightarrow> 2147483648 \<le> uint t"
      unfolding bit31_u32 uint_nat by linarith
    have lt: "uint t < 4294967296" using unsigned_less [of t, where 'a = int] by simp
    show ?thesis
    proof (cases "bit t 31")
      case True
      have "- t = of_int (4294967296 - uint t)" by simp
      moreover have "uint (of_int (4294967296 - uint t) :: u32) = 4294967296 - uint t"
        using True b lt by (intro uint_of_int_u32) linarith+
      ultimately have y: "uint (- t) = 4294967296 - uint t" by (simp only:)
      then have "0 < uint (- t)" "uint (- t) \<le> 2147483648"
        using True b lt by linarith+
      from basic_minus_compact [OF G this] obtain r where
        r: "basic_minus (gmp.truncate G) (Imm ZERO) (uint_32_compact (- t)) = Inr r"
          "obj_val val r = - uint (- t)" "uint (- t) \<le> 2 ^ 29 \<longrightarrow> r = Imm (int2fx t)"
        by auto
      have "ber_parse_int G src p len = Inr r"
        using True r(1) by (simp only: c if_True)
      moreover have vt: "v = - uint (- t)" using True v y by simp
      moreover have "of_int v = t" using True by (simp add: v)
      moreover have "uint (- t) \<le> 2 ^ 29" if "fits_fixnum v"
        using that unfolding vt fits_fixnum_def by linarith
      ultimately show ?thesis using r by auto
    next
      case False
      have "ber_parse_int G src p len = Inr (uint_32_compact t)"
        using False by (simp only: c if_False)
      moreover have "v = uint t" using False v by simp
      moreover have "uint_32_compact t = (Imm (int2fx (of_int (uint t))) :: 'a obj)" if "uint t < 2 ^ 29"
        using that by (simp add: uint_32_compact_def word_less_def)
      ultimately show ?thesis
        by (intro exI [of _ "uint_32_compact t"] conjI) (simp_all add: uint_32_compact_val fits_fixnum_def)
    qed
  qed
qed

lemma bit7_octet: "(ucast (b :: u8) :: u32) AND 0x80 \<noteq> 0 \<longleftrightarrow> bit b 7"
  by (simp add: sign_tests bit_unsigned_iff)

lemma octets_Suc: "octets src p (Suc n) = mem src p # octets src (p + 1) n"
  unfolding octets_def by (simp add: upt_conv_Cons map_Suc_upt [symmetric] add.assoc del: upt_Suc)

lemma length_octets [simp]: "length (octets src p n) = n"
  by (simp add: octets_def)

lemma ber_parse_int_long:
  fixes src :: source and p :: u32
  assumes G: "ber_gmp_spec G val" and len: "\<not> len \<le> 4" "unat len < 2 ^ 29"
  shows "\<exists>r. ber_parse_int G src p len = Inr r \<and> obj_val val r = twos (octets src p (unat len))"
proof -
  note g = G [unfolded ber_gmp_spec_def]
  then have gs: "gmp_spec (gmp.truncate G) val" by blast
  have z: "val (mpz_setbit G (mpz_set_ui G 0) n) = 2 ^ n" for n
    using g gmpD(2) [OF gs, of 0] by (simp add: gmp.defs)
  have "unat len \<noteq> 0" using len(1) by (auto simp: unat_eq_0)
  then obtain n where n: "unat len = Suc n" by (cases "unat len") auto
  have sz: "unat (len * 8) = 8 * unat len"
    using len(2) by (simp add: unat_word_ariths)
  have nz: "len \<noteq> 0" "len \<noteq> 1" "len \<noteq> 2" "len \<noteq> 3" "len \<noteq> 4" using len(1) by auto
  define zn where "zn = mpz_import G (octets src p (unat len))"
  define zn' where "zn' = (if bit (mem src p) 7
     then mpz_sub G zn (mpz_setbit G (mpz_set_ui G 0) (unat (len * 8))) else zn)"
  have "ber_parse_int G src p len = Inr (Bignum zn')"
    using nz by (simp add: ber_parse_int_def Let_def bit7_octet zn_def zn'_def)
  moreover have "val zn' = twos (octets src p (unat len))"
    using g z gmpD(4) [OF gs, of zn "mpz_setbit G (mpz_set_ui G 0) (unat (len * 8))"]
    by (simp add: zn'_def zn_def twos_def sz n octets_Suc gmp.defs del: length_octets)
       (simp add: power_add)
  ultimately show ?thesis by simp
qed

lemma int_of_octets:
  assumes G: "ber_gmp_spec G val" and len: "unat len < 2 ^ 29"
  shows "\<exists>r. ber_parse_int G src p len = Inr r \<and> obj_val val r = twos (octets src p (unat len))"
proof (cases "len \<le> 4")
  case True
  with ber_parse_int_short G show ?thesis unfolding ber_gmp_spec_def by blast
next
  case False
  with ber_parse_int_long G len show ?thesis by blast
qed

section \<open>Encoded fixnums\<close>

lemma sint_high_bits:
  assumes "- (2 ^ m) \<le> sint (x :: u32)" "sint x < 2 ^ m" "m \<le> n" "n < 32"
  shows "bit x n \<longleftrightarrow> bit x m"
proof -
  have "signed_take_bit m (sint x) = sint x"
    using assms by (simp add: signed_take_bit_int_eq_self)
  then have "bit (sint x) n \<longleftrightarrow> bit (sint x) m"
    using bit_signed_take_bit_iff [of m "sint x" n] assms(3) by (simp add: min_def)
  then show ?thesis using assms by (simp add: bit_sint_iff)
qed

definition fx_octets :: "u32 \<Rightarrow> u8 list" where
  "fx_octets x =
     (if sint x \<ge> -128 \<and> sint x \<le> 127 then [ucast x]
      else if sint x \<ge> -32768 \<and> sint x \<le> 32767 then [ucast (drop_bit 8 x), ucast x]
      else if sint x \<ge> -8388608 \<and> sint x \<le> 8388607 then
        [ucast (drop_bit 16 x), ucast (drop_bit 8 x), ucast x]
      else [ucast (drop_bit 24 x), ucast (drop_bit 16 x), ucast (drop_bit 8 x), ucast x])"

lemma ucast_signed_drop: "n \<le> 24 \<Longrightarrow> (ucast (signed_drop_bit n x :: u32) :: u8) = ucast (drop_bit n x)"
  by (rule bit_word_eqI) (auto simp: bit_unsigned_iff bit_signed_drop_bit_iff bit_drop_bit_eq)

lemma ber_encode_fx_bytes:
  "ber_encode_fx port w = (let bs = emit_header 0x02 (of_nat (length (fx_octets (fx2int w)))) @ fx_octets (fx2int w)
     in (length bs, port @ [Chunk bs]))"
  by (simp add: ber_encode_fx_def Let_def fx_octets_def ucast_signed_drop)

lemma sign_extend_take_bit:
  assumes "- (2 ^ m) \<le> sint (x :: u32)" "sint x < 2 ^ m" "m < 31"
  shows "uint (take_bit (Suc m) x) - (if bit x m then 2 ^ Suc m else 0) = sint x"
proof -
  let ?t = "take_bit (Suc m) x"
  have "(if bit ?t (Suc m - 1) then ?t OR NOT (mask (Suc m)) else ?t) = x"
  proof (rule bit_word_eqI)
    fix n assume "n < LENGTH(32)"
    then have n: "n < 32" by simp
    have h: "bit x n \<longleftrightarrow> bit x m" if "\<not> n < Suc m"
      using sint_high_bits [OF assms(1,2), of n] n that by simp
    then show "bit (if bit ?t (Suc m - 1) then ?t OR NOT (mask (Suc m)) else ?t) n \<longleftrightarrow> bit x n"
      using n by (auto simp: bit_or_iff bit_take_bit_iff bit_not_iff bit_mask_iff)
  qed
  then show ?thesis
    using sign_extend [of "Suc m" ?t] assms(3) by (simp add: bit_take_bit_iff)
qed

lemma sign_extend_lits:
  "- 128 \<le> sint (x :: u32) \<Longrightarrow> sint x \<le> 127 \<Longrightarrow> uint (take_bit 8 x) - (if bit x 7 then 256 else 0) = sint x"
  "- 32768 \<le> sint x \<Longrightarrow> sint x \<le> 32767 \<Longrightarrow> uint (take_bit 16 x) - (if bit x 15 then 65536 else 0) = sint x"
  "- 8388608 \<le> sint x \<Longrightarrow> sint x \<le> 8388607 \<Longrightarrow>
     uint (take_bit 24 x) - (if bit x 23 then 16777216 else 0) = sint x"
  "uint x - (if bit x 31 then 4294967296 else 0) = sint x"
proof -
  have m: "(2 :: int) ^ Suc 7 = 256" "(2 :: int) ^ Suc 15 = 65536" "(2 :: int) ^ Suc 23 = 16777216"
    by simp_all
  show "- 128 \<le> sint (x :: u32) \<Longrightarrow> sint x \<le> 127 \<Longrightarrow> uint (take_bit 8 x) - (if bit x 7 then 256 else 0) = sint x"
    using sign_extend_take_bit [of 7 x, unfolded m] by simp
  show "- 32768 \<le> sint x \<Longrightarrow> sint x \<le> 32767 \<Longrightarrow> uint (take_bit 16 x) - (if bit x 15 then 65536 else 0) = sint x"
    using sign_extend_take_bit [of 15 x, unfolded m] by simp
  show "- 8388608 \<le> sint x \<Longrightarrow> sint x \<le> 8388607 \<Longrightarrow>
     uint (take_bit 24 x) - (if bit x 23 then 16777216 else 0) = sint x"
    using sign_extend_take_bit [of 23 x, unfolded m] by simp
  show "uint x - (if bit x 31 then 4294967296 else 0) = sint x"
    unfolding bit31_u32 sint_u32 uint_nat by auto
qed

lemma twos_fx_octets: "twos (fx_octets x) = sint x"
proof -
  note r = sint_u32_range [of x]
  have b: "bit (ucast (drop_bit n x) :: u8) 7 \<longleftrightarrow> bit x (n + 7)" for n
    by (simp add: bit_unsigned_iff bit_drop_bit_eq)
  have b0: "bit (ucast x :: u8) 7 \<longleftrightarrow> bit x 7" using b [of 0] by simp
  consider "-128 \<le> sint x" "sint x \<le> 127" | "\<not> (-128 \<le> sint x \<and> sint x \<le> 127)" "-32768 \<le> sint x" "sint x \<le> 32767"
    | "\<not> (-128 \<le> sint x \<and> sint x \<le> 127)" "\<not> (-32768 \<le> sint x \<and> sint x \<le> 32767)" "-8388608 \<le> sint x" "sint x \<le> 8388607"
    | "\<not> (-128 \<le> sint x \<and> sint x \<le> 127)" "\<not> (-32768 \<le> sint x \<and> sint x \<le> 32767)"
      "\<not> (-8388608 \<le> sint x \<and> sint x \<le> 8388607)" by blast
  then show ?thesis
  proof cases
    case 1
    then show ?thesis using sign_extend_lits(1) [of x]
      by (simp add: fx_octets_def twos_def b0 assembled(1) [symmetric] octets_of_word(1) split: if_splits)
  next
    case 2
    from 2(1) have "fx_octets x = [ucast (drop_bit 8 x), ucast x]" using 2(2,3)
      by (simp only: fx_octets_def if_False) simp
    then show ?thesis using sign_extend_lits(2) [of x] 2
      by (simp add: twos_def b assembled(2) [symmetric] octets_of_word(2) split: if_splits)
  next
    case 3
    then have "fx_octets x = [ucast (drop_bit 16 x), ucast (drop_bit 8 x), ucast x]"
      by (simp only: fx_octets_def if_False) simp
    then show ?thesis using sign_extend_lits(3) [of x] 3
      by (simp add: twos_def b assembled(3) [symmetric] octets_of_word(3) split: if_splits)
  next
    case 4
    then have "fx_octets x = [ucast (drop_bit 24 x), ucast (drop_bit 16 x), ucast (drop_bit 8 x), ucast x]"
      by (simp only: fx_octets_def if_False)
    moreover have "uint x - (if bit x 31 then 4294967296 else 0) = sint x"
      by (rule sign_extend_lits)
    ultimately show ?thesis
      by (simp add: twos_def b assembled(4) [symmetric] octets_of_word(4) split: if_splits)
  qed
qed

end
