(* ===== verification/BerParse.thy ===== *)
theory BerParse
  imports BerInt
begin

text \<open>
  The parser on what the encoder writes (round trip by induction on the tree), on truncated input,
  and on any input free of the four-octet form of lengths: termination with linear fuel, bounds, and
  the octets it reads.
\<close>

unbundle bit_operations_syntax

section \<open>The shape of encodings\<close>

lemma encode_items_acc:
  assumes "\<And>v acc. v \<in> set vs \<Longrightarrow> ber_encode_item v acc = (length (ber_encode v), acc @ snd (ber_encode_item v []))"
  shows "\<exists>cs. (\<forall>n q. ber_encode_items vs n q = (n + length (concat (map ber_encode vs)), q @ cs)) \<and>
    concat (map flatten cs) = concat (map ber_encode vs)"
  using assms
proof (induction vs)
  case (Cons v vs)
  have "\<exists>cs. (\<forall>n q. ber_encode_items vs n q = (n + length (concat (map ber_encode vs)), q @ cs)) \<and>
      concat (map flatten cs) = concat (map ber_encode vs)"
    by (rule Cons.IH, rule Cons.prems) simp
  then obtain cs where cs: "\<And>n q. ber_encode_items vs n q = (n + length (concat (map ber_encode vs)), q @ cs)"
    "concat (map flatten cs) = concat (map ber_encode vs)" by blast
  let ?cs = "snd (ber_encode_item v [])"
  have "ber_encode_items (v # vs) n q = (n + length (concat (map ber_encode (v # vs))), q @ ?cs @ cs)" for n q
    by (subst ber_encode_items.simps, subst Cons.prems) (simp_all add: cs(1))
  moreover have "concat (map flatten (?cs @ cs)) = concat (map ber_encode (v # vs))"
    by (simp add: cs(2)) (simp add: ber_encode_def)
  ultimately show ?case by blast
qed simp

lemma encode_item_acc:
  "ber_encode_item v acc = (length (ber_encode v), acc @ snd (ber_encode_item v []))"
proof (induction v arbitrary: acc)
  case (Vec vs)
  from encode_items_acc [of vs, OF Vec] obtain cs where
    cs: "\<And>n q. ber_encode_items vs n q = (n + length (concat (map ber_encode vs)), q @ cs)"
    "concat (map flatten cs) = concat (map ber_encode vs)" by auto
  show ?case
    unfolding ber_encode_def [of "Vec vs"] by (simp add: cs ber_encode_header_def Let_def)
qed (simp_all add: ber_encode_def ber_encode_fx_bytes ber_encode_str_def Let_def)

lemma ber_encode_simps:
  "ber_encode (Fixnum w) = emit_header 0x02 (of_nat (length (fx_octets (fx2int w)))) @ fx_octets (fx2int w)"
  "ber_encode (Str s) = emit_header 0x04 (of_nat (length s)) @ s"
  "ber_encode (Vec vs) = (let bs = concat (map ber_encode vs) in emit_header 0x30 (of_nat (length bs)) @ bs)"
proof -
  show "ber_encode (Fixnum w) = emit_header 0x02 (of_nat (length (fx_octets (fx2int w)))) @ fx_octets (fx2int w)"
    "ber_encode (Str s) = emit_header 0x04 (of_nat (length s)) @ s"
    by (simp_all add: ber_encode_def ber_encode_fx_bytes ber_encode_str_def Let_def)
  from encode_items_acc [OF encode_item_acc] obtain cs where
    cs: "\<And>n q. ber_encode_items vs n q = (n + length (concat (map ber_encode vs)), q @ cs)"
    "concat (map flatten cs) = concat (map ber_encode vs)" by blast
  then show "ber_encode (Vec vs) = (let bs = concat (map ber_encode vs) in emit_header 0x30 (of_nat (length bs)) @ bs)"
    by (simp add: ber_encode_def [of "Vec vs"] ber_encode_header_def Let_def)
qed

section \<open>Parsing back\<close>

text \<open>What an item parsed stands for, its strings read from the memory.\<close>

definition sub_octets :: "source \<Rightarrow> substring \<Rightarrow> u8 list" where
  "sub_octets src s = octets src (orig_base src + fx2int (sub_offset s)) (unat (fx2int (sub_length s)))"

fun item_of :: "source \<Rightarrow> 'z asn \<Rightarrow> item option" where
  "item_of src (Integer (Imm w)) = Some (Fixnum w)"
| "item_of src (Octet_string s) = Some (Str (sub_octets src s))"
| "item_of src (Sequence rs) =
     (if None \<in> set (map (item_of src) rs) then None else Some (Vec (map (\<lambda>r. the (item_of src r)) rs)))"
| "item_of src _ = None"

fun fixnum_leaves :: "item \<Rightarrow> bool" where
  "fixnum_leaves (Fixnum w) = FIXNUM_P w"
| "fixnum_leaves (Str s) = True"
| "fixnum_leaves (Vec vs) = list_all fixnum_leaves vs"

lemma parse_encoded_content:
  assumes h: "holds src p (emit_header tag (of_nat (length body)) @ body)" and l: "length body < 0x1000000"
    and lim: "unat p + length (emit_header tag (of_nat (length body)) @ body) \<le> unat limit"
  defines "q \<equiv> p + of_nat (length (emit_header tag (of_nat (length body))))"
  shows "parse_header src p limit = Inr (tag, of_nat (length body), q)"
    "unat (of_nat (length body) :: u32) = length body"
    "unat q = unat p + length (emit_header tag (of_nat (length body)))"
    "unat (q + of_nat (length body)) = unat q + length body"
    "\<not> q + of_nat (length body) > limit" "holds src q body"
    "q + of_nat (length body) = p + of_nat (length (emit_header tag (of_nat (length body)) @ body))"
proof -
  have b: "unat (of_nat (length body) :: u32) = length body"
    using l by (simp add: unsigned_of_nat take_bit_nat_eq_self)
  then show "unat (of_nat (length body) :: u32) = length body" .
  have bl: "(of_nat (length body) :: u32) < 0x1000000" using l b by (simp add: word_less_nat_alt)
  show "parse_header src p limit = Inr (tag, of_nat (length body), q)"
    unfolding q_def using h lim by (intro parse_header_emit [OF _ bl]) (auto simp: holds_append)
  have lt: "unat p + length (emit_header tag (of_nat (length body)) @ body) < 4294967296"
    using lim unat_u32_less [of limit] by linarith
  then show q: "unat q = unat p + length (emit_header tag (of_nat (length body)))"
    unfolding q_def by (intro unat_plus_of_nat) simp
  then show qb: "unat (q + of_nat (length body)) = unat q + length body"
    using lt by (intro unat_plus_of_nat) simp
  show "\<not> q + of_nat (length body) > limit"
    using lim q qb by (simp add: word_less_nat_alt)
  show "holds src q body" using h by (simp add: holds_append q_def)
  show "q + of_nat (length body) = p + of_nat (length (emit_header tag (of_nat (length body)) @ body))"
    by (simp add: q_def add.assoc)
qed

lemma length_ber_encode: "2 \<le> length (ber_encode v)"
  using length_emit_header(1) by (cases v) (auto simp: ber_encode_simps Let_def trans_le_add1)

definition parsed :: "('z, 'b) ber_gmp_scheme \<Rightarrow> source \<Rightarrow> item \<Rightarrow> bool" where
  "parsed G src v \<longleftrightarrow> (\<forall>p limit fuel. holds src p (ber_encode v) \<and> unat (orig_base src) \<le> unat p \<and>
     unat limit < unat (orig_base src) + 2 ^ 29 \<and> unat p + length (ber_encode v) \<le> unat limit \<and>
     length (ber_encode v) < 0x1000000 \<and> length (ber_encode v) \<le> fuel \<longrightarrow>
     (\<exists>r. ber_parse_rec G src fuel p limit = Some (Inr (p + of_nat (length (ber_encode v)), r)) \<and>
        item_of src r = Some v))"

lemma parsedD:
  assumes "parsed G src v" "holds src p (ber_encode v)" "unat (orig_base src) \<le> unat p"
    "unat limit < unat (orig_base src) + 2 ^ 29" "unat p + length (ber_encode v) \<le> unat limit"
    "length (ber_encode v) < 0x1000000" "length (ber_encode v) \<le> fuel"
  obtains r where "ber_parse_rec G src fuel p limit = Some (Inr (p + of_nat (length (ber_encode v)), r))"
    "item_of src r = Some v"
  using assms unfolding parsed_def by blast

lemma item_loop_encoded:
  assumes "list_all (parsed G src) vs" "holds src p (concat (map ber_encode vs))"
    "unat (orig_base src) \<le> unat p" "unat lim < unat (orig_base src) + 2 ^ 29"
    "unat p + length (concat (map ber_encode vs)) = unat lim"
    "length (concat (map ber_encode vs)) < 0x1000000"
    "length (concat (map ber_encode vs)) < fuel"
  shows "\<exists>rs. item_loop G src fuel p lim q = Some (Inr (lim, q @ rs)) \<and> map (item_of src) rs = map Some vs"
  using assms
proof (induction vs arbitrary: p q fuel)
  case Nil
  then have "p = lim" by (simp add: word_unat_eq_iff)
  then show ?case using Nil by (cases fuel) auto
next
  case (Cons v vs)
  let ?p = "p + of_nat (length (ber_encode v))"
  obtain f where f: "fuel = Suc f" using Cons.prems by (cases fuel) auto
  have "p < lim" using Cons.prems length_ber_encode [of v] by (simp add: word_less_nat_alt)
  have p': "unat ?p = unat p + length (ber_encode v)"
    using Cons.prems unat_u32_less [of lim] by (intro unat_plus_of_nat) simp
  have "parsed G src v" using Cons.prems by simp
  then obtain r where r: "ber_parse_rec G src f p lim = Some (Inr (?p, r))" "item_of src r = Some v"
    by (rule parsedD [of G src v p lim f]) (use Cons.prems f in \<open>auto simp: holds_append\<close>)
  have "\<exists>rs. item_loop G src f ?p lim (q @ [r]) = Some (Inr (lim, (q @ [r]) @ rs)) \<and>
      map (item_of src) rs = map Some vs"
    using Cons.prems f length_ber_encode [of v] by (intro Cons.IH) (auto simp: holds_append p')
  then obtain rs where "item_loop G src f ?p lim (q @ [r]) = Some (Inr (lim, (q @ [r]) @ rs))"
    "map (item_of src) rs = map Some vs" by blast
  then show ?case using \<open>p < lim\<close> r f by (intro exI [of _ "r # rs"]) simp
qed

lemma sub_octets_make:
  assumes "unat (orig_base src) \<le> unat q" "unat q + n < unat (orig_base src) + 2 ^ 29"
    "unat q + n < 4294967296"
  shows "sub_octets src (make_substring src q (q + of_nat n)) = octets src q n"
proof -
  have n: "unat (of_nat n :: u32) = n" using assms by (simp add: unsigned_of_nat take_bit_nat_eq_self)
  have "unat (q - orig_base src) = unat q - unat (orig_base src)"
    using assms(1) by (simp add: unat_sub word_le_nat_alt)
  then have 1: "fx2int (int2fx (q - orig_base src)) = q - orig_base src"
    using assms by (intro fx_small) linarith
  have 2: "fx2int (int2fx (of_nat n)) = of_nat n" using assms n by (intro fx_small) linarith
  show ?thesis using n by (simp add: sub_octets_def make_substring_def 1 2)
qed

lemma parsed_item:
  assumes G: "gmp_spec (gmp.truncate G) val" and "fixnum_leaves v"
  shows "parsed G src v"
  using assms(2)
proof (induction v)
  case (Fixnum w)
  let ?bs = "fx_octets (fx2int w)"
  show ?case unfolding parsed_def
  proof (intro allI impI, elim conjE)
    fix p limit :: u32 and fuel :: nat
    assume h: "holds src p (ber_encode (Fixnum w))"
      and lim: "unat p + length (ber_encode (Fixnum w)) \<le> unat limit"
      and fuel: "length (ber_encode (Fixnum w)) \<le> fuel"
    have l: "length ?bs \<le> 4" by (simp add: fx_octets_def)
    then have l': "length ?bs < 0x1000000" by simp
    note c = parse_encoded_content [OF h [unfolded ber_encode_simps] l' lim [unfolded ber_encode_simps]]
    let ?q = "p + of_nat (length (emit_header 2 (of_nat (length ?bs))))"
    have "octets src ?q (length ?bs) = ?bs" using c(6) by (simp only: holds_octets)
    then have v: "twos (octets src ?q (unat (of_nat (length ?bs) :: u32))) = sint (fx2int w)"
      by (simp only: c(2) twos_fx_octets)
    have "(of_nat (length ?bs) :: u32) \<le> 4" using l c(2) by (simp add: word_le_nat_alt)
    from ber_parse_int_short [OF G this, of src ?q] have
      "ber_parse_int G src ?q (of_nat (length ?bs)) = Inr (Imm (int2fx (of_int (sint (fx2int w)))))"
      unfolding v using fixnum_fits by blast
    then have i: "ber_parse_int G src ?q (of_nat (length ?bs)) = Inr (Imm w)"
      using Fixnum by (simp add: int2fx_fx2int)
    obtain f where "fuel = Suc f" using fuel length_ber_encode [of "Fixnum w"] by (cases fuel) auto
    then show "\<exists>r. ber_parse_rec G src fuel p limit = Some (Inr (p + of_nat (length (ber_encode (Fixnum w))), r)) \<and>
        item_of src r = Some (Fixnum w)"
      by (intro exI [of _ "Integer (Imm w)"]) (simp add: c(1,5) i ber_encode_simps parse_primitive_def flip: c(7))
  qed
next
  case (Str s)
  show ?case unfolding parsed_def
  proof (intro allI impI, elim conjE)
    fix p limit :: u32 and fuel :: nat
    assume h: "holds src p (ber_encode (Str s))" and b: "unat (orig_base src) \<le> unat p"
      and lb: "unat limit < unat (orig_base src) + 2 ^ 29"
      and lim: "unat p + length (ber_encode (Str s)) \<le> unat limit"
      and l: "length (ber_encode (Str s)) < 0x1000000"
      and fuel: "length (ber_encode (Str s)) \<le> fuel"
    have l': "length s < 0x1000000" using l by (simp add: ber_encode_simps)
    note c = parse_encoded_content [OF h [unfolded ber_encode_simps] l' lim [unfolded ber_encode_simps]]
    let ?q = "p + of_nat (length (emit_header 4 (of_nat (length s))))"
    have "sub_octets src (make_substring src ?q (?q + of_nat (length s))) = octets src ?q (length s)"
      using b lb lim c(3) unat_u32_less [of limit] by (intro sub_octets_make) (simp_all add: ber_encode_simps)
    then have s: "sub_octets src (make_substring src ?q (?q + of_nat (length s))) = s"
      using c(6) by (simp only: holds_octets)
    obtain f where "fuel = Suc f" using fuel length_ber_encode [of "Str s"] by (cases fuel) auto
    then show "\<exists>r. ber_parse_rec G src fuel p limit = Some (Inr (p + of_nat (length (ber_encode (Str s))), r)) \<and>
        item_of src r = Some (Str s)"
      using s by (intro exI [of _ "Octet_string (make_substring src ?q (?q + of_nat (length s)))"])
        (simp add: c(1,5) ber_encode_simps parse_primitive_def flip: c(7))
  qed
next
  case (Vec vs)
  let ?bs = "concat (map ber_encode vs)"
  have IH: "list_all (parsed G src) vs" using Vec by (auto simp: list_all_iff)
  show ?case unfolding parsed_def
  proof (intro allI impI, elim conjE)
    fix p limit :: u32 and fuel :: nat
    assume h: "holds src p (ber_encode (Vec vs))" and b: "unat (orig_base src) \<le> unat p"
      and lb: "unat limit < unat (orig_base src) + 2 ^ 29"
      and lim: "unat p + length (ber_encode (Vec vs)) \<le> unat limit"
      and l: "length (ber_encode (Vec vs)) < 0x1000000"
      and fuel: "length (ber_encode (Vec vs)) \<le> fuel"
    note enc = ber_encode_simps(3) [of vs, unfolded Let_def]
    have l': "length ?bs < 0x1000000" using l by (simp add: enc)
    note c = parse_encoded_content [OF h [unfolded enc] l' lim [unfolded enc]]
    let ?q = "p + of_nat (length (emit_header 0x30 (of_nat (length ?bs))))"
    obtain f where f: "fuel = Suc f" using fuel length_ber_encode [of "Vec vs"] by (cases fuel) auto
    have "length ?bs < f" using fuel f length_emit_header(1) [of "0x30" "of_nat (length ?bs)"] by (simp add: enc)
    then have "\<exists>rs. item_loop G src f ?q (?q + of_nat (length ?bs)) [] =
        Some (Inr (?q + of_nat (length ?bs), [] @ rs)) \<and> map (item_of src) rs = map Some vs"
      using b lb lim c(3,4,6) l' by (intro item_loop_encoded [OF IH]) (simp_all add: enc)
    then obtain rs where rs: "item_loop G src f ?q (?q + of_nat (length ?bs)) [] =
        Some (Inr (?q + of_nat (length ?bs), rs))" "map (item_of src) rs = map Some vs" by auto
    have "map (\<lambda>r. the (item_of src r)) rs = map the (map (item_of src) rs)" by simp
    also have "\<dots> = vs" by (simp only: rs(2)) (simp add: comp_def)
    finally have "item_of src (Sequence rs) = Some (Vec vs)" by (simp only: item_of.simps rs(2)) auto
    then show "\<exists>r. ber_parse_rec G src fuel p limit = Some (Inr (p + of_nat (length (ber_encode (Vec vs))), r)) \<and>
        item_of src r = Some (Vec vs)"
      using rs f by (intro exI [of _ "Sequence rs"]) (simp add: c(1,5) enc flip: c(7))
  qed
qed

section \<open>Truncated input\<close>

lemma parse_header_truncated:
  assumes h: "holds src p (emit_header tag len)" and l: "len < 0x1000000"
    and lim: "unat limit < unat p + length (emit_header tag len)"
    and small: "unat p + length (emit_header tag len) < 4294967296"
  shows "\<exists>code place. parse_header src p limit = Inl (Parse_error code place FALSE_OBJ)"
proof -
  note u = unat_plus_lit [OF small]
  note d = parse_header_def Let_def emit_header_def word_le_nat_alt bail0_def bail1_def
  consider "len < 128" | "128 \<le> len" "len < 0x100" | "0x100 \<le> len" "len < 0x10000"
    | "0x10000 \<le> len" by fastforce
  then show ?thesis
  proof cases
    case 1
    then have "len < 0x100" by (simp add: word_less_nat_alt)
    from 1 this show ?thesis using h lim u small
      by (simp add: d octets_of_word take_bit_lits parse_short)
  next
    case 2
    then show ?thesis using h lim u small
      by (simp add: d octets_of_word take_bit_lits word_less_nat_alt)
  next
    case 3
    then show ?thesis using h lim u small
      by (simp add: d octets_of_word(2-) take_bit_lits word_less_nat_alt add.assoc)
  next
    case 4
    then show ?thesis using h lim u small l
      by (simp add: d octets_of_word(2-) take_bit_lits word_less_nat_alt add.assoc)
  qed
qed

lemma ber_encode_header_body:
  obtains tag body where "ber_encode v = emit_header tag (of_nat (length body)) @ body"
  by (cases v) (auto simp: ber_encode_simps Let_def)

lemma parse_truncated:
  assumes h: "holds src p (ber_encode v)" and l: "length (ber_encode v) < 0x1000000"
    and lim: "unat limit < unat p + length (ber_encode v)"
    and small: "unat p + length (ber_encode v) < 4294967296"
  shows "\<exists>code place extra. ber_parse_rec G src (Suc fuel) p limit = Some (Inl (Parse_error code place extra))"
proof -
  obtain tag body where e: "ber_encode v = emit_header tag (of_nat (length body)) @ body"
    by (rule ber_encode_header_body)
  let ?h = "emit_header tag (of_nat (length body))"
  have lb: "length body < 0x1000000" using l e by simp
  then have u: "unat (of_nat (length body) :: u32) = length body"
    by (simp add: unsigned_of_nat take_bit_nat_eq_self)
  then have lw: "(of_nat (length body) :: u32) < 0x1000000" using lb by (simp add: word_less_nat_alt)
  have hh: "holds src p ?h" using h e by (simp add: holds_append)
  show ?thesis
  proof (cases "unat p + length ?h \<le> unat limit")
    case False
    then obtain code place where "parse_header src p limit = Inl (Parse_error code place FALSE_OBJ)"
      using parse_header_truncated [OF hh lw, of limit] small e by auto
    then show ?thesis by simp
  next
    case True
    have ph: "parse_header src p limit = Inr (tag, of_nat (length body), p + of_nat (length ?h))"
      by (rule parse_header_emit [OF hh lw True])
    have "unat (p + of_nat (length (?h @ body))) = unat p + length (?h @ body)"
      using small by (intro unat_plus_of_nat) (simp add: e)
    then have "p + of_nat (length ?h) + of_nat (length body) > limit"
      using lim by (simp add: e word_less_nat_alt add.assoc)
    then show ?thesis by (simp add: ph bail1_def)
  qed
qed

section \<open>Termination and bounds\<close>

definition no_long_form :: "source \<Rightarrow> nat \<Rightarrow> nat \<Rightarrow> bool" where
  "no_long_form src a b \<longleftrightarrow> (\<forall>x. a \<le> unat x \<and> unat x < b \<longrightarrow> mem src x \<noteq> 0x84)"

lemma no_long_form_mono: "no_long_form src a b \<Longrightarrow> a \<le> a' \<Longrightarrow> b' \<le> b \<Longrightarrow> no_long_form src a' b'"
  unfolding no_long_form_def by fastforce

lemma octets_less:
  "unat (ucast (a :: u8) :: u32) < 256"
  "unat (push_bit 8 (ucast (a :: u8)) + ucast (b :: u8) :: u32) < 65536"
  "unat (push_bit 16 (ucast (a :: u8)) + push_bit 8 (ucast (b :: u8)) + ucast (c :: u8) :: u32) < 16777216"
proof -
  show "unat (ucast (a :: u8) :: u32) < 256" using unat_u8_less [of a] by simp
  have "take_bit 16 (push_bit 8 (ucast a) OR ucast b :: u32) = push_bit 8 (ucast a) OR ucast b"
    by (rule assembled)
  then show "unat (push_bit 8 (ucast a) + ucast b :: u32) < 65536"
    unfolding disj_plus_octets using unat_take_bit_mod [of 16 "push_bit 8 (ucast a) OR ucast b :: u32"] by simp
  have "take_bit 24 (push_bit 16 (ucast a) OR push_bit 8 (ucast b) OR ucast c :: u32) =
      push_bit 16 (ucast a) OR push_bit 8 (ucast b) OR ucast c"
    by (rule assembled)
  then show "unat (push_bit 16 (ucast a) + push_bit 8 (ucast b) + ucast c :: u32) < 16777216"
    unfolding disj_plus_octets
    using unat_take_bit_mod [of 24 "push_bit 16 (ucast a) OR push_bit 8 (ucast b) OR ucast c :: u32"] by simp
qed

lemma parse_header_bounds:
  assumes "parse_header src p limit = Inr (tag, len, q)" "no_long_form src (unat p) (unat limit)"
    "unat limit + 16777216 \<le> 4294967296"
  shows "unat p + 2 \<le> unat q \<and> unat q \<le> unat limit \<and> unat len < 16777216"
proof -
  have p: "p < limit" "p + 1 < limit"
    using assms(1) by (auto simp: parse_header_def bail0_def bail1_def Let_def split: if_splits)
  have p1: "unat (p + 1) = unat p + 1" by (rule unat_plus1 [OF p(1)])
  have "mem src (p + 1) \<noteq> 0x84"
    using assms(2) p p1 by (simp add: no_long_form_def word_less_nat_alt)
  moreover have "b = 0x84" if "(ucast b :: u32) = 0x84" for b :: u8
    using arg_cong [OF that, of unat] by (simp add: word_unat_eq_iff)
  ultimately have n4: "(ucast (mem src (p + 1)) :: u32) \<noteq> 0x84" by blast
  define s where "s = p + 1 + 1"
  have s: "unat s = unat p + 2" "unat s \<le> unat limit"
    using unat_plus1 [OF p(2)] p(2) p1 by (simp_all add: s_def word_less_nat_alt)
  have u: "unat (s + 1) = unat s + 1" "unat (s + 2) = unat s + 2" "unat (s + 3) = unat s + 3"
    using s assms(3) by (simp_all add: unat_add_u32)
  note a = assms(1) [unfolded parse_header_def bail0_def bail1_def Let_def]
  have "unat len < 16777216 \<and> unat s \<le> unat q \<and> unat q \<le> unat limit"
    using a p n4 u s(2) unfolding s_def [symmetric] 
    by (auto simp: word_le_nat_alt word_less_nat_alt octets_less(3) split: if_splits
      intro: order.strict_trans [OF octets_less(1)] order.strict_trans [OF octets_less(2)])
  then show ?thesis using s by simp
qed

lemma oid_loop_no_assertion: "oid_loop src len lim ptr subid hash q \<noteq> Inl Assertion_failed"
proof (induction src len lim ptr subid hash q rule: oid_loop_rule)
  case (1 src len lim ptr subid hash q)
  then show ?case
    by (subst oid_loop_unfold) (simp only: bail0_def bail1_def split: if_split, simp)
qed

lemma parse_primitive_no_assertion: "parse_primitive G src tag ptr len \<noteq> Inl Assertion_failed"
  by (auto simp: parse_primitive_def ber_parse_oid_def Let_def oid_loop_no_assertion split: sum.splits)

definition good_result :: "u32 \<Rightarrow> u32 \<Rightarrow> ber_error + (u32 \<times> 'a) \<Rightarrow> bool" where
  "good_result p limit x \<longleftrightarrow> x \<noteq> Inl Assertion_failed \<and>
     (\<forall>p' r. x = Inr (p', r) \<longrightarrow> unat p + 2 \<le> unat p' \<and> unat p' \<le> unat limit)"

lemma parse_header_no_assertion: "parse_header src p limit \<noteq> Inl Assertion_failed"
  by (simp add: parse_header_def bail0_def bail1_def Let_def)

lemma parse_terminates:
  "no_long_form src (unat p) (unat limit) \<Longrightarrow> unat limit + 16777216 \<le> 4294967296 \<Longrightarrow>
     unat limit - unat p < fuel \<Longrightarrow>
     \<exists>x. ber_parse_rec G src fuel p limit = Some x \<and> good_result p limit x"
  "no_long_form src (unat p) (unat limit) \<Longrightarrow> unat limit + 16777216 \<le> 4294967296 \<Longrightarrow>
     unat p \<le> unat limit \<Longrightarrow> unat limit - unat p + 1 < fuel \<Longrightarrow>
     \<exists>x. item_loop G src fuel p limit q = Some x \<and> x \<noteq> Inl Assertion_failed \<and>
       (\<forall>p' rs. x = Inr (p', rs) \<longrightarrow> p' = limit)"
proof (induction fuel arbitrary: p limit q)
  case 0
  { case 1 then show ?case by simp next case 2 then show ?case by simp }
next
  case (Suc fuel)
  {
    case 1
    show ?case
    proof (cases "parse_header src p limit")
      case (Inl e)
      then show ?thesis using parse_header_no_assertion [of src p limit]
        by (auto simp: good_result_def)
    next
      case (Inr h)
      obtain tag len s where h: "h = (tag, len, s)" by (cases h)
      have b: "unat p + 2 \<le> unat s" "unat s \<le> unat limit" "unat len < 16777216"
        using parse_header_bounds [OF Inr [unfolded h] 1(1,2)] by auto
      have sl: "unat (s + len) = unat s + unat len"
        using b 1(2) by (simp add: unat_add_u32)
      show ?thesis
      proof (cases "s + len > limit")
        case True
        then show ?thesis using Inr h by (simp add: good_result_def bail1_def)
      next
        case False
        then have le: "unat (s + len) \<le> unat limit" by (simp add: word_less_nat_alt)
        have good: "good_result p limit (Inr (s + len, r))" for r :: "'a asn"
          using le b sl by (simp add: good_result_def)
        have "\<exists>x. item_loop G src fuel s (s + len) [] = Some x \<and> x \<noteq> Inl Assertion_failed \<and>
            (\<forall>p' rs. x = Inr (p', rs) \<longrightarrow> p' = s + len)"
          using 1(1,2) 1(3) le b sl
          by (intro Suc.IH(2) no_long_form_mono [OF 1(1)]) simp_all
        then obtain x where x: "item_loop G src fuel s (s + len) [] = Some x" "x \<noteq> Inl Assertion_failed"
          "\<And>p' rs. x = Inr (p', rs) \<Longrightarrow> p' = s + len" by blast
        show ?thesis
          using Inr h False good x parse_primitive_no_assertion [of G src tag s len]
          by (cases x; cases "parse_primitive G src tag s len") (auto simp: good_result_def)
      qed
    qed
  next
    case 2
    show ?case
    proof (cases "p < limit")
      case False
      then have "p = limit" using 2 by (simp add: word_less_nat_alt word_unat_eq_iff)
      then show ?thesis by simp
    next
      case True
      have "\<exists>x. ber_parse_rec G src fuel p limit = Some x \<and> good_result p limit x"
        using 2 by (intro Suc.IH(1)) simp_all
      then obtain x where x: "ber_parse_rec G src fuel p limit = Some x" "good_result p limit x" by blast
      show ?thesis
      proof (cases x)
        case (Inl e)
        then show ?thesis using x True by (simp add: good_result_def)
      next
        case (Inr y)
        obtain p' r where y: "y = (p', r)" by (cases y)
        have b: "unat p + 2 \<le> unat p'" "unat p' \<le> unat limit" using x Inr y by (simp_all add: good_result_def)
        then have "\<exists>x. item_loop G src fuel p' limit (q @ [r]) = Some x \<and> x \<noteq> Inl Assertion_failed \<and>
            (\<forall>p'' rs. x = Inr (p'', rs) \<longrightarrow> p'' = limit)"
          using 2 by (intro Suc.IH(2) no_long_form_mono [OF 2(1)]) simp_all
        then show ?thesis using x Inr y True by simp
      qed
    qed
  }
qed

section \<open>What the parser reads\<close>

definition same_octets :: "source \<Rightarrow> source \<Rightarrow> nat \<Rightarrow> nat \<Rightarrow> bool" where
  "same_octets src src' a b \<longleftrightarrow> orig_base src = orig_base src' \<and>
     (\<forall>x. a \<le> unat x \<and> unat x \<le> b \<longrightarrow> mem src x = mem src' x)"

lemma same_octetsD: "same_octets src src' a b \<Longrightarrow> a \<le> unat x \<Longrightarrow> unat x \<le> b \<Longrightarrow> mem src' x = mem src x"
  unfolding same_octets_def by simp

lemma same_octets_mono: "same_octets src src' a b \<Longrightarrow> a \<le> a' \<Longrightarrow> b' \<le> b \<Longrightarrow> same_octets src src' a' b'"
  unfolding same_octets_def by simp

lemma same_octets_errors:
  assumes "same_octets src src' a b"
  shows "make_substring src' = make_substring src" "bail1 c src' = bail1 c src" "bail0 c src' = bail0 c src"
proof -
  show s: "make_substring src' = make_substring src"
    using assms by (intro ext) (simp add: make_substring_def same_octets_def)
  show b: "bail1 c src' = bail1 c src" by (intro ext) (simp add: bail1_def s)
  show "bail0 c src' = bail0 c src" by (intro ext) (simp add: bail0_def b)
qed

lemma same_parse_header:
  assumes s: "same_octets src src' (unat p) (unat limit)" and small: "unat limit + 16777216 \<le> 4294967296"
  shows "parse_header src' p limit = (parse_header src p limit :: ber_error + _)"
proof -
  note e = same_octets_errors [OF s]
  consider "p \<ge> limit" | "p < limit" "p + 1 \<ge> limit" | "p < limit" "p + 1 < limit" by fastforce
  then show ?thesis
  proof cases
    case 1
    then show ?thesis by (simp add: parse_header_def e)
  next
    case 2
    then show ?thesis by (simp add: parse_header_def e Let_def)
  next
    case 3
    define q where "q = p + 1 + 1"
    have p1: "unat (p + 1) = unat p + 1" by (rule unat_plus1 [OF 3(1)])
    have q: "unat q = unat p + 2" "unat q \<le> unat limit"
      using unat_plus1 [OF 3(2)] 3(2) p1 by (simp_all add: q_def word_less_nat_alt)
    have u: "unat (q + 1) = unat q + 1" "unat (q + 2) = unat q + 2" "unat (q + 3) = unat q + 3"
      "unat (q + 4) = unat q + 4"
      using q small by (simp_all add: unat_add_u32)
    have m: "mem src' p = mem src p" "mem src' (p + 1) = mem src (p + 1)"
      using q p1 by (auto intro!: same_octetsD [OF s])
    have mq: "unat (q + k) \<le> unat limit \<Longrightarrow> unat q \<le> unat (q + k) \<Longrightarrow> mem src' (q + k) = mem src (q + k)" for k
      using q by (intro same_octetsD [OF s]) simp_all
    have m0: "mem src' q = mem src q" using mq [of 0] q by simp
    have m1: "\<not> limit < q + 2 \<Longrightarrow> mem src' (q + 1) = mem src (q + 1)"
      "\<not> limit < q + 3 \<Longrightarrow> mem src' (q + 1) = mem src (q + 1)"
      "\<not> limit < q + 3 \<Longrightarrow> mem src' (q + 2) = mem src (q + 2)"
      "\<not> limit < q + 4 \<Longrightarrow> mem src' (q + 1) = mem src (q + 1)"
      "\<not> limit < q + 4 \<Longrightarrow> mem src' (q + 2) = mem src (q + 2)"
      "\<not> limit < q + 4 \<Longrightarrow> mem src' (q + 3) = mem src (q + 3)"
      using u by (auto intro!: mq simp: word_less_nat_alt)
    show ?thesis
      unfolding parse_header_def Let_def e m q_def [symmetric] by (simp add: m0 m1)
  qed
qed

lemma same_oid_loop:
  fixes lim :: u32 and q :: "'z obj list"
  assumes "same_octets src src' a (unat lim)" "a \<le> unat ptr"
  shows "oid_loop src' len lim ptr subid hash q = oid_loop src len lim ptr subid hash q"
  using assms
proof (induction src len lim ptr subid hash q rule: oid_loop_rule)
  case (1 src len lim ptr subid hash q)
  note e = same_octets_errors [OF 1(2)]
  show ?case
  proof (cases "ptr < lim")
    case True
    have m: "mem src' ptr = mem src ptr"
      using 1(3) True by (intro same_octetsD [OF 1(2)]) (simp_all add: word_less_nat_alt)
    have IH: "oid_loop src' len lim (ptr + 1) s h q = oid_loop src len lim (ptr + 1) s h q" for s h
        and q :: "'z obj list"
      using 1(2,3) unat_plus1 [OF True] by (intro 1(1) True) simp_all
    show ?thesis
      unfolding oid_loop_unfold [of src' len lim ptr subid hash q]
        oid_loop_unfold [of src len lim ptr subid hash q] m e IH ..
  next
    case False
    then show ?thesis by (simp add: oid_loop_unfold [of src' len lim ptr subid hash q]
          oid_loop_unfold [of src len lim ptr subid hash q] e)
  qed
qed

lemma same_octets_list:
  assumes "same_octets src src' a b" "a \<le> unat p" "unat p + n \<le> b + 1" "unat p + n \<le> 4294967296"
  shows "octets src' p n = octets src p n"
proof -
  have "mem src' (p + of_nat i) = mem src (p + of_nat i)" if "i < n" for i
    using assms that unat_plus_of_nat [of p i] by (intro same_octetsD [OF assms(1)]) simp_all
  then show ?thesis by (simp add: octets_def)
qed

lemma same_ber_parse_int:
  assumes "octets src' p (unat len) = octets src p (unat len)"
  shows "ber_parse_int G src' p len = ber_parse_int G src p len"
proof -
  have m: "mem src' (p + of_nat i) = mem src (p + of_nat i)" if "i < unat len" for i
    using arg_cong [OF assms, of "\<lambda>xs. xs ! i"] that by (simp add: octets_def)
  have m0: "len \<noteq> 0 \<Longrightarrow> mem src' p = mem src p" using m [of 0] by (simp add: unat_gt_0)
  have m1: "len = 1 \<Longrightarrow> mem src' p = mem src p" "len = 2 \<Longrightarrow> mem src' p = mem src p"
    "len = 3 \<Longrightarrow> mem src' p = mem src p" "len = 4 \<Longrightarrow> mem src' p = mem src p"
    using m0 by simp_all
  have ms: "len = 2 \<Longrightarrow> mem src' (p + 1) = mem src (p + 1)"
    "len = 3 \<Longrightarrow> mem src' (p + 1) = mem src (p + 1)" "len = 3 \<Longrightarrow> mem src' (p + 2) = mem src (p + 2)"
    "len = 4 \<Longrightarrow> mem src' (p + 1) = mem src (p + 1)" "len = 4 \<Longrightarrow> mem src' (p + 2) = mem src (p + 2)"
    "len = 4 \<Longrightarrow> mem src' (p + 3) = mem src (p + 3)"
    using m [of 1] m [of 2] m [of 3] by simp_all
  consider "len = 0" | "len = 1" | "len = 2" | "len = 3" | "len = 4"
    | "len \<noteq> 0" "len \<noteq> 1" "len \<noteq> 2" "len \<noteq> 3" "len \<noteq> 4" by blast
  then show ?thesis
    by cases (simp_all only: ber_parse_int_def Let_def add_0_right m0 m1 ms assms if_True if_False, simp_all add: m0)
qed

lemma same_parse_primitive:
  fixes p limit :: u32
  assumes s: "same_octets src src' (unat p) (unat limit)"
    and le: "unat p + unat len \<le> unat limit" and small: "unat limit < 4294967295"
  shows "parse_primitive G src' tag p len = parse_primitive G src tag p len"
proof -
  have pl: "unat (p + len) = unat p + unat len"
    using le unat_u32_less [of limit] by (simp add: unat_add_u32)
  have m: "mem src' p = mem src p" using le by (intro same_octetsD [OF s]) simp_all
  have sub: "make_substring src' = make_substring src" by (rule same_octets_errors [OF s])
  have i: "ber_parse_int G src' p len = ber_parse_int G src p len"
    using le unat_u32_less [of limit] by (intro same_ber_parse_int same_octets_list [OF s]) simp_all
  have o: "oid_loop src' (len - 1) (p + len) (p + 1) 0 h q = oid_loop src (len - 1) (p + len) (p + 1) 0 h q"
    for h and q :: "'a obj list"
  proof (cases "p + 1 < p + len")
    case True
    have "unat (p + 1) = unat p + 1" using le small by (simp add: unat_add_u32)
    then have "unat p \<le> unat (p + 1)" by simp
    then show ?thesis
      using le by (intro same_oid_loop [of _ _ "unat p"] same_octets_mono [OF s]) (simp_all add: pl)
  next
    case False
    then show ?thesis by (simp add: oid_loop_unfold)
  qed
  have oid: "ber_parse_oid src' p len = (ber_parse_oid src p len :: ber_error + 'a asn)"
    unfolding ber_parse_oid_def Let_def m o ..
  show ?thesis
    unfolding parse_primitive_def m sub i oid ..
qed

lemma same_parse:
  "same_octets src src' (unat p) (unat limit) \<Longrightarrow> no_long_form src (unat p) (unat limit) \<Longrightarrow>
     unat limit + 16777216 \<le> 4294967296 \<Longrightarrow> unat limit - unat p < fuel \<Longrightarrow>
     ber_parse_rec G src' fuel p limit = ber_parse_rec G src fuel p limit"
  "same_octets src src' (unat p) (unat limit) \<Longrightarrow> no_long_form src (unat p) (unat limit) \<Longrightarrow>
     unat limit + 16777216 \<le> 4294967296 \<Longrightarrow> unat p \<le> unat limit \<Longrightarrow> unat limit - unat p + 1 < fuel \<Longrightarrow>
     item_loop G src' fuel p limit q = item_loop G src fuel p limit q"
proof (induction fuel arbitrary: p limit q)
  case 0
  { case 1 then show ?case by simp next case 2 then show ?case by simp }
next
  case (Suc fuel)
  {
    case 1
    note ph = same_parse_header [OF 1(1,3)] and e = same_octets_errors [OF 1(1)]
    show ?case
    proof (cases "parse_header src p limit")
      case (Inl err)
      then show ?thesis by (simp add: ph)
    next
      case (Inr h)
      obtain tag len s where h: "h = (tag, len, s)" by (cases h)
      have b: "unat p + 2 \<le> unat s" "unat s \<le> unat limit" "unat len < 16777216"
        using parse_header_bounds [OF Inr [unfolded h] 1(2,3)] by auto
      have sl: "unat (s + len) = unat s + unat len"
        using b 1(3) by (simp add: unat_add_u32)
      show ?thesis
      proof (cases "s + len > limit")
        case True
        then show ?thesis using Inr h by (simp add: ph e)
      next
        case False
        then have le: "unat (s + len) \<le> unat limit" by (simp add: word_less_nat_alt)
        have "item_loop G src' fuel s (s + len) [] = item_loop G src fuel s (s + len) []"
          using 1(3,4) le b sl
          by (intro Suc.IH(2) same_octets_mono [OF 1(1)] no_long_form_mono [OF 1(2)]) simp_all
        moreover have "parse_primitive G src' tag s len = parse_primitive G src tag s len"
        proof (rule same_parse_primitive [OF same_octets_mono [OF 1(1)]])
          show "unat p \<le> unat s" using b by simp
          show "unat (s + len) \<le> unat limit" by (rule le)
          show "unat s + unat len \<le> unat (s + len)" by (simp add: sl)
          have "unat limit < 4294967295" using 1(3) by simp
          with le show "unat (s + len) < 4294967295" by (rule le_less_trans)
        qed
        ultimately show ?thesis using Inr h False by (simp add: ph)
      qed
    qed
  next
    case 2
    show ?case
    proof (cases "p < limit")
      case False
      then show ?thesis by simp
    next
      case True
      have r: "ber_parse_rec G src' fuel p limit = ber_parse_rec G src fuel p limit"
        using 2 by (intro Suc.IH(1)) simp_all
      have "\<exists>x. ber_parse_rec G src fuel p limit = Some x \<and> good_result p limit x"
        using 2 by (intro parse_terminates(1)) simp_all
      then obtain x where x: "ber_parse_rec G src fuel p limit = Some x" "good_result p limit x" by blast
      show ?thesis
      proof (cases x)
        case (Inl e)
        then show ?thesis using x r by simp
      next
        case (Inr y)
        obtain p' it where y: "y = (p', it)" by (cases y)
        have b: "unat p + 2 \<le> unat p'" "unat p' \<le> unat limit" using x Inr y by (simp_all add: good_result_def)
        then have "item_loop G src' fuel p' limit (q @ [it]) = item_loop G src fuel p' limit (q @ [it])"
          using 2 by (intro Suc.IH(2) same_octets_mono [OF 2(1)] no_long_form_mono [OF 2(2)]) simp_all
        then show ?thesis using x Inr y r True by simp
      qed
    qed
  }
qed

end
