(* ===== verification/BerProps.thy ===== *)
theory BerProps
  imports BerParse NumTower
begin

text \<open>
  Object identifiers, a length that wraps around, and the properties of the BER component with
  their witnesses.
\<close>

unbundle bit_operations_syntax

section \<open>A length that wraps around\<close>

definition source_of :: "u32 \<Rightarrow> u8 list \<Rightarrow> source" where
  "source_of base bs =
     \<lparr>mem = (\<lambda>a. if unat (a - base) < length bs then bs ! unat (a - base) else 0), orig_base = base\<rparr>"

definition wrapping :: "u8 list" where
  "wrapping = [0x30, 6, 4, 0x84, 0xFF, 0xFF, 0xFF, 0xFA]"

lemma wrapping_mem:
  "mem (source_of 0x1000 wrapping) 0x1000 = 0x30" "mem (source_of 0x1000 wrapping) 0x1001 = 6"
  "mem (source_of 0x1000 wrapping) 0x1002 = 4" "mem (source_of 0x1000 wrapping) 0x1003 = 0x84"
  "mem (source_of 0x1000 wrapping) 0x1004 = 0xFF" "mem (source_of 0x1000 wrapping) 0x1005 = 0xFF"
  "mem (source_of 0x1000 wrapping) 0x1006 = 0xFF" "mem (source_of 0x1000 wrapping) 0x1007 = 0xFA"
  by (simp_all add: source_of_def wrapping_def)

lemma wrapping_headers:
  "parse_header (source_of 0x1000 wrapping) 0x1000 0x1008 = Inr (0x30, 6, 0x1002)"
  "parse_header (source_of 0x1000 wrapping) 0x1002 0x1008 = Inr (4, 0xFFFFFFFA, 0x1008)"
  by (simp_all add: parse_header_def wrapping_mem Let_def)

lemma wrapping_inner:
  "ber_parse_rec G (source_of 0x1000 wrapping) (Suc fuel) 0x1002 0x1008 =
     Some (Inr (0x1002, Octet_string (make_substring (source_of 0x1000 wrapping) 0x1008 0x1002)))"
proof -
  have "make_substring (source_of 0x1000 wrapping) 4104 4294971394 =
      make_substring (source_of 0x1000 wrapping) 4104 4098"
    by (rule arg_cong [where f = "make_substring (source_of 0x1000 wrapping) 4104"]) simp
  note w = this
  show ?thesis by (simp add: wrapping_headers parse_primitive_def w)
qed

lemma wrapping_item_loop: "item_loop G (source_of 0x1000 wrapping) fuel 0x1002 0x1008 q = None"
proof (induction fuel arbitrary: q)
  case (Suc fuel)
  then show ?case by (cases fuel) (simp, simp add: wrapping_inner del: ber_parse_rec.simps(2))
qed simp

lemma wrapping_hangs: "ber_parse_rec G (source_of 0x1000 wrapping) fuel 0x1000 0x1008 = None"
  by (cases fuel) (simp_all add: wrapping_headers wrapping_item_loop)

section \<open>Object identifiers\<close>

lemma stores_append_at:
  assumes "p + length bs \<le> length buf"
  shows "append_at buf p bs = Some (take p buf @ bs @ drop (p + length bs) buf)"
  using assms
proof (induction bs arbitrary: buf p)
  case (Cons b bs)
  have "zip (map int [p..<p + length (b # bs)]) (b # bs) =
      (int p, b) # zip (map int [Suc p..<Suc p + length bs]) bs"
    by (simp add: upt_conv_Cons del: upt_Suc)
  moreover have "append_at (buf[p := b]) (Suc p) bs =
      Some (take (Suc p) (buf[p := b]) @ bs @ drop (Suc p + length bs) (buf[p := b]))"
    using Cons.prems by (intro Cons.IH) simp
  moreover have "take (Suc p) (buf[p := b]) = take p buf @ [b]"
    using Cons.prems by (simp add: take_Suc_conv_app_nth)
  ultimately show ?case using Cons.prems by (simp add: append_at_def)
qed (simp add: append_at_def)

lemma length_subid_octets: "1 \<le> length (subid_octets s)" "length (subid_octets s) \<le> 5"
  by (simp_all add: subid_octets_def)

lemma stores_before:
  assumes "length hs \<le> length pre"
  shows "stores (pre @ body) (zip (map (\<lambda>i. int (length pre) - int (length hs) + int i) [0..<length hs]) hs) =
     Some (take (length pre - length hs) pre @ hs @ body)"
proof -
  have e: "map (\<lambda>i. int (length pre) - int (length hs) + int i) [0..<length hs] =
      map int [length pre - length hs..<length pre - length hs + length hs]"
    using assms by (intro nth_equalityI) (auto simp: of_nat_diff)
  have "append_at (pre @ body) (length pre - length hs) hs =
     Some (take (length pre - length hs) (pre @ body) @ hs @ drop (length pre - length hs + length hs) (pre @ body))"
    using assms by (intro stores_append_at) simp
  then show ?thesis using assms by (simp add: e append_at_def)
qed

lemma emit_header_rev_stores:
  "emit_header_rev buf p tag len =
     (let h = emit_header tag len
      in map_option (Pair (int (length h)))
           (stores buf (zip (map (\<lambda>i. p - int (length h) + int i) [0..<length h]) h)))"
  by (simp add: emit_header_def emit_header_rev_def Let_def)

lemma emit_header_rev_before:
  assumes "length (emit_header tag len) \<le> length pre"
  shows "emit_header_rev (pre @ body) (int (length pre)) tag len =
     Some (int (length (emit_header tag len)),
       take (length pre - length (emit_header tag len)) pre @ emit_header tag len @ body)"
  using stores_before [OF assms, of body] by (simp add: emit_header_rev_stores Let_def)

definition oid_octets :: "u32 list \<Rightarrow> u8 list" where
  "oid_octets ids = ucast (ids ! 0 * 40 + ids ! 1) # concat (map subid_octets (drop 2 ids))"

definition oid_hash :: "u32 list \<Rightarrow> u32" where
  "oid_hash ids = foldl OID_HASH_MIX 0x1234567 ids"

lemma length_oid_octets: "length (oid_octets ids) \<le> 1 + 5 * (length ids - 2)"
proof -
  have "length (concat (map subid_octets xs)) \<le> 5 * length xs" for xs
    using length_subid_octets(2) by (induction xs) (auto intro: add_mono)
  from this [of "drop 2 ids"] show ?thesis by (simp add: oid_octets_def)
qed

lemma extract_fixnum: "unat x < 2 ^ 29 \<Longrightarrow> extract_uint_32 G (Imm (int2fx x)) = Inr x"
proof -
  assume x: "unat x < 2 ^ 29"
  then have u: "uint x < 536870912" by (simp add: uint_nat del: of_nat_unat)
  have "unat (int2fx x) = 4 * unat x"
    using x by (simp add: int2fx_def push_bit_eq_mult unat_word_ariths)
  then have "uint (int2fx x) = 4 * uint x" by (simp add: uint_nat del: of_nat_unat)
  then have "sint (int2fx x) = uint (int2fx x)" using u by (intro sint_small) simp
  then have "0 \<le> sint (int2fx x)" by simp
  moreover have "sint (int2fx 0) = 0" by (simp add: int2fx_def)
  ultimately have "\<not> FX_LT (int2fx x) ZERO" by (simp add: FX_LT_def ZERO_def)
  then show ?thesis
    using x by (simp add: extract_uint_32_def fx_small)
qed

lemma subid_loop_fixnums:
  assumes "\<forall>x \<in> set ids. unat x < 2 ^ 29" "p + length (concat (map subid_octets ids)) \<le> length buf"
  shows "subid_loop G (map (\<lambda>i. Imm (int2fx i)) ids) buf p hash =
    Inr (take p buf @ concat (map subid_octets ids) @ drop (p + length (concat (map subid_octets ids))) buf,
         p + length (concat (map subid_octets ids)), foldl OID_HASH_MIX hash ids)"
  using assms
proof (induction ids arbitrary: buf p hash)
  case (Cons x ids)
  let ?buf = "take p buf @ subid_octets x @ drop (p + length (subid_octets x)) buf"
  have a: "append_at buf p (subid_octets x) = Some ?buf"
    using Cons.prems by (intro stores_append_at) simp
  show ?case using Cons.prems a Cons.IH [of "p + length (subid_octets x)" ?buf "OID_HASH_MIX hash x"]
    by (simp add: extract_fixnum ac_simps)
qed simp

lemma ber_encode_oid_bytes:
  assumes ids: "length ids \<ge> 2" "\<forall>x \<in> set ids. unat x < 2 ^ 29" "ids ! 0 < 6" "ids ! 1 < 40"
    and len: "length (oid_octets ids) < 65536"
  shows "ber_encode_oid G fill port (map (\<lambda>i. Imm (int2fx i)) ids) =
     (let bs = emit_header 0x06 (of_nat (length (oid_octets ids))) @ oid_octets ids
      in Inr (length bs, OID_HASH_TO_OBJ (oid_hash ids), port @ [Chunk bs]))"
proof -
  obtain a b xs where e: "ids = a # b # xs"
    using ids(1) by (cases ids; cases "tl ids") auto
  have ab: "unat a < 2 ^ 29" "unat b < 2 ^ 29" "a < 6" "b < 40" using ids e by auto
  then have nl: "\<not> 6 \<le> a" "\<not> 40 \<le> b" by (simp_all add: not_le)
  define buf where "buf = map fill [0..<6 + 5 * length ids]"
  then have lb: "length buf = 16 + 5 * length xs" by (simp add: e)
  define pre c tail where "pre = take 4 buf" and "c = buf ! 4" and "tail = drop 5 buf"
  have buf: "buf = pre @ c # tail" "length pre = 4" "length tail = 11 + 5 * length xs"
    using lb id_take_nth_drop [of 4 buf] by (simp_all add: pre_def c_def tail_def)
  define o1 where "o1 = (ucast (a * 40 + b) :: u8)"
  define bs where "bs = concat (map subid_octets xs)"
  define oc where "oc = oid_octets ids"
  have oc: "oc = o1 # bs" by (simp add: oc_def oid_octets_def e o1_def bs_def)
  have l: "length bs \<le> 5 * length xs"
    using length_oid_octets [of ids] by (simp add: e oid_octets_def bs_def)
  have 1: "append_at buf 4 [o1] = Some (pre @ o1 # tail)"
    using buf by (subst stores_append_at) simp_all
  have 2: "subid_loop G (map (\<lambda>i. Imm (int2fx i)) xs) (pre @ o1 # tail) 5 h =
      Inr (pre @ oc @ drop (length bs) tail, 5 + length bs, foldl OID_HASH_MIX h xs)" for h
    using ids(2) e l buf subid_loop_fixnums [of xs 5 "pre @ o1 # tail" G h]
    by (simp add: oc flip: bs_def)
  define h where "h = emit_header 6 (of_nat (length oc))"
  have u: "unat (of_nat (length oc) :: u32) = length oc"
    using len by (simp add: unsigned_of_nat take_bit_nat_eq_self oc_def)
  have lh: "length h \<le> 4" using len u by (simp add: h_def emit_header_def word_less_nat_alt oc_def)
  have 3: "emit_header_rev (pre @ oc @ drop (length bs) tail) 4 6 (of_nat (length oc)) =
      Some (int (length h), take (4 - length h) pre @ h @ oc @ drop (length bs) tail)"
    using emit_header_rev_before [of 6 "of_nat (length oc)" pre "oc @ drop (length bs) tail"] lh buf(2)
    by (simp flip: h_def)
  have maj: "extract_uint_32 G (Imm (int2fx a)) = Inr a" "extract_uint_32 G (Imm (int2fx b)) = Inr b"
    using ab by (simp_all add: extract_fixnum)
  have n: "1 + length bs = length oc" by (simp add: oc)
  have "ber_encode_oid G fill port (map (\<lambda>i. Imm (int2fx i)) ids) =
     Inr (length (h @ oc), OID_HASH_TO_OBJ (oid_hash ids), port @ [Chunk (h @ oc)])"
    unfolding ber_encode_oid_def Let_def length_map buf_def [symmetric]
    using ab lh buf(2) n
    by (simp add: e maj nl 1 2 3 oid_hash_def flip: o1_def)
  then show ?thesis by (simp add: Let_def h_def oc_def)
qed

lemma bit_7f: "bit (x AND 0x7F :: u32) n \<longleftrightarrow> bit x n \<and> n < 7"
proof -
  have "bit (x AND mask 7) n \<longleftrightarrow> bit x n \<and> n < 7"
    by (auto simp: bit_and_iff bit_mask_iff dest: bit_imp_le_length)
  then show ?thesis by (simp add: mask_eq_exp_minus_1)
qed

lemma bit_80: "bit (0x80 :: u32) n \<longleftrightarrow> n = 7" "bit (0x80 :: u8) n \<longleftrightarrow> n = 7"
  "bit (0x80 :: int) n \<longleftrightarrow> n = 7" "bit (0x80 :: nat) n \<longleftrightarrow> n = 7"
  using bit_exp_iff [where 'a = "32 word", of 7 n] bit_exp_iff [where 'a = "8 word", of 7 n]
    bit_exp_iff [where 'a = int, of 7 n] bit_exp_iff [where 'a = nat, of 7 n] by auto

lemma group_octets:
  "(ucast (ucast (0x80 OR (g AND 0x7F) :: u32) :: u8) :: u32) AND 0x80 \<noteq> 0"
  "(ucast (ucast (0x80 OR (g AND 0x7F) :: u32) :: u8) :: u32) AND 0x7F = g AND 0x7F"
  "(ucast (ucast (g AND 0x7F :: u32) :: u8) :: u32) AND 0x80 = 0"
  "(ucast (ucast (g AND 0x7F :: u32) :: u8) :: u32) AND 0x7F = g AND 0x7F"
proof -
  show "(ucast (ucast (0x80 OR (g AND 0x7F) :: u32) :: u8) :: u32) AND 0x80 \<noteq> 0"
    by (simp add: sign_tests bit_unsigned_iff bit_or_iff bit_80)
  show "(ucast (ucast (0x80 OR (g AND 0x7F) :: u32) :: u8) :: u32) AND 0x7F = g AND 0x7F"
    "(ucast (ucast (g AND 0x7F :: u32) :: u8) :: u32) AND 0x7F = g AND 0x7F"
    by (rule bit_word_eqI; auto simp: bit_7f bit_unsigned_iff bit_or_iff bit_80)+
  show "(ucast (ucast (g AND 0x7F :: u32) :: u8) :: u32) AND 0x80 = 0"
    using sign_tests(1) [of "ucast (ucast (g AND 0x7F :: u32) :: u8)"]
    by (simp add: bit_unsigned_iff bit_7f)
qed

lemma oid_step_more:
  assumes "ptr < lim" "mem src ptr = ucast (0x80 OR (g AND 0x7F) :: u32)"
    "s' = push_bit 7 (subid OR (g AND 0x7F))" "s' \<noteq> 0"
  shows "oid_loop src len lim ptr subid hash q = oid_loop src len lim (ptr + 1) s' hash q"
  by (subst oid_loop_unfold) (simp only: assms(1,2,4) group_octets if_True if_False assms(3) [symmetric], simp)

lemma oid_step_last:
  assumes "ptr < lim" "mem src ptr = ucast (g AND 0x7F :: u32)" "s' = subid OR (g AND 0x7F)"
  shows "oid_loop src len lim ptr subid hash q =
    oid_loop src len lim (ptr + 1) 0 (OID_HASH_MIX hash s') (q @ [uint_32_compact s'])"
  by (subst oid_loop_unfold) (simp only: assms(1,2) group_octets if_True if_False assms(3) [symmetric], simp)

lemma next_group: "push_bit 7 (drop_bit (n + 7) s) OR (drop_bit n s AND 0x7F) = drop_bit n (s :: u32)"
proof (rule bit_word_eqI)
  fix k
  have "7 + n + (k - 7) = n + k" if "7 \<le> k" using that by simp
  then show "bit (push_bit 7 (drop_bit (n + 7) s) OR (drop_bit n s AND 0x7F)) k \<longleftrightarrow> bit (drop_bit n s) k"
    by (cases "k < 7") (auto simp: bit_or_iff bit_push_bit_iff bit_drop_bit_eq bit_7f add.commute add.left_commute
        dest: bit_imp_le_length)
qed

lemma top_group: "unat s < 2 ^ (n + 7) \<Longrightarrow> drop_bit n s AND 0x7F = drop_bit n (s :: u32)"
proof -
  assume "unat s < 2 ^ (n + 7)"
  then have t: "take_bit (n + 7) s = s" by (rule take_bit_small)
  then have "bit s k \<Longrightarrow> k < n + 7" for k by (metis bit_take_bit_iff)
  then have "bit s (n + k) \<Longrightarrow> k < 7" for k by fastforce
  then show ?thesis by (intro bit_word_eqI) (auto simp: bit_7f bit_drop_bit_eq)
qed

lemma group_nonzero:
  assumes "2 ^ n \<le> unat s" "7 \<le> n"
  shows "push_bit 7 (drop_bit n s) \<noteq> (0 :: u32)"
proof
  assume 0: "push_bit 7 (drop_bit n s) = 0"
  have "0 < unat s div 2 ^ n" using assms(1) by (simp add: div_greater_zero_iff)
  then have d: "0 < unat (drop_bit n s)" by (simp add: unat_drop_bit_div)
  have "unat s div 2 ^ n \<le> unat s div 2 ^ 7"
    using assms(2) by (intro div_le_mono2 power_increasing) auto
  then have "unat (drop_bit n s) * 128 < 4294967296"
    using unat_u32_less [of s] by (simp add: unat_drop_bit_div)
  then have "unat (push_bit 7 (drop_bit n s)) = unat (drop_bit n s) * 128"
    by (simp add: push_bit_eq_mult unat_word_ariths)
  then show False using d 0 by simp
qed

lemma subid_octets_cases:
  obtains "unat s < 128" "subid_octets s = [ucast (drop_bit 0 s AND 0x7F)]"
  | "128 \<le> unat s" "unat s < 2 ^ 14" "subid_octets s = [ucast (0x80 OR (drop_bit 7 s AND 0x7F)), ucast (drop_bit 0 s AND 0x7F)]"
  | "2 ^ 14 \<le> unat s" "unat s < 2 ^ 21" "subid_octets s = [ucast (0x80 OR (drop_bit 14 s AND 0x7F)),
      ucast (0x80 OR (drop_bit 7 s AND 0x7F)), ucast (drop_bit 0 s AND 0x7F)]"
  | "2 ^ 21 \<le> unat s" "unat s < 2 ^ 28" "subid_octets s = [ucast (0x80 OR (drop_bit 21 s AND 0x7F)),
      ucast (0x80 OR (drop_bit 14 s AND 0x7F)), ucast (0x80 OR (drop_bit 7 s AND 0x7F)), ucast (drop_bit 0 s AND 0x7F)]"
  | "2 ^ 28 \<le> unat s" "unat s < 2 ^ 35" "subid_octets s = [ucast (0x80 OR (drop_bit 28 s AND 0x7F)),
      ucast (0x80 OR (drop_bit 21 s AND 0x7F)), ucast (0x80 OR (drop_bit 14 s AND 0x7F)),
      ucast (0x80 OR (drop_bit 7 s AND 0x7F)), ucast (drop_bit 0 s AND 0x7F)]"
proof -
  have top: "drop_bit 0 s AND 0x7F = s" if "unat s < 128"
    using top_group [of s 0] that by simp
  have big: "unat s < 2 ^ 35" using unat_u32_less [of s] by simp
  consider "unat s < 128" | "128 \<le> unat s" "unat s < 2 ^ 14" | "2 ^ 14 \<le> unat s" "unat s < 2 ^ 21"
    | "2 ^ 21 \<le> unat s" "unat s < 2 ^ 28" | "2 ^ 28 \<le> unat s" by fastforce
  then show thesis
  proof cases
    case 1
    then show thesis using top by (intro that(1)) (simp_all add: subid_octets_def word_less_nat_alt)
  next
    case 2
    then show thesis by (intro that(2)) (simp_all add: subid_octets_def word_less_nat_alt)
  next
    case 3
    then show thesis by (intro that(3)) (simp_all add: subid_octets_def word_less_nat_alt)
  next
    case 4
    then show thesis by (intro that(4)) (simp_all add: subid_octets_def word_less_nat_alt)
  next
    case 5
    then show thesis using big by (intro that(5)) (simp_all add: subid_octets_def word_less_nat_alt)
  qed
qed

text \<open>The state of the loop after the group at bit \<open>n\<close>.\<close>

lemma oid_group_first:
  assumes "ptr < lim" "mem src ptr = ucast (0x80 OR (drop_bit n s AND 0x7F) :: u32)"
    "2 ^ n \<le> unat s" "unat s < 2 ^ (n + 7)" "7 \<le> n"
  shows "oid_loop src len lim ptr 0 hash q = oid_loop src len lim (ptr + 1) (push_bit 7 (drop_bit n s)) hash q"
  using assms(1,2) by (rule oid_step_more) (simp_all only: or.left_neutral top_group [OF assms(4)] group_nonzero [OF assms(3,5)], simp)

lemma oid_group_more:
  assumes "ptr < lim" "mem src ptr = ucast (0x80 OR (drop_bit n s AND 0x7F) :: u32)"
    "2 ^ n \<le> unat s" "7 \<le> n" "m = n + 7"
  shows "oid_loop src len lim ptr (push_bit 7 (drop_bit m s)) hash q =
    oid_loop src len lim (ptr + 1) (push_bit 7 (drop_bit n s)) hash q"
  using assms(1,2) by (rule oid_step_more) (simp_all only: assms(5) next_group group_nonzero [OF assms(3,4)], simp)

lemma oid_group_last:
  assumes "ptr < lim" "mem src ptr = ucast (drop_bit 0 s AND 0x7F :: u32)"
  shows "oid_loop src len lim ptr (push_bit 7 (drop_bit 7 s)) hash q =
    oid_loop src len lim (ptr + 1) 0 (OID_HASH_MIX hash s) (q @ [uint_32_compact s])"
  using assms by (rule oid_step_last) (use next_group [of 0 s] in simp)

lemma pow_le_trans: "2 ^ n \<le> (x :: nat) \<Longrightarrow> m \<le> n \<Longrightarrow> 2 ^ m \<le> x"
  by (meson le_trans one_le_numeral power_increasing)

lemma oid_loop_subid:
  assumes h: "holds src ptr (subid_octets s)" and lim: "unat ptr + length (subid_octets s) \<le> unat lim"
  shows "oid_loop src len lim ptr 0 hash q =
    oid_loop src len lim (ptr + of_nat (length (subid_octets s))) 0 (OID_HASH_MIX hash s) (q @ [uint_32_compact s])"
proof -
  have small: "unat ptr + length (subid_octets s) < 4294967296 \<or> unat ptr + length (subid_octets s) = 4294967296"
    using lim unat_u32_less [of lim] by linarith
  have lt: "unat ptr + k < unat lim \<Longrightarrow> ptr + of_nat k < lim" for k
    using unat_u32_less [of lim] by (simp add: word_less_nat_alt unat_plus_of_nat)
  show ?thesis
  proof (cases s rule: subid_octets_cases)
    case 1
    then show ?thesis using h lim lt [of 0] top_group [of s 0]
      by (subst oid_step_last [where g = "drop_bit 0 s" and s' = s]) simp_all
  next
    case 2
    then show ?thesis using h lim lt [of 0] lt [of 1]
      by (simp add: oid_group_first [of ptr lim src 7 s] oid_group_last [of "ptr + 1" lim src s] add.assoc)
  next
    case 3
    then show ?thesis using h lim lt [of 0] lt [of 1] lt [of 2]
      by (simp add: oid_group_first [of ptr lim src 14 s] oid_group_more [of "ptr + 1" lim src 7 s]
          oid_group_last [of "ptr + 2" lim src s] add.assoc)
  next
    case 4
    then show ?thesis using h lim lt [of 0] lt [of 1] lt [of 2] lt [of 3]
      by (simp add: oid_group_first [of ptr lim src 21 s] oid_group_more [of "ptr + 1" lim src 14 s]
          oid_group_more [of "ptr + 2" lim src 7 s] oid_group_last [of "ptr + 3" lim src s] add.assoc)
  next
    case 5
    then show ?thesis using h lim lt [of 0] lt [of 1] lt [of 2] lt [of 3] lt [of 4]
      by (simp add: oid_group_first [of ptr lim src 28 s] oid_group_more [of "ptr + 1" lim src 21 s]
          oid_group_more [of "ptr + 2" lim src 14 s] oid_group_more [of "ptr + 3" lim src 7 s]
          oid_group_last [of "ptr + 4" lim src s] add.assoc)
  qed
qed

lemma oid_loop_subids:
  fixes lim :: u32
  assumes "holds src ptr (concat (map subid_octets ids))"
    "unat ptr + length (concat (map subid_octets ids)) = unat lim"
  shows "oid_loop src len lim ptr 0 hash q =
    Inr (foldl OID_HASH_MIX hash ids, q @ map uint_32_compact ids)"
  using assms
proof (induction ids arbitrary: ptr hash q)
  case Nil
  then have "ptr = lim" by (simp add: word_unat_eq_iff)
  then show ?case by (simp add: oid_loop_unfold)
next
  case (Cons s ids)
  let ?ptr = "ptr + of_nat (length (subid_octets s))"
  have "unat ptr + length (subid_octets s) < 4294967296"
    using Cons.prems unat_u32_less [of lim] by simp
  then have "unat ?ptr = unat ptr + length (subid_octets s)" by (rule unat_plus_of_nat)
  then have "oid_loop src len lim ?ptr 0 (OID_HASH_MIX hash s) (q @ [uint_32_compact s]) =
      Inr (foldl OID_HASH_MIX (OID_HASH_MIX hash s) ids, (q @ [uint_32_compact s]) @ map uint_32_compact ids)"
    using Cons.prems by (intro Cons.IH) (auto simp: holds_append)
  then show ?case
    using Cons.prems oid_loop_subid [of src ptr s lim len hash q] by (simp add: holds_append)
qed

lemma first_octet:
  assumes "(a :: u32) < 6" "b < 40"
  shows "(ucast (ucast (a * 40 + b) :: u8) :: u32) div 40 = a" "(ucast (ucast (a * 40 + b) :: u8) :: u32) mod 40 = b"
proof -
  have u: "unat a < 6" "unat b < 40" using assms by (simp_all add: word_less_nat_alt)
  then have s: "unat (a * 40 + b) = unat a * 40 + unat b" by (simp add: unat_word_ariths)
  then have t: "(ucast (ucast (a * 40 + b) :: u8) :: u32) = a * 40 + b"
    unfolding octets_of_word(1) using u by (intro take_bit_small) simp
  show "(ucast (ucast (a * 40 + b) :: u8) :: u32) div 40 = a" "(ucast (ucast (a * 40 + b) :: u8) :: u32) mod 40 = b"
    unfolding t using u by (simp_all add: word_unat_eq_iff unat_div unat_mod s)
qed

lemma ber_parse_oid_octets:
  assumes ids: "length ids \<ge> 2" "\<forall>x \<in> set ids. unat x < 2 ^ 29" "ids ! 0 < 6" "ids ! 1 < 40"
    and h: "holds src p (oid_octets ids)"
    and small: "unat p + length (oid_octets ids) < 4294967296"
  shows "ber_parse_oid src p (of_nat (length (oid_octets ids))) =
    Inr (Oid (OID_HASH_TO_OBJ (oid_hash ids)) (map (\<lambda>i. Imm (int2fx i)) ids))"
proof -
  obtain a b xs where e: "ids = a # b # xs"
    using ids(1) by (cases ids; cases "tl ids") auto
  have ab: "a < 6" "b < 40" using ids e by auto
  have m: "mem src p = ucast (a * 40 + b)" and t: "holds src (p + 1) (concat (map subid_octets xs))"
    using h by (simp_all add: e oid_octets_def)
  have l: "length (oid_octets ids) = 1 + length (concat (map subid_octets xs))"
    by (simp add: e oid_octets_def)
  have p1: "unat (p + 1) = unat p + 1" using small l by (simp add: unat_add_u32)
  have lim: "unat (p + of_nat (length (oid_octets ids))) = unat p + length (oid_octets ids)"
    using small by (rule unat_plus_of_nat)
  have "oid_loop src len (p + of_nat (length (oid_octets ids))) (p + 1) 0 hash q =
      Inr (foldl OID_HASH_MIX hash xs, q @ map uint_32_compact xs)" for len hash and q :: "'a obj list"
    by (rule oid_loop_subids [OF t]) (unfold lim p1, simp add: l)
  moreover have "map uint_32_compact xs = map (\<lambda>i. Imm (int2fx i) :: 'a obj) xs"
    using ids(2) e by (auto simp: uint_32_compact_def word_less_nat_alt)
  ultimately show ?thesis
    by (simp add: ber_parse_oid_def Let_def m first_octet [OF ab] e oid_hash_def)
qed

section \<open>Properties\<close>

text \<open>C37: what the encoder writes for a tree of fixnums, strings and vectors the parser reads back
  from the memory, wherever the octets are, and stops right after them.\<close>

theorem ber_roundtrip:
  assumes "gmp_spec (gmp.truncate G) val" "fixnum_leaves v" "length (ber_encode v) < 2 ^ 24"
    "octets src p (length (ber_encode v)) = ber_encode v"
    "unat (orig_base src) \<le> unat p" "unat limit < unat (orig_base src) + 2 ^ 29"
    "unat p + length (ber_encode v) \<le> unat limit" "length (ber_encode v) \<le> fuel"
  shows "\<exists>r. ber_parse_rec G src fuel p limit = Some (Inr (p + of_nat (length (ber_encode v)), r)) \<and>
    item_of src r = Some v"
proof -
  have "holds src p (ber_encode v)" using assms(4) by (simp only: holds_octets)
  moreover have "length (ber_encode v) < 0x1000000" using assms(3) by simp
  ultimately show ?thesis
    using parsedD [OF parsed_item [OF assms(1,2)] _ assms(5,6,7) _ assms(8)] by metis
qed

definition int_ber_gmp :: "int ber_gmp" where
  "int_ber_gmp = gmp.extend int_gmp
     \<lparr>mpz_fits_ulong_p = (\<lambda>z. 0 \<le> z \<and> z < 2 ^ 32), mpz_import = unsigned_val, mpz_setbit = (\<lambda>z n. z OR 2 ^ n)\<rparr>"

lemma int_ber_gmp_spec: "ber_gmp_spec int_ber_gmp (\<lambda>z. z)"
  using int_gmp_spec by (simp add: ber_gmp_spec_def int_ber_gmp_def gmp.defs gmp_spec_def)

lemma demo_octets:
  "ber_encode (Vec [Fixnum (int2fx 5), Str [104, 105]]) = [0x30, 7, 2, 1, 5, 4, 2, 104, 105]"
proof -
  have "fx2int (int2fx 5) = 5" by (rule fx_small) simp
  then show ?thesis by (simp add: ber_encode_simps emit_header_def fx_octets_def)
qed

lemma demo_in_memory:
  "octets (source_of 0x1000 [0x30, 7, 2, 1, 5, 4, 2, 104, 105]) 0x1000
     (length (ber_encode (Vec [Fixnum (int2fx 5), Str [104, 105]]))) =
   ber_encode (Vec [Fixnum (int2fx 5), Str [104, 105]])"
  unfolding demo_octets by (simp add: octets_def source_of_def)

lemma ber_roundtrip_witness:
  "\<exists>r. ber_parse_rec int_ber_gmp (source_of 0x1000 [0x30, 7, 2, 1, 5, 4, 2, 104, 105]) 9 0x1000 0x1009 =
     Some (Inr (0x1009, r)) \<and>
   item_of (source_of 0x1000 [0x30, 7, 2, 1, 5, 4, 2, 104, 105]) r = Some (Vec [Fixnum (int2fx 5), Str [104, 105]])"
proof -
  let ?src = "source_of 0x1000 [0x30, 7, 2, 1, 5, 4, 2, 104, 105]"
  have g: "gmp_spec (gmp.truncate int_ber_gmp) (\<lambda>z. z)" using int_ber_gmp_spec by (simp add: ber_gmp_spec_def)
  have f: "fixnum_leaves (Vec [Fixnum (int2fx 5), Str [104, 105]])" by simp
  have base: "orig_base ?src = 0x1000" by (simp add: source_of_def)
  show ?thesis
    using ber_roundtrip [OF g f _ demo_in_memory, of "0x1009" 9] by (simp add: demo_octets base)
qed

text \<open>C38: an object identifier of at most 13,000 components that are fixnums, the first below 6 and the
  second below 40, is encoded without a store outside the buffer; its encoding is read back with the
  same components and the same hash.\<close>

theorem oid_roundtrip:
  fixes G :: "('z, 'b) ber_gmp_scheme" and G' :: "('z, 'c) ber_gmp_scheme"
  assumes "2 \<le> length ids" "length ids \<le> 13000" "\<forall>x \<in> set ids. unat x < 2 ^ 29" "ids ! 0 < 6" "ids ! 1 < 40"
  shows "\<exists>h bs. ber_encode_oid G fill port (map (\<lambda>i. Imm (int2fx i)) ids) = Inr (length bs, h, port @ [Chunk bs]) \<and>
    (\<forall>src p limit fuel. octets src p (length bs) = bs \<and> unat p + length bs \<le> unat (limit :: u32) \<longrightarrow>
       ber_parse_rec G' src (Suc fuel) p limit =
         Some (Inr (p + of_nat (length bs), Oid h (map (\<lambda>i. Imm (int2fx i)) ids))))"
proof -
  let ?oc = "oid_octets ids"
  let ?bs = "emit_header 0x06 (of_nat (length ?oc)) @ ?oc"
  have len: "length ?oc < 65536" using length_oid_octets [of ids] assms(1,2) by simp
  have "ber_encode_oid G fill port (map (\<lambda>i. Imm (int2fx i)) ids) =
      Inr (length ?bs, OID_HASH_TO_OBJ (oid_hash ids), port @ [Chunk ?bs])"
    using ber_encode_oid_bytes [OF assms(1,3,4,5) len] by (simp add: Let_def)
  moreover have "ber_parse_rec G' src (Suc fuel) p limit =
      Some (Inr (p + of_nat (length ?bs), Oid (OID_HASH_TO_OBJ (oid_hash ids)) (map (\<lambda>i. Imm (int2fx i)) ids)))"
    if "octets src p (length ?bs) = ?bs" "unat p + length ?bs \<le> unat (limit :: u32)" for src p limit fuel
  proof -
    have h: "holds src p ?bs" using that(1) by (simp only: holds_octets)
    have l: "length ?oc < 0x1000000" using len by simp
    note c = parse_encoded_content [OF h l that(2)]
    have "ber_parse_oid src (p + of_nat (length (emit_header 6 (of_nat (length ?oc))))) (of_nat (length ?oc)) =
        Inr (Oid (OID_HASH_TO_OBJ (oid_hash ids)) (map (\<lambda>i. Imm (int2fx i) :: 'z obj) ids))"
      using that(2) unat_u32_less [of limit]
      by (intro ber_parse_oid_octets [OF assms(1,3,4,5) c(6)]) (simp add: c(3))
    then show ?thesis
      by (simp add: c(1,5) parse_primitive_def flip: c(7))
  qed
  ultimately show ?thesis by blast
qed

lemma oid_roundtrip_witness:
  "\<exists>h bs. ber_encode_oid int_ber_gmp (\<lambda>i. 0) [] (map (\<lambda>i. Imm (int2fx i)) [1, 2, 840, 113549]) =
     Inr (length bs, h, [Chunk bs])"
  using oid_roundtrip [of "[1, 2, 840, 113549]" int_ber_gmp "\<lambda>i. 0" "[]" int_ber_gmp] by auto

text \<open>C39: the parser ends on every input that has no octet \<open>0x84\<close> (the long form of lengths of four
  octets) and does not lie in the last 16 megabytes of the address space, with a fuel of one more than
  the input is long; it consumes at least two octets, never passes its limit and never fails the
  assertion on the end of a SEQUENCE.\<close>

theorem ber_parse_terminates:
  assumes "no_long_form src (unat p) (unat limit)" "unat limit + 2 ^ 24 \<le> 2 ^ 32" "unat limit - unat p < fuel"
  shows "\<exists>x. ber_parse_rec G src fuel p limit = Some x \<and> x \<noteq> Inl Assertion_failed \<and>
    (\<forall>p' r. x = Inr (p', r) \<longrightarrow> unat p + 2 \<le> unat p' \<and> unat p' \<le> unat limit)"
  using parse_terminates(1) [of src p limit fuel G] assms by (simp add: good_result_def)

lemma ber_parse_terminates_witness:
  "\<exists>x. ber_parse_rec int_ber_gmp (source_of 0x1000 [0x30, 0x80]) 3 0x1000 0x1002 = Some x \<and> x \<noteq> Inl Assertion_failed"
proof -
  have "no_long_form (source_of 0x1000 [0x30, 0x80]) 4096 4098"
    unfolding no_long_form_def
  proof (intro allI impI)
    fix x :: u32 assume x: "4096 \<le> unat x \<and> unat x < 4098"
    then have "unat x = 4096 \<or> unat x = 4097" by auto
    then have "x = 4096 \<or> x = 4097" by (auto simp: word_unat_eq_iff)
    then show "mem (source_of 0x1000 [0x30, 0x80]) x \<noteq> 0x84" by (auto simp: source_of_def)
  qed
  then show ?thesis
    using ber_parse_terminates [of "source_of 0x1000 [0x30, 0x80]" "0x1000" "0x1002" 3 int_ber_gmp] by auto
qed

text \<open>On such input the result depends only on the octets up to the limit and on the one at the
  limit (which an empty BIT STRING or OBJECT IDENTIFIER reads).\<close>

theorem ber_parse_reads:
  assumes "same_octets src src' (unat p) (unat limit)" "no_long_form src (unat p) (unat limit)"
    "unat limit + 2 ^ 24 \<le> 2 ^ 32" "unat limit - unat p < fuel"
  shows "ber_parse_rec G src' fuel p limit = ber_parse_rec G src fuel p limit"
  using same_parse(1) [OF assms(1,2)] assms(3,4) by simp

lemma ber_parse_reads_witness:
  "ber_parse_rec int_ber_gmp (source_of 0x1000 [5, 0, 0, 7]) 3 0x1000 0x1002 =
   ber_parse_rec int_ber_gmp (source_of 0x1000 [5, 0, 0, 9]) 3 0x1000 0x1002"
proof -
  have c: "x = 4096 \<or> x = 4097 \<or> x = 4098" if "4096 \<le> unat x" "unat x \<le> 4098" for x :: u32
  proof -
    have "unat x = 4096 \<or> unat x = 4097 \<or> unat x = 4098" using that by auto
    then show ?thesis by (auto simp: word_unat_eq_iff)
  qed
  have "same_octets (source_of 0x1000 [5, 0, 0, 9]) (source_of 0x1000 [5, 0, 0, 7]) 4096 4098"
    unfolding same_octets_def by (auto dest!: c simp: source_of_def)
  moreover have "no_long_form (source_of 0x1000 [5, 0, 0, 9]) 4096 4098"
    unfolding no_long_form_def
  proof (intro allI impI)
    fix x :: u32 assume "4096 \<le> unat x \<and> unat x < 4098"
    then show "mem (source_of 0x1000 [5, 0, 0, 9]) x \<noteq> 0x84"
      using c [of x] by (auto simp: source_of_def)
  qed
  ultimately show ?thesis
    using ber_parse_reads [of "source_of 0x1000 [5, 0, 0, 9]" "source_of 0x1000 [5, 0, 0, 7]" "0x1000" "0x1002" 3 int_ber_gmp]
    by simp
qed

text \<open>An encoding cut short before its end is never taken for an item: the parser raises an
  error.\<close>

theorem ber_truncated:
  assumes "octets src p (length (ber_encode v)) = ber_encode v" "length (ber_encode v) < 2 ^ 24"
    "unat limit < unat p + length (ber_encode v)" "unat p + length (ber_encode v) < 2 ^ 32"
  shows "\<exists>code place extra. ber_parse_rec G src (Suc fuel) p limit = Some (Inl (Parse_error code place extra))"
  using assms by (intro parse_truncated) (simp_all add: holds_octets)

lemma ber_truncated_witness:
  "\<exists>code place extra. ber_parse_rec int_ber_gmp (source_of 0x1000 [0x30, 7, 2, 1, 5, 4, 2, 104, 105]) (Suc 0) 0x1000 0x1008 =
     Some (Inl (Parse_error code place extra))"
proof -
  show ?thesis
    using ber_truncated [OF demo_in_memory, of "0x1008" int_ber_gmp 0]
    by (simp add: demo_octets del: ber_parse_rec.simps)
qed

text \<open>An INTEGER of any length below \<open>2 ^ 29\<close> octets is read as the two's complement number of
  its octets, whatever representation that number needs.\<close>

theorem ber_parse_int_correct:
  assumes "ber_gmp_spec G val" "unat len < 2 ^ 29"
  shows "\<exists>r. ber_parse_int G src p len = Inr r \<and> obj_val val r = twos (octets src p (unat len))"
  using assms by (rule int_of_octets)

lemma ber_parse_int_correct_witness:
  "\<exists>r. ber_parse_int int_ber_gmp (source_of 0x1000 [0xFF, 0, 0, 0, 1]) 0x1000 5 = Inr r \<and>
     obj_val (\<lambda>z. z) r = - 4294967295"
proof -
  have "octets (source_of 0x1000 [0xFF, 0, 0, 0, 1]) 0x1000 5 = [0xFF, 0, 0, 0, 1]"
    by (simp add: octets_def source_of_def upt_rec [of _ "numeral _"] upt_rec)
  then show ?thesis
    using ber_parse_int_correct [OF int_ber_gmp_spec, of 5 "source_of 0x1000 [0xFF, 0, 0, 0, 1]" "0x1000"]
    by (simp add: twos_def unsigned_val_def)
qed

text \<open>C40: the check of a length against the limit wraps around: on a SEQUENCE whose only item
  claims \<open>2 ^ 32 - 6\<close> octets the address after the item is the address of the item, and the
  parser never returns, whatever the fuel.\<close>

theorem ber_wrap_hangs:
  "ber_parse_rec G (source_of 0x1000 [0x30, 6, 4, 0x84, 0xFF, 0xFF, 0xFF, 0xFA]) fuel 0x1000 0x1008 = None"
  using wrapping_hangs [of G fuel] by (simp only: wrapping_def)

end
