(* ===== verification/Regex.thy ===== *)
theory Regex
  imports Obj
begin

text \<open>
  The machine that runs compiled regular expressions: \<^verbatim>\<open>modules/regex/runmatch.c\<close>.  A program is a
  memory of octets (\<open>machine\<close>), the subject a memory \<open>text_at\<close> of octets at positions; \<^verbatim>\<open>rxmach_start\<close>,
  \<^verbatim>\<open>rxmach_limit\<close> and \<^verbatim>\<open>rxmach_on_eos\<close> are positions, \<open>None\<close> standing for \<^verbatim>\<open>NULL\<close>.  The two register arrays, of
  50 entries each, are the state; a program that names a register beyond them gets \<open>Outside_arrays\<close>.  The recursion of \<^verbatim>\<open>run_match\<close> and its \<^verbatim>\<open>while (1)\<close> have a fuel; the trace that the counter
  instructions print is left out.
\<close>

unbundle bit_operations_syntax

section \<open>The machine\<close>

definition RXM_MATCH1 :: u8 where "RXM_MATCH1 = 1"
definition RXM_MATCH_ANY :: u8 where "RXM_MATCH_ANY = 2"
definition RXM_MATCH_SET :: u8 where "RXM_MATCH_SET = 3"
definition RXM_MATCHN :: u8 where "RXM_MATCHN = 4"
definition RXM_ACCEPT :: u8 where "RXM_ACCEPT = 5"
definition RXM_BRANCH :: u8 where "RXM_BRANCH = 6"
definition RXM_SAVE_PLACE :: u8 where "RXM_SAVE_PLACE = 7"
definition RXM_MATCH_STAR :: u8 where "RXM_MATCH_STAR = 9"
definition RXM_MATCH_PLUS :: u8 where "RXM_MATCH_PLUS = 10"
definition RXM_STR_END :: u8 where "RXM_STR_END = 11"
definition RXM_STR_START :: u8 where "RXM_STR_START = 12"
definition RXM_REJECT :: u8 where "RXM_REJECT = 13"
definition RXM_JUMP :: u8 where "RXM_JUMP = 14"
definition RXM_INC :: u8 where "RXM_INC = 15"
definition RXM_BOUNDLOOP :: u8 where "RXM_BOUNDLOOP = 16"
definition RXM_SETBOUND :: u8 where "RXM_SETBOUND = 17"

lemmas opcode_defs = RXM_MATCH1_def RXM_MATCH_ANY_def RXM_MATCH_SET_def RXM_MATCHN_def RXM_ACCEPT_def
  RXM_BRANCH_def RXM_SAVE_PLACE_def RXM_MATCH_STAR_def RXM_MATCH_PLUS_def RXM_STR_END_def
  RXM_STR_START_def RXM_REJECT_def RXM_JUMP_def RXM_INC_def RXM_BOUNDLOOP_def RXM_SETBOUND_def

record rx_counter =
  cmin :: u16
  cmax :: u16
  count :: u16

record rx_env =
  machine :: "nat \<Rightarrow> u8"
  text_at :: "nat \<Rightarrow> u8"
  rx_start :: nat
  rx_limit :: nat
  on_eos :: "nat option"

record rx_state =
  save_array :: "u8 \<Rightarrow> nat option"
  bound :: "u8 \<Rightarrow> rx_counter"

datatype rx_error = RXERR_INT_BAD_OPCODE | RXERR_INT_BAD_KLEENE | Outside_arrays

text \<open>\<^verbatim>\<open>UINT_8 *(save_array[50]); struct RXCounter counter_array[50]\<close>\<close>

definition NUM_REGS :: u8 where
  "NUM_REGS = 50"

type_synonym rx_result = "rx_error + (nat option \<times> rx_state)"

definition FAILED :: "rx_state \<Rightarrow> rx_result option" where
  "FAILED st = Some (Inr (None, st))"

definition EOS :: "rx_env \<Rightarrow> rx_state \<Rightarrow> rx_result option" where
  "EOS E st = Some (Inr (on_eos E, st))"

text \<open>\<^verbatim>\<open>(machine[pc] << 8) + machine[pc+1]\<close>\<close>

definition addr_at :: "rx_env \<Rightarrow> nat \<Rightarrow> nat" where
  "addr_at E pc = unat (push_bit 8 (ucast (machine E pc)) + ucast (machine E (pc + 1)) :: u32)"

definition bound_at :: "rx_env \<Rightarrow> nat \<Rightarrow> u16" where
  "bound_at E pc = ucast (push_bit 8 (ucast (machine E pc)) + ucast (machine E (pc + 1)) :: u32)"

definition in_set :: "rx_env \<Rightarrow> nat \<Rightarrow> u8 \<Rightarrow> bool" where
  "in_set E pc ch \<longleftrightarrow> machine E (pc + unat (ch div 8)) AND drop_bit (unat (ch mod 8)) 0x80 \<noteq> 0"

text \<open>The loop of \<^verbatim>\<open>RXM_MATCHN\<close>: \<open>Inl True\<close> is the end of the subject, \<open>Inl False\<close> a failure.\<close>

fun match_n :: "rx_env \<Rightarrow> nat \<Rightarrow> nat \<Rightarrow> nat \<Rightarrow> bool + (nat \<times> nat)" where
  "match_n E 0 s pc = Inr (s, pc)"
| "match_n E (Suc n) s pc =
     (if s \<ge> rx_limit E then Inl True
      else if text_at E s \<noteq> machine E pc then Inl False
      else match_n E n (s + 1) (pc + 1))"

function range_loop :: "rx_env \<Rightarrow> (u8 \<Rightarrow> bool) \<Rightarrow> nat \<Rightarrow> nat" where
  "range_loop E ok s =
     (if s < rx_limit E then if \<not> ok (text_at E s) then s else range_loop E ok (s + 1) else rx_limit E)"
  by auto

termination
  by (relation "measure (\<lambda>(E, ok, s). rx_limit E - s)") auto

declare range_loop.simps [simp del]

definition max_range :: "rx_env \<Rightarrow> nat \<Rightarrow> nat \<Rightarrow> rx_error + nat" where
  "max_range E s sub =
     (let op = machine E sub
      in if op = RXM_MATCH_SET then Inr (range_loop E (in_set E (sub + 1)) s)
         else if op = RXM_MATCH_ANY then Inr (rx_limit E)
         else if op = RXM_MATCH1 then Inr (range_loop E (\<lambda>c. c = machine E (sub + 1)) s)
         else Inl RXERR_INT_BAD_KLEENE)"

function run_match :: "rx_env \<Rightarrow> nat \<Rightarrow> rx_state \<Rightarrow> nat \<Rightarrow> nat \<Rightarrow> rx_result option"
  and kleene_loop :: "rx_env \<Rightarrow> nat \<Rightarrow> rx_state \<Rightarrow> nat \<Rightarrow> nat \<Rightarrow> nat \<Rightarrow> rx_result option" where
  "run_match E 0 st s pc0 = None"
| "run_match E (Suc fuel) st s pc0 =
     (let op = machine E pc0; pc = pc0 + 1
      in if op = RXM_MATCH1 then
           if s < rx_limit E
           then if text_at E s \<noteq> machine E pc then FAILED st else run_match E fuel st (s + 1) (pc + 1)
           else EOS E st
         else if op = RXM_MATCH_ANY then
           if s = rx_limit E then EOS E st else run_match E fuel st (s + 1) pc
         else if op = RXM_STR_END then
           if s \<noteq> rx_limit E then FAILED st else run_match E fuel st s pc
         else if op = RXM_STR_START then
           if s \<noteq> rx_start E then FAILED st else run_match E fuel st s pc
         else if op = RXM_MATCH_SET then
           if s = rx_limit E then EOS E st
           else if \<not> in_set E pc (text_at E s) then FAILED st
           else run_match E fuel st (s + 1) (pc + 32)
         else if op = RXM_MATCHN then
           (case match_n E (unat (machine E pc)) s (pc + 1) of
              Inl True \<Rightarrow> EOS E st
            | Inl False \<Rightarrow> FAILED st
            | Inr (s, pc) \<Rightarrow> run_match E fuel st s pc)
         else if op = RXM_ACCEPT then Some (Inr (Some s, st))
         else if op = RXM_BRANCH then
           (case run_match E fuel st s (addr_at E pc) of
              Some (Inr (None, st)) \<Rightarrow> run_match E fuel st s (pc + 2)
            | r \<Rightarrow> r)
         else if op = RXM_INC then
           let reg = machine E pc
           in if reg \<ge> NUM_REGS then Some (Inl Outside_arrays)
              else run_match E fuel (st\<lparr>bound := (bound st)(reg := (bound st reg)\<lparr>count := count (bound st reg) + 1\<rparr>)\<rparr>)
                s (pc + 1)
         else if op = RXM_BOUNDLOOP then
           let reg = machine E pc; pc = pc + 1; subr = addr_at E pc; pc = pc + 2;
               save = count (bound st reg)
           in if reg \<ge> NUM_REGS then Some (Inl Outside_arrays)
              else if save < cmax (bound st reg)
              then (case run_match E fuel st s subr of
                      Some (Inr (None, st)) \<Rightarrow>
                        let st = st\<lparr>bound := (bound st)(reg := (bound st reg)\<lparr>count := save\<rparr>)\<rparr>
                        in if save < cmin (bound st reg) then FAILED st else run_match E fuel st s pc
                    | r \<Rightarrow> r)
              else run_match E fuel st s pc
         else if op = RXM_SETBOUND then
           let reg = machine E pc; pc = pc + 1
           in if reg \<ge> NUM_REGS then Some (Inl Outside_arrays)
              else run_match E fuel
                (st\<lparr>bound := (bound st)(reg := \<lparr>cmin = bound_at E pc, cmax = bound_at E (pc + 2), count = 0\<rparr>)\<rparr>)
                s (pc + 4)
         else if op = RXM_SAVE_PLACE then
           let reg = machine E pc
           in (case run_match E fuel st s (pc + 1) of
                 Some (Inr (Some p, st)) \<Rightarrow>
                   if reg \<ge> NUM_REGS then Some (Inl Outside_arrays)
                   else Some (Inr (Some p, st\<lparr>save_array := (save_array st)(reg := Some s)\<rparr>))
               | r \<Rightarrow> r)
         else if op = RXM_MATCH_PLUS \<or> op = RXM_MATCH_STAR then
           let mn = (if op = RXM_MATCH_PLUS then s + 1 else s)
           in (case max_range E s (addr_at E pc) of
                 Inl e \<Rightarrow> Some (Inl e)
               | Inr rng \<Rightarrow>
                   if rng = rx_limit E \<and> on_eos E \<noteq> None then EOS E st
                   else kleene_loop E fuel st rng mn (pc + 2))
         else if op = RXM_REJECT then FAILED st
         else if op = RXM_JUMP then run_match E fuel st s (addr_at E pc)
         else Some (Inl RXERR_INT_BAD_OPCODE))"
| "kleene_loop E fuel st rng mn pc =
     (if rng \<ge> mn
      then (case run_match E fuel st rng pc of
              Some (Inr (None, st)) \<Rightarrow>
                if rng = 0 then FAILED st else kleene_loop E fuel st (rng - 1) mn pc
            | r \<Rightarrow> r)
      else FAILED st)"
  by pat_completeness auto

termination
  by (relation "inv_image (less_than <*lex*> less_than <*lex*> less_than)
        (\<lambda>x. case x of Inl (E, fuel, st, s, pc) \<Rightarrow> (fuel, 0, 0)
           | Inr (E, fuel, st, rng, mn, pc) \<Rightarrow> (fuel, 1, rng))") auto

declare run_match.simps(2) [simp del] kleene_loop.simps [simp del]

section \<open>The search for a match\<close>

text \<open>
  The glue function \<^verbatim>\<open>regex-interp\<close> of \<^verbatim>\<open>modules/regex/rxinterp.scm\<close>: the bounds of the subject from the
  arguments, and the loop over the starting positions.  The strings made for the registers are left out.
\<close>

datatype interp_error = Offset_Not_Fixnum | Offset_Past_End | Length_Not_Fixnum | End_Past_End | Wrong_Arg_Count

definition interp_bounds :: "nat \<Rightarrow> u32 \<Rightarrow> u32 \<Rightarrow> u32 \<Rightarrow> interp_error + (u32 \<times> u32)" where
  "interp_bounds arg_count string_length offset len =
     (let str_limit = string_length; str_start = 0
      in if arg_count > 1 then
           if FIXNUM_P offset then
             let str_start = fx2int offset
             in if str_start > str_limit then Inl Offset_Past_End
                else if arg_count = 3 then
                  if FIXNUM_P len then
                    let str_limit = str_start + fx2int len
                    in if str_limit > string_length then Inl End_Past_End else Inr (str_start, str_limit)
                  else Inl Length_Not_Fixnum
                else if arg_count \<noteq> 2 then Inl Wrong_Arg_Count
                else Inr (str_start, str_limit)
           else Inl Offset_Not_Fixnum
         else Inr (str_start, str_limit))"

function search_from :: "rx_env \<Rightarrow> nat \<Rightarrow> rx_state \<Rightarrow> nat \<Rightarrow> (rx_error + ((nat \<times> nat) option \<times> rx_state)) option" where
  "search_from E fuel st p =
     (if p < rx_limit E then
        case run_match E fuel st (p + 1) 0 of
          None \<Rightarrow> None
        | Some (Inl e) \<Rightarrow> Some (Inl e)
        | Some (Inr (Some result, st)) \<Rightarrow> Some (Inr (Some (p + 1, result), st))
        | Some (Inr (None, st)) \<Rightarrow> search_from E fuel st (p + 1)
      else Some (Inr (None, st)))"
  by auto

termination
  by (relation "measure (\<lambda>(E, fuel, st, p). rx_limit E - p)") auto

declare search_from.simps [simp del]

definition regex_search :: "rx_env \<Rightarrow> nat \<Rightarrow> bool \<Rightarrow> rx_state \<Rightarrow> (rx_error + ((nat \<times> nat) option \<times> rx_state)) option" where
  "regex_search E fuel anchored st =
     (case run_match E fuel st (rx_start E) 0 of
        None \<Rightarrow> None
      | Some (Inl e) \<Rightarrow> Some (Inl e)
      | Some (Inr (Some result, st)) \<Rightarrow> Some (Inr (Some (rx_start E, result), st))
      | Some (Inr (None, st)) \<Rightarrow> if anchored then Some (Inr (None, st)) else search_from E fuel st (rx_start E))"

section \<open>What a program accepts\<close>

text \<open>
  The search as a relation, without an order of the alternatives: the program at \<open>pc\<close> leads from
  position \<open>s\<close> to the accepted end \<open>e\<close>, and turns the registers \<open>sv\<close> into \<open>sv'\<close>.  A repetition takes any
  number of characters its one-character program matches.
\<close>

definition one_char :: "rx_env \<Rightarrow> nat \<Rightarrow> u8 \<Rightarrow> bool" where
  "one_char E sub c \<longleftrightarrow>
     machine E sub = RXM_MATCH_ANY \<or>
     machine E sub = RXM_MATCH_SET \<and> in_set E (sub + 1) c \<or>
     machine E sub = RXM_MATCH1 \<and> c = machine E (sub + 1)"

inductive accepts :: "rx_env \<Rightarrow> (u8 \<Rightarrow> nat option) \<Rightarrow> nat \<Rightarrow> nat \<Rightarrow> nat \<Rightarrow> (u8 \<Rightarrow> nat option) \<Rightarrow> bool"
  for E :: rx_env and sv :: "u8 \<Rightarrow> nat option" where
  acc_match1: "machine E pc = RXM_MATCH1 \<Longrightarrow> s < rx_limit E \<Longrightarrow> text_at E s = machine E (pc + 1) \<Longrightarrow>
    accepts E sv (pc + 2) (s + 1) e sv' \<Longrightarrow> accepts E sv pc s e sv'"
| acc_any: "machine E pc = RXM_MATCH_ANY \<Longrightarrow> s < rx_limit E \<Longrightarrow>
    accepts E sv (pc + 1) (s + 1) e sv' \<Longrightarrow> accepts E sv pc s e sv'"
| acc_set: "machine E pc = RXM_MATCH_SET \<Longrightarrow> s < rx_limit E \<Longrightarrow> in_set E (pc + 1) (text_at E s) \<Longrightarrow>
    accepts E sv (pc + 33) (s + 1) e sv' \<Longrightarrow> accepts E sv pc s e sv'"
| acc_matchn: "machine E pc = RXM_MATCHN \<Longrightarrow> n = unat (machine E (pc + 1)) \<Longrightarrow> s + n \<le> rx_limit E \<Longrightarrow>
    \<forall>i < n. text_at E (s + i) = machine E (pc + 2 + i) \<Longrightarrow>
    accepts E sv (pc + 2 + n) (s + n) e sv' \<Longrightarrow> accepts E sv pc s e sv'"
| acc_end: "machine E pc = RXM_STR_END \<Longrightarrow> s = rx_limit E \<Longrightarrow>
    accepts E sv (pc + 1) s e sv' \<Longrightarrow> accepts E sv pc s e sv'"
| acc_start: "machine E pc = RXM_STR_START \<Longrightarrow> s = rx_start E \<Longrightarrow>
    accepts E sv (pc + 1) s e sv' \<Longrightarrow> accepts E sv pc s e sv'"
| acc_accept: "machine E pc = RXM_ACCEPT \<Longrightarrow> accepts E sv pc s s sv"
| acc_branch: "machine E pc = RXM_BRANCH \<Longrightarrow>
    accepts E sv (addr_at E (pc + 1)) s e sv' \<Longrightarrow> accepts E sv pc s e sv'"
| acc_next: "machine E pc = RXM_BRANCH \<Longrightarrow>
    accepts E sv (pc + 3) s e sv' \<Longrightarrow> accepts E sv pc s e sv'"
| acc_save: "machine E pc = RXM_SAVE_PLACE \<Longrightarrow>
    accepts E sv (pc + 2) s e sv' \<Longrightarrow> accepts E sv pc s e (sv'(machine E (pc + 1) := Some s))"
| acc_star: "machine E pc = RXM_MATCH_STAR \<Longrightarrow> s \<le> m \<Longrightarrow> m \<le> rx_limit E \<Longrightarrow>
    \<forall>i. s \<le> i \<and> i < m \<longrightarrow> one_char E (addr_at E (pc + 1)) (text_at E i) \<Longrightarrow>
    accepts E sv (pc + 3) m e sv' \<Longrightarrow> accepts E sv pc s e sv'"
| acc_plus: "machine E pc = RXM_MATCH_PLUS \<Longrightarrow> s < m \<Longrightarrow> m \<le> rx_limit E \<Longrightarrow>
    \<forall>i. s \<le> i \<and> i < m \<longrightarrow> one_char E (addr_at E (pc + 1)) (text_at E i) \<Longrightarrow>
    accepts E sv (pc + 3) m e sv' \<Longrightarrow> accepts E sv pc s e sv'"
| acc_jump: "machine E pc = RXM_JUMP \<Longrightarrow>
    accepts E sv (addr_at E (pc + 1)) s e sv' \<Longrightarrow> accepts E sv pc s e sv'"

end
