(* ===== verification/RegexProps.thy ===== *)
theory RegexProps
  imports Regex
begin

text \<open>
  Properties of the regular expression machine of \<^verbatim>\<open>modules/regex/runmatch.c\<close>: a search finds the leftmost
  accepted match and its registers, programs that cannot loop without consuming a character return, counted
  loops count, and the bounds of the subject.
\<close>

unbundle bit_operations_syntax

section \<open>Unfolding the accepted language\<close>

inductive_simps accepts_iff: "accepts E sv pc s e sv'"

lemma accepts_simps:
  "machine E pc = RXM_MATCH1 \<Longrightarrow> accepts E sv pc s e sv' \<longleftrightarrow>
     s < rx_limit E \<and> text_at E s = machine E (pc + 1) \<and> accepts E sv (pc + 2) (s + 1) e sv'"
  "machine E pc = RXM_MATCH_ANY \<Longrightarrow> accepts E sv pc s e sv' \<longleftrightarrow>
     s < rx_limit E \<and> accepts E sv (pc + 1) (s + 1) e sv'"
  "machine E pc = RXM_MATCH_SET \<Longrightarrow> accepts E sv pc s e sv' \<longleftrightarrow>
     s < rx_limit E \<and> in_set E (pc + 1) (text_at E s) \<and> accepts E sv (pc + 33) (s + 1) e sv'"
  "machine E pc = RXM_MATCHN \<Longrightarrow> accepts E sv pc s e sv' \<longleftrightarrow>
     s + unat (machine E (pc + 1)) \<le> rx_limit E \<and>
     (\<forall>i < unat (machine E (pc + 1)). text_at E (s + i) = machine E (pc + 2 + i)) \<and>
     accepts E sv (pc + 2 + unat (machine E (pc + 1))) (s + unat (machine E (pc + 1))) e sv'"
  "machine E pc = RXM_STR_END \<Longrightarrow> accepts E sv pc s e sv' \<longleftrightarrow> s = rx_limit E \<and> accepts E sv (pc + 1) s e sv'"
  "machine E pc = RXM_STR_START \<Longrightarrow> accepts E sv pc s e sv' \<longleftrightarrow> s = rx_start E \<and> accepts E sv (pc + 1) s e sv'"
  "machine E pc = RXM_ACCEPT \<Longrightarrow> accepts E sv pc s e sv' \<longleftrightarrow> e = s \<and> sv' = sv"
  "machine E pc = RXM_BRANCH \<Longrightarrow> accepts E sv pc s e sv' \<longleftrightarrow>
     accepts E sv (addr_at E (pc + 1)) s e sv' \<or> accepts E sv (pc + 3) s e sv'"
  "machine E pc = RXM_SAVE_PLACE \<Longrightarrow> accepts E sv pc s e sv' \<longleftrightarrow>
     (\<exists>sv1. accepts E sv (pc + 2) s e sv1 \<and> sv' = sv1(machine E (pc + 1) := Some s))"
  "machine E pc = RXM_MATCH_STAR \<Longrightarrow> accepts E sv pc s e sv' \<longleftrightarrow>
     (\<exists>m. s \<le> m \<and> m \<le> rx_limit E \<and> (\<forall>i. s \<le> i \<and> i < m \<longrightarrow> one_char E (addr_at E (pc + 1)) (text_at E i)) \<and>
       accepts E sv (pc + 3) m e sv')"
  "machine E pc = RXM_MATCH_PLUS \<Longrightarrow> accepts E sv pc s e sv' \<longleftrightarrow>
     (\<exists>m. s < m \<and> m \<le> rx_limit E \<and> (\<forall>i. s \<le> i \<and> i < m \<longrightarrow> one_char E (addr_at E (pc + 1)) (text_at E i)) \<and>
       accepts E sv (pc + 3) m e sv')"
  "machine E pc = RXM_JUMP \<Longrightarrow> accepts E sv pc s e sv' \<longleftrightarrow> accepts E sv (addr_at E (pc + 1)) s e sv'"
  "machine E pc = RXM_REJECT \<Longrightarrow> accepts E sv pc s e sv' \<longleftrightarrow> False"
  by (subst accepts_iff; auto simp: opcode_defs)+

section \<open>One instruction\<close>

definition opcodes :: "u8 list" where
  "opcodes =
    [RXM_MATCH1, RXM_MATCH_ANY, RXM_MATCH_SET, RXM_MATCHN, RXM_ACCEPT, RXM_BRANCH, RXM_SAVE_PLACE,
     RXM_MATCH_STAR, RXM_MATCH_PLUS, RXM_STR_END, RXM_STR_START, RXM_REJECT, RXM_JUMP, RXM_INC,
     RXM_BOUNDLOOP, RXM_SETBOUND]"

lemma opcodes_distinct: "distinct opcodes" "distinct (rev opcodes)"
  by (simp_all add: opcodes_def opcode_defs)

lemmas op_neq = opcodes_distinct [simplified opcodes_def, simplified]

lemma pc_simps:
  "pc + 1 + 1 = pc + (2::nat)" "pc + 1 + 2 = pc + (3::nat)" "pc + 1 + 32 = pc + (33::nat)"
  "pc + 2 + 2 = pc + (4::nat)" "pc + 2 + 4 = pc + (6::nat)" "pc + 1 + 3 = pc + (4::nat)"
  by simp_all

lemma run_ops:
  "machine E pc = RXM_MATCH1 \<Longrightarrow> run_match E (Suc fuel) st s pc =
     (if s < rx_limit E
      then if text_at E s \<noteq> machine E (pc + 1) then FAILED st else run_match E fuel st (s + 1) (pc + 2)
      else EOS E st)"
  "machine E pc = RXM_MATCH_ANY \<Longrightarrow> run_match E (Suc fuel) st s pc =
     (if s = rx_limit E then EOS E st else run_match E fuel st (s + 1) (pc + 1))"
  "machine E pc = RXM_MATCH_SET \<Longrightarrow> run_match E (Suc fuel) st s pc =
     (if s = rx_limit E then EOS E st
      else if \<not> in_set E (pc + 1) (text_at E s) then FAILED st
      else run_match E fuel st (s + 1) (pc + 33))"
  "machine E pc = RXM_MATCHN \<Longrightarrow> run_match E (Suc fuel) st s pc =
     (case match_n E (unat (machine E (pc + 1))) s (pc + 2) of
        Inl True \<Rightarrow> EOS E st
      | Inl False \<Rightarrow> FAILED st
      | Inr (s, pc) \<Rightarrow> run_match E fuel st s pc)"
  "machine E pc = RXM_STR_END \<Longrightarrow> run_match E (Suc fuel) st s pc =
     (if s \<noteq> rx_limit E then FAILED st else run_match E fuel st s (pc + 1))"
  "machine E pc = RXM_STR_START \<Longrightarrow> run_match E (Suc fuel) st s pc =
     (if s \<noteq> rx_start E then FAILED st else run_match E fuel st s (pc + 1))"
  "machine E pc = RXM_ACCEPT \<Longrightarrow> run_match E (Suc fuel) st s pc = Some (Inr (Some s, st))"
  "machine E pc = RXM_BRANCH \<Longrightarrow> run_match E (Suc fuel) st s pc =
     (case run_match E fuel st s (addr_at E (pc + 1)) of
        Some (Inr (None, st)) \<Rightarrow> run_match E fuel st s (pc + 3)
      | r \<Rightarrow> r)"
  "machine E pc = RXM_SAVE_PLACE \<Longrightarrow> run_match E (Suc fuel) st s pc =
     (case run_match E fuel st s (pc + 2) of
        Some (Inr (Some p, st)) \<Rightarrow>
          if machine E (pc + 1) \<ge> NUM_REGS then Some (Inl Outside_arrays)
          else Some (Inr (Some p, st\<lparr>save_array := (save_array st)(machine E (pc + 1) := Some s)\<rparr>))
      | r \<Rightarrow> r)"
  "machine E pc = RXM_MATCH_STAR \<Longrightarrow> run_match E (Suc fuel) st s pc =
     (case max_range E s (addr_at E (pc + 1)) of
        Inl e \<Rightarrow> Some (Inl e)
      | Inr rng \<Rightarrow>
          if rng = rx_limit E \<and> on_eos E \<noteq> None then EOS E st
          else kleene_loop E fuel st rng s (pc + 3))"
  "machine E pc = RXM_MATCH_PLUS \<Longrightarrow> run_match E (Suc fuel) st s pc =
     (case max_range E s (addr_at E (pc + 1)) of
        Inl e \<Rightarrow> Some (Inl e)
      | Inr rng \<Rightarrow>
          if rng = rx_limit E \<and> on_eos E \<noteq> None then EOS E st
          else kleene_loop E fuel st rng (s + 1) (pc + 3))"
  "machine E pc = RXM_REJECT \<Longrightarrow> run_match E (Suc fuel) st s pc = FAILED st"
  "machine E pc = RXM_JUMP \<Longrightarrow> run_match E (Suc fuel) st s pc = run_match E fuel st s (addr_at E (pc + 1))"
  "machine E pc = RXM_INC \<Longrightarrow> run_match E (Suc fuel) st s pc =
     (if machine E (pc + 1) \<ge> NUM_REGS then Some (Inl Outside_arrays) else run_match E fuel (st\<lparr>bound := (bound st)(machine E (pc + 1) :=
         (bound st (machine E (pc + 1)))\<lparr>count := count (bound st (machine E (pc + 1))) + 1\<rparr>)\<rparr>)
       s (pc + 2))"
  "machine E pc = RXM_SETBOUND \<Longrightarrow> run_match E (Suc fuel) st s pc =
     (if machine E (pc + 1) \<ge> NUM_REGS then Some (Inl Outside_arrays) else run_match E fuel (st\<lparr>bound := (bound st)(machine E (pc + 1) :=
         \<lparr>cmin = bound_at E (pc + 2), cmax = bound_at E (pc + 4), count = 0\<rparr>)\<rparr>)
       s (pc + 6))"
  "machine E pc = RXM_BOUNDLOOP \<Longrightarrow> run_match E (Suc fuel) st s pc =
     (let reg = machine E (pc + 1); save = count (bound st reg)
      in if reg \<ge> NUM_REGS then Some (Inl Outside_arrays)
         else if save < cmax (bound st reg)
         then (case run_match E fuel st s (addr_at E (pc + 2)) of
                 Some (Inr (None, st)) \<Rightarrow>
                   let st = st\<lparr>bound := (bound st)(reg := (bound st reg)\<lparr>count := save\<rparr>)\<rparr>
                   in if save < cmin (bound st reg) then FAILED st else run_match E fuel st s (pc + 4)
               | r \<Rightarrow> r)
         else run_match E fuel st s (pc + 4))"
  by (simp_all only: run_match.simps(2) Let_def op_neq if_True if_False simp_thms pc_simps)

section \<open>Programs without counters\<close>

definition succs :: "rx_env \<Rightarrow> nat \<Rightarrow> nat list" where
  "succs E pc =
     (let op = machine E pc
      in if op = RXM_MATCH1 \<or> op = RXM_SAVE_PLACE \<or> op = RXM_INC then [pc + 2]
         else if op = RXM_MATCH_ANY \<or> op = RXM_STR_END \<or> op = RXM_STR_START then [pc + 1]
         else if op = RXM_MATCH_SET then [pc + 33]
         else if op = RXM_MATCHN then [pc + 2 + unat (machine E (pc + 1))]
         else if op = RXM_BRANCH then [addr_at E (pc + 1), pc + 3]
         else if op = RXM_MATCH_STAR \<or> op = RXM_MATCH_PLUS then [pc + 3]
         else if op = RXM_SETBOUND then [pc + 6]
         else if op = RXM_BOUNDLOOP then [addr_at E (pc + 2), pc + 4]
         else if op = RXM_JUMP then [addr_at E (pc + 1)]
         else [])"

definition plain_op :: "rx_env \<Rightarrow> nat \<Rightarrow> bool" where
  "plain_op E pc \<longleftrightarrow>
     machine E pc \<in> {RXM_MATCH1, RXM_MATCH_ANY, RXM_MATCH_SET, RXM_MATCHN, RXM_ACCEPT, RXM_BRANCH,
       RXM_SAVE_PLACE, RXM_MATCH_STAR, RXM_MATCH_PLUS, RXM_STR_END, RXM_STR_START, RXM_REJECT, RXM_JUMP} \<and>
     (machine E pc = RXM_SAVE_PLACE \<longrightarrow> machine E (pc + 1) < NUM_REGS) \<and>
     (machine E pc \<in> {RXM_MATCH_STAR, RXM_MATCH_PLUS} \<longrightarrow>
        machine E (addr_at E (pc + 1)) \<in> {RXM_MATCH1, RXM_MATCH_ANY, RXM_MATCH_SET})"

definition plain :: "rx_env \<Rightarrow> nat list \<Rightarrow> bool" where
  "plain E S \<longleftrightarrow> list_all (\<lambda>pc. plain_op E pc \<and> list_all (\<lambda>q. q \<in> set S) (succs E pc)) S"

lemma range_loop_le: "s \<le> rx_limit E \<Longrightarrow> range_loop E ok s \<le> rx_limit E"
  by (induction E ok s rule: range_loop.induct) (subst range_loop.simps, auto)

lemma range_loop_ge: "s \<le> rx_limit E \<Longrightarrow> s \<le> range_loop E ok s"
proof (induction E ok s rule: range_loop.induct)
  case (1 E ok s)
  show ?case
  proof (cases "s < rx_limit E \<and> ok (text_at E s)")
    case True
    then have "s + 1 \<le> range_loop E ok (s + 1)" by (intro "1.IH") auto
    then show ?thesis using True by (simp add: range_loop.simps [of E ok s])
  next
    case False
    then show ?thesis using "1.prems" by (auto simp: range_loop.simps [of E ok s])
  qed
qed

lemma range_loop_iff:
  "s \<le> m \<Longrightarrow> s \<le> rx_limit E \<Longrightarrow>
     m \<le> range_loop E ok s \<longleftrightarrow> m \<le> rx_limit E \<and> (\<forall>i. s \<le> i \<and> i < m \<longrightarrow> ok (text_at E i))"
proof (induction E ok s rule: range_loop.induct)
  case (1 E ok s)
  show ?case
  proof (cases "s < rx_limit E \<and> ok (text_at E s) \<and> s < m")
    case True
    then have "m \<le> range_loop E ok (s + 1) \<longleftrightarrow>
        m \<le> rx_limit E \<and> (\<forall>i. s + 1 \<le> i \<and> i < m \<longrightarrow> ok (text_at E i))"
      by (intro "1.IH") auto
    moreover have "(\<forall>i. s \<le> i \<and> i < m \<longrightarrow> ok (text_at E i)) \<longleftrightarrow>
        (\<forall>i. s + 1 \<le> i \<and> i < m \<longrightarrow> ok (text_at E i))"
      using True by (metis Suc_eq_plus1 Suc_leI le_neq_implies_less Suc_leD)
    ultimately show ?thesis using True by (subst range_loop.simps) simp
  next
    case False
    then consider "m = s" | "s < m" "s = rx_limit E" | "s < m" "s < rx_limit E" "\<not> ok (text_at E s)"
      using "1.prems" by linarith
    then show ?thesis
    proof cases
      case 1
      moreover have "s \<le> range_loop E ok s" using range_loop_ge "1.prems"(2) by blast
      ultimately show ?thesis using "1.prems"(2) by auto
    next
      case 2
      then show ?thesis by (simp add: range_loop.simps [of E ok "rx_limit E"])
    next
      case 3
      then show ?thesis by (auto simp: range_loop.simps [of E ok s])
    qed
  qed
qed

lemma match_n_result:
  "match_n E n s pc = Inr (s', pc') \<Longrightarrow> s' = s + n \<and> pc' = pc + n \<and>
     (n = 0 \<or> s + n \<le> rx_limit E) \<and> (\<forall>i < n. text_at E (s + i) = machine E (pc + i))"
  "match_n E n s pc = Inl b \<Longrightarrow> \<not> (s + n \<le> rx_limit E \<and> (\<forall>i < n. text_at E (s + i) = machine E (pc + i)))"
proof (induction n arbitrary: s pc)
  case (Suc n)
  {
    case 1
    then have *: "s < rx_limit E" "text_at E s = machine E pc" "match_n E n (s + 1) (pc + 1) = Inr (s', pc')"
      by (auto split: if_splits)
    from Suc.IH(1) [OF *(3)] * show ?case by (auto simp: less_Suc_eq_0_disj)
  next
    case 2
    then show ?case using Suc.IH(2) [of "s + 1" "pc + 1"]
      by (auto split: if_splits dest: spec [of _ 0] simp: less_Suc_eq_0_disj)
  }
qed auto

definition searched :: "rx_state \<Rightarrow> (nat \<Rightarrow> (u8 \<Rightarrow> nat option) \<Rightarrow> bool) \<Rightarrow> rx_result \<Rightarrow> bool" where
  "searched st A r \<longleftrightarrow>
     (case r of
        Inl e \<Rightarrow> False
      | Inr (None, st') \<Rightarrow> st' = st \<and> (\<forall>e sv. \<not> A e sv)
      | Inr (Some e, st') \<Rightarrow> bound st' = bound st \<and> A e (save_array st'))"

lemma searched_cong: "(\<And>e sv. A e sv = B e sv) \<Longrightarrow> searched st A r \<Longrightarrow> searched st B r"
  by (auto simp: searched_def split: sum.splits prod.splits option.splits)

lemma searched_simps [simp]:
  "searched st A (Inr (None, st')) \<longleftrightarrow> st' = st \<and> (\<forall>e sv. \<not> A e sv)"
  "searched st A (Inr (Some e, st')) \<longleftrightarrow> bound st' = bound st \<and> A e (save_array st')"
  "\<not> searched st A (Inl err)"
  by (simp_all add: searched_def)

lemma searched_cases:
  assumes "searched st A r"
  obtains "r = Inr (None, st)" "\<And>e sv. \<not> A e sv"
  | e st' where "r = Inr (Some e, st')" "bound st' = bound st" "A e (save_array st')"
  using assms by (auto simp: searched_def split: sum.splits prod.splits option.splits)

lemma max_range_one_char:
  assumes "machine E sub \<in> {RXM_MATCH1, RXM_MATCH_ANY, RXM_MATCH_SET}" "s \<le> rx_limit E"
  obtains rng where "max_range E s sub = Inr rng" "rng \<le> rx_limit E"
    "\<And>m. s \<le> m \<Longrightarrow> m \<le> rng \<longleftrightarrow> m \<le> rx_limit E \<and> (\<forall>i. s \<le> i \<and> i < m \<longrightarrow> one_char E sub (text_at E i))"
proof -
  consider (one) "machine E sub = RXM_MATCH1" | (any) "machine E sub = RXM_MATCH_ANY"
    | (set) "machine E sub = RXM_MATCH_SET" using assms(1) by auto
  then show thesis
  proof cases
    case one
    then have "max_range E s sub = Inr (range_loop E (\<lambda>c. c = machine E (sub + 1)) s)"
      by (simp add: max_range_def opcode_defs)
    then show thesis
      by (rule that) (use one assms(2) in \<open>auto simp: range_loop_le range_loop_iff one_char_def opcode_defs\<close>)
  next
    case any
    then have "max_range E s sub = Inr (rx_limit E)" by (simp add: max_range_def opcode_defs)
    then show thesis by (rule that) (use any in \<open>auto simp: one_char_def\<close>)
  next
    case set
    then have "max_range E s sub = Inr (range_loop E (in_set E (sub + 1)) s)"
      by (simp add: max_range_def opcode_defs)
    then show thesis
      by (rule that) (use set assms(2) in \<open>auto simp: range_loop_le range_loop_iff one_char_def opcode_defs\<close>)
  qed
qed

lemma kleene_searched:
  assumes run: "\<And>m r. m \<le> rx_limit E \<Longrightarrow> run_match E fuel st m pc = Some r \<Longrightarrow>
      searched st (accepts E (save_array st) pc m) r"
    and "kleene_loop E fuel st rng mn pc = Some r" "rng \<le> rx_limit E"
  shows "searched st (\<lambda>e sv. \<exists>m. mn \<le> m \<and> m \<le> rng \<and> accepts E (save_array st) pc m e sv) r"
  using assms(2,3)
proof (induction rng)
  case (0 )
  then show ?case using run [of 0]
    by (subst (asm) kleene_loop.simps) (auto simp: FAILED_def split: if_splits option.splits sum.splits prod.splits)
next
  case (Suc rng)
  show ?case
  proof (cases "mn \<le> Suc rng")
    case False
    then show ?thesis using Suc.prems by (auto simp: kleene_loop.simps FAILED_def)
  next
    case True
    obtain x where x: "run_match E fuel st (Suc rng) pc = Some x"
      using Suc.prems True by (cases "run_match E fuel st (Suc rng) pc") (auto simp: kleene_loop.simps)
    have sx: "searched st (accepts E (save_array st) pc (Suc rng)) x"
      using Suc.prems by (intro run x) simp
    show ?thesis
    proof (cases "\<exists>st'. x = Inr (None, st')")
      case False
      then have "r = x" using Suc.prems True x
        by (cases x) (auto simp: kleene_loop.simps [of E fuel st "Suc rng"] split: option.splits)
      then show ?thesis using sx True False by (cases x) (auto simp: searched_def split: option.splits)
    next
      case n: True
      then have xn: "x = Inr (None, st)" "\<And>e sv. \<not> accepts E (save_array st) pc (Suc rng) e sv"
        using sx by auto
      then have "kleene_loop E fuel st rng mn pc = Some r"
        using Suc.prems True x by (simp add: kleene_loop.simps [of E fuel st "Suc rng"])
      then have "searched st (\<lambda>e sv. \<exists>m\<ge>mn. m \<le> rng \<and> accepts E (save_array st) pc m e sv) r"
        using Suc.prems by (intro Suc.IH) simp_all
      then show ?thesis
        by (rule searched_cong [rotated]) (use xn(2) in \<open>auto simp: le_Suc_eq\<close>)
    qed
  qed
qed

lemma plainD:
  assumes "plain E S" "pc \<in> set S"
  shows "plain_op E pc" "q \<in> set (succs E pc) \<Longrightarrow> q \<in> set S"
  using assms by (auto simp: plain_def list_all_iff)

lemma run_match_searched:
  assumes S: "plain E S" and eos: "on_eos E = None"
  shows "run_match E fuel st s pc = Some r \<Longrightarrow> pc \<in> set S \<Longrightarrow> s \<le> rx_limit E \<Longrightarrow>
      searched st (accepts E (save_array st) pc s) r"
proof (induction fuel arbitrary: st s pc r)
  case (Suc fuel)
  note nx = plainD(2) [OF S Suc.prems(2)]
  note IH = Suc.IH [where st = st]
  note sc = succs_def Let_def op_neq
  note run = run_ops [where E = E and fuel = fuel and st = st and s = s]
  have op: "plain_op E pc" by (rule plainD(1) [OF S Suc.prems(2)])
  then consider "machine E pc = RXM_MATCH1" | "machine E pc = RXM_MATCH_ANY" | "machine E pc = RXM_MATCH_SET"
    | "machine E pc = RXM_MATCHN" | "machine E pc = RXM_ACCEPT" | "machine E pc = RXM_BRANCH"
    | "machine E pc = RXM_SAVE_PLACE" | "machine E pc = RXM_MATCH_STAR" | "machine E pc = RXM_MATCH_PLUS"
    | "machine E pc = RXM_STR_END" | "machine E pc = RXM_STR_START" | "machine E pc = RXM_REJECT"
    | "machine E pc = RXM_JUMP" by (auto simp: plain_op_def)
  then show ?case
  proof cases
    case 1
    then have "pc + 2 \<in> set S" by (intro nx) (simp add: sc)
    then show ?thesis using 1 Suc.prems IH [of "s + 1" "pc + 2" r]
      by (auto simp: run(1) [OF 1] accepts_simps(1) FAILED_def EOS_def eos split: if_splits)
  next
    case 2
    then have "pc + 1 \<in> set S" by (intro nx) (simp add: sc)
    then show ?thesis using 2 Suc.prems IH [of "s + 1" "pc + 1" r]
      by (auto simp: run(2) [OF 2] accepts_simps(2) FAILED_def EOS_def eos split: if_splits)
  next
    case 3
    then have "pc + 33 \<in> set S" by (intro nx) (simp add: sc)
    then show ?thesis using 3 Suc.prems IH [of "s + 1" "pc + 33" r]
      by (auto simp: run(3) [OF 3] accepts_simps(3) FAILED_def EOS_def eos split: if_splits)
  next
    case 4
    let ?n = "unat (machine E (pc + 1))"
    have "pc + 2 + ?n \<in> set S" using 4 by (intro nx) (simp add: sc)
    moreover obtain x where x: "match_n E ?n s (pc + 2) = x" by blast
    moreover have "r = Inr (None, st)" if "x = Inl b" for b
      using that x Suc.prems 4 by (cases b) (auto simp: run(4) [OF 4] EOS_def FAILED_def eos)
    moreover have "run_match E fuel st (s + ?n) (pc + 2 + ?n) = Some r" if "x = Inr y" for y
      using that x Suc.prems 4 match_n_result(1) [of E ?n s "pc + 2"]
      by (cases y) (auto simp: run(4) [OF 4])
    ultimately show ?thesis
      using 4 Suc.prems(3) IH [of "s + ?n" "pc + 2 + ?n" r] match_n_result [of E ?n s "pc + 2"]
      by (cases x) (auto simp: accepts_simps(4))
  next
    case 5
    then show ?thesis using Suc.prems by (auto simp: run(7) [OF 5] accepts_simps(7))
  next
    case 6
    then have q: "addr_at E (pc + 1) \<in> set S" "pc + 3 \<in> set S" by (auto intro!: nx simp: sc)
    obtain x where x: "run_match E fuel st s (addr_at E (pc + 1)) = Some x"
      using Suc.prems 6 by (cases "run_match E fuel st s (addr_at E (pc + 1))") (auto simp: run(8) [OF 6])
    have sx: "searched st (accepts E (save_array st) (addr_at E (pc + 1)) s) x"
      by (rule IH [OF x q(1) Suc.prems(3)])
    show ?thesis
    proof (rule searched_cases [OF sx])
      assume 1: "x = Inr (None, st)" "\<And>e sv. \<not> accepts E (save_array st) (addr_at E (pc + 1)) s e sv"
      have "run_match E fuel st s (pc + 3) = Some r"
        using 1 x Suc.prems 6 by (auto simp: run(8) [OF 6])
      then show ?thesis using 1 IH [OF _ q(2) Suc.prems(3)] 6
        by (auto intro: searched_cong [rotated] simp: accepts_simps(8))
    next
      fix e' st' assume 2: "x = Inr (Some e', st')" "bound st' = bound st" "accepts E (save_array st) (addr_at E (pc + 1)) s e' (save_array st')"
      then have "r = x" using x Suc.prems 6 by (auto simp: run(8) [OF 6])
      then show ?thesis using 2 6 by (simp add: accepts_simps(8))
    qed
  next
    case 7
    then have q: "pc + 2 \<in> set S" and reg: "\<not> machine E (pc + 1) \<ge> NUM_REGS"
      using op by (auto intro!: nx simp: sc plain_op_def)
    obtain x where x: "run_match E fuel st s (pc + 2) = Some x"
      using Suc.prems 7 by (cases "run_match E fuel st s (pc + 2)") (auto simp: run(9) [OF 7])
    have sx: "searched st (accepts E (save_array st) (pc + 2) s) x"
      by (rule IH [OF x q Suc.prems(3)])
    show ?thesis
    proof (rule searched_cases [OF sx])
      assume 1: "x = Inr (None, st)" "\<And>e sv. \<not> accepts E (save_array st) (pc + 2) s e sv"
      then show ?thesis using x Suc.prems 7 by (auto simp: run(9) [OF 7] accepts_simps(9))
    next
      fix e' st' assume 2: "x = Inr (Some e', st')" "bound st' = bound st" "accepts E (save_array st) (pc + 2) s e' (save_array st')"
      then show ?thesis using x Suc.prems 7 reg by (auto simp: run(9) [OF 7] accepts_simps(9))
    qed
  next
    case 8
    then have q: "pc + 3 \<in> set S" by (intro nx) (simp add: sc)
    from 8 op have k: "machine E (addr_at E (pc + 1)) \<in> {RXM_MATCH1, RXM_MATCH_ANY, RXM_MATCH_SET}"
      by (auto simp: plain_op_def)
    obtain rng where rng: "max_range E s (addr_at E (pc + 1)) = Inr rng" "rng \<le> rx_limit E"
      "\<And>m. s \<le> m \<Longrightarrow> m \<le> rng \<longleftrightarrow>
         m \<le> rx_limit E \<and> (\<forall>i. s \<le> i \<and> i < m \<longrightarrow> one_char E (addr_at E (pc + 1)) (text_at E i))"
      using max_range_one_char [OF k Suc.prems(3)] by blast
    have "kleene_loop E fuel st rng s (pc + 3) = Some r"
      using Suc.prems 8 rng(1) by (auto simp: run(10) [OF 8] eos)
    from kleene_searched [OF IH [OF _ q] this rng(2)]
    have "searched st (\<lambda>e sv. \<exists>m. s \<le> m \<and> m \<le> rng \<and> accepts E (save_array st) (pc + 3) m e sv) r" by blast
    then show ?thesis by (rule searched_cong [rotated]) (auto simp: accepts_simps(10) [OF 8] rng(3))
  next
    case 9
    then have q: "pc + 3 \<in> set S" by (intro nx) (simp add: sc)
    from 9 op have k: "machine E (addr_at E (pc + 1)) \<in> {RXM_MATCH1, RXM_MATCH_ANY, RXM_MATCH_SET}"
      by (auto simp: plain_op_def)
    obtain rng where rng: "max_range E s (addr_at E (pc + 1)) = Inr rng" "rng \<le> rx_limit E"
      "\<And>m. s \<le> m \<Longrightarrow> m \<le> rng \<longleftrightarrow>
         m \<le> rx_limit E \<and> (\<forall>i. s \<le> i \<and> i < m \<longrightarrow> one_char E (addr_at E (pc + 1)) (text_at E i))"
      using max_range_one_char [OF k Suc.prems(3)] by blast
    have "kleene_loop E fuel st rng (s + 1) (pc + 3) = Some r"
      using Suc.prems 9 rng(1) by (auto simp: run(11) [OF 9] eos)
    from kleene_searched [OF IH [OF _ q] this rng(2)]
    have "searched st (\<lambda>e sv. \<exists>m. s + 1 \<le> m \<and> m \<le> rng \<and> accepts E (save_array st) (pc + 3) m e sv) r" by blast
    then show ?thesis
      by (rule searched_cong [rotated]) (auto simp: accepts_simps(11) [OF 9] rng(3) Suc_le_eq less_imp_le)
  next
    case 10
    then have "pc + 1 \<in> set S" by (intro nx) (simp add: sc)
    then show ?thesis using 10 Suc.prems IH [of s "pc + 1" r]
      by (auto simp: run(5) [OF 10] accepts_simps(5) FAILED_def EOS_def eos split: if_splits)
  next
    case 11
    then have "pc + 1 \<in> set S" by (intro nx) (simp add: sc)
    then show ?thesis using 11 Suc.prems IH [of s "pc + 1" r]
      by (auto simp: run(6) [OF 11] accepts_simps(6) FAILED_def EOS_def eos split: if_splits)
  next
    case 12
    then show ?thesis using Suc.prems by (auto simp: run(12) [OF 12] accepts_simps(13) FAILED_def)
  next
    case 13
    then have "addr_at E (pc + 1) \<in> set S" by (intro nx) (simp add: sc)
    then show ?thesis using 13 Suc.prems IH [of s "addr_at E (pc + 1)" r]
      by (auto simp: run(13) [OF 13] accepts_simps(12))
  qed
qed simp

section \<open>Leftmost matches\<close>

definition leftmost :: "rx_env \<Rightarrow> rx_state \<Rightarrow> nat set \<Rightarrow> rx_error + ((nat \<times> nat) option \<times> rx_state) \<Rightarrow> bool" where
  "leftmost E st Q r \<longleftrightarrow>
    (case r of
       Inl e \<Rightarrow> False
     | Inr (None, st') \<Rightarrow> st' = st \<and> (\<forall>q \<in> Q. \<forall>e sv. \<not> accepts E (save_array st) 0 q e sv)
     | Inr (Some (q, e), st') \<Rightarrow> q \<in> Q \<and> bound st' = bound st \<and> accepts E (save_array st) 0 q e (save_array st') \<and>
         (\<forall>q' \<in> Q. \<forall>e sv. q' < q \<longrightarrow> \<not> accepts E (save_array st) 0 q' e sv))"

lemma leftmost_insert:
  assumes "leftmost E st Q r" "\<And>e sv. \<not> accepts E (save_array st) 0 p e sv"
  shows "leftmost E st (insert p Q) r"
  using assms by (auto simp: leftmost_def split: sum.splits prod.splits option.splits)

lemma search_from_leftmost:
  assumes S: "plain E S" "on_eos E = None" "0 \<in> set S"
  shows "search_from E fuel st p = Some r \<Longrightarrow> leftmost E st {p<..rx_limit E} r"
proof (induction "rx_limit E - p" arbitrary: p)
  case 0
  then show ?case by (auto simp: search_from.simps leftmost_def)
next
  case (Suc n)
  then have p: "p < rx_limit E" by simp
  obtain x where x: "run_match E fuel st (p + 1) 0 = Some x"
    using Suc.prems p by (cases "run_match E fuel st (p + 1) 0") (auto simp: search_from.simps [of E fuel st p])
  have sx: "searched st (accepts E (save_array st) 0 (p + 1)) x"
    using p by (intro run_match_searched [OF S(1,2) x S(3)]) simp
  have iv: "{p<..rx_limit E} = insert (p + 1) {p + 1<..rx_limit E}" using p by auto
  show ?case
  proof (rule searched_cases [OF sx])
    assume 1: "x = Inr (None, st)" "\<And>e sv. \<not> accepts E (save_array st) 0 (p + 1) e sv"
    then have "search_from E fuel st (p + 1) = Some r"
      using x p Suc.prems by (simp add: search_from.simps [of E fuel st p])
    then have "leftmost E st {p + 1<..rx_limit E} r" using Suc.hyps(2) by (intro Suc.hyps(1)) auto
    then show ?thesis using 1(2) unfolding iv by (rule leftmost_insert)
  next
    fix e st' assume 2: "x = Inr (Some e, st')" "bound st' = bound st" "accepts E (save_array st) 0 (p + 1) e (save_array st')"
    then have "r = Inr (Some (p + 1, e), st')"
      using x p Suc.prems by (simp add: search_from.simps [of E fuel st p])
    then show ?thesis using 2 p by (auto simp: leftmost_def)
  qed
qed


section \<open>Termination\<close>

text \<open>The places an instruction leads to without having consumed a character.\<close>

definition idle :: "rx_env \<Rightarrow> nat \<Rightarrow> nat list" where
  "idle E pc =
     (let op = machine E pc
      in if op = RXM_STR_END \<or> op = RXM_STR_START then [pc + 1]
         else if op = RXM_SAVE_PLACE \<or> op = RXM_INC then [pc + 2]
         else if op = RXM_MATCHN \<and> machine E (pc + 1) = 0 then [pc + 2]
         else if op = RXM_BRANCH then [addr_at E (pc + 1), pc + 3]
         else if op = RXM_BOUNDLOOP then [addr_at E (pc + 2), pc + 4]
         else if op = RXM_SETBOUND then [pc + 6]
         else if op = RXM_MATCH_STAR then [pc + 3]
         else if op = RXM_JUMP then [addr_at E (pc + 1)]
         else [])"

definition ranked :: "rx_env \<Rightarrow> nat list \<Rightarrow> (nat \<Rightarrow> nat) \<Rightarrow> nat \<Rightarrow> bool" where
  "ranked E S rank R \<longleftrightarrow>
     list_all (\<lambda>pc. rank pc \<le> R \<and> list_all (\<lambda>q. q \<in> set S) (succs E pc) \<and>
       list_all (\<lambda>q. rank q < rank pc) (idle E pc)) S"

lemma idle_succs: "q \<in> set (idle E pc) \<Longrightarrow> q \<in> set (succs E pc)"
  by (auto simp: idle_def succs_def Let_def op_neq split: if_splits)

lemma max_range_le: "max_range E s sub = Inr rng \<Longrightarrow> s \<le> rx_limit E \<Longrightarrow> rng \<le> rx_limit E"
  by (auto simp: max_range_def Let_def range_loop_le split: if_splits)

lemma kleene_loop_returns:
  assumes "\<And>m st. mn \<le> m \<Longrightarrow> m \<le> rng \<Longrightarrow> run_match E fuel st m pc \<noteq> None"
  shows "kleene_loop E fuel st rng mn pc \<noteq> None"
  using assms
proof (induction rng arbitrary: st)
  case 0
  show ?case
  proof (cases "mn = 0")
    case True
    then have "run_match E fuel st 0 pc \<noteq> None" using 0 [of 0 st] by simp
    then show ?thesis
      by (subst kleene_loop.simps) (auto simp: FAILED_def split: option.splits sum.splits prod.splits)
  qed (simp add: kleene_loop.simps FAILED_def)
next
  case (Suc rng)
  have "kleene_loop E fuel st' rng mn pc \<noteq> None" for st'
    using Suc.prems by (intro Suc.IH) auto
  then show ?case using Suc.prems [of "Suc rng" st]
    by (subst kleene_loop.simps) (auto simp: FAILED_def split: option.splits sum.splits prod.splits)
qed

lemma case_returns [intro]:
  assumes "x \<noteq> None" "\<And>st. f st \<noteq> None"
  shows "(case x of None \<Rightarrow> None | Some (Inl e) \<Rightarrow> Some (Inl e) | Some (Inr (None, st)) \<Rightarrow> f st
     | Some (Inr (Some p, st)) \<Rightarrow> Some (Inr (Some p, st))) \<noteq> (None :: rx_result option)"
  using assms by (auto split: option.splits sum.splits prod.splits)

lemma run_match_returns:
  assumes S: "ranked E S rank R"
  shows "pc \<in> set S \<Longrightarrow> s \<le> rx_limit E \<Longrightarrow> (rx_limit E - s) * (R + 1) + rank pc < fuel \<Longrightarrow> run_match E fuel st s pc \<noteq> None"
proof (induction fuel arbitrary: st s pc)
  case (Suc fuel)
  note sc = idle_def succs_def Let_def op_neq
  note run = run_ops [where E = E and fuel = fuel and st = st and s = s]
  have idle: "run_match E fuel st' s q \<noteq> None" if "q \<in> set (idle E pc)" for q st'
    using Suc.prems S that by (intro Suc.IH) (fastforce simp: ranked_def list_all_iff dest: idle_succs)+
  have eat: "run_match E fuel st' s' q \<noteq> None" if "q \<in> set (succs E pc)" "s < s'" "s' \<le> rx_limit E" for q st' s'
  proof (rule Suc.IH [OF _ that(3)])
    show q: "q \<in> set S" using S Suc.prems(1) that(1) by (auto simp: ranked_def list_all_iff)
    have "(rx_limit E - s') * (R + 1) + rank q \<le> (rx_limit E - s') * (R + 1) + R" using S q by (simp add: ranked_def list_all_iff)
    also have "... < (rx_limit E - s' + 1) * (R + 1)" by simp
    also have "... \<le> (rx_limit E - s) * (R + 1)" using that by (intro mult_right_mono) auto
    finally show "(rx_limit E - s') * (R + 1) + rank q < fuel" using Suc.prems(3) by linarith
  qed
  consider "machine E pc = RXM_MATCH1" | "machine E pc = RXM_MATCH_ANY" | "machine E pc = RXM_MATCH_SET"
    | "machine E pc = RXM_MATCHN" | "machine E pc = RXM_ACCEPT" | "machine E pc = RXM_BRANCH"
    | "machine E pc = RXM_SAVE_PLACE" | "machine E pc = RXM_MATCH_STAR" | "machine E pc = RXM_MATCH_PLUS"
    | "machine E pc = RXM_STR_END" | "machine E pc = RXM_STR_START" | "machine E pc = RXM_REJECT"
    | "machine E pc = RXM_JUMP" | "machine E pc = RXM_INC" | "machine E pc = RXM_SETBOUND"
    | "machine E pc = RXM_BOUNDLOOP" | "machine E pc \<notin> set opcodes" by (auto simp: opcodes_def)
  then show ?case
  proof cases
    case 1
    then show ?thesis using eat [of "pc + 2" "s + 1" st] by (simp add: sc run(1) FAILED_def EOS_def)
  next
    case 2
    then show ?thesis using eat [of "pc + 1" "s + 1" st] Suc.prems(2) by (simp add: sc run(2) FAILED_def EOS_def)
  next
    case 3
    then show ?thesis using eat [of "pc + 33" "s + 1" st] Suc.prems(2) by (simp add: sc run(3) FAILED_def EOS_def)
  next
    case 4
    let ?n = "unat (machine E (pc + 1))"
    show ?thesis
    proof (cases "match_n E ?n s (pc + 2)")
      case (Inl b)
      then show ?thesis using 4 by (cases b) (simp_all add: run(4) FAILED_def EOS_def)
    next
      case (Inr y)
      have y: "y = (s + ?n, pc + 2 + ?n)" "?n = 0 \<or> s + ?n \<le> rx_limit E"
        using match_n_result(1) [of E ?n s "pc + 2"] Inr by (cases y, auto)+
      have "run_match E fuel st (s + ?n) (pc + 2 + ?n) \<noteq> None"
      proof (cases "?n = 0")
        case True
        then show ?thesis using idle [of "pc + 2" st] 4 by (simp add: sc unat_eq_0)
      next
        case False
        then show ?thesis using eat [of "pc + 2 + ?n" "s + ?n" st] y(2) 4 by (simp add: sc)
      qed
      then show ?thesis using 4 Inr y(1) by (simp add: run(4))
    qed
  next
    case 5
    then show ?thesis by (simp add: run(7))
  next
    case 6
    then show ?thesis unfolding run(8) [OF 6] by (intro case_returns idle) (simp_all add: sc)
  next
    case 7
    then have "run_match E fuel st s (pc + 2) \<noteq> None" by (intro idle) (simp add: sc)
    then show ?thesis unfolding run(9) [OF 7] by (auto split: option.splits sum.splits prod.splits)
  next
    case 8
    have "run_match E fuel st' m (pc + 3) \<noteq> None" if "s \<le> m" "m \<le> rx_limit E" for m st'
      using that eat [of "pc + 3" m] idle [of "pc + 3"] 8 by (cases "s = m") (simp_all add: sc)
    then have "kleene_loop E fuel st rng s (pc + 3) \<noteq> None" if "rng \<le> rx_limit E" for rng
      using that by (intro kleene_loop_returns) auto
    then show ?thesis using max_range_le [of E s "addr_at E (pc + 1)"] Suc.prems(2) unfolding run(10) [OF 8]
      by (auto simp: EOS_def split: sum.split)
  next
    case 9
    have "kleene_loop E fuel st rng (s + 1) (pc + 3) \<noteq> None" if "rng \<le> rx_limit E" for rng
      using that eat [of "pc + 3"] 9 by (intro kleene_loop_returns) (auto simp: sc)
    then show ?thesis using max_range_le [of E s "addr_at E (pc + 1)"] Suc.prems(2) unfolding run(11) [OF 9]
      by (auto simp: EOS_def split: sum.split)
  next
    case 10
    then show ?thesis using idle [of "pc + 1" st] by (auto simp: run(5) FAILED_def sc)
  next
    case 11
    then show ?thesis using idle [of "pc + 1" st] by (auto simp: run(6) FAILED_def sc)
  next
    case 12
    then show ?thesis by (simp add: run(12) FAILED_def)
  next
    case 13
    then show ?thesis using idle [of "addr_at E (pc + 1)"] by (simp add: run(13) sc)
  next
    case 14
    then show ?thesis using idle [of "pc + 2"] by (simp add: run(14) sc)
  next
    case 15
    then show ?thesis using idle [of "pc + 6"] by (simp add: run(15) sc)
  next
    case 16
    then have "run_match E fuel st s (addr_at E (pc + 2)) \<noteq> None" "run_match E fuel st' s (pc + 4) \<noteq> None" for st'
      by (intro idle; simp add: sc)+
    then show ?thesis unfolding run(16) [OF 16] Let_def
      by (cases "run_match E fuel st s (addr_at E (pc + 2))")
        (auto simp: FAILED_def split: option.splits sum.splits prod.splits)
  next
    case 17
    then show ?thesis by (simp add: run_match.simps(2) opcodes_def)
  qed
qed simp

section \<open>Counted loops\<close>

text \<open>
  The program of \<open>c{mn,mx}\<close> with counter \<open>r\<close>: set the bound; \<open>L\<close>: loop to \<open>B\<close>, accept; \<open>B\<close>: match \<open>c\<close>,
  increment, jump to \<open>L\<close>.
\<close>

definition counted :: "u8 \<Rightarrow> u8 \<Rightarrow> u16 \<Rightarrow> u16 \<Rightarrow> u8 list" where
  "counted r c mn mx =
     [RXM_SETBOUND, r, ucast (drop_bit 8 mn), ucast mn, ucast (drop_bit 8 mx), ucast mx,
      RXM_BOUNDLOOP, r, 0, 11, RXM_ACCEPT,
      RXM_MATCH1, c, RXM_INC, r, RXM_JUMP, 0, 6]"

definition program_at :: "rx_env \<Rightarrow> u8 list \<Rightarrow> bool" where
  "program_at E p \<longleftrightarrow> (\<forall>i < length p. machine E i = p ! i)"

lemma bound_bytes: "ucast (push_bit 8 (ucast (ucast (drop_bit 8 m) :: u8)) + ucast (ucast m :: u8) :: u32) = (m :: u16)"
proof -
  have "ucast (push_bit 8 (ucast (ucast (drop_bit 8 m) :: u8)) + ucast (ucast m :: u8) :: u32) =
      (ucast (push_bit 8 (ucast (ucast (drop_bit 8 m) :: u8)) OR ucast (ucast m :: u8) :: u32) :: u16)"
    by (subst disjunctive_add) (auto simp: bit_simps)
  also have "... = m"
    by (rule bit_word_eqI) (auto simp: bit_simps not_less)
  finally show ?thesis .
qed

lemma counted_code:
  assumes "program_at E (counted r c mn mx)"
  shows "machine E 0 = RXM_SETBOUND" "machine E 1 = r" "bound_at E 2 = mn" "bound_at E 4 = mx"
    "machine E 6 = RXM_BOUNDLOOP" "machine E 7 = r" "addr_at E 8 = 11" "machine E 10 = RXM_ACCEPT"
    "machine E 11 = RXM_MATCH1" "machine E 12 = c" "machine E 13 = RXM_INC" "machine E 14 = r"
    "machine E 15 = RXM_JUMP" "addr_at E 16 = 6"
proof -
  have *: "machine E i = counted r c mn mx ! i" if "i < 18" for i
    using assms that by (simp add: program_at_def counted_def)
  show "machine E 0 = RXM_SETBOUND" "machine E 1 = r"
    "machine E 6 = RXM_BOUNDLOOP" "machine E 7 = r" "machine E 10 = RXM_ACCEPT"
    "machine E 11 = RXM_MATCH1" "machine E 12 = c" "machine E 13 = RXM_INC" "machine E 14 = r"
    "machine E 15 = RXM_JUMP" by (simp_all add: * counted_def)
  show "bound_at E 2 = mn" "bound_at E 4 = mx"
    using * [of 2] * [of 3] * [of 4] * [of 5] by (simp_all add: bound_at_def counted_def bound_bytes)
  show "addr_at E 8 = 11" "addr_at E 16 = 6"
    using * [of 8] * [of 9] * [of 16] * [of 17] by (simp_all add: addr_at_def counted_def)
qed


definition char_run :: "rx_env \<Rightarrow> u8 \<Rightarrow> nat \<Rightarrow> nat \<Rightarrow> bool" where
  "char_run E c s k \<longleftrightarrow> s + k \<le> rx_limit E \<and> (\<forall>i < k. text_at E (s + i) = c) \<and>
     (s + k = rx_limit E \<or> text_at E (s + k) \<noteq> c)"

lemma char_run_Suc: "char_run E c s (Suc k) \<longleftrightarrow> s < rx_limit E \<and> text_at E s = c \<and> char_run E c (s + 1) k"
  by (auto simp: char_run_def less_Suc_eq_0_disj)

lemma counted_loop:
  assumes code: "program_at E (counted r c mn mx)" and eos: "on_eos E = None" and "mn \<le> mx" and reg: "r < NUM_REGS"
  shows "char_run E c s k \<Longrightarrow> cmin (bound st r) = mn \<Longrightarrow> cmax (bound st r) = mx \<Longrightarrow>
    count (bound st r) \<le> mx \<Longrightarrow>
    \<exists>st'. run_match E (5 * k + 3 + f) st s 6 =
       Some (Inr (if unat mn \<le> min (unat (count (bound st r)) + k) (unat mx)
                  then Some (s + min k (unat mx - unat (count (bound st r)))) else None, st')) \<and>
       cmin (bound st' r) = mn \<and> cmax (bound st' r) = mx"
proof (induction k arbitrary: s st f)
  case 0
  note run = run_ops [where E = E and s = s]
  note c = counted_code [OF code] and nreg = reg [unfolded linorder_not_le [symmetric]]
  have *: "\<not> s < rx_limit E \<or> text_at E s \<noteq> c" using "0.prems"(1) by (auto simp: char_run_def)
  have body: "run_match E (Suc (Suc f)) st s 11 = Some (Inr (None, st))"
    using * run(1) [of 11 "Suc f" st] c eos by (auto simp: FAILED_def EOS_def)
  let ?i = "count (bound st r)"
  have acc: "run_match E (Suc (Suc f)) st' s 10 = Some (Inr (Some s, st'))" for st'
    using run(7) c by simp
  show ?case
  proof (cases "?i < mx")
    case True
    then show ?thesis using run(16) [of 6 "Suc (Suc f)" st] c nreg body acc "0.prems"
      by (auto simp: FAILED_def word_less_nat_alt min_def numeral_3_eq_3)
  next
    case False
    then show ?thesis using run(16) [of 6 "Suc (Suc f)" st] c nreg acc "0.prems" \<open>mn \<le> mx\<close>
      by (auto simp: word_less_nat_alt word_le_nat_alt min_def numeral_3_eq_3)
  qed
next
  case (Suc k)
  note run = run_ops [where E = E]
  note c = counted_code [OF code] and nreg = reg [unfolded linorder_not_le [symmetric]]
  let ?i = "count (bound st r)"
  let ?st = "st\<lparr>bound := (bound st)(r := (bound st r)\<lparr>count := ?i + 1\<rparr>)\<rparr>"
  have p: "s < rx_limit E" "text_at E s = c" "char_run E c (s + 1) k"
    using Suc.prems(1) by (auto simp: char_run_Suc)
  have "5 * Suc k + 3 + f = Suc (Suc (Suc (Suc (5 * k + 3 + (f + 1)))))" by simp
  note fuel = this
  show ?case
  proof (cases "?i < mx")
    case True
    have i1: "unat (?i + 1) = unat ?i + 1" using True unsigned_less [of mx, where ?'a = nat]
      by (subst unat_add_lem [THEN iffD1]) (simp_all add: word_less_nat_alt)
    have le: "?i + 1 \<le> mx" using True i1 by (simp add: word_le_nat_alt word_less_nat_alt)
    have body: "run_match E (Suc (Suc (Suc (5 * k + 3 + (f + 1))))) st s 11 = run_match E (5 * k + 3 + (f + 1)) ?st (s + 1) 6"
      using p c nreg run(1) [of 11 "Suc (Suc (5 * k + 3 + (f + 1)))" st s] run(14) [of 13 "Suc (5 * k + 3 + (f + 1))" st "s + 1"]
        run(13) [of 15 "5 * k + 3 + (f + 1)" ?st "s + 1"] by simp
    obtain st' where st': "run_match E (5 * k + 3 + (f + 1)) ?st (s + 1) 6 =
       Some (Inr (if unat mn \<le> min (unat (?i + 1) + k) (unat mx)
                  then Some (s + 1 + min k (unat mx - unat (?i + 1))) else None, st'))"
       "cmin (bound st' r) = mn" "cmax (bound st' r) = mx"
      using Suc.IH [OF p(3), of ?st "f + 1"] Suc.prems le by auto
    have m: "s + 1 + min k (unat mx - unat (?i + 1)) = s + min (Suc k) (unat mx - unat ?i)"
      using True i1 by (simp add: word_less_nat_alt min_def) linarith
    show ?thesis
    proof (cases "unat mn \<le> min (unat ?i + Suc k) (unat mx)")
      case ok: True
      then show ?thesis unfolding fuel
        using run(16) [of 6 "Suc (Suc (Suc (5 * k + 3 + (f + 1))))" st s] c nreg body st' True Suc.prems i1 m by auto
    next
      case no: False
      then have "?i < mn" using \<open>mn \<le> mx\<close> by (auto simp: word_less_nat_alt word_le_nat_alt)
      with no show ?thesis unfolding fuel
        using run(16) [of 6 "Suc (Suc (Suc (5 * k + 3 + (f + 1))))" st s] c nreg body st' True Suc.prems i1 by (auto simp: FAILED_def)
    qed
  next
    case False
    then have eq: "?i = mx" using Suc.prems by simp
    then show ?thesis unfolding fuel
      using run(16) [of 6 "Suc (Suc (Suc (5 * k + 3 + (f + 1))))" st s] run(7) [of 10 "Suc (Suc (5 * k + 3 + (f + 1)))" st s]
        c nreg \<open>mn \<le> mx\<close> Suc.prems by (auto simp: word_le_nat_alt)
  qed
qed


lemma sint_fx2int_bounds: "- (2 ^ 29) \<le> sint (fx2int x)" "sint (fx2int x) < 2 ^ 29"
proof -
  have "- (2 ^ 31) \<le> sint x" "sint x < 2 ^ 31" using sint_range_size [of x] by (simp_all add: word_size)
  then show "- (2 ^ 29) \<le> sint (fx2int x)" "sint (fx2int x) < 2 ^ 29"
    by (simp_all add: fx2int_def sint_signed_drop_bit_eq drop_bit_eq_div)
qed

lemma uint_add_sint: "uint (a + b :: u32) = (uint a + sint b) mod 2 ^ 32"
proof -
  have "uint (a + b) = uint (word_of_int (uint a + sint b) :: u32)" by simp
  then show ?thesis by (simp only: uint_word_of_int) simp
qed


section \<open>A program\<close>

text \<open>The program of \<open>(b*c|ac)\<close> with registers 2 and 3 around the group.\<close>

definition demo_program :: "u8 list" where
  "demo_program =
     [RXM_SAVE_PLACE, 2, RXM_BRANCH, 0, 13, RXM_MATCH_STAR, 0, 20, RXM_MATCH1, 99, RXM_JUMP, 0, 17,
      RXM_MATCHN, 2, 97, 99, RXM_SAVE_PLACE, 3, RXM_ACCEPT, RXM_MATCH1, 98]"

definition demo_env :: rx_env where
  "demo_env =
     \<lparr>machine = (\<lambda>i. if i < 22 then demo_program ! i else RXM_REJECT),
      text_at = (\<lambda>i. if i < 4 then [120, 98, 98, 99] ! i else 0),
      rx_start = 0, rx_limit = 4, on_eos = None\<rparr>"

definition demo_state :: rx_state where
  "demo_state = \<lparr>save_array = Map.empty, bound = (\<lambda>r. \<lparr>cmin = 0, cmax = 0, count = 0\<rparr>)\<rparr>"

definition demo_pcs :: "nat list" where
  "demo_pcs = [0, 2, 5, 8, 10, 13, 17, 19]"

lemma demo_plain: "plain demo_env demo_pcs \<and> ranked demo_env demo_pcs (\<lambda>pc. 20 - pc) 20"
  by code_simp

lemma found_case:
  "(case x of Some (Inr (Some (p, e), st)) \<Rightarrow> P p e st | _ \<Rightarrow> False) \<longleftrightarrow>
     (\<exists>p e st. x = Some (Inr (Some (p, e), st)) \<and> P p e st)"
  by (auto split: option.splits sum.splits)

lemma demo_search:
  "case regex_search demo_env 105 False demo_state of
     Some (Inr (Some (p, e), st)) \<Rightarrow> p = 1 \<and> e = 4 \<and> save_array st 2 = Some 1 \<and> save_array st 3 = Some 4
   | _ \<Rightarrow> False"
  by code_simp

section \<open>Searches\<close>

lemma search_leftmost:
  assumes S: "plain E S" "0 \<in> set S" "on_eos E = None" and "rx_start E \<le> rx_limit E"
    and "regex_search E fuel anchored st = Some r"
  shows "leftmost E st (if anchored then {rx_start E} else {rx_start E..rx_limit E}) r"
proof -
  obtain x where x: "run_match E fuel st (rx_start E) 0 = Some x"
    using assms(5) by (cases "run_match E fuel st (rx_start E) 0") (auto simp: regex_search_def)
  have sx: "searched st (accepts E (save_array st) 0 (rx_start E)) x"
    by (rule run_match_searched [OF S(1,3) x S(2) assms(4)])
  have iv: "(if anchored then {rx_start E} else {rx_start E..rx_limit E}) =
      insert (rx_start E) (if anchored then {} else {rx_start E<..rx_limit E})" using assms(4) by auto
  show ?thesis
  proof (rule searched_cases [OF sx])
    assume 1: "x = Inr (None, st)" "\<And>e sv. \<not> accepts E (save_array st) 0 (rx_start E) e sv"
    have "leftmost E st (if anchored then {} else {rx_start E<..rx_limit E}) r"
    proof (cases anchored)
      case True
      then have "r = Inr (None, st)" using 1(1) x assms(5) by (simp add: regex_search_def)
      then show ?thesis using True by (simp add: leftmost_def)
    next
      case False
      then have "search_from E fuel st (rx_start E) = Some r" using 1(1) x assms(5) by (simp add: regex_search_def)
      then show ?thesis using False search_from_leftmost [OF S(1,3,2)] by simp
    qed
    then show ?thesis using 1(2) unfolding iv by (rule leftmost_insert)
  next
    fix e st' assume 2: "x = Inr (Some e, st')" "bound st' = bound st"
      "accepts E (save_array st) 0 (rx_start E) e (save_array st')"
    then have "r = Inr (Some (rx_start E, e), st')" using x assms(5) by (simp add: regex_search_def)
    then show ?thesis using 2 unfolding iv by (auto simp: leftmost_def)
  qed
qed

lemma search_returns:
  assumes S: "ranked E S rank R" "0 \<in> set S"
    and "rx_start E \<le> rx_limit E" "(rx_limit E - rx_start E + 1) * (R + 1) \<le> fuel"
  shows "regex_search E fuel anchored st \<noteq> None"
proof -
  have run: "run_match E fuel st p 0 \<noteq> None" if "rx_start E \<le> p" "p \<le> rx_limit E" for p st
  proof (rule run_match_returns [OF S])
    have "(rx_limit E - p) * (R + 1) + rank 0 < (rx_limit E - p + 1) * (R + 1)"
      using S by (simp add: le_imp_less_Suc ranked_def list_all_iff)
    also have "... \<le> (rx_limit E - rx_start E + 1) * (R + 1)" using that by (intro mult_right_mono) auto
    finally show "(rx_limit E - p) * (R + 1) + rank 0 < fuel" using assms(4) by linarith
  qed (rule that)
  have "search_from E fuel st p \<noteq> None" if "rx_start E \<le> p" for p st
    using that
  proof (induction "rx_limit E - p" arbitrary: p st)
    case 0
    then show ?case by (simp add: search_from.simps)
  next
    case (Suc n)
    have "search_from E fuel st' (p + 1) \<noteq> None" for st' using Suc.hyps(2) Suc.prems by (intro Suc.hyps(1)) auto
    then show ?case using run [of "p + 1" st] Suc.prems Suc.hyps(2)
      by (subst search_from.simps) (auto split: sum.splits prod.splits option.splits)
  qed
  then show ?thesis using run [of "rx_start E" st] assms(3)
    by (auto simp: regex_search_def split: sum.splits prod.splits option.splits)
qed

section \<open>Properties\<close>

text \<open>
  C23: the search for a match.  A program without counters, whose registers are in the array and that has no
  loop without a character (a rank decreases along the instructions that consume none), is searched for without
  an error in \<open>(rx_limit - rx_start + 1) * (R + 1)\<close> steps: returned is the first position at which the program
  accepts, with an end it accepts there and the registers of that way, and nothing, with the registers as they
  were, exactly when it accepts nowhere.
\<close>

theorem regex_search_leftmost:
  assumes "plain E S" "ranked E S rank R" "0 \<in> set S" "on_eos E = None" "rx_start E \<le> rx_limit E"
    and "(rx_limit E - rx_start E + 1) * (R + 1) \<le> fuel"
  shows "\<exists>r. regex_search E fuel anchored st = Some r \<and>
    leftmost E st (if anchored then {rx_start E} else {rx_start E..rx_limit E}) r"
  using search_returns [OF assms(2,3,5,6)] search_leftmost [OF assms(1,3,4,5)] by blast

theorem regex_search_leftmost_witness:
  "\<exists>st. regex_search demo_env 105 False demo_state = Some (Inr (Some (1, 4), st)) \<and>
     save_array st 2 = Some 1 \<and> save_array st 3 = Some 4 \<and>
     leftmost demo_env demo_state {0..4} (Inr (Some (1, 4), st))"
proof -
  obtain st where st: "regex_search demo_env 105 False demo_state = Some (Inr (Some (1, 4), st))"
    "save_array st 2 = Some 1" "save_array st 3 = Some 4"
    using demo_search unfolding found_case by blast
  have "plain demo_env demo_pcs" "ranked demo_env demo_pcs (\<lambda>pc. 20 - pc) 20" "0 \<in> set demo_pcs" "on_eos demo_env = None"
    "rx_start demo_env = 0" "rx_limit demo_env = 4"
    using demo_plain by (simp_all add: demo_pcs_def demo_env_def)
  then show ?thesis
    using regex_search_leftmost [of demo_env demo_pcs "\<lambda>pc. 20 - pc" 20 105 False demo_state] st by simp
qed

text \<open>
  C24: a search returns when there is enough fuel: if a rank decreases along every instruction that does not
  consume a character, \<open>(rx_limit - rx_start + 1) * (R + 1)\<close> steps are enough.
\<close>

theorem regex_search_returns:
  assumes S: "ranked E S rank R" "0 \<in> set S"
    and "rx_start E \<le> rx_limit E" "(rx_limit E - rx_start E + 1) * (R + 1) \<le> fuel"
  shows "regex_search E fuel anchored st \<noteq> None"
  by (rule search_returns [OF assms])

theorem regex_search_returns_witness:
  "regex_search demo_env 105 False demo_state \<noteq> None"
proof (rule regex_search_returns)
  show "ranked demo_env demo_pcs (\<lambda>pc. 20 - pc) 20" using demo_plain by simp
  show "0 \<in> set demo_pcs" by (simp add: demo_pcs_def)
qed (simp_all add: demo_env_def)

text \<open>
  The program of \<open>c{mn,mx}\<close> reads \<open>min k mx\<close> of the \<open>k\<close> characters \<open>c\<close> at its position, and fails when these are
  fewer than \<open>mn\<close>.
\<close>

theorem counted_matches:
  assumes "program_at E (counted r c mn mx)" "on_eos E = None" "mn \<le> mx" "r < NUM_REGS" "char_run E c s k" "5 * k + 4 \<le> fuel"
  shows "\<exists>st'. run_match E fuel st s 0 =
    Some (Inr (if unat mn \<le> min k (unat mx) then Some (s + min k (unat mx)) else None, st'))"
proof -
  obtain f where f: "fuel = Suc (5 * k + 3 + f)"
    using assms(6) by (metis add_Suc_right le_Suc_ex add_Suc numeral_nat(2) eval_nat_numeral(2) semiring_norm(26,27) eval_nat_numeral(3))
  let ?st = "st\<lparr>bound := (bound st)(r := \<lparr>cmin = mn, cmax = mx, count = 0\<rparr>)\<rparr>"
  have "run_match E fuel st s 0 = run_match E (5 * k + 3 + f) ?st s 6"
    using run_ops(15) [of E 0 "5 * k + 3 + f" st s] counted_code [OF assms(1)] assms(4) [unfolded linorder_not_le [symmetric]] unfolding f
    by (simp del: add_2_eq_Suc add_2_eq_Suc')
  then show ?thesis using counted_loop [OF assms(1-5), of ?st f] by auto
qed

definition counted_env :: rx_env where
  "counted_env =
     \<lparr>machine = (\<lambda>i. if i < 18 then counted 0 97 2 3 ! i else RXM_REJECT), text_at = (\<lambda>i. 97),
      rx_start = 0, rx_limit = 5, on_eos = None\<rparr>"

theorem counted_matches_witness:
  "\<exists>st'. run_match counted_env 29 demo_state 0 0 = Some (Inr (Some 3, st'))"
proof -
  have p: "program_at counted_env (counted 0 97 2 3)"
    by (simp add: program_at_def counted_env_def counted_def)
  have c: "char_run counted_env 97 0 5" by (simp add: char_run_def counted_env_def)
  from counted_matches [OF p _ _ _ c, of 29 demo_state] show ?thesis
    by (simp add: NUM_REGS_def counted_env_def word_le_nat_alt)
qed

text \<open>
  The bounds taken from the arguments: the limit never passes the end of the string, and it is at or
  after the start unless a negative length was given.  A negative length is accepted, with a limit before the start.
\<close>

theorem interp_bounds_length:
  assumes n: "unat n < 2 ^ 29" and b: "interp_bounds argc n offset len = Inr (start, limit)"
  shows "limit \<le> n \<and> (start \<le> limit \<longleftrightarrow> (argc = 3 \<longrightarrow> 0 \<le> sint (fx2int len)))"
proof (cases "argc = 3")
  case False
  then show ?thesis using b by (auto simp: interp_bounds_def Let_def split: if_splits)
next
  case True
  then have l: "start \<le> n" "limit = start + fx2int len" "limit \<le> n"
    using b by (auto simp: interp_bounds_def Let_def split: if_splits)
  have ns: "uint start \<le> uint n" "uint n < 2 ^ 29" "0 \<le> uint start"
  proof -
    show "uint start \<le> uint n" using l(1) by (simp only: word_le_def)
    show "uint n < 2 ^ 29" by (subst uint_nat) (metis n of_nat_less_iff of_nat_numeral of_nat_power)
  qed (rule uint_ge_0)
  have u: "uint limit = (uint start + sint (fx2int len)) mod 2 ^ 32" unfolding l(2) by (rule uint_add_sint)
  have "uint start \<le> uint limit \<longleftrightarrow> 0 \<le> sint (fx2int len)"
  proof (cases "0 \<le> uint start + sint (fx2int len)")
    case True
    then have "uint limit = uint start + sint (fx2int len)"
      using u ns sint_fx2int_bounds(2) [of len] by (simp add: mod_pos_pos_trivial)
    then show ?thesis by simp
  next
    case False
    then have "uint limit = uint start + sint (fx2int len) + 2 ^ 32"
    proof -
      have "0 \<le> uint start + sint (fx2int len) + 2 ^ 32" "uint start + sint (fx2int len) + 2 ^ 32 < 2 ^ 32"
        using False ns(3) sint_fx2int_bounds(1) [of len, simplified] by (simp_all, linarith?)
      then have "(uint start + sint (fx2int len) + 2 ^ 32) mod 2 ^ 32 = uint start + sint (fx2int len) + 2 ^ 32"
        by (rule mod_pos_pos_trivial)
      then show ?thesis using u by simp
    qed
    moreover have "uint limit \<le> uint n" using l(3) by (simp add: word_le_def)
    ultimately have "uint start + sint (fx2int len) + 2 ^ 32 < 2 ^ 29" using ns(2) by simp
    then have "uint start + sint (fx2int len) < - (2 ^ 29)" by simp
    then show ?thesis using ns(3) sint_fx2int_bounds(1) [of len] by linarith
  qed
  then show ?thesis using l(3) True by (simp add: word_le_def)
qed

theorem interp_bounds_length_witness:
  "interp_bounds 3 10 (int2fx 5) (int2fx (- 3)) = Inr (5, 2) \<and>
   (5 \<le> (2 :: u32) \<longleftrightarrow> 0 \<le> sint (fx2int (int2fx (- 3))))"
proof -
  have b: "interp_bounds 3 10 (int2fx 5) (int2fx (- 3)) = Inr (5, 2)" by code_simp
  then show ?thesis using interp_bounds_length [OF _ b] by simp
qed

end
