(* ===== verification/Freemap.thy ===== *)
theory Freemap
  imports RS_Prelude
begin

text \<open>
  The map of free records of the log structured store, \<^verbatim>\<open>packages/lss/freemap.c\<close>: a sorted array of
  intervals of free keys and the index of the interval used last.  The array has \<open>fm_capacity\<close> entries, of
  which \<open>fm_count\<close> are in use.  A failed assertion and an access outside the array are errors.  Memory is
  taken to be available; the entries \<^verbatim>\<open>realloc\<close> adds hold anything, the model has zeros there.
\<close>

record Interval =
  iv_from :: u32
  iv_to :: u32

record FreeMap =
  fm_map :: "Interval list"
  fm_count :: nat
  fm_capacity :: nat
  fm_last :: nat

datatype fm_error = Assertion_failed | Outside_map

definition initFreeMap :: FreeMap where
  "initFreeMap =
     \<lparr>fm_map = [\<lparr>iv_from = 0, iv_to = NOT 0\<rparr>] @ replicate 3 \<lparr>iv_from = 0, iv_to = 0\<rparr>,
      fm_count = 1, fm_capacity = 4, fm_last = 0\<rparr>"

text \<open>\<^verbatim>\<open>memmove( &map[dst], &map[src], n entries )\<close>.\<close>

definition memmove :: "Interval list \<Rightarrow> nat \<Rightarrow> nat \<Rightarrow> nat \<Rightarrow> fm_error + Interval list" where
  "memmove xs dst src n =
     (if src + n \<le> length xs \<and> dst + n \<le> length xs
      then Inr (take dst xs @ take n (drop src xs) @ drop (dst + n) xs) else Inl Outside_map)"

definition fmapInsertEntry :: "FreeMap \<Rightarrow> nat \<Rightarrow> fm_error + FreeMap" where
  "fmapInsertEntry self i =
     (let self =
        (if fm_capacity self \<le> fm_count self
         then self\<lparr>fm_capacity := fm_capacity self * 2,
                fm_map := fm_map self @ replicate (fm_capacity self * 2 - length (fm_map self)) \<lparr>iv_from = 0, iv_to = 0\<rparr>\<rparr>
         else self)
      in case memmove (fm_map self) (i + 1) i (fm_count self - i) of
           Inl e \<Rightarrow> Inl e
         | Inr xs \<Rightarrow> Inr (self\<lparr>fm_map := xs, fm_count := fm_count self + 1\<rparr>))"

definition fmapDeleteQuick :: "FreeMap \<Rightarrow> u32 \<Rightarrow> fm_error + (FreeMap \<times> bool)" where
  "fmapDeleteQuick self key =
     (let i = fm_last self; xs = fm_map self; e = xs ! i
      in if \<not> i < fm_count self then Inl Assertion_failed
         else if iv_from e = key then
           if iv_to e = key then
             (case memmove xs i (i + 1) (fm_count self - i) of
                Inl err \<Rightarrow> Inl err
              | Inr xs \<Rightarrow>
                  let self = self\<lparr>fm_map := xs, fm_count := fm_count self - 1\<rparr>;
                      self = (if fm_last self \<noteq> 0 then self\<lparr>fm_last := fm_last self - 1\<rparr> else self)
                  in if fm_last self < fm_count self then Inr (self, True) else Inl Assertion_failed)
           else Inr (self\<lparr>fm_map := xs[i := e\<lparr>iv_from := iv_from e + 1\<rparr>]\<rparr>, True)
         else if iv_to e = key then Inr (self\<lparr>fm_map := xs[i := e\<lparr>iv_to := iv_to e - 1\<rparr>]\<rparr>, True)
         else if iv_from e \<le> key \<and> iv_to e \<ge> key then
           (case fmapInsertEntry self i of
              Inl err \<Rightarrow> Inl err
            | Inr self \<Rightarrow>
                let xs = fm_map self
                in Inr (self\<lparr>fm_map := xs[i := (xs ! i)\<lparr>iv_to := key - 1\<rparr>,
                     i + 1 := (xs ! (i + 1))\<lparr>iv_from := key + 1\<rparr>]\<rparr>, True))
         else Inr (self, False))"

text \<open>The comparison functions give the sign of the key with respect to entry \<open>i\<close>.\<close>

definition cmpkeyi :: "u32 \<Rightarrow> Interval list \<Rightarrow> nat \<Rightarrow> int" where
  "cmpkeyi k xs i = (if k < iv_to (xs ! (i - 1)) then -1 else if k > iv_from (xs ! i) then 1 else 0)"

definition cmpkey :: "u32 \<Rightarrow> Interval list \<Rightarrow> nat \<Rightarrow> int" where
  "cmpkey k xs i = (if k < iv_from (xs ! i) then -1 else if k > iv_to (xs ! i) then 1 else 0)"

text \<open>\<^verbatim>\<open>bsearch\<close> among the indices from \<open>l\<close> to below \<open>u\<close>.\<close>

function bsearch :: "(nat \<Rightarrow> int) \<Rightarrow> nat \<Rightarrow> nat \<Rightarrow> nat option" where
  "bsearch cmp l u =
     (if l < u then
        let idx = (l + u) div 2
        in if cmp idx < 0 then bsearch cmp l idx
           else if cmp idx > 0 then bsearch cmp (idx + 1) u
           else Some idx
      else None)"
  by auto

termination
  by (relation "measure (\<lambda>(cmp, l, u). u - l)") auto

declare bsearch.simps [simp del]

definition fmapDelete :: "FreeMap \<Rightarrow> u32 \<Rightarrow> fm_error + (FreeMap \<times> bool)" where
  "fmapDelete self key =
     (case fmapDeleteQuick self key of
        Inl e \<Rightarrow> Inl e
      | Inr (self, True) \<Rightarrow> Inr (self, True)
      | Inr (self, False) \<Rightarrow>
          let bs = (\<lambda>self.
            case bsearch (cmpkey key (fm_map self)) 0 (fm_count self) of
              None \<Rightarrow> Inr (self, False)
            | Some p \<Rightarrow>
                let self = self\<lparr>fm_last := p\<rparr>
                in if \<not> fm_last self < fm_count self then Inl Assertion_failed
                   else (case fmapDeleteQuick self key of
                           Inl e \<Rightarrow> Inl e
                         | Inr (self, True) \<Rightarrow> if fm_last self < fm_count self then Inr (self, True) else Inl Assertion_failed
                         | Inr (self, False) \<Rightarrow> Inl Assertion_failed))
          in if fm_last self + 1 < fm_count self then
               (let self = self\<lparr>fm_last := fm_last self + 1\<rparr>
                in case fmapDeleteQuick self key of
                     Inl e \<Rightarrow> Inl e
                   | Inr (self, True) \<Rightarrow> if fm_last self < fm_count self then Inr (self, True) else Inl Assertion_failed
                   | Inr (self, False) \<Rightarrow> bs self)
             else bs self)"

text \<open>The loop of \<^verbatim>\<open>fmapDeleteRange\<close>; what \<^verbatim>\<open>fmapDelete\<close> returns is not looked at.\<close>

function delete_range_loop :: "FreeMap \<Rightarrow> u32 \<Rightarrow> u32 \<Rightarrow> fm_error + FreeMap" where
  "delete_range_loop self key0 key1 =
     (if key0 \<noteq> key1 then
        (case fmapDelete self key0 of
           Inl e \<Rightarrow> Inl e
         | Inr (self, _) \<Rightarrow> delete_range_loop self (key0 + 1) key1)
      else (case fmapDelete self key1 of Inl e \<Rightarrow> Inl e | Inr (self, _) \<Rightarrow> Inr self))"
  by auto

termination
proof (relation "measure (\<lambda>(self, key0, key1). unat (key1 - key0))")
  fix self :: FreeMap and key0 key1 :: u32
  assume "key0 \<noteq> key1"
  then have "key1 - key0 \<noteq> 0" by simp
  then have "unat (key1 - key0 - 1) < unat (key1 - key0)" by (rule measure_unat)
  then show "((x, key0 + 1, key1), self, key0, key1) \<in> measure (\<lambda>(self, key0, key1). unat (key1 - key0))" for x
    by (simp add: algebra_simps)
qed simp

declare delete_range_loop.simps [simp del]

definition fmapDeleteRange :: "FreeMap \<Rightarrow> u32 \<Rightarrow> u32 \<Rightarrow> fm_error + FreeMap" where
  "fmapDeleteRange self key0 key1 = (if key0 \<le> key1 then delete_range_loop self key0 key1 else Inr self)"

text \<open>The loop of \<^verbatim>\<open>fmapFindAndDeleteRange\<close> from entry \<open>i\<close> on; \<open>Some\<close> is what is stored in \<^verbatim>\<open>*rec\<close>.\<close>

function find_range_loop :: "FreeMap \<Rightarrow> u32 \<Rightarrow> u32 \<Rightarrow> nat \<Rightarrow> fm_error + (FreeMap \<times> u32 option)" where
  "find_range_loop fmap minr cnt i =
     (if i < fm_count fmap then
        let xs = fm_map fmap; m = xs ! i
        in if iv_to m \<ge> minr \<and> iv_to m - iv_from m \<ge> cnt - 1 then
             if iv_from m \<ge> minr then
               let rec = iv_from m; m = m\<lparr>iv_from := iv_from m + cnt\<rparr>; xs = xs[i := m]
               in if \<not> (iv_to m = NOT 0 \<or> iv_from m \<le> iv_to m + 1) then Inl Assertion_failed
                  else if iv_from m = iv_to m + 1 then
                    (case memmove xs i (i + 1) (fm_count fmap - i) of
                       Inl e \<Rightarrow> Inl e
                     | Inr xs \<Rightarrow>
                         let fmap = fmap\<lparr>fm_map := xs, fm_count := fm_count fmap - 1, fm_last := i\<rparr>
                         in if fm_last fmap < fm_count fmap then Inr (fmap, Some rec) else Inl Assertion_failed)
                  else Inr (fmap\<lparr>fm_map := xs\<rparr>, Some rec)
             else if iv_to m - minr \<ge> cnt - 1 then
               if minr + cnt > iv_to m then
                 let m = m\<lparr>iv_to := iv_to m - cnt\<rparr>
                 in if \<not> iv_to m \<ge> iv_from m then Inl Assertion_failed
                    else Inr (fmap\<lparr>fm_map := xs[i := m]\<rparr>, Some minr)
               else
                 (case fmapInsertEntry fmap i of
                    Inl e \<Rightarrow> Inl e
                  | Inr fmap \<Rightarrow>
                      let xs = fm_map fmap;
                          xs = xs[i + 1 := (xs ! (i + 1))\<lparr>iv_to := iv_to (xs ! i)\<rparr>];
                          xs = xs[i := (xs ! i)\<lparr>iv_to := minr - 1\<rparr>];
                          xs = xs[i + 1 := (xs ! (i + 1))\<lparr>iv_from := minr + cnt\<rparr>]
                      in Inr (fmap\<lparr>fm_map := xs\<rparr>, Some minr))
             else find_range_loop fmap minr cnt (i + 1)
           else find_range_loop fmap minr cnt (i + 1)
      else Inr (fmap, None))"
  by auto

termination
  by (relation "measure (\<lambda>(fmap, minr, cnt, i). fm_count fmap - i)") auto

declare find_range_loop.simps [simp del]

definition fmapFindAndDeleteRange :: "FreeMap \<Rightarrow> u32 \<Rightarrow> u32 \<Rightarrow> fm_error + (FreeMap \<times> u32 option)" where
  "fmapFindAndDeleteRange fmap minr cnt = find_range_loop fmap minr cnt 0"

definition fmapInsertQuick :: "FreeMap \<Rightarrow> u32 \<Rightarrow> fm_error + (FreeMap \<times> bool)" where
  "fmapInsertQuick self key =
     (let i = fm_last self; xs = fm_map self
      in if \<not> i < fm_count self then Inl Assertion_failed
         else if key < iv_from (xs ! i) \<and> (i = 0 \<or> key > iv_to (xs ! (i - 1))) then
           if key = iv_from (xs ! i) - 1 then
             let xs = xs[i := (xs ! i)\<lparr>iv_from := iv_from (xs ! i) - 1\<rparr>]; self = self\<lparr>fm_map := xs\<rparr>
             in if i > 0 \<and> iv_from (xs ! i) - 1 = iv_to (xs ! (i - 1)) then
                  let xs = xs[i - 1 := (xs ! (i - 1))\<lparr>iv_to := iv_to (xs ! i)\<rparr>]; n = fm_count self - 1
                  in (case memmove xs i (i + 1) (n - i) of
                        Inl e \<Rightarrow> Inl e
                      | Inr xs \<Rightarrow>
                          let self = self\<lparr>fm_map := xs, fm_count := n\<rparr>;
                              self = (if fm_last self \<ge> fm_count self then self\<lparr>fm_last := fm_last self - 1\<rparr> else self)
                          in if fm_last self < fm_count self then Inr (self, True) else Inl Assertion_failed)
                else if fm_last self < fm_count self then Inr (self, True) else Inl Assertion_failed
           else if i > 0 \<and> key = iv_to (xs ! (i - 1)) + 1 then
             Inr (self\<lparr>fm_map := xs[i - 1 := (xs ! (i - 1))\<lparr>iv_to := iv_to (xs ! (i - 1)) + 1\<rparr>]\<rparr>, True)
           else
             (case fmapInsertEntry self i of
                Inl e \<Rightarrow> Inl e
              | Inr self \<Rightarrow> Inr (self\<lparr>fm_map := (fm_map self)[i := \<lparr>iv_from = key, iv_to = key\<rparr>]\<rparr>, True))
         else Inr (self, False))"

definition fmapInsert :: "FreeMap \<Rightarrow> u32 \<Rightarrow> fm_error + (FreeMap \<times> bool)" where
  "fmapInsert self key =
     (case fmapInsertQuick self key of
        Inl e \<Rightarrow> Inl e
      | Inr (self, True) \<Rightarrow> Inr (self, True)
      | Inr (self, False) \<Rightarrow>
          if key < iv_from (fm_map self ! 0) then
            (case fmapInsertQuick (self\<lparr>fm_last := 0\<rparr>) key of
               Inl e \<Rightarrow> Inl e
             | Inr (self, True) \<Rightarrow> Inr (self, True)
             | Inr (self, False) \<Rightarrow> Inl Assertion_failed)
          else if \<not> key \<le> iv_to (fm_map self ! (fm_count self - 1)) then Inl Assertion_failed
          else if \<not> fm_count self \<ge> 2 then Inl Assertion_failed
          else (case bsearch (cmpkeyi key (fm_map self)) 1 (fm_count self) of
                  None \<Rightarrow> Inr (self, False)
                | Some p \<Rightarrow> fmapInsertQuick (self\<lparr>fm_last := p\<rparr>) key))"

end
