(* ===== verification/FreemapOps.thy ===== *)
theory FreemapOps
  imports Freemap
begin

text \<open>
  The map of free records as a set of free keys: the invariant of the intervals, the binary search, and what
  the deletion and the insertion of a key do to the set, with the errors that can occur.
\<close>

section \<open>The intervals in use\<close>

definition ivs :: "FreeMap \<Rightarrow> Interval list" where
  "ivs self = take (fm_count self) (fm_map self)"

definition iv_keys :: "Interval \<Rightarrow> nat set" where
  "iv_keys e = {unat (iv_from e)..unat (iv_to e)}"

definition keys :: "Interval list \<Rightarrow> nat set" where
  "keys xs = (\<Union>e \<in> set xs. iv_keys e)"

definition gap :: "Interval \<Rightarrow> Interval \<Rightarrow> bool" where
  "gap e f \<longleftrightarrow> unat (iv_to e) + 1 < unat (iv_from f)"

definition ivs_ok :: "Interval list \<Rightarrow> bool" where
  "ivs_ok xs \<longleftrightarrow> sorted_wrt gap xs \<and> list_all (\<lambda>e. iv_from e \<le> iv_to e) xs"

definition fm_ok :: "FreeMap \<Rightarrow> bool" where
  "fm_ok self \<longleftrightarrow> length (fm_map self) = fm_capacity self \<and> fm_count self \<le> fm_capacity self \<and>
     fm_last self < fm_count self \<and> ivs_ok (ivs self)"

definition free_keys :: "FreeMap \<Rightarrow> nat set" where
  "free_keys self = keys (ivs self)"

lemma keys_simps [simp]:
  "keys [] = {}" "keys (e # xs) = iv_keys e \<union> keys xs" "keys (xs @ ys) = keys xs \<union> keys ys"
  by (auto simp: keys_def)

lemma ivs_ok_simps [simp]:
  "ivs_ok []" "ivs_ok (e # xs) \<longleftrightarrow> iv_from e \<le> iv_to e \<and> (\<forall>f \<in> set xs. gap e f) \<and> ivs_ok xs"
  "ivs_ok (xs @ ys) \<longleftrightarrow> ivs_ok xs \<and> ivs_ok ys \<and> (\<forall>e \<in> set xs. \<forall>f \<in> set ys. gap e f)"
  by (auto simp: ivs_ok_def sorted_wrt_append)

lemma ivs_split:
  assumes "i < fm_count self" "fm_count self \<le> length (fm_map self)"
  obtains A B where "ivs self = A @ fm_map self ! i # B" "length A = i" "A = take i (fm_map self)"
    "B = drop (i + 1) (ivs self)"
proof
  show "ivs self = take i (fm_map self) @ fm_map self ! i # drop (i + 1) (ivs self)"
    using assms id_take_nth_drop [of i "ivs self"] by (simp add: ivs_def min_def)
qed (use assms in simp_all)

lemma ivs_update: "i < fm_count self \<Longrightarrow> ivs (self\<lparr>fm_map := (fm_map self)[i := e]\<rparr>) = (ivs self)[i := e]"
  by (simp add: ivs_def take_update_swap)

lemma ivs_nth: "i < fm_count self \<Longrightarrow> ivs self ! i = fm_map self ! i"
  by (simp add: ivs_def)

lemma memmove_delete:
  assumes "i < n" "n \<le> length xs"
  shows "memmove xs i (i + 1) (n - i) =
    (if n < length xs then Inr (take i xs @ drop (i + 1) (take (n + 1) xs) @ drop n xs) else Inl Outside_map)"
  using assms by (auto simp: memmove_def drop_take)

lemma take_memmove_delete:
  assumes "i < n" "n < length xs"
  shows "take (n - 1) (take i xs @ drop (i + 1) (take (n + 1) xs) @ drop n xs) = take i xs @ drop (i + 1) (take n xs)"
proof -
  have "take (n + 1) xs = take n xs @ [xs ! n]" using assms by (simp add: take_Suc_conv_app_nth)
  then have "take i xs @ drop (i + 1) (take (n + 1) xs) @ drop n xs =
      (take i xs @ drop (i + 1) (take n xs)) @ xs ! n # drop n xs" using assms by simp
  moreover have "length (take i xs @ drop (i + 1) (take n xs)) = n - 1" using assms by simp
  ultimately show ?thesis by (metis append_eq_conv_conj)
qed

lemma fmapInsertEntry_eq:
  assumes "length (fm_map self) = fm_capacity self" "fm_count self \<le> fm_capacity self" "i < fm_count self"
  obtains xs cap where "length xs = cap" "fm_count self + 1 \<le> cap" "fm_capacity self \<le> cap"
    "take (fm_count self) xs = ivs self"
    "fmapInsertEntry self i = Inr (self\<lparr>fm_map := take (i + 1) xs @ take (fm_count self - i) (drop i xs) @ drop (fm_count self + 1) xs,
       fm_count := fm_count self + 1, fm_capacity := cap\<rparr>)"
proof (cases "fm_capacity self \<le> fm_count self")
  case True
  let ?xs = "fm_map self @ replicate (fm_capacity self * 2 - length (fm_map self)) \<lparr>iv_from = 0, iv_to = 0\<rparr>"
  have "length ?xs = fm_capacity self * 2" using assms by simp
  moreover have "fm_count self + 1 \<le> fm_capacity self * 2" using assms True by simp
  moreover have "fmapInsertEntry self i = Inr (self\<lparr>fm_map := take (i + 1) ?xs @ take (fm_count self - i) (drop i ?xs) @ drop (fm_count self + 1) ?xs,
       fm_count := fm_count self + 1, fm_capacity := fm_capacity self * 2\<rparr>)"
    using True calculation assms(3) unfolding fmapInsertEntry_def Let_def memmove_def
    by (simp del: length_append append_assoc)
  ultimately show thesis
    by (intro that [of ?xs "fm_capacity self * 2"]) (use assms in \<open>simp_all add: ivs_def del: append_assoc\<close>)
next
  case False
  then have "fmapInsertEntry self i = Inr (self\<lparr>fm_map := take (i + 1) (fm_map self) @ take (fm_count self - i) (drop i (fm_map self)) @
       drop (fm_count self + 1) (fm_map self), fm_count := fm_count self + 1, fm_capacity := fm_capacity self\<rparr>)"
    using assms unfolding fmapInsertEntry_def Let_def memmove_def by simp
  then show thesis
    by (intro that [of "fm_map self" "fm_capacity self"]) (use assms False in \<open>simp_all add: ivs_def\<close>)
qed

lemma insert_entry:
  assumes "length (fm_map self) = fm_capacity self" "fm_count self \<le> fm_capacity self" "i < fm_count self"
    "ivs self = A @ e # B" "length A = i"
  obtains self' where "fmapInsertEntry self i = Inr self'" "ivs self' = A @ e # e # B"
    "fm_count self' = fm_count self + 1" "fm_last self' = fm_last self"
    "length (fm_map self') = fm_capacity self'" "fm_count self' \<le> fm_capacity self'" "fm_capacity self \<le> fm_capacity self'"
proof -
  obtain xs cap where x: "length xs = cap" "fm_count self + 1 \<le> cap" "fm_capacity self \<le> cap"
    "take (fm_count self) xs = ivs self"
    "fmapInsertEntry self i = Inr (self\<lparr>fm_map := take (i + 1) xs @ take (fm_count self - i) (drop i xs) @ drop (fm_count self + 1) xs,
       fm_count := fm_count self + 1, fm_capacity := cap\<rparr>)"
    by (rule fmapInsertEntry_eq [OF assms(1-3)])
  have "take (i + 1) xs = take (i + 1) (ivs self)"
    using assms(3) unfolding x(4) [symmetric] take_take by (simp add: min_def)
  also have "... = A @ [e]" using assms(4,5) by simp
  finally have t: "take (i + 1) xs = A @ [e]" .
  have d: "take (fm_count self - i) (drop i xs) = e # B"
    using assms(4,5) unfolding drop_take [symmetric] x(4) by simp
  have "length (ivs self) = fm_count self" using x(1,2) unfolding x(4) [symmetric] by simp
  then have n: "fm_count self + 1 = length (A @ e # e # B)" using assms(4) by simp
  define ys where "ys = take (i + 1) xs @ take (fm_count self - i) (drop i xs) @ drop (fm_count self + 1) xs"
  have y: "take (fm_count self + 1) ys = A @ e # e # B"
    unfolding ys_def t d n by simp
  have l: "length ys = cap" unfolding ys_def using x(1,2) assms(3) by simp
  show thesis
  proof (rule that [OF x(5) [folded ys_def]], goal_cases)
    case 1
    show ?case using y by (simp only: ivs_def) simp
  qed (use l x(2,3) in \<open>simp_all\<close>)
qed

definition sorted_cmp :: "(nat \<Rightarrow> int) \<Rightarrow> nat \<Rightarrow> nat \<Rightarrow> bool" where
  "sorted_cmp cmp l u \<longleftrightarrow>
     (\<forall>i j. l \<le> i \<and> i < j \<and> j < u \<longrightarrow> (cmp j > 0 \<longrightarrow> cmp i > 0) \<and> (cmp i < 0 \<longrightarrow> cmp j < 0))"

definition found :: "(nat \<Rightarrow> int) \<Rightarrow> nat \<Rightarrow> nat \<Rightarrow> nat option \<Rightarrow> bool" where
  "found cmp l u r \<longleftrightarrow>
     (case r of Some p \<Rightarrow> l \<le> p \<and> p < u \<and> cmp p = 0 | None \<Rightarrow> \<forall>i. l \<le> i \<and> i < u \<longrightarrow> cmp i \<noteq> 0)"

lemma bsearch_found: "sorted_cmp cmp l u \<Longrightarrow> found cmp l u (bsearch cmp l u)"
proof (induction cmp l u rule: bsearch.induct)
  case (1 cmp l u)
  let ?m = "(l + u) div 2"
  show ?case
  proof (cases "l < u")
    case True
    then have m: "l \<le> ?m" "?m < u" by auto
    consider (lt) "cmp ?m < 0" | (gt) "cmp ?m > 0" | (eq) "cmp ?m = 0" by linarith
    then show ?thesis
    proof cases
      case lt
      have "sorted_cmp cmp l ?m" using "1.prems" m(2) unfolding sorted_cmp_def by (meson order.strict_trans)
      then have "found cmp l ?m (bsearch cmp l ?m)" by (intro "1.IH"(1) [OF True refl lt])
      moreover have "cmp i \<noteq> 0" if "?m \<le> i" "i < u" for i
        using lt that m(1) "1.prems" unfolding sorted_cmp_def by (metis le_neq_implies_less less_irrefl)
      moreover have "bsearch cmp l u = bsearch cmp l ?m" using True lt by (subst bsearch.simps) (simp add: Let_def)
      ultimately show ?thesis using m unfolding found_def
        by (cases "bsearch cmp l ?m") (auto, metis not_le)
    next
      case gt
      have "sorted_cmp cmp (?m + 1) u"
        unfolding sorted_cmp_def
      proof (intro allI impI)
        fix i j assume "?m + 1 \<le> i \<and> i < j \<and> j < u"
        then have "l \<le> i \<and> i < j \<and> j < u" using m(1) by linarith
        then show "(cmp j > 0 \<longrightarrow> cmp i > 0) \<and> (cmp i < 0 \<longrightarrow> cmp j < 0)" using "1.prems" unfolding sorted_cmp_def by blast
      qed
      then have "found cmp (?m + 1) u (bsearch cmp (?m + 1) u)" using gt by (intro "1.IH"(2) [OF True refl _ gt]) auto
      moreover have "cmp i \<noteq> 0" if "l \<le> i" "i \<le> ?m" for i
        using gt that m(2) "1.prems" unfolding sorted_cmp_def by (metis le_neq_implies_less less_irrefl)
      moreover have "bsearch cmp l u = bsearch cmp (?m + 1) u" using True gt by (subst bsearch.simps) (simp add: Let_def)
      ultimately show ?thesis using m unfolding found_def
        by (cases "bsearch cmp (?m + 1) u") (auto simp: not_less_eq_eq, meson not_less_eq_eq)
    next
      case eq
      then have "bsearch cmp l u = Some ?m" using True by (subst bsearch.simps) (simp add: Let_def)
      then show ?thesis using eq m by (simp add: found_def)
    qed
  next
    case False
    then show ?thesis by (simp add: bsearch.simps found_def)
  qed
qed

section \<open>Deletion\<close>

lemma ivs_replace:
  assumes "ivs_ok (A @ e # B)" "ivs_ok mid" "\<forall>f \<in> set mid. iv_from e \<le> iv_from f \<and> iv_to f \<le> iv_to e"
  shows "ivs_ok (A @ mid @ B)"
  using assms by (fastforce simp: gap_def word_le_nat_alt)

lemma keys_gap:
  assumes "ivs_ok (A @ e # B)" "k \<in> iv_keys e"
  shows "k \<notin> keys A" "k \<notin> keys B" "k + 1 = n \<Longrightarrow> n \<notin> keys A" "n + 1 = k \<Longrightarrow> n \<notin> keys B"
proof -
  have "unat (iv_to x) + 1 < k" if "x \<in> set A" for x
    using assms that by (fastforce simp: gap_def iv_keys_def)
  then show "k \<notin> keys A" "k + 1 = n \<Longrightarrow> n \<notin> keys A" by (fastforce simp: keys_def iv_keys_def)+
  have "k + 1 < unat (iv_from x)" if "x \<in> set B" for x
    using assms that by (fastforce simp: gap_def iv_keys_def)
  then show "k \<notin> keys B" "n + 1 = k \<Longrightarrow> n \<notin> keys B" by (fastforce simp: keys_def iv_keys_def)+
qed

lemma unat_succ: "k < (t :: u32) \<Longrightarrow> unat (k + 1) = unat k + 1"
  using unsigned_less [of t, where ?'a = nat]
  by (subst unat_add_lem [THEN iffD1]) (simp_all add: word_less_nat_alt)

lemma unat_pred: "(f :: u32) < k \<Longrightarrow> unat (k - 1) = unat k - 1"
  by (metis unat_minus_one word_not_simps(1))

text \<open>What a deletion does, as a relation between the map and the result.\<close>

definition deleted :: "FreeMap \<Rightarrow> nat \<Rightarrow> FreeMap \<Rightarrow> bool" where
  "deleted self k self' \<longleftrightarrow>
     fm_ok self' \<and> free_keys self' = free_keys self - {k} \<and> fm_capacity self \<le> fm_capacity self' \<and>
     fm_count self' \<le> fm_count self + of_bool (k \<noteq> 0 \<and> k - 1 \<in> free_keys self)"

definition delete_result :: "FreeMap \<Rightarrow> u32 \<Rightarrow> fm_error + (FreeMap \<times> bool) \<Rightarrow> bool" where
  "delete_result self key r \<longleftrightarrow>
     (case r of
        Inr (self', b) \<Rightarrow> deleted self (unat key) self' \<and> (b \<longleftrightarrow> unat key \<in> free_keys self)
      | Inl Outside_map \<Rightarrow> fm_count self = fm_capacity self \<and> \<lparr>iv_from = key, iv_to = key\<rparr> \<in> set (ivs self)
      | Inl Assertion_failed \<Rightarrow> free_keys self = {unat key})"

lemma deleted_same: "fm_ok self \<Longrightarrow> k \<notin> free_keys self \<Longrightarrow> deleted self k self"
  by (auto simp: deleted_def)

lemma length_ivs: "fm_ok self \<Longrightarrow> length (ivs self) = fm_count self"
  by (simp add: fm_ok_def ivs_def)

lemma delete_quick:
  assumes ok: "fm_ok self"
  shows "case fmapDeleteQuick self key of
      Inr (self', False) \<Rightarrow> self' = self \<and> unat key \<notin> iv_keys (ivs self ! fm_last self)
    | r \<Rightarrow> delete_result self key r"
proof -
  let ?i = "fm_last self" and ?k = "unat key"
  have ok': "length (fm_map self) = fm_capacity self" "fm_count self \<le> fm_capacity self" "?i < fm_count self"
    "ivs_ok (ivs self)" using ok by (simp_all add: fm_ok_def)
  obtain A B where s: "ivs self = A @ fm_map self ! ?i # B" "length A = ?i" "A = take ?i (fm_map self)"
      "B = drop (?i + 1) (ivs self)"
    using ivs_split [of ?i self] ok' by metis
  define e where "e = fm_map self ! ?i"
  have e: "ivs self = A @ e # B" "ivs self ! ?i = e" using s(1,2) e_def ivs_nth [OF ok'(3)] by simp_all
  have oke: "iv_from e \<le> iv_to e" "ivs_ok (A @ e # B)" using ok'(4) e(1) by simp_all
  have upd: "deleted self ?k self'" if "ivs self' = A @ mid @ B" "ivs_ok mid"
      "\<forall>f \<in> set mid. iv_from e \<le> iv_from f \<and> iv_to f \<le> iv_to e" "keys mid = iv_keys e - {?k}" "?k \<in> iv_keys e"
      "length (fm_map self') = fm_capacity self'" "fm_count self' \<le> fm_capacity self'" "fm_capacity self \<le> fm_capacity self'"
      "fm_last self' < fm_count self'"
      "fm_count self' \<le> fm_count self + of_bool (?k \<noteq> 0 \<and> ?k - 1 \<in> free_keys self)" for self' mid
    using that ivs_replace [OF oke(2) that(2,3)] keys_gap(1,2) [OF oke(2) that(5)]
    by (auto simp: deleted_def fm_ok_def free_keys_def e(1))
  have kin: "?k \<in> free_keys self" if "?k \<in> iv_keys e" using that by (simp add: free_keys_def e(1))
  consider (one) "iv_from e = key" "iv_to e = key" | (bot) "iv_from e = key" "iv_to e \<noteq> key"
    | (top) "iv_from e \<noteq> key" "iv_to e = key"
    | (mid) "iv_from e \<noteq> key" "iv_to e \<noteq> key" "iv_from e \<le> key" "key \<le> iv_to e"
    | (out) "\<not> (iv_from e \<le> key \<and> key \<le> iv_to e)" using oke(1) by force
  then show ?thesis
  proof cases
    case one
    then have k: "?k \<in> iv_keys e" by (simp add: iv_keys_def)
    show ?thesis
    proof (cases "fm_count self < fm_capacity self")
      case False
      then have "fmapDeleteQuick self key = Inl Outside_map"
        using one ok' memmove_delete [of ?i "fm_count self" "fm_map self"] by (simp add: fmapDeleteQuick_def Let_def e_def)
      moreover have "\<lparr>iv_from = key, iv_to = key\<rparr> = e" using one by simp
      ultimately show ?thesis using False ok' e(1) by (simp add: delete_result_def)
    next
      case True
      let ?xs = "take ?i (fm_map self) @ drop (?i + 1) (take (fm_count self + 1) (fm_map self)) @ drop (fm_count self) (fm_map self)"
      define s1 where "s1 = self\<lparr>fm_map := ?xs, fm_count := fm_count self - 1, fm_last := (if ?i \<noteq> 0 then ?i - 1 else ?i)\<rparr>"
      have r: "fmapDeleteQuick self key = (if fm_last s1 < fm_count s1 then Inr (s1, True) else Inl Assertion_failed)"
        using one ok' True memmove_delete [of ?i "fm_count self" "fm_map self"]
        by (auto simp: fmapDeleteQuick_def Let_def e_def s1_def)
      have iv: "ivs s1 = A @ B"
        using take_memmove_delete [of ?i "fm_count self" "fm_map self"] ok' True s
        by (simp add: s1_def ivs_def)
      have len: "length (fm_map s1) = fm_capacity s1" using ok' True by (simp add: s1_def)
      show ?thesis
      proof (cases "fm_last s1 < fm_count s1")
        case l: True
        then have "deleted self ?k s1" using upd [of s1 "[]"] iv len k ok' one
          by (simp add: s1_def iv_keys_def)
        then show ?thesis using r l kin [OF k] by (simp add: delete_result_def)
      next
        case l: False
        then have "fm_count self = 1" using ok' by (auto simp: s1_def split: if_splits)
        then have "A = [] \<and> B = []" using e(1) length_ivs [OF ok] by simp
        then show ?thesis using r l e(1) one by (simp add: delete_result_def free_keys_def iv_keys_def)
      qed
    qed
  next
    case bot
    then have lt: "key < iv_to e" using oke(1) by simp
    define s1 where "s1 = self\<lparr>fm_map := (fm_map self)[?i := e\<lparr>iv_from := key + 1\<rparr>]\<rparr>"
    have "fmapDeleteQuick self key = Inr (s1, True)"
      using bot ok' by (simp add: fmapDeleteQuick_def Let_def e_def s1_def)
    moreover have "ivs s1 = A @ [e\<lparr>iv_from := key + 1\<rparr>] @ B"
      unfolding s1_def ivs_update [OF ok'(3)] e(1) using s(2) by (simp add: list_update_append)
    moreover have "?k \<in> iv_keys e" using bot(1) lt by (simp add: iv_keys_def word_less_nat_alt)
    ultimately show ?thesis
      using upd [of s1 "[e\<lparr>iv_from := key + 1\<rparr>]"] ok' bot unat_succ [OF lt] lt kin
      by (simp add: delete_result_def s1_def iv_keys_def word_le_nat_alt word_less_nat_alt) force
  next
    case top
    then have lt: "iv_from e < key" using oke(1) by simp
    define s1 where "s1 = self\<lparr>fm_map := (fm_map self)[?i := e\<lparr>iv_to := key - 1\<rparr>]\<rparr>"
    have "fmapDeleteQuick self key = Inr (s1, True)"
      using top ok' by (simp add: fmapDeleteQuick_def Let_def e_def s1_def)
    moreover have "ivs s1 = A @ [e\<lparr>iv_to := key - 1\<rparr>] @ B"
      unfolding s1_def ivs_update [OF ok'(3)] e(1) using s(2) by (simp add: list_update_append)
    moreover have "?k \<in> iv_keys e" using top(2) lt by (simp add: iv_keys_def word_less_nat_alt)
    ultimately show ?thesis
      using upd [of s1 "[e\<lparr>iv_to := key - 1\<rparr>]"] ok' top unat_pred [OF lt] lt kin
      by (simp add: delete_result_def s1_def iv_keys_def word_le_nat_alt word_less_nat_alt) force
  next
    case mid
    then have lt: "iv_from e < key" "key < iv_to e" by auto
    obtain s2 where s2: "fmapInsertEntry self ?i = Inr s2" "ivs s2 = A @ e # e # B" "fm_count s2 = fm_count self + 1"
        "fm_last s2 = ?i" "length (fm_map s2) = fm_capacity s2" "fm_count s2 \<le> fm_capacity s2" "fm_capacity self \<le> fm_capacity s2"
      by (rule insert_entry [OF ok'(1-3) e(1) s(2)])
    have n: "fm_map s2 ! ?i = e" "fm_map s2 ! (?i + 1) = e"
      using ivs_nth [of ?i s2] ivs_nth [of "?i + 1" s2] s2(2,3) ok'(3) s(2) by (simp_all add: nth_append)
    let ?e = "e\<lparr>iv_to := key - 1\<rparr>" and ?f = "e\<lparr>iv_from := key + 1\<rparr>"
    define s1 where "s1 = s2\<lparr>fm_map := (fm_map s2)[?i := ?e, ?i + 1 := ?f]\<rparr>"
    have "fmapDeleteQuick self key = Inr (s1, True)"
      using mid ok' s2(1) n by (simp add: fmapDeleteQuick_def Let_def e_def [symmetric] s1_def)
    moreover have "ivs s1 = A @ [?e, ?f] @ B"
      using s2(2,3) ok'(3) s(2) by (simp add: s1_def ivs_def take_update_swap list_update_append)
    moreover have "?k \<in> iv_keys e" using lt by (simp add: iv_keys_def word_less_nat_alt)
    moreover have "?k \<noteq> 0 \<and> ?k - 1 \<in> free_keys self"
      using lt by (auto simp: free_keys_def e(1) iv_keys_def word_less_nat_alt)
    ultimately show ?thesis
      using upd [of s1 "[?e, ?f]"] s2 ok' unat_succ [OF lt(2)] unat_pred [OF lt(1)] lt kin
      by (simp add: delete_result_def s1_def iv_keys_def word_le_nat_alt word_less_nat_alt gap_def) force
  next
    case out
    then have "fmapDeleteQuick self key = Inr (self, False)"
      using ok' oke(1) by (auto simp: fmapDeleteQuick_def Let_def e_def [symmetric])
    then show ?thesis using out e(2) by (auto simp: iv_keys_def word_le_nat_alt)
  qed
qed

lemma ivs_last [simp]: "ivs (self\<lparr>fm_last := p\<rparr>) = ivs self" "free_keys (self\<lparr>fm_last := p\<rparr>) = free_keys self"
  by (simp_all add: ivs_def free_keys_def)

lemma fm_ok_last: "fm_ok self \<Longrightarrow> p < fm_count self \<Longrightarrow> fm_ok (self\<lparr>fm_last := p\<rparr>)"
  by (simp add: fm_ok_def)

lemma delete_result_last: "delete_result (self\<lparr>fm_last := p\<rparr>) key r \<longleftrightarrow> delete_result self key r"
  by (auto simp: delete_result_def deleted_def split: sum.splits fm_error.splits prod.splits)

lemma ivs_ok_nth:
  assumes "fm_ok self" "i < fm_count self"
  shows "iv_from (fm_map self ! i) \<le> iv_to (fm_map self ! i)"
    "j < i \<Longrightarrow> unat (iv_to (fm_map self ! j)) + 1 < unat (iv_from (fm_map self ! i))"
proof -
  have l: "length (ivs self) = fm_count self" and ok: "ivs_ok (ivs self)"
    using assms(1) by (simp_all add: length_ivs fm_ok_def)
  show "iv_from (fm_map self ! i) \<le> iv_to (fm_map self ! i)"
    using ok assms(2) l ivs_nth [OF assms(2)] by (simp add: ivs_ok_def list_all_length) metis
  assume "j < i"
  then show "unat (iv_to (fm_map self ! j)) + 1 < unat (iv_from (fm_map self ! i))"
    using ok assms(2) l ivs_nth [OF assms(2)] ivs_nth [of j self] sorted_wrt_nth_less [of gap "ivs self" j i]
    by (simp add: ivs_ok_def gap_def)
qed

lemma free_keys_iff:
  "fm_ok self \<Longrightarrow> k \<in> free_keys self \<longleftrightarrow>
     (\<exists>i < fm_count self. unat (iv_from (fm_map self ! i)) \<le> k \<and> k \<le> unat (iv_to (fm_map self ! i)))"
proof -
  assume "fm_ok self"
  then have "(\<exists>e \<in> set (ivs self). P e) \<longleftrightarrow> (\<exists>i < fm_count self. P (fm_map self ! i))" for P
    using length_ivs [of self] ivs_nth [of _ self] by (metis in_set_conv_nth)
  then show ?thesis by (simp add: free_keys_def keys_def iv_keys_def)
qed

lemma sorted_cmpkey:
  assumes "fm_ok self"
  shows "sorted_cmp (cmpkey key (fm_map self)) 0 (fm_count self)"
  unfolding sorted_cmp_def
proof (intro allI impI)
  fix i j assume "0 \<le> i \<and> i < j \<and> j < fm_count self"
  then have "unat (iv_to (fm_map self ! i)) + 1 < unat (iv_from (fm_map self ! j))"
    "iv_from (fm_map self ! i) \<le> iv_to (fm_map self ! i)" "iv_from (fm_map self ! j) \<le> iv_to (fm_map self ! j)"
    using ivs_ok_nth [OF assms] by auto
  then show "(0 < cmpkey key (fm_map self) j \<longrightarrow> 0 < cmpkey key (fm_map self) i) \<and>
      (cmpkey key (fm_map self) i < 0 \<longrightarrow> cmpkey key (fm_map self) j < 0)"
    by (auto simp: cmpkey_def word_less_nat_alt word_le_nat_alt)
qed

lemma delete_last:
  assumes "fm_ok self" "p < fm_count self"
  shows "case fmapDeleteQuick (self\<lparr>fm_last := p\<rparr>) key of
      Inr (self', False) \<Rightarrow> self' = self\<lparr>fm_last := p\<rparr> \<and> unat key \<notin> iv_keys (fm_map self ! p)
    | Inr (self', True) \<Rightarrow> delete_result self key (Inr (self', True)) \<and> fm_last self' < fm_count self'
    | r \<Rightarrow> delete_result self key r"
proof (cases "fmapDeleteQuick (self\<lparr>fm_last := p\<rparr>) key")
  case (Inl e)
  then show ?thesis using delete_quick [OF fm_ok_last [OF assms], of key] by (simp add: delete_result_last)
next
  case (Inr x)
  obtain s b where x: "x = (s, b)" by (cases x)
  show ?thesis
  proof (cases b)
    case True
    then have d: "delete_result self key (Inr (s, True))"
      using delete_quick [OF fm_ok_last [OF assms], of key] Inr x by (simp add: delete_result_last)
    then have "fm_last s < fm_count s" by (simp add: delete_result_def deleted_def fm_ok_def)
    then show ?thesis using d Inr x True by simp
  next
    case False
    then show ?thesis
      using delete_quick [OF fm_ok_last [OF assms], of key] Inr x ivs_nth [OF assms(2)] by simp
  qed
qed

lemma search_delete:
  assumes ok: "fm_ok self"
  shows "delete_result self key
    (case bsearch (cmpkey key (fm_map self)) 0 (fm_count self) of
       None \<Rightarrow> Inr (self, False)
     | Some p \<Rightarrow>
         let self = self\<lparr>fm_last := p\<rparr>
         in if \<not> fm_last self < fm_count self then Inl Assertion_failed
            else (case fmapDeleteQuick self key of
                    Inl e \<Rightarrow> Inl e
                  | Inr (self, True) \<Rightarrow> if fm_last self < fm_count self then Inr (self, True) else Inl Assertion_failed
                  | Inr (self, False) \<Rightarrow> Inl Assertion_failed))"
proof (cases "bsearch (cmpkey key (fm_map self)) 0 (fm_count self)")
  case None
  then have "\<forall>i < fm_count self. cmpkey key (fm_map self) i \<noteq> 0"
    using bsearch_found [OF sorted_cmpkey [OF ok, of key]] by (simp add: found_def)
  then have "unat key \<notin> free_keys self"
    unfolding free_keys_iff [OF ok] by (fastforce simp: cmpkey_def word_less_nat_alt split: if_splits)
  then show ?thesis using None ok by (simp add: delete_result_def deleted_same)
next
  case (Some p)
  then have p: "p < fm_count self" "cmpkey key (fm_map self) p = 0"
    using bsearch_found [OF sorted_cmpkey [OF ok, of key]] by (auto simp: found_def)
  then have "unat key \<in> iv_keys (fm_map self ! p)"
    by (auto simp: cmpkey_def iv_keys_def word_less_nat_alt split: if_splits)
  then show ?thesis using delete_last [OF ok p(1), of key] Some p(1)
    by (auto simp: Let_def split: sum.splits prod.splits bool.splits)
qed

lemma fmapDelete_result:
  assumes ok: "fm_ok self"
  shows "delete_result self key (fmapDelete self key)"
proof (cases "fmapDeleteQuick self key")
  case (Inl e)
  then show ?thesis using delete_quick [OF ok, of key] by (simp add: fmapDelete_def)
next
  case (Inr x)
  obtain s b where x: "x = (s, b)" by (cases x)
  show ?thesis
  proof (cases b)
    case True
    then show ?thesis using delete_quick [OF ok, of key] Inr x by (simp add: fmapDelete_def)
  next
    case False
    then have s: "s = self" using delete_quick [OF ok, of key] Inr x by simp
    show ?thesis
    proof (cases "fm_last self + 1 < fm_count self")
      case l: True
      define s1 where "s1 = self\<lparr>fm_last := fm_last self + 1\<rparr>"
      have s1: "fm_ok s1" "fm_map s1 = fm_map self" "fm_count s1 = fm_count self" using ok l by (simp_all add: s1_def fm_ok_def)
      have eq: "fmapDelete self key = (case fmapDeleteQuick s1 key of
          Inl e \<Rightarrow> Inl e
        | Inr (self, True) \<Rightarrow> if fm_last self < fm_count self then Inr (self, True) else Inl Assertion_failed
        | Inr (self, False) \<Rightarrow>
            (case bsearch (cmpkey key (fm_map self)) 0 (fm_count self) of
               None \<Rightarrow> Inr (self, False)
             | Some p \<Rightarrow>
                 let self = self\<lparr>fm_last := p\<rparr>
                 in if \<not> fm_last self < fm_count self then Inl Assertion_failed
                    else (case fmapDeleteQuick self key of
                            Inl e \<Rightarrow> Inl e
                          | Inr (self, True) \<Rightarrow> if fm_last self < fm_count self then Inr (self, True) else Inl Assertion_failed
                          | Inr (self, False) \<Rightarrow> Inl Assertion_failed)))"
        using Inr x False s l by (simp add: fmapDelete_def s1_def)
      show ?thesis
      proof (cases "fmapDeleteQuick s1 key")
        case (Inl e)
        then show ?thesis using delete_last [OF ok l, of key] unfolding eq s1_def [symmetric] by simp
      next
        case (Inr y)
        then obtain s2 b2 where y: "fmapDeleteQuick s1 key = Inr (s2, b2)" by (cases y) auto
        show ?thesis
        proof (cases b2)
          case True
          then show ?thesis using delete_last [OF ok l, of key] y unfolding eq s1_def [symmetric] by simp
        next
          case False
          then have "s2 = s1" using delete_last [OF ok l, of key] y unfolding s1_def [symmetric] by simp
          then show ?thesis
            using search_delete [OF s1(1), of key] y False delete_result_last [of "fm_last self + 1" self]
            unfolding eq s1_def [symmetric] by simp
        qed
      qed
    next
      case False
      then show ?thesis using search_delete [OF ok, of key] Inr x \<open>\<not> b\<close> s
        by (simp add: fmapDelete_def Let_def)
    qed
  qed
qed

section \<open>Insertion\<close>

definition inserted :: "FreeMap \<Rightarrow> nat \<Rightarrow> FreeMap \<Rightarrow> bool" where
  "inserted self k self' \<longleftrightarrow>
     fm_ok self' \<and> free_keys self' = insert k (free_keys self) \<and> fm_capacity self \<le> fm_capacity self'"

definition insert_result :: "FreeMap \<Rightarrow> u32 \<Rightarrow> fm_error + (FreeMap \<times> bool) \<Rightarrow> bool" where
  "insert_result self key r \<longleftrightarrow>
     (case r of
        Inr (self', b) \<Rightarrow> inserted self (unat key) self' \<and> (b \<longleftrightarrow> unat key \<notin> free_keys self)
      | Inl Outside_map \<Rightarrow> False
      | Inl Assertion_failed \<Rightarrow>
          (\<forall>k \<in> free_keys self. k < unat key) \<or> fm_count self = 1 \<and> unat key \<in> free_keys self)"

definition insert_place :: "FreeMap \<Rightarrow> u32 \<Rightarrow> nat \<Rightarrow> bool" where
  "insert_place self key i \<longleftrightarrow>
     key < iv_from (fm_map self ! i) \<and> (i = 0 \<or> key > iv_to (fm_map self ! (i - 1)))"

lemma key_pred_iff: "(k :: u32) < a \<Longrightarrow> k = a - 1 \<longleftrightarrow> unat k + 1 = unat a"
  using unat_pred [of k a] by (auto simp: word_unat_eq_iff word_less_nat_alt)

lemma key_succ_iff: "(a :: u32) < k \<Longrightarrow> k = a + 1 \<longleftrightarrow> unat k = unat a + 1"
  using unat_succ [of a k] by (auto simp: word_unat_eq_iff)

lemma memmove_merge:
  assumes "i < n" "n \<le> length xs"
  shows "memmove xs i (i + 1) (n - 1 - i) = Inr (take i xs @ drop (i + 1) (take n xs) @ drop (n - 1) xs)"
proof -
  have "take (n - 1 - i) (drop (i + 1) xs) = drop (i + 1) (take n xs)" by (simp add: drop_take)
  then show ?thesis using assms by (simp add: memmove_def)
qed

lemma quick_merge:
  assumes "fm_last self = Suc j" "Suc j < fm_count self" "fm_map self ! Suc j = e" "fm_map self ! j = p"
    "Suc j < length (fm_map self)"
    "iv_from e - 1 = key" "key - 1 = iv_to p" "key < iv_from e" "iv_to p < key"
    "memmove ((fm_map self)[Suc j := e\<lparr>iv_from := key\<rparr>, j := p\<lparr>iv_to := iv_to e\<rparr>]) (Suc j) (Suc (Suc j))
       (fm_count self - Suc (Suc j)) = Inr ys"
  shows "fmapInsertQuick self key =
    Inr (self\<lparr>fm_map := ys, fm_count := fm_count self - 1,
           fm_last := (if Suc j \<ge> fm_count self - 1 then j else Suc j)\<rparr>, True)"
proof -
  have "j < fm_count self - 1" using assms(2) by simp
  then show ?thesis using assms(2,5) by (auto simp: fmapInsertQuick_def Let_def assms nth_list_update)
qed

lemma insert_quick:
  assumes ok: "fm_ok self"
  shows "case fmapInsertQuick self key of
      Inr (self', True) \<Rightarrow> inserted self (unat key) self' \<and> unat key \<notin> free_keys self \<and> insert_place self key (fm_last self)
    | Inr (self', False) \<Rightarrow> self' = self \<and> \<not> insert_place self key (fm_last self)
    | Inl _ \<Rightarrow> False"
proof (cases "insert_place self key (fm_last self)")
  case False
  then have "fmapInsertQuick self key = Inr (self, False)"
    using ok unfolding fmapInsertQuick_def Let_def insert_place_def [symmetric] fm_ok_def
    by (simp only: if_False if_True simp_thms)
  then show ?thesis using False by simp
next
  case pl: True
  let ?i = "fm_last self" and ?k = "unat key"
  have ok': "length (fm_map self) = fm_capacity self" "fm_count self \<le> fm_capacity self" "?i < fm_count self"
    "ivs_ok (ivs self)" using ok by (simp_all add: fm_ok_def)
  obtain A B where s: "ivs self = A @ fm_map self ! ?i # B" "length A = ?i" "A = take ?i (fm_map self)"
      "B = drop (?i + 1) (ivs self)"
    using ivs_split [of ?i self] ok' by metis
  define e where "e = fm_map self ! ?i"
  have e: "ivs self = A @ e # B" using s e_def by simp
  have oke: "ivs_ok (A @ e # B)" using ok'(4) e by simp
  have ke: "?k < unat (iv_from e)" "unat (iv_from e) \<le> unat (iv_to e)"
    using pl oke by (simp_all add: insert_place_def e_def word_less_nat_alt word_le_nat_alt)
  have res: ?thesis if "fmapInsertQuick self key = Inr (self', True)" "ivs_ok (ivs self')"
      "keys (ivs self') = insert ?k (keys (A @ e # B))" "?k \<notin> keys (A @ e # B)"
      "length (fm_map self') = fm_capacity self'" "fm_count self' \<le> fm_capacity self'" "fm_last self' < fm_count self'"
      "fm_capacity self \<le> fm_capacity self'" for self'
    using that pl by (simp add: inserted_def fm_ok_def free_keys_def e)
  have notB: "?k \<notin> keys B" "?k \<notin> iv_keys e"
    using oke ke by (fastforce simp: keys_def iv_keys_def gap_def)+
  show ?thesis
  proof (cases "?i = 0")
    case i0: True
    then have A: "A = []" using s(2) by simp
    show ?thesis
    proof (cases "?k + 1 = unat (iv_from e)")
      case True
      let ?s = "self\<lparr>fm_map := (fm_map self)[?i := e\<lparr>iv_from := iv_from e - 1\<rparr>]\<rparr>"
      have key: "key = iv_from e - 1" using True key_pred_iff [of key "iv_from e"] ke(1) by (simp add: word_less_nat_alt)
      have i: "ivs ?s = e\<lparr>iv_from := key\<rparr> # B"
        unfolding ivs_update [OF ok'(3)] e using A i0 key by simp
      show ?thesis
      proof (rule res [of ?s])
        show "fmapInsertQuick self key = Inr (?s, True)"
          using pl ok'(3) key i0 by (simp add: fmapInsertQuick_def Let_def e_def insert_place_def)
        show "ivs_ok (ivs ?s)" using oke ke A unfolding i by (simp add: gap_def word_le_nat_alt)
        show "keys (ivs ?s) = insert ?k (keys (A @ e # B))"
          using True ke unfolding i A by (auto simp: iv_keys_def)
      qed (use notB A ok' in simp_all)
    next
      case False
      then have key: "key \<noteq> iv_from e - 1" using key_pred_iff [of key "iv_from e"] ke(1) by (simp add: word_less_nat_alt)
      obtain s2 where s2: "fmapInsertEntry self ?i = Inr s2" "ivs s2 = A @ e # e # B" "fm_count s2 = fm_count self + 1"
          "fm_last s2 = ?i" "length (fm_map s2) = fm_capacity s2" "fm_count s2 \<le> fm_capacity s2" "fm_capacity self \<le> fm_capacity s2"
        by (rule insert_entry [OF ok'(1-3) e s(2)])
      let ?s = "s2\<lparr>fm_map := (fm_map s2)[?i := \<lparr>iv_from = key, iv_to = key\<rparr>]\<rparr>"
      have i: "ivs ?s = A @ \<lparr>iv_from = key, iv_to = key\<rparr> # e # B"
        using ivs_update [of ?i s2] s2(2,3) ok'(3) s(2) by (simp add: list_update_append)
      show ?thesis
      proof (rule res [of ?s])
        show "fmapInsertQuick self key = Inr (?s, True)"
          using pl ok'(3) key i0 s2(1) by (simp add: fmapInsertQuick_def Let_def e_def insert_place_def)
        show "ivs_ok (ivs ?s)" using oke ke A False unfolding i by (auto simp: gap_def)
        show "keys (ivs ?s) = insert ?k (keys (A @ e # B))" unfolding i by (auto simp: iv_keys_def)
      qed (use notB A ok' s2 in simp_all)
    qed
  next
    case i0: False
    then obtain A0 p where A: "A = A0 @ [p]" using s(2) by (metis length_0_conv rev_exhaust)
    have p: "p = fm_map self ! (?i - 1)" using s(2,3) ok' i0 A
      by (metis append_is_Nil_conv diff_less last_conv_nth last_snoc list.distinct(1) neq0_conv nth_take zero_less_one)
    have kp: "unat (iv_to p) < ?k" "unat (iv_from p) \<le> unat (iv_to p)" "iv_to p < key"
      using pl oke i0 by (auto simp: insert_place_def p A word_less_nat_alt word_le_nat_alt)
    have notA: "?k \<notin> keys A" using kp oke A by (fastforce simp: keys_def iv_keys_def gap_def)
    have L: "?i = Suc (length A0)" using s(2) A by simp
    have predk: "key - 1 = iv_to p \<longleftrightarrow> ?k = unat (iv_to p) + 1"
      using unat_pred [OF kp(3)] kp(1) by (auto simp: word_unat_eq_iff)
    show ?thesis
    proof (cases "?k + 1 = unat (iv_from e)")
      case True
      have key: "key = iv_from e - 1" using True key_pred_iff [of key "iv_from e"] ke(1) by (simp add: word_less_nat_alt)
      show ?thesis
      proof (cases "?k = unat (iv_to p) + 1")
        case merge: True
        let ?xs = "(fm_map self)[?i := e\<lparr>iv_from := key\<rparr>, ?i - 1 := p\<lparr>iv_to := iv_to e\<rparr>]"
        let ?ys = "take ?i ?xs @ drop (?i + 1) (take (fm_count self) ?xs) @ drop (fm_count self - 1) ?xs"
        define s1 where "s1 = self\<lparr>fm_map := ?ys, fm_count := fm_count self - 1,
          fm_last := (if ?i \<ge> fm_count self - 1 then ?i - 1 else ?i)\<rparr>"
        have t: "take (fm_count self) ?xs = A0 @ p\<lparr>iv_to := iv_to e\<rparr> # e\<lparr>iv_from := key\<rparr> # B"
          using e A L s(2) i0 by (simp add: take_update_swap ivs_def [symmetric] list_update_append)
        have l: "length ?xs = fm_capacity self" using ok' by simp
        have ti: "take ?i ?xs = A0 @ [p\<lparr>iv_to := iv_to e\<rparr>]"
        proof -
          have "take ?i ?xs = take ?i (take (fm_count self) ?xs)" using ok'(3) by (simp add: min_def)
          then show ?thesis unfolding t using L i0 by simp
        qed
        have di: "drop (?i + 1) (take (fm_count self) ?xs) = B" unfolding t using L i0 by simp
        have cnt: "fm_count self = length A0 + 2 + length B" using length_ivs [OF ok] e A by simp
        have i: "ivs s1 = A0 @ p\<lparr>iv_to := iv_to e\<rparr> # B"
          unfolding s1_def ivs_def ti di using cnt by simp
        show ?thesis
        proof (rule res [of s1])
          have E: "fm_map self ! Suc (length A0) = e" "fm_map self ! length A0 = p" using L p by (simp_all add: e_def)
          have K: "iv_from e - 1 = key" "key - 1 = iv_to p" "key < iv_from e" "iv_to p < key"
            using key merge predk kp pl by (simp_all add: insert_place_def e_def)
          have len: "Suc (length A0) < length (fm_map self)" "Suc (length A0) < fm_count self" using ok' L by simp_all
          have M: "memmove ?xs ?i (?i + 1) (fm_count self - 1 - ?i) = Inr ?ys"
            using l ok' by (intro memmove_merge) simp_all
          then have "memmove ((fm_map self)[Suc (length A0) := e\<lparr>iv_from := key\<rparr>, length A0 := p\<lparr>iv_to := iv_to e\<rparr>])
              (Suc (length A0)) (Suc (Suc (length A0))) (fm_count self - Suc (Suc (length A0))) = Inr ?ys"
            unfolding L by simp
          from quick_merge [OF L len(2) E len(1) K this] show "fmapInsertQuick self key = Inr (s1, True)"
            unfolding s1_def L by simp
          show "ivs_ok (ivs s1)" using oke ke A kp unfolding i by (fastforce simp: gap_def word_le_nat_alt)
          show "keys (ivs s1) = insert ?k (keys (A @ e # B))"
            using True merge ke kp unfolding i A by (auto simp: iv_keys_def)
          show "length (fm_map s1) = fm_capacity s1" using l ok' by (simp add: s1_def)
          show "?k \<notin> keys (A @ e # B)" using notA notB by simp
        qed (use ok' cnt L i0 in \<open>auto simp: s1_def\<close>)
      next
        case nomerge: False
        let ?s = "self\<lparr>fm_map := (fm_map self)[?i := e\<lparr>iv_from := iv_from e - 1\<rparr>]\<rparr>"
        have i: "ivs ?s = A @ e\<lparr>iv_from := key\<rparr> # B"
          unfolding ivs_update [OF ok'(3)] e using s(2) key by (simp add: list_update_append)
        show ?thesis
        proof (rule res [of ?s])
          show "fmapInsertQuick self key = Inr (?s, True)"
            using pl ok' key i0 p nomerge predk
            by (simp add: fmapInsertQuick_def Let_def e_def [symmetric] insert_place_def)
          show "ivs_ok (ivs ?s)" using oke ke kp nomerge unfolding i A by (fastforce simp: gap_def word_le_nat_alt)
          show "keys (ivs ?s) = insert ?k (keys (A @ e # B))"
            using True ke unfolding i by (auto simp: iv_keys_def)
          show "?k \<notin> keys (A @ e # B)" using notA notB by simp
        qed (use ok' in simp_all)
      qed
    next
      case False
      then have key: "key \<noteq> iv_from e - 1" using key_pred_iff [of key "iv_from e"] ke(1) by (simp add: word_less_nat_alt)
      show ?thesis
      proof (cases "?k = unat (iv_to p) + 1")
        case True
        then have key2: "key = iv_to p + 1" using key_succ_iff [OF kp(3)] by simp
        let ?s = "self\<lparr>fm_map := (fm_map self)[?i - 1 := p\<lparr>iv_to := iv_to p + 1\<rparr>]\<rparr>"
        have i: "ivs ?s = A0 @ p\<lparr>iv_to := key\<rparr> # e # B"
          using ivs_update [of "?i - 1" self] e A L ok'(3) key2 by (simp add: list_update_append)
        show ?thesis
        proof (rule res [of ?s])
          show "fmapInsertQuick self key = Inr (?s, True)"
            using pl ok'(3) key i0 p key2
            by (simp add: fmapInsertQuick_def Let_def e_def [symmetric] insert_place_def)
          show "ivs_ok (ivs ?s)" using oke ke kp False unfolding i A by (fastforce simp: gap_def word_le_nat_alt)
          show "keys (ivs ?s) = insert ?k (keys (A @ e # B))"
            using True kp unfolding i A by (auto simp: iv_keys_def)
          show "?k \<notin> keys (A @ e # B)" using notA notB by simp
        qed (use ok' in simp_all)
      next
        case nk: False
        then have key2: "key \<noteq> iv_to p + 1" using key_succ_iff [OF kp(3)] by simp
        obtain s2 where s2: "fmapInsertEntry self ?i = Inr s2" "ivs s2 = A @ e # e # B" "fm_count s2 = fm_count self + 1"
            "fm_last s2 = ?i" "length (fm_map s2) = fm_capacity s2" "fm_count s2 \<le> fm_capacity s2" "fm_capacity self \<le> fm_capacity s2"
          by (rule insert_entry [OF ok'(1-3) e s(2)])
        let ?s = "s2\<lparr>fm_map := (fm_map s2)[?i := \<lparr>iv_from = key, iv_to = key\<rparr>]\<rparr>"
        have i: "ivs ?s = A @ \<lparr>iv_from = key, iv_to = key\<rparr> # e # B"
          using ivs_update [of ?i s2] s2(2,3) ok'(3) s(2) by (simp add: list_update_append)
        show ?thesis
        proof (rule res [of ?s])
          show "fmapInsertQuick self key = Inr (?s, True)"
            using pl ok'(3) key key2 i0 s2(1) p by (simp add: fmapInsertQuick_def Let_def e_def [symmetric] insert_place_def)
          show "ivs_ok (ivs ?s)" using oke ke kp A False nk unfolding i A by (fastforce simp: gap_def)
          show "keys (ivs ?s) = insert ?k (keys (A @ e # B))" unfolding i by (auto simp: iv_keys_def)
          show "?k \<notin> keys (A @ e # B)" using notA notB by simp
        qed (use ok' s2 in simp_all)
      qed
    qed
  qed
qed

lemma ivs_order:
  assumes ok: "fm_ok self" and ij: "i \<le> j" "j < fm_count self"
  shows "unat (iv_to (fm_map self ! i)) \<le> unat (iv_to (fm_map self ! j))"
    "unat (iv_from (fm_map self ! i)) \<le> unat (iv_from (fm_map self ! j))"
    "unat (iv_from (fm_map self ! i)) \<le> unat (iv_to (fm_map self ! j))"
proof -
  have "unat (iv_from (fm_map self ! i)) \<le> unat (iv_to (fm_map self ! i))"
    "unat (iv_from (fm_map self ! j)) \<le> unat (iv_to (fm_map self ! j))"
    using ivs_ok_nth(1) [OF ok, of i] ivs_ok_nth(1) [OF ok, of j] ij by (simp_all add: word_le_nat_alt)
  moreover have "i = j \<or> unat (iv_to (fm_map self ! i)) + 1 < unat (iv_from (fm_map self ! j))"
    using ivs_ok_nth(2) [OF ok ij(2), of i] ij(1) by (cases "i = j") simp_all
  ultimately show "unat (iv_to (fm_map self ! i)) \<le> unat (iv_to (fm_map self ! j))"
    "unat (iv_from (fm_map self ! i)) \<le> unat (iv_from (fm_map self ! j))"
    "unat (iv_from (fm_map self ! i)) \<le> unat (iv_to (fm_map self ! j))" by (elim disjE; simp)+
qed

lemma insert_place_iff:
  assumes ok: "fm_ok self" and i: "i < fm_count self" and pl: "insert_place self key i"
  shows "unat key \<notin> free_keys self"
proof
  assume "unat key \<in> free_keys self"
  then obtain j where j: "j < fm_count self" "unat (iv_from (fm_map self ! j)) \<le> unat key" "unat key \<le> unat (iv_to (fm_map self ! j))"
    using free_keys_iff [OF ok] by blast
  have k: "unat key < unat (iv_from (fm_map self ! i))" using pl by (simp add: insert_place_def word_less_nat_alt)
  consider "j < i" | "j = i" | "i < j" by linarith
  then show False
  proof cases
    case 1
    then have "i > 0" "unat (iv_to (fm_map self ! (i - 1))) < unat key"
      using pl by (auto simp: insert_place_def word_less_nat_alt)
    moreover have "unat (iv_to (fm_map self ! j)) \<le> unat (iv_to (fm_map self ! (i - 1)))"
      by (rule ivs_order(1) [OF ok]) (use 1 i in simp_all)
    ultimately show False using j(3) by simp
  next
    case 2
    then show False using k j(2) by simp
  next
    case 3
    then show False using ivs_ok_nth(2) [OF ok j(1) 3] ivs_ok_nth(1) [OF ok i] k j(2) by (simp add: word_le_nat_alt)
  qed
qed

lemma sorted_cmpkeyi:
  assumes ok: "fm_ok self"
  shows "sorted_cmp (cmpkeyi key (fm_map self)) 1 (fm_count self)"
  unfolding sorted_cmp_def
proof (intro allI impI)
  fix i j assume ij: "1 \<le> i \<and> i < j \<and> j < fm_count self"
  have j1: "i \<le> j - 1" "j - 1 < fm_count self" "i < fm_count self" "i - 1 < i" "i - 1 \<le> j - 1" using ij by auto
  have a: "unat (iv_from (fm_map self ! i)) \<le> unat (iv_from (fm_map self ! j))"
    using ij by (intro ivs_order(2) [OF ok]) simp_all
  have b: "unat (iv_to (fm_map self ! (i - 1))) \<le> unat (iv_to (fm_map self ! (j - 1)))"
    by (rule ivs_order(1) [OF ok j1(5,2)])
  have c: "unat (iv_to (fm_map self ! (i - 1))) < unat (iv_from (fm_map self ! i))"
    using ivs_ok_nth(2) [OF ok j1(3,4)] by simp
  have d: "unat (iv_to (fm_map self ! (j - 1))) < unat (iv_from (fm_map self ! j))"
    using ivs_ok_nth(2) [OF ok, of j "j - 1"] ij by simp
  have e: "unat (iv_from (fm_map self ! i)) \<le> unat (iv_to (fm_map self ! (j - 1)))"
    by (rule ivs_order(3) [OF ok j1(1,2)])
  show "(0 < cmpkeyi key (fm_map self) j \<longrightarrow> 0 < cmpkeyi key (fm_map self) i) \<and>
      (cmpkeyi key (fm_map self) i < 0 \<longrightarrow> cmpkeyi key (fm_map self) j < 0)"
    using a b c d e by (auto simp: cmpkeyi_def word_less_nat_alt)
qed

lemma insert_last:
  assumes ok: "fm_ok self" and p: "p < fm_count self"
  shows "if insert_place self key p
    then \<exists>s. fmapInsertQuick (self\<lparr>fm_last := p\<rparr>) key = Inr (s, True) \<and> insert_result self key (Inr (s, True))
    else fmapInsertQuick (self\<lparr>fm_last := p\<rparr>) key = Inr (self\<lparr>fm_last := p\<rparr>, False)"
proof -
  obtain x where x: "fmapInsertQuick (self\<lparr>fm_last := p\<rparr>) key = Inr x"
    using insert_quick [OF fm_ok_last [OF ok p], of key] by (auto split: sum.splits)
  obtain s b where s: "x = (s, b)" by (cases x)
  show ?thesis
    using insert_quick [OF fm_ok_last [OF ok p], of key] unfolding x s
    by (cases b) (auto simp: insert_place_def insert_result_def inserted_def)
qed

lemma fmapInsert_result:
  assumes ok: "fm_ok self"
  shows "insert_result self key (fmapInsert self key)"
proof (cases "insert_place self key (fm_last self)")
  case True
  then show ?thesis using insert_last [OF ok, of "fm_last self" key] ok by (auto simp: fmapInsert_def fm_ok_def)
next
  case False
  then have q: "fmapInsertQuick self key = Inr (self, False)"
    using insert_last [OF ok, of "fm_last self" key] ok by (simp add: fm_ok_def)
  have n: "0 < fm_count self" using ok by (simp add: fm_ok_def)
  show ?thesis
  proof (cases "key < iv_from (fm_map self ! 0)")
    case True
    then have "insert_place self key 0" by (simp add: insert_place_def)
    then show ?thesis using insert_last [OF ok n, of key] q True by (auto simp: fmapInsert_def)
  next
    case lo: False
    show ?thesis
    proof (cases "key \<le> iv_to (fm_map self ! (fm_count self - 1))")
      case hi: False
      have "k < unat key" if kf: "k \<in> free_keys self" for k
      proof -
        obtain i where i: "i < fm_count self" "k \<le> unat (iv_to (fm_map self ! i))" using kf by (auto simp: free_keys_iff [OF ok])
        have "unat (iv_to (fm_map self ! i)) \<le> unat (iv_to (fm_map self ! (fm_count self - 1)))"
          by (rule ivs_order(1) [OF ok]) (use i(1) in simp_all)
        then show ?thesis using hi i(2) by (simp add: word_le_nat_alt)
      qed
      then show ?thesis using hi lo q by (simp add: fmapInsert_def insert_result_def)
    next
      case hi: True
      show ?thesis
      proof (cases "fm_count self \<ge> 2")
        case one: False
        then have "fm_count self = 1" using n by simp
        moreover from this have "unat key \<in> free_keys self"
          using hi lo unfolding free_keys_iff [OF ok] by (intro exI [of _ 0]) (simp add: word_le_nat_alt word_less_nat_alt)
        ultimately show ?thesis using q lo hi by (simp add: fmapInsert_def insert_result_def)
      next
        case two: True
        show ?thesis
        proof (cases "bsearch (cmpkeyi key (fm_map self)) 1 (fm_count self)")
          case None
          then have no: "cmpkeyi key (fm_map self) i \<noteq> 0" if "1 \<le> i" "i < fm_count self" for i
            using that bsearch_found [OF sorted_cmpkeyi [OF ok, of key]] by (simp add: found_def)
          have "unat key \<in> free_keys self"
          proof (rule ccontr)
            assume nf: "unat key \<notin> free_keys self"
            have out: "\<not> (unat (iv_from (fm_map self ! i)) \<le> unat key \<and> unat key \<le> unat (iv_to (fm_map self ! i)))"
              if "i < fm_count self" for i
              using nf that unfolding free_keys_iff [OF ok] by blast
            have "\<forall>i < fm_count self. iv_to (fm_map self ! i) < key"
            proof (intro allI impI)
              fix i assume "i < fm_count self"
              then show "iv_to (fm_map self ! i) < key"
              proof (induction i)
                case 0
                then show ?case using out [of 0] lo n by (simp add: word_less_nat_alt not_less not_le)
              next
                case (Suc i)
                then have "iv_from (fm_map self ! Suc i) < key"
                  using no [of "Suc i"] by (auto simp: cmpkeyi_def split: if_splits)
                then show ?case using out [of "Suc i"] Suc.prems by (auto simp: word_less_nat_alt not_less not_le)
              qed
            qed
            then show False using hi n by (meson diff_less not_le zero_less_one)
          qed
          moreover have "fmapInsert self key = Inr (self, False)" using q lo hi two None by (simp add: fmapInsert_def)
          ultimately show ?thesis using ok by (auto simp: insert_result_def inserted_def)
        next
          case (Some p)
          then have p: "1 \<le> p" "p < fm_count self" "cmpkeyi key (fm_map self) p = 0"
            using bsearch_found [OF sorted_cmpkeyi [OF ok, of key]] by (auto simp: found_def)
          have eq: "fmapInsert self key = fmapInsertQuick (self\<lparr>fm_last := p\<rparr>) key"
            using q lo hi two Some by (simp add: fmapInsert_def)
          show ?thesis
          proof (cases "insert_place self key p")
            case True
            then show ?thesis using insert_last [OF ok p(2), of key] eq by auto
          next
            case False
            then have "key = iv_from (fm_map self ! p) \<or> key = iv_to (fm_map self ! (p - 1))"
              using p(1,3) by (auto simp: insert_place_def cmpkeyi_def split: if_splits)
            then have "unat key \<in> free_keys self"
              using p(1,2) ivs_ok_nth(1) [OF ok p(2)] ivs_ok_nth(1) [OF ok, of "p - 1"] unfolding free_keys_iff [OF ok]
              by (auto simp: word_le_nat_alt intro: exI [of _ p] exI [of _ "p - 1"])
            then show ?thesis using insert_last [OF ok p(2), of key] eq False fm_ok_last [OF ok p(2)]
              by (auto simp: insert_result_def inserted_def)
          qed
        qed
      qed
    qed
  qed
qed

end
