(* ===== verification/FreemapProps.thy ===== *)
theory FreemapProps
  imports FreemapOps
begin

text \<open>
  Ranges of free keys, the locale \<open>range_allocator\<close> (what a client that takes ranges relies on) with its
  interpretation, and the properties of the map of free records.
\<close>

section \<open>Ranges of keys\<close>

definition delete_range_result :: "FreeMap \<Rightarrow> u32 \<Rightarrow> u32 \<Rightarrow> fm_error + FreeMap \<Rightarrow> bool" where
  "delete_range_result self key0 key1 r \<longleftrightarrow>
     (case r of
        Inr self' \<Rightarrow> fm_ok self' \<and> free_keys self' = free_keys self - {unat key0..unat key1}
      | Inl Outside_map \<Rightarrow> fm_capacity self \<le> fm_count self + of_bool (unat key0 \<noteq> 0 \<and> unat key0 - 1 \<in> free_keys self)
      | Inl Assertion_failed \<Rightarrow> free_keys self \<subseteq> {unat key0..unat key1})"

lemma delete_range_loop_result:
  "fm_ok self \<Longrightarrow> key0 \<le> key1 \<Longrightarrow> delete_range_result self key0 key1 (delete_range_loop self key0 key1)"
proof (induction self key0 key1 rule: delete_range_loop.induct)
  case (1 self key0 key1)
  note d = fmapDelete_result [OF "1.prems"(1)]
  show ?case
  proof (cases "key0 = key1")
    case True
    then show ?thesis using d [of key1]
      by (subst delete_range_loop.simps)
        (auto simp: delete_range_result_def delete_result_def deleted_def split: sum.splits prod.splits fm_error.splits)
  next
    case False
    then have lt: "key0 < key1" using "1.prems"(2) by simp
    have s: "unat (key0 + 1) = unat key0 + 1" by (rule unat_succ [OF lt])
    have le: "key0 + 1 \<le> key1" using lt s by (simp add: word_le_nat_alt word_less_nat_alt)
    have iv: "{unat key0..unat key1} = insert (unat key0) {unat key0 + 1..unat key1}"
      using lt by (auto simp: word_less_nat_alt)
    show ?thesis
    proof (cases "fmapDelete self key0")
      case (Inl e)
      then show ?thesis using d [of key0] lt False
        by (subst delete_range_loop.simps)
          (auto simp: delete_range_result_def delete_result_def word_less_nat_alt split: fm_error.splits)
    next
      case (Inr x)
      obtain s1 b where x: "fmapDelete self key0 = Inr (s1, b)" using Inr by (cases x) auto
      then have del: "deleted self (unat key0) s1" using d [of key0] by (simp add: delete_result_def)
      then have ok: "fm_ok s1" by (simp add: deleted_def)
      have r: "delete_range_result s1 (key0 + 1) key1 (delete_range_loop s1 (key0 + 1) key1)"
        using "1.IH" [OF False x refl ok le] .
      have eq: "delete_range_loop self key0 key1 = delete_range_loop s1 (key0 + 1) key1"
        using False x by (subst delete_range_loop.simps) simp
      have nf: "unat key0 \<notin> free_keys s1" using del by (simp add: deleted_def)
      show ?thesis
      proof (cases "delete_range_loop s1 (key0 + 1) key1")
        case (Inr s2)
        then show ?thesis using r del unfolding eq by (auto simp: delete_range_result_def deleted_def s iv)
      next
        case (Inl e)
        show ?thesis
        proof (cases e)
          case Assertion_failed
          then show ?thesis using r del Inl unfolding eq by (auto simp: delete_range_result_def deleted_def s iv)
        next
          case Outside_map
          then show ?thesis using r del nf Inl unfolding eq by (simp add: delete_range_result_def deleted_def s)
        qed
      qed
    qed
  qed
qed

lemma range_in_one:
  assumes ok: "fm_ok self" and sub: "{a..b} \<subseteq> free_keys self" and ab: "a \<le> b"
  shows "\<exists>i < fm_count self. unat (iv_from (fm_map self ! i)) \<le> a \<and> b \<le> unat (iv_to (fm_map self ! i))"
proof -
  obtain i where i: "i < fm_count self" "unat (iv_from (fm_map self ! i)) \<le> a" "a \<le> unat (iv_to (fm_map self ! i))"
    using sub ab unfolding subset_iff free_keys_iff [OF ok] by fastforce
  have "b \<le> unat (iv_to (fm_map self ! i))"
  proof (rule ccontr)
    let ?t = "unat (iv_to (fm_map self ! i)) + 1"
    assume "\<not> ?thesis"
    then have "?t \<in> free_keys self" using sub i(3) by auto
    then obtain j where j: "j < fm_count self" "unat (iv_from (fm_map self ! j)) \<le> ?t" "?t \<le> unat (iv_to (fm_map self ! j))"
      unfolding free_keys_iff [OF ok] by blast
    consider "j < i" | "j = i" | "i < j" by linarith
    then show False
    proof cases
      case 1
      then show False using ivs_order(1) [OF ok _ i(1), of j] j(3) by simp
    next
      case 3
      then show False using ivs_ok_nth(2) [OF ok j(1) 3] j(2) by simp
    qed (use j in simp)
  qed
  then show ?thesis using i by blast
qed

definition fits :: "FreeMap \<Rightarrow> nat \<Rightarrow> nat \<Rightarrow> nat \<Rightarrow> bool" where
  "fits self minr cnt r \<longleftrightarrow> minr \<le> r \<and> {r..<r + cnt} \<subseteq> free_keys self"

definition lowest_fit :: "FreeMap \<Rightarrow> nat \<Rightarrow> nat \<Rightarrow> nat \<Rightarrow> bool" where
  "lowest_fit self minr cnt q \<longleftrightarrow> fits self minr cnt q \<and> (\<forall>p < q. \<not> fits self minr cnt p)"

text \<open>The range is a whole interval, whose entry has to be removed.\<close>

definition whole :: "FreeMap \<Rightarrow> nat \<Rightarrow> nat \<Rightarrow> bool" where
  "whole self cnt q \<longleftrightarrow> (q = 0 \<or> q - 1 \<notin> free_keys self) \<and> q + cnt \<notin> free_keys self"

definition range_result :: "FreeMap \<Rightarrow> nat \<Rightarrow> nat \<Rightarrow> fm_error + (FreeMap \<times> u32 option) \<Rightarrow> bool" where
  "range_result self minr cnt res \<longleftrightarrow>
     (if \<forall>q. \<not> fits self minr cnt q then res = Inr (self, None)
      else \<exists>q. lowest_fit self minr cnt q \<and>
        (if whole self cnt q \<and> fm_count self = fm_capacity self then res = Inl Outside_map
         else if whole self cnt q \<and> free_keys self \<subseteq> {..<q + cnt} then res = Inl Assertion_failed
         else \<exists>self' r. res = Inr (self', Some r) \<and> unat r = q \<and> fm_ok self' \<and>
           free_keys self' = free_keys self - {q..<q + cnt} \<and> fm_capacity self \<le> fm_capacity self'))"

lemma range_resultI:
  assumes "fits self minr cnt q" "\<And>p. p < q \<Longrightarrow> \<not> fits self minr cnt p"
    "if whole self cnt q \<and> fm_count self = fm_capacity self then res = Inl Outside_map
     else if whole self cnt q \<and> free_keys self \<subseteq> {..<q + cnt} then res = Inl Assertion_failed
     else \<exists>self' r. res = Inr (self', Some r) \<and> unat r = q \<and> fm_ok self' \<and>
       free_keys self' = free_keys self - {q..<q + cnt} \<and> fm_capacity self \<le> fm_capacity self'"
  shows "range_result self minr cnt res"
proof -
  have l: "lowest_fit self minr cnt q" using assms(1,2) by (simp add: lowest_fit_def)
  then have "\<not> (\<forall>q. \<not> fits self minr cnt q)" using assms(1) by blast
  then show ?thesis unfolding range_result_def using l assms(3) by (simp only: if_False) blast
qed

lemma range_gotI:
  assumes "fits self minr cnt q" "\<And>p. p < q \<Longrightarrow> \<not> fits self minr cnt p" "\<not> whole self cnt q"
    "unat r = q" "fm_ok s1 \<and> free_keys s1 = free_keys self - {q..<q + cnt}" "fm_capacity self \<le> fm_capacity s1"
  shows "range_result self minr cnt (Inr (s1, Some r))"
  by (rule range_resultI [OF assms(1,2)]) (use assms(3-6) in auto)

lemma interval_ends:
  assumes ok: "fm_ok self" and i: "i < fm_count self"
  shows "unat (iv_to (fm_map self ! i)) + 1 \<notin> free_keys self"
    "unat (iv_from (fm_map self ! i)) = 0 \<or> unat (iv_from (fm_map self ! i)) - 1 \<notin> free_keys self"
proof -
  note lt = ivs_ok_nth(2) [OF ok]
  show "unat (iv_to (fm_map self ! i)) + 1 \<notin> free_keys self"
  proof
    assume "unat (iv_to (fm_map self ! i)) + 1 \<in> free_keys self"
    then obtain j where j: "j < fm_count self" "unat (iv_from (fm_map self ! j)) \<le> unat (iv_to (fm_map self ! i)) + 1"
        "unat (iv_to (fm_map self ! i)) + 1 \<le> unat (iv_to (fm_map self ! j))" unfolding free_keys_iff [OF ok] by blast
    then have "\<not> i < j" "\<not> j \<le> i" using lt [OF j(1), of i] ivs_order(1) [OF ok _ i, of j] by linarith+
    then show False by simp
  qed
  show "unat (iv_from (fm_map self ! i)) = 0 \<or> unat (iv_from (fm_map self ! i)) - 1 \<notin> free_keys self"
  proof (rule ccontr)
    assume a: "\<not> ?thesis"
    then obtain j where j: "j < fm_count self" "unat (iv_from (fm_map self ! j)) \<le> unat (iv_from (fm_map self ! i)) - 1"
        "unat (iv_from (fm_map self ! i)) - 1 \<le> unat (iv_to (fm_map self ! j))" unfolding free_keys_iff [OF ok] by blast
    then have "\<not> j < i" "\<not> i \<le> j" using lt [OF i, of j] ivs_order(2) [OF ok _ j(1), of i] a by linarith+
    then show False by simp
  qed
qed

definition room :: "Interval \<Rightarrow> nat \<Rightarrow> nat \<Rightarrow> bool" where
  "room e minr cnt \<longleftrightarrow> max minr (unat (iv_from e)) + cnt \<le> unat (iv_to e) + 1"

lemma fits_room:
  assumes ok: "fm_ok self" and c: "0 < cnt" and f: "fits self minr cnt q"
  shows "\<exists>i < fm_count self. room (fm_map self ! i) minr cnt \<and> max minr (unat (iv_from (fm_map self ! i))) \<le> q"
proof -
  have "{q..q + cnt - 1} = {q..<q + cnt}" using c by auto
  then have "{q..q + cnt - 1} \<subseteq> free_keys self" using f by (simp add: fits_def)
  moreover have "q \<le> q + cnt - 1" using c by simp
  ultimately obtain i where "i < fm_count self" "unat (iv_from (fm_map self ! i)) \<le> q"
      "q + cnt - 1 \<le> unat (iv_to (fm_map self ! i))"
    using range_in_one [OF ok] by blast
  then show ?thesis using f c by (intro exI [of _ i]) (auto simp: room_def fits_def)
qed

lemma room_fits:
  assumes ok: "fm_ok self" and i: "i < fm_count self" and r: "room (fm_map self ! i) minr cnt"
  shows "fits self minr cnt (max minr (unat (iv_from (fm_map self ! i))))"
proof -
  have "k \<in> free_keys self" if "max minr (unat (iv_from (fm_map self ! i))) \<le> k"
      "k < max minr (unat (iv_from (fm_map self ! i))) + cnt" for k
    unfolding free_keys_iff [OF ok] using that r i by (intro exI [of _ i]) (simp add: room_def)
  then show ?thesis by (auto simp: fits_def)
qed

lemma first_room:
  assumes ok: "fm_ok self" and i: "i < fm_count self" and c: "0 < cnt"
    and none: "\<forall>j < i. \<not> room (fm_map self ! j) minr cnt"
    and q: "q < max minr (unat (iv_from (fm_map self ! i)))"
  shows "\<not> fits self minr cnt q"
proof
  assume "fits self minr cnt q"
  then obtain j where j: "j < fm_count self" "room (fm_map self ! j) minr cnt" "max minr (unat (iv_from (fm_map self ! j))) \<le> q"
    using fits_room [OF ok c] by blast
  then have "i \<le> j" using none by (meson not_le)
  then have "unat (iv_from (fm_map self ! i)) \<le> unat (iv_from (fm_map self ! j))" using ivs_order(2) [OF ok _ j(1)] by blast
  then show False using j(3) q by (simp add: max_def split: if_splits)
qed

lemma unat_add_fits: "unat a + unat b < 2 ^ 32 \<Longrightarrow> unat (a + b :: u32) = unat a + unat b"
  by (subst unat_add_lem [THEN iffD1]) simp_all

lemma unat_sub_u32: "b \<le> a \<Longrightarrow> unat (a - b :: u32) = unat a - unat b"
  by (rule unat_sub)

lemma unat_less_u32: "unat (a :: u32) < 4294967296"
  using unsigned_less [of a, where ?'a = nat] by simp

text \<open>Adding one on both sides of an equation does not matter, also where it wraps around.\<close>

lemma end_wraps:
  fixes a b c :: u32
  assumes "0 < c" "unat a + unat c \<le> unat b + 1"
  shows "a + c = b + 1 \<longleftrightarrow> unat a + unat c = unat b + 1"
proof -
  have "a + c = b + 1 \<longleftrightarrow> a + (c - 1) = b" by (simp add: algebra_simps eq_diff_eq)
  also have "... \<longleftrightarrow> unat (a + (c - 1)) = unat b" by (simp add: word_unat_eq_iff)
  also have "unat (a + (c - 1)) = unat a + (unat c - 1)"
  proof -
    have "unat (c - 1) = unat c - 1" using assms(1) by (intro unat_pred [of 0]) 
    moreover have "0 < unat c" using assms(1) by (simp add: word_less_nat_alt)
    ultimately show ?thesis using assms(2) unat_less_u32 [of b] by (subst unat_add_fits) simp_all
  qed
  also have "unat a + (unat c - 1) = unat b \<longleftrightarrow> unat a + unat c = unat b + 1"
    using assms(1) by (auto simp: word_less_nat_alt)
  finally show ?thesis .
qed

lemma length_ge_iff:
  fixes a b c :: u32
  assumes "a \<le> b" "0 < c"
  shows "c - 1 \<le> b - a \<longleftrightarrow> unat a + unat c \<le> unat b + 1"
proof -
  have "unat (c - 1) = unat c - 1" using assms(2) by (intro unat_pred [of 0])
  then show ?thesis using assms by (simp add: word_le_nat_alt unat_sub_u32 word_less_nat_alt) linarith
qed

lemma range_taken:
  assumes ok: "fm_ok self" and e: "ivs self = A @ e # B" and i': "ivs self' = A @ mid @ B" and m: "ivs_ok mid"
    and sub: "\<forall>f \<in> set mid. iv_from e \<le> iv_from f \<and> iv_to f \<le> iv_to e"
    and k: "keys mid = iv_keys e - {r..<r + n}" and r: "{r..<r + n} \<subseteq> iv_keys e"
    and cap: "length (fm_map self') = fm_capacity self'" "fm_count self' \<le> fm_capacity self'" "fm_last self' < fm_count self'"
  shows "fm_ok self' \<and> free_keys self' = free_keys self - {r..<r + n}"
proof -
  have oke: "ivs_ok (A @ e # B)" using ok e by (simp add: fm_ok_def)
  have "{r..<r + n} \<inter> keys A = {}" "{r..<r + n} \<inter> keys B = {}"
    using keys_gap(1,2) [OF oke] r by blast+
  then show ?thesis
    using ivs_replace [OF oke m sub] cap k i' e by (auto simp: fm_ok_def free_keys_def)
qed

lemma find_range_result:
  assumes ok: "fm_ok self" and c: "0 < cnt" and w: "unat minr + unat cnt \<noteq> 2 ^ 32"
  shows "i \<le> fm_count self \<Longrightarrow> \<forall>j < i. \<not> room (fm_map self ! j) (unat minr) (unat cnt) \<Longrightarrow>
    range_result self (unat minr) (unat cnt) (find_range_loop self minr cnt i)"
proof (induction "fm_count self - i" arbitrary: i)
  case 0
  then have "find_range_loop self minr cnt i = Inr (self, None)" by (subst find_range_loop.simps) simp
  moreover have "\<not> fits self (unat minr) (unat cnt) q" for q
    using fits_room [OF ok, of "unat cnt" "unat minr" q] 0 c by (auto simp: word_less_nat_alt)
  ultimately show ?case by (simp add: range_result_def)
next
  case (Suc n)
  then have i: "i < fm_count self" by simp
  have ok': "length (fm_map self) = fm_capacity self" "fm_count self \<le> fm_capacity self" "fm_last self < fm_count self"
    using ok by (simp_all add: fm_ok_def)
  define e where "e = fm_map self ! i"
  obtain A B where s: "ivs self = A @ e # B" "length A = i" "A = take i (fm_map self)" "B = drop (i + 1) (ivs self)"
    using ivs_split [of i self] ok' i unfolding e_def by metis
  have cc: "0 < unat cnt" using c by (simp add: word_less_nat_alt)
  have ab: "iv_from e \<le> iv_to e" using ivs_ok_nth(1) [OF ok i] by (simp add: e_def)
  note ab' = ab [unfolded word_le_nat_alt]
  have bl: "unat (iv_to e) < 4294967296" by (rule unat_less_u32)
  show ?case
  proof (cases "room e (unat minr) (unat cnt)")
    case False
    have "find_range_loop self minr cnt i = find_range_loop self minr cnt (i + 1)"
    proof (cases "minr \<le> iv_to e \<and> cnt - 1 \<le> iv_to e - iv_from e")
      case True
      then have "\<not> minr \<le> iv_from e" "\<not> cnt - 1 \<le> iv_to e - minr"
        using False length_ge_iff [OF ab c] length_ge_iff [of minr "iv_to e", OF _ c]
        by (auto simp: room_def word_le_nat_alt)
      then show ?thesis using i by (subst find_range_loop.simps) (simp add: Let_def e_def [symmetric])
    next
      case False
      then show ?thesis using i by (subst find_range_loop.simps) (auto simp: Let_def e_def [symmetric])
    qed
    moreover have "range_result self (unat minr) (unat cnt) (find_range_loop self minr cnt (i + 1))"
      using Suc.hyps(2) Suc.prems False i by (intro Suc.hyps(1)) (auto simp: less_Suc_eq e_def)
    ultimately show ?thesis by simp
  next
    case True
    then have rm: "unat minr + unat cnt \<le> unat (iv_to e) + 1" "unat (iv_from e) + unat cnt \<le> unat (iv_to e) + 1"
      by (simp_all add: room_def)
    have conds: "minr \<le> iv_to e" "cnt - 1 \<le> iv_to e - iv_from e"
      using rm cc length_ge_iff [OF ab c] by (auto simp: word_le_nat_alt)
    have first: "\<not> fits self (unat minr) (unat cnt) q" if "q < max (unat minr) (unat (iv_from e))" for q
      using first_room [OF ok i cc Suc.prems(2)] that by (simp add: e_def)
    have fit: "fits self (unat minr) (unat cnt) (max (unat minr) (unat (iv_from e)))"
      using room_fits [OF ok i] True by (simp add: e_def)
    show ?thesis
    proof (cases "minr \<le> iv_from e")
      case lo: True
      then have mx: "max (unat minr) (unat (iv_from e)) = unat (iv_from e)" by (simp add: word_le_nat_alt)
      let ?m = "e\<lparr>iv_from := iv_from e + cnt\<rparr>"
      note wr = end_wraps [OF c rm(2)]
      have sub: "{unat (iv_from e)..<unat (iv_from e) + unat cnt} \<subseteq> iv_keys e" using rm(2) by (auto simp: iv_keys_def)
      have as: "iv_to e = NOT 0 \<or> iv_from e + cnt \<le> iv_to e + 1"
      proof (cases "iv_to e = NOT 0")
        case False
        then have "iv_to e < NOT 0" using word_order.not_eq_extremum [of "iv_to e"] by simp
        then have "unat (iv_to e + 1) = unat (iv_to e) + 1" by (rule unat_succ)
        then have t: "unat (iv_to e) + 1 < 2 ^ 32" using unat_less_u32 [of "iv_to e + 1"] by simp
        then have "unat (iv_from e + cnt) = unat (iv_from e) + unat cnt" using rm(2) by (intro unat_add_fits) simp
        then show ?thesis using rm(2) \<open>unat (iv_to e + 1) = unat (iv_to e) + 1\<close> by (simp add: word_le_nat_alt)
      qed simp
      show ?thesis
      proof (cases "unat (iv_from e) + unat cnt = unat (iv_to e) + 1")
        case all: True
        then have eq: "iv_from e + cnt = iv_to e + 1" using wr by simp
        have fitq: "fits self (unat minr) (unat cnt) (unat (iv_from e))" using fit mx by simp
        have firstq: "\<not> fits self (unat minr) (unat cnt) q" if "q < unat (iv_from e)" for q using first that mx by simp
        have wh: "whole self (unat cnt) (unat (iv_from e))"
          using interval_ends [OF ok i] all by (simp add: whole_def e_def)
        let ?xs = "(fm_map self)[i := ?m]"
        have l: "length ?xs = fm_capacity self" using ok' by simp
        note mm = memmove_delete [OF i, of ?xs, unfolded l, OF ok'(2)]
        show ?thesis
        proof (cases "fm_count self < fm_capacity self")
          case False
          then have "find_range_loop self minr cnt i = Inl Outside_map"
            using i lo conds as eq mm by (subst find_range_loop.simps) (simp add: Let_def e_def [symmetric])
          then show ?thesis using False ok' wh by (intro range_resultI [OF fitq firstq]) simp_all
        next
          case cap: True
          let ?ys = "take i ?xs @ drop (i + 1) (take (fm_count self + 1) ?xs) @ drop (fm_count self) ?xs"
          define s1 where "s1 = self\<lparr>fm_map := ?ys, fm_count := fm_count self - 1, fm_last := i\<rparr>"
          have r: "find_range_loop self minr cnt i =
              (if i < fm_count self - 1 then Inr (s1, Some (iv_from e)) else Inl Assertion_failed)"
            using i lo conds as eq mm cap by (subst find_range_loop.simps) (simp add: Let_def e_def [symmetric] s1_def)
          have iv: "ivs s1 = A @ [] @ B"
            using take_memmove_delete [of i "fm_count self" ?xs] i cap ok' s(2-4)
            by (simp add: s1_def ivs_def take_update_swap list_update_beyond)
          have got: "fm_ok s1 \<and> free_keys s1 = free_keys self - {unat (iv_from e)..<unat (iv_from e) + unat cnt}"
            if "i < fm_count self - 1"
            by (rule range_taken [OF ok s(1) iv]) (use that sub all l cap i in \<open>auto simp: s1_def iv_keys_def\<close>)
          show ?thesis
          proof (cases "i < fm_count self - 1")
            case True
            then have "unat (iv_to e) + 1 < unat (iv_from (fm_map self ! (i + 1)))"
              using ivs_ok_nth(2) [OF ok, of "i + 1" i] by (simp add: e_def)
            moreover have "unat (iv_from (fm_map self ! (i + 1))) \<in> free_keys self"
              unfolding free_keys_iff [OF ok] using True ivs_order(3) [OF ok, of "i + 1" "i + 1"] by (intro exI [of _ "i + 1"]) simp
            ultimately have "\<not> free_keys self \<subseteq> {..<unat (iv_from e) + unat cnt}" using all by auto
            then show ?thesis unfolding r using True got [OF True] cap wh
              by (intro range_resultI [OF fitq firstq]) (auto simp: s1_def)
          next
            case False
            have "free_keys self \<subseteq> {..<unat (iv_from e) + unat cnt}"
            proof
              fix k assume "k \<in> free_keys self"
              then obtain j where j: "j < fm_count self" "k \<le> unat (iv_to (fm_map self ! j))" unfolding free_keys_iff [OF ok] by blast
              then have "unat (iv_to (fm_map self ! j)) \<le> unat (iv_to e)"
                using ivs_order(1) [OF ok _ i, of j] False by (simp add: e_def)
              then show "k \<in> {..<unat (iv_from e) + unat cnt}" using j(2) all by simp
            qed
            then show ?thesis unfolding r using False cap wh by (intro range_resultI [OF fitq firstq]) simp_all
          qed
        qed
      next
        case part: False
        then have ne: "iv_from e + cnt \<noteq> iv_to e + 1" using wr by simp
        have u: "unat (iv_from e + cnt) = unat (iv_from e) + unat cnt" 
          using rm(2) part bl by (intro unat_add_fits) simp
        define s1 where "s1 = self\<lparr>fm_map := (fm_map self)[i := ?m]\<rparr>"
        have "find_range_loop self minr cnt i = Inr (s1, Some (iv_from e))"
          using i lo conds as ne by (subst find_range_loop.simps) (simp add: Let_def e_def [symmetric] s1_def)
        moreover have "fm_ok s1 \<and> free_keys s1 = free_keys self - {unat (iv_from e)..<unat (iv_from e) + unat cnt}"
        proof (rule range_taken [OF ok s(1), of _ "[?m]"])
          show "ivs s1 = A @ [?m] @ B" unfolding s1_def ivs_update [OF i] s(1) using s(2) by (simp add: list_update_append)
        qed (use u rm(2) part ok' sub in \<open>auto simp: iv_keys_def s1_def word_le_nat_alt\<close>)
        moreover have "\<not> whole self (unat cnt) (unat (iv_from e))"
          unfolding whole_def free_keys_iff [OF ok] using rm(2) part i by (auto simp: e_def dest!: spec [of _ i])
        ultimately show ?thesis using fit first mx by (auto intro!: range_gotI simp: s1_def)
      qed
    next
      case hi: False
      then have mx: "max (unat minr) (unat (iv_from e)) = unat minr" and lt: "iv_from e < minr" by (auto simp: word_le_nat_alt word_less_nat_alt)
      have fm: "unat (iv_from e) < unat minr" using lt by (simp add: word_less_nat_alt)
      have nwh: "\<not> whole self (unat cnt) (unat minr)"
      proof -
        have "unat minr - 1 \<in> free_keys self"
          unfolding free_keys_iff [OF ok] using fm rm(1) cc i unfolding e_def by (intro exI [of _ i] conjI) linarith+
        then show ?thesis using fm by (simp add: whole_def)
      qed
      have cond2: "cnt - 1 \<le> iv_to e - minr" using length_ge_iff [OF conds(1) c] rm(1) by simp
      have u: "unat (minr + cnt) = unat minr + unat cnt" using rm(1) w bl by (intro unat_add_fits) simp
      have sub: "{unat minr..<unat minr + unat cnt} \<subseteq> iv_keys e" using rm(1) fm by (auto simp: iv_keys_def)
      show ?thesis
      proof (cases "minr + cnt > iv_to e")
        case end': True
        then have E: "unat minr + unat cnt = unat (iv_to e) + 1" using u rm(1) by (simp add: word_less_nat_alt)
        have "cnt \<le> iv_to e" using E fm by (simp add: word_le_nat_alt)
        then have v: "unat (iv_to e - cnt) = unat minr - 1" using E by (simp add: unat_sub_u32)
        let ?m = "e\<lparr>iv_to := iv_to e - cnt\<rparr>"
        define s1 where "s1 = self\<lparr>fm_map := (fm_map self)[i := ?m]\<rparr>"
        have as: "iv_from e \<le> iv_to e - cnt" using v fm by (simp add: word_le_nat_alt)
        have "find_range_loop self minr cnt i = Inr (s1, Some minr)"
          using i hi conds cond2 end' as by (subst find_range_loop.simps) (simp add: Let_def e_def [symmetric] s1_def)
        moreover have "fm_ok s1 \<and> free_keys s1 = free_keys self - {unat minr..<unat minr + unat cnt}"
        proof (rule range_taken [OF ok s(1), of _ "[?m]"])
          show "ivs s1 = A @ [?m] @ B" unfolding s1_def ivs_update [OF i] s(1) using s(2) by (simp add: list_update_append)
        qed (use v fm E ok' sub in \<open>auto simp: iv_keys_def s1_def word_le_nat_alt\<close>)
        ultimately show ?thesis using fit first mx nwh by (auto intro!: range_gotI simp: s1_def)
      next
        case mid: False
        then have E: "unat minr + unat cnt \<le> unat (iv_to e)" using u by (simp add: word_less_nat_alt)
        obtain s2 where s2: "fmapInsertEntry self i = Inr s2" "ivs s2 = A @ e # e # B" "fm_count s2 = fm_count self + 1"
            "fm_last s2 = fm_last self" "length (fm_map s2) = fm_capacity s2" "fm_count s2 \<le> fm_capacity s2" "fm_capacity self \<le> fm_capacity s2"
          by (rule insert_entry [OF ok'(1,2) i s(1,2)])
        have n: "fm_map s2 ! i = e" "fm_map s2 ! (i + 1) = e" "fm_map s2 ! Suc i = e"
          using ivs_nth [of i s2] ivs_nth [of "i + 1" s2] s2(2,3) i s(2) by (simp_all add: nth_append)
        have len: "i + 1 < length (fm_map s2)" using s2(3,5,6) i by simp
        let ?e = "e\<lparr>iv_to := minr - 1\<rparr>" and ?f = "e\<lparr>iv_from := minr + cnt\<rparr>"
        define s1 where "s1 = s2\<lparr>fm_map := (fm_map s2)[i := ?e, i + 1 := ?f]\<rparr>"
        have sw: "xs[Suc i := a, i := b, Suc i := d] = xs[i := b, Suc i := d]" for xs and a b d :: Interval
          by (simp add: list_update_swap [of "Suc i" i])
        have "find_range_loop self minr cnt i = Inr (s1, Some minr)"
          using i hi conds cond2 mid s2(1) n len
          by (subst find_range_loop.simps) (simp add: Let_def e_def [symmetric] s1_def sw nth_list_update)
        moreover have "ivs s1 = A @ [?e, ?f] @ B"
          using s2(2,3) i s(2) by (simp add: s1_def ivs_def take_update_swap list_update_append)
        moreover have "fm_ok s1 \<and> free_keys s1 = free_keys self - {unat minr..<unat minr + unat cnt}"
          by (rule range_taken [OF ok s(1) calculation(2)])
            (use unat_pred [OF lt] fm E ok' s2 sub u cc in \<open>auto simp: iv_keys_def s1_def word_le_nat_alt gap_def\<close>)
        ultimately show ?thesis using fit first mx nwh s2(7) by (auto intro!: range_gotI simp: s1_def)
      qed
    qed
  qed
qed

section \<open>Allocation of ranges\<close>

text \<open>
  What a client that only takes ranges relies on: a range given was free, is no longer free, and nothing
  else changes.  Ranges given one after the other are disjoint.
\<close>

locale range_allocator =
  fixes ok :: "'m \<Rightarrow> bool" and free :: "'m \<Rightarrow> nat set" and
    alloc :: "'m \<Rightarrow> u32 \<Rightarrow> u32 \<Rightarrow> ('m \<times> u32 option) option"
  assumes alloc_some: "ok m \<Longrightarrow> 0 < c \<Longrightarrow> unat l + unat c \<noteq> 2 ^ 32 \<Longrightarrow> alloc m l c = Some (m', Some r) \<Longrightarrow>
      ok m' \<and> {unat r..<unat r + unat c} \<subseteq> free m \<and> free m' = free m - {unat r..<unat r + unat c}"
    and alloc_none: "ok m \<Longrightarrow> 0 < c \<Longrightarrow> unat l + unat c \<noteq> 2 ^ 32 \<Longrightarrow> alloc m l c = Some (m', None) \<Longrightarrow> m' = m"
begin

fun allocs :: "'m \<Rightarrow> (u32 \<times> u32) list \<Rightarrow> ('m \<times> (nat set) list) option" where
  "allocs m [] = Some (m, [])"
| "allocs m ((l, c) # rs) =
     (case alloc m l c of
        None \<Rightarrow> None
      | Some (m, x) \<Rightarrow>
          map_option (\<lambda>(m, R). (m, (case x of None \<Rightarrow> {} | Some r \<Rightarrow> {unat r..<unat r + unat c}) # R)) (allocs m rs))"

definition request :: "u32 \<times> u32 \<Rightarrow> bool" where
  "request = (\<lambda>(l, c). 0 < c \<and> unat l + unat c \<noteq> 2 ^ 32)"

lemma allocs_disjoint:
  "ok m \<Longrightarrow> list_all request rs \<Longrightarrow> allocs m rs = Some (m', R) \<Longrightarrow>
     ok m' \<and> sorted_wrt (\<lambda>X Y. X \<inter> Y = {}) R \<and> \<Union> (set R) \<subseteq> free m \<and> free m' = free m - \<Union> (set R)"
proof (induction m rs arbitrary: m' R rule: allocs.induct)
  case (2 m l c rs)
  obtain m1 x where a: "alloc m l c = Some (m1, x)" using 2 by (auto split: option.splits)
  obtain R1 where R: "allocs m1 rs = Some (m', R1)"
      "R = (case x of None \<Rightarrow> {} | Some r \<Rightarrow> {unat r..<unat r + unat c}) # R1"
    using 2 a by auto
  have q: "0 < c" "unat l + unat c \<noteq> 2 ^ 32" "list_all request rs" using 2 by (simp_all add: request_def)
  show ?case
  proof (cases x)
    case None
    then have "m1 = m" using alloc_none [OF "2.prems"(1) q(1,2)] a by simp
    then show ?thesis using "2.IH" [OF a refl] "2.prems"(1) q(3) R None by simp
  next
    case (Some r)
    then have m1: "ok m1" "{unat r..<unat r + unat c} \<subseteq> free m" "free m1 = free m - {unat r..<unat r + unat c}"
      using alloc_some [OF "2.prems"(1) q(1,2)] a by simp_all
    then show ?thesis using "2.IH" [OF a refl m1(1) q(3) R(1)] R(2) Some by auto
  qed
qed simp

end

definition fmap_alloc :: "FreeMap \<Rightarrow> u32 \<Rightarrow> u32 \<Rightarrow> (FreeMap \<times> u32 option) option" where
  "fmap_alloc m minr cnt = (case fmapFindAndDeleteRange m minr cnt of Inl _ \<Rightarrow> None | Inr x \<Rightarrow> Some x)"

interpretation fmap: range_allocator fm_ok free_keys fmap_alloc
proof
  fix m m' :: FreeMap and c l r :: u32
  assume a: "fm_ok m" "0 < c" "unat l + unat c \<noteq> 2 ^ 32"
  note f = find_range_result [OF a, of 0, folded fmapFindAndDeleteRange_def]
  show "fmap_alloc m l c = Some (m', Some r) \<Longrightarrow>
      fm_ok m' \<and> {unat r..<unat r + unat c} \<subseteq> free_keys m \<and> free_keys m' = free_keys m - {unat r..<unat r + unat c}"
    using f by (auto simp: fmap_alloc_def range_result_def lowest_fit_def fits_def split: sum.splits if_splits)
  show "fmap_alloc m l c = Some (m', None) \<Longrightarrow> m' = m"
    using f by (auto simp: fmap_alloc_def range_result_def split: sum.splits if_splits)
qed


section \<open>Properties\<close>

lemma unat_top: "unat (- 1 :: u32) = 4294967295"
  by (simp add: unsigned_minus_1_eq_mask mask_eq_exp_minus_1)

text \<open>
  C18: the operations keep the map of free records well formed (sorted intervals with gaps between them,
  within the capacity) and do to the set of free keys what they say: a new map has all keys free, a deletion
  takes a key out and tells if it was in, an insertion puts a key in and tells if it was not, a range is
  taken out as a whole.  The errors are those of the code: an entry is removed with a \<^verbatim>\<open>memmove\<close> that reads one
  entry past a full array, the last free key cannot be taken, a key above all free ones cannot be put back,
  and neither can a free key when there is a single interval.
\<close>

theorem freemap_operations:
  assumes "fm_ok self" "key0 \<le> key1"
  shows "fm_ok initFreeMap \<and> free_keys initFreeMap = {0..<2 ^ 32} \<and>
    delete_result self key (fmapDelete self key) \<and>
    insert_result self key (fmapInsert self key) \<and>
    delete_range_result self key0 key1 (fmapDeleteRange self key0 key1)"
proof -
  have "ivs initFreeMap = [\<lparr>iv_from = 0, iv_to = NOT 0\<rparr>]" by (simp add: ivs_def initFreeMap_def)
  then have "fm_ok initFreeMap \<and> free_keys initFreeMap = {0..<2 ^ 32}"
    by (auto simp: fm_ok_def free_keys_def iv_keys_def initFreeMap_def unat_top)
  then show ?thesis
    using fmapDelete_result [OF assms(1)] fmapInsert_result [OF assms(1)] delete_range_loop_result [OF assms] assms(2)
    by (simp add: fmapDeleteRange_def)
qed

definition example_map :: FreeMap where
  "example_map =
     \<lparr>fm_map = [\<lparr>iv_from = 0, iv_to = 4\<rparr>, \<lparr>iv_from = 8, iv_to = 8\<rparr>, \<lparr>iv_from = 20, iv_to = NOT 0\<rparr>, \<lparr>iv_from = 0, iv_to = 0\<rparr>,
       \<lparr>iv_from = 0, iv_to = 0\<rparr>],
      fm_count = 3, fm_capacity = 5, fm_last = 1\<rparr>"

lemma example_ok: "fm_ok example_map"
  by (simp add: fm_ok_def ivs_def example_map_def gap_def)

lemma example_keys: "free_keys example_map = {0..4} \<union> {8} \<union> {20..4294967295}"
  by (auto simp: free_keys_def ivs_def example_map_def iv_keys_def unat_top)

lemma example_delete:
  "(case fmapDelete example_map 8 of Inr (m, b) \<Rightarrow> b \<and> fm_map m = [\<lparr>iv_from = 0, iv_to = 4\<rparr>, \<lparr>iv_from = 20, iv_to = NOT 0\<rparr>,
      \<lparr>iv_from = 0, iv_to = 0\<rparr>, \<lparr>iv_from = 0, iv_to = 0\<rparr>, \<lparr>iv_from = 0, iv_to = 0\<rparr>] | _ \<Rightarrow> False) \<and>
   (case fmapInsert example_map 7 of Inr (m, b) \<Rightarrow> b \<and> fm_map m ! 1 = \<lparr>iv_from = 7, iv_to = 8\<rparr> | _ \<Rightarrow> False) \<and>
   (case fmapDeleteRange example_map 3 9 of Inr m \<Rightarrow> fm_count m = 2 | _ \<Rightarrow> False)"
  by code_simp

theorem freemap_operations_witness:
  "fm_ok example_map \<and> delete_result example_map 8 (fmapDelete example_map 8) \<and>
   insert_result example_map 8 (fmapInsert example_map 8) \<and>
   delete_range_result example_map 3 9 (fmapDeleteRange example_map 3 9) \<and>
   (case fmapDeleteRange example_map 3 9 of Inr m \<Rightarrow> fm_count m = 2 | _ \<Rightarrow> False)"
  using freemap_operations [OF example_ok, of 3 9 8] example_delete example_ok by simp

text \<open>
  C19: a request for a range returns; it gets the lowest range of that length at or above the bound, which is
  taken out and nothing else, and gets nothing, with the map as it was, exactly when there is none.  The
  exceptions are those of the code, for a range that is a whole interval: its entry cannot be removed from a full
  array, whose end the \<^verbatim>\<open>memmove\<close> passes, and removing the last entry fails the assertion on \<^verbatim>\<open>last\<close>.  A request
  that would end at the top of the key space is excluded: its end wraps around, and the range stays free.
\<close>

theorem freemap_find_range:
  assumes "fm_ok self" "0 < cnt" "unat minr + unat cnt \<noteq> 2 ^ 32"
  shows "range_result self (unat minr) (unat cnt) (fmapFindAndDeleteRange self minr cnt)"
  unfolding fmapFindAndDeleteRange_def by (rule find_range_result [OF assms]) simp_all

theorem freemap_find_range_witness:
  "(case fmapFindAndDeleteRange example_map 3 3 of Inr (m, Some r) \<Rightarrow> r = 20 | _ \<Rightarrow> False) \<and>
   range_result example_map 3 3 (fmapFindAndDeleteRange example_map 3 3)"
proof -
  have "case fmapFindAndDeleteRange example_map 3 3 of Inr (m, Some r) \<Rightarrow> r = 20 | _ \<Rightarrow> False" by code_simp
  then show ?thesis using freemap_find_range [OF example_ok, of 3 3] by simp
qed

text \<open>
  The ranges that a sequence of requests gets are disjoint, were free, and are what the map has lost.
\<close>

theorem freemap_ranges_disjoint:
  assumes "fm_ok self" "list_all fmap.request rs" "fmap.allocs self rs = Some (self', R)"
  shows "fm_ok self' \<and> sorted_wrt (\<lambda>X Y. X \<inter> Y = {}) R \<and> \<Union> (set R) \<subseteq> free_keys self \<and>
    free_keys self' = free_keys self - \<Union> (set R)"
  by (rule fmap.allocs_disjoint [OF assms])

theorem freemap_ranges_disjoint_witness:
  "\<exists>m R. fmap.allocs example_map [(0, 2), (3, 3), (0, 1)] = Some (m, R) \<and> sorted_wrt (\<lambda>X Y. X \<inter> Y = {}) R \<and>
     free_keys m = free_keys example_map - \<Union> (set R)"
proof -
  have "fmap.allocs example_map [(0, 2), (3, 3), (0, 1)] \<noteq> None"
    by (simp add: fmap_alloc_def fmapFindAndDeleteRange_def find_range_loop.simps example_map_def Let_def)
      (simp add: word_le_nat_alt)
  then obtain m R where "fmap.allocs example_map [(0, 2), (3, 3), (0, 1)] = Some (m, R)" by auto
  then show ?thesis
    using freemap_ranges_disjoint [OF example_ok, of "[(0, 2), (3, 3), (0, 1)]" m R] by (auto simp: fmap.request_def)
qed

end
