(* ===== verification/Threads.thy ===== *)
theory Threads
  imports Dequeue
begin

text \<open>
  The scheduler of the threads package, \<^verbatim>\<open>packages/threads/manager\<close>: the run queues (\<^verbatim>\<open>dispatch.c\<close>),
  suspension, mailboxes and joining (\<^verbatim>\<open>synch.c\<close>), and the glue functions of \<^verbatim>\<open>mailbox.scm\<close>,
  \<^verbatim>\<open>semaphore.scm\<close>, \<^verbatim>\<open>start.scm\<close> that call them.  Objects are tagged words; the slots of the objects
  are functions of their words, suspend counts and semaphore counts the integers their fixnums hold, with the
  wrap-around of \<^verbatim>\<open>ADD1\<close>, \<^verbatim>\<open>SUB1\<close> and \<^verbatim>\<open>FX_SUB\<close> on 30 bits.  The queues are those of \<open>Dequeue\<close>.  A switch to another thread ends an operation: the continuation that is saved
  and resumed is outside of the model, but for the slot of the top frame in which the resumed thread finds
  its value.
\<close>

section \<open>Counts\<close>

text \<open>The number that the fixnum with the low 30 bits of \<open>n\<close> stands for.\<close>

definition fx :: "int \<Rightarrow> int" where
  "fx n = signed_take_bit 29 n"

definition FX_MAX :: int where "FX_MAX = 536870911"

definition FX_MIN :: int where "FX_MIN = - 536870912"

lemma fx_id: "FX_MIN \<le> n \<Longrightarrow> n \<le> FX_MAX \<Longrightarrow> fx n = n"
  unfolding fx_def by (rule signed_take_bit_int_eq_self) (simp_all add: FX_MIN_def FX_MAX_def)

lemma fx_range: "FX_MIN \<le> fx n" "fx n \<le> FX_MAX"
  using signed_take_bit_int_greater_eq_minus_exp [of 29 n] signed_take_bit_int_less_exp [of 29 n]
  by (simp_all add: fx_def FX_MIN_def FX_MAX_def)

lemma fx_values [simp]: "fx 536870912 = - 536870912" "fx (- 536870913) = 536870911" "fx 0 = 0" "fx 1 = 1" "fx (- 1) = - 1"
  unfolding fx_def by (simp_all add: signed_take_bit_eq_take_bit_shift take_bit_eq_mod)

lemma fx_arith [simp]: "fx (- fx a) = fx (- a)" "fx (fx a + b) = fx (a + b)" "fx (fx a - b) = fx (a - b)"
  using signed_take_bit_add [of 29 "signed_take_bit 29 a" b] signed_take_bit_add [of 29 a b]
    signed_take_bit_diff [of 29 "signed_take_bit 29 a" b] signed_take_bit_diff [of 29 a b]
    signed_take_bit_minus [of 29 a]
  by (simp_all add: fx_def)

text \<open>\<^const>\<open>fx\<close> is what the macros of \<^verbatim>\<open>obj.h\<close> compute.\<close>

lemma fx_int2fx: "sint (fx2int (int2fx (word_of_int n))) = fx n"
proof -
  have top: "k < 30 \<Longrightarrow> 29 \<le> k \<Longrightarrow> k = 29" for k :: nat by simp
  have "signed_drop_bit 2 (push_bit 2 (word_of_int n :: u32)) = word_of_int (signed_take_bit 29 n)"
    by (rule bit_word_eqI) (auto simp: bit_signed_drop_bit_iff bit_push_bit_iff bit_signed_take_bit_iff bit_word_of_int_iff min_def
        not_le dest: bit_imp_le_length top)
  moreover have "sint (word_of_int (signed_take_bit 29 n) :: u32) = signed_take_bit 29 n"
    by (simp add: sint_sbintrunc' signed_take_bit_signed_take_bit)
  ultimately show ?thesis by (simp add: fx2int_def int2fx_def fx_def)
qed

lemma fx_ADD1: "ADD1 (int2fx (word_of_int n)) = int2fx (word_of_int (n + 1))"
  "SUB1 (int2fx (word_of_int n)) = int2fx (word_of_int (n - 1))"
  "FX_SUB ZERO (int2fx (word_of_int n)) = int2fx (word_of_int (- n))"
  by (simp_all add: ADD1_def SUB1_def FX_SUB_def ZERO_def int2fx_def push_bit_eq_mult algebra_simps)

section \<open>The state\<close>

datatype thread_state =
  TSTATE_SUSPEND | TSTATE_WAITING | TSTATE_RUNNING | TSTATE_BLOCKED | TSTATE_SLEEPING | TSTATE_COMPLETE

datatype obj_class = Thread_class | Mailbox_class | Semaphore_class | Other_class

record thread =
  THREAD_STATE :: thread_state
  THREAD_PRIORITY :: nat
  THREAD_BLOCKED_ON :: u32
  THREAD_JOINS :: "u32 list"
  THREAD_SUSPEND_COUNT :: int
  RESUME_VALUE :: u32

record system =
  class_of :: "u32 \<Rightarrow> obj_class"
  threads :: "u32 \<Rightarrow> thread"
  mbox_queue :: "u32 \<Rightarrow> dequeue"
  MAILBOX_HAS_DATA_Q :: "u32 \<Rightarrow> u32"
  sem_queue :: "u32 \<Rightarrow> dequeue"
  SEMAPHORE_COUNT :: "u32 \<Rightarrow> int"
  thread_queue :: "dequeue list"
  FUNCTION_P :: "u32 \<Rightarrow> bool"
  current_thread :: u32

text \<open>\<open>No_return\<close> is a loop that does not end, \<open>Other_waiter\<close> a branch for an object left out: an event or a port.\<close>

datatype thread_error = Assertion | Scheme_error | No_return | Outside_array | Other_waiter

definition NOVALUE_OBJ :: u32 where
  "NOVALUE_OBJ = MAKE_IMMOB UNIQUE_OBJ_TAG 0"

definition and_then :: "'e + 'a \<Rightarrow> ('a \<Rightarrow> 'e + 'b) \<Rightarrow> 'e + 'b" where
  "and_then r f = (case r of Inl e \<Rightarrow> Inl e | Inr x \<Rightarrow> f x)"

definition set_thread :: "u32 \<Rightarrow> (thread \<Rightarrow> thread) \<Rightarrow> system \<Rightarrow> system" where
  "set_thread t f s = s\<lparr>threads := (threads s)(t := f (threads s t))\<rparr>"

section \<open>Run queues\<close>

definition did_remove_from_queue :: "u32 \<Rightarrow> system \<Rightarrow> thread_error + (bool \<times> system)" where
  "did_remove_from_queue th s =
     (let suspend_count = THREAD_SUSPEND_COUNT (threads s th)
      in if suspend_count = 0 then Inr (True, s)
         else if \<not> suspend_count > 0 then Inl Assertion
         else Inr (False, set_thread th (\<lambda>t. t\<lparr>THREAD_SUSPEND_COUNT := fx (- suspend_count)\<rparr>) s))"

definition UNBLOCK_THREAD :: "u32 \<Rightarrow> system \<Rightarrow> thread_error + system" where
  "UNBLOCK_THREAD w s =
     (let s = set_thread w (\<lambda>t. t\<lparr>THREAD_BLOCKED_ON := ZERO\<rparr>) s
      in if \<not> THREAD_SUSPEND_COUNT (threads s w) \<le> 0 then Inl Assertion else Inr s)"

definition mark_thread_ready :: "u32 \<Rightarrow> system \<Rightarrow> thread_error + system" where
  "mark_thread_ready thr s =
     (let p = THREAD_PRIORITY (threads s thr)
      in if \<not> p < length (thread_queue s) then Inl Outside_array
         else if THREAD_BLOCKED_ON (threads s thr) \<noteq> ZERO then Inl Assertion
         else if THREAD_SUSPEND_COUNT (threads s thr) \<noteq> 0 then Inl Assertion
         else let s = set_thread thr (\<lambda>t. t\<lparr>THREAD_STATE := TSTATE_WAITING\<rparr>) s
              in case dequeue_push_back (thread_queue s ! p) thr of
                   None \<Rightarrow> Inl No_return
                 | Some q \<Rightarrow> Inr (s\<lparr>thread_queue := (thread_queue s)[p := q]\<rparr>))"

definition store_resume_value :: "u32 \<Rightarrow> u32 \<Rightarrow> system \<Rightarrow> system" where
  "store_resume_value thr item s = set_thread thr (\<lambda>t. t\<lparr>RESUME_VALUE := item\<rparr>) s"

definition dispatch_to_thread :: "u32 \<Rightarrow> system \<Rightarrow> system" where
  "dispatch_to_thread t s = set_thread t (\<lambda>t. t\<lparr>THREAD_STATE := TSTATE_RUNNING\<rparr>) (s\<lparr>current_thread := t\<rparr>)"

text \<open>The run queue \<open>i\<close>, from \<open>try_again\<close> on: \<open>True\<close> when a thread was found.\<close>

partial_function (option) try_queue :: "nat \<Rightarrow> system \<Rightarrow> (thread_error + (bool \<times> system)) option" where
  "try_queue i s =
     (if dequeue_empty (thread_queue s ! i) then Some (Inr (False, s))
      else case dequeue_pop_front (thread_queue s ! i) of
             Inl _ \<Rightarrow> Some (Inl Scheme_error)
           | Inr (th, q) \<Rightarrow>
               (case did_remove_from_queue th (s\<lparr>thread_queue := (thread_queue s)[i := q]\<rparr>) of
                  Inl e \<Rightarrow> Some (Inl e)
                | Inr (ready, s) \<Rightarrow>
                    if ready then Some (Inr (True, dispatch_to_thread th s)) else try_queue i s))"

text \<open>The scan of the queues, without events and signals: \<open>False\<close> when no thread can run.\<close>

fun dispatch_from :: "nat list \<Rightarrow> system \<Rightarrow> thread_error + (bool \<times> system)" where
  "dispatch_from [] s = Inr (False, s)"
| "dispatch_from (i # is) s =
     (case try_queue i s of
        None \<Rightarrow> Inl No_return
      | Some (Inl e) \<Rightarrow> Inl e
      | Some (Inr (True, s)) \<Rightarrow> Inr (True, s)
      | Some (Inr (False, s)) \<Rightarrow> dispatch_from is s)"

definition dispatch_to_next_thread :: "system \<Rightarrow> thread_error + (bool \<times> system)" where
  "dispatch_to_next_thread s = dispatch_from [0..<10] s"

definition switch_thread :: "u32 \<Rightarrow> thread_state \<Rightarrow> system \<Rightarrow> thread_error + (bool \<times> system)" where
  "switch_thread waiting_on new_status s =
     dispatch_to_next_thread
       (set_thread (current_thread s)
          (\<lambda>t. t\<lparr>THREAD_STATE := new_status, THREAD_BLOCKED_ON := waiting_on\<rparr>) s)"

definition did_timeout :: "system \<Rightarrow> thread_error + (bool \<times> system)" where
  "did_timeout s = and_then (mark_thread_ready (current_thread s) s) (switch_thread ZERO TSTATE_WAITING)"

section \<open>Mailboxes\<close>

definition mbox_pop :: "u32 \<Rightarrow> system \<Rightarrow> thread_error + (u32 \<times> system)" where
  "mbox_pop mbox s =
     (case dequeue_pop_front (mbox_queue s mbox) of
        Inl _ \<Rightarrow> Inl Scheme_error
      | Inr (x, q) \<Rightarrow> Inr (x, s\<lparr>mbox_queue := (mbox_queue s)(mbox := q)\<rparr>))"

definition mbox_push :: "(dequeue \<Rightarrow> u32 \<Rightarrow> dequeue option) \<Rightarrow> u32 \<Rightarrow> u32 \<Rightarrow> system \<Rightarrow> thread_error + system" where
  "mbox_push push mbox x s =
     (case push (mbox_queue s mbox) x of
        None \<Rightarrow> Inl No_return
      | Some q \<Rightarrow> Inr (s\<lparr>mbox_queue := (mbox_queue s)(mbox := q)\<rparr>))"

definition set_has_data :: "u32 \<Rightarrow> u32 \<Rightarrow> system \<Rightarrow> system" where
  "set_has_data mbox x s = s\<lparr>MAILBOX_HAS_DATA_Q := (MAILBOX_HAS_DATA_Q s)(mbox := x)\<rparr>"

definition send_item_to_thread :: "u32 \<Rightarrow> u32 \<Rightarrow> u32 \<Rightarrow> system \<Rightarrow> thread_error + system" where
  "send_item_to_thread mbox thr item s =
     and_then (UNBLOCK_THREAD thr s) (\<lambda>s.
     and_then (mark_thread_ready thr (store_resume_value thr item s)) (\<lambda>s.
       Inr (if dequeue_empty (mbox_queue s mbox) then set_has_data mbox TRUE_OBJ s else s)))"

text \<open>The loop \<open>try_again_more\<close>: \<open>False\<close> when all waiting threads were suspended and none is left.\<close>

partial_function (option) send_more :: "u32 \<Rightarrow> u32 \<Rightarrow> system \<Rightarrow> (thread_error + (bool \<times> system)) option" where
  "send_more mbox item s =
     (case mbox_pop mbox s of
        Inl e \<Rightarrow> Some (Inl e)
      | Inr (thr, s) \<Rightarrow>
          (case did_remove_from_queue thr s of
             Inl e \<Rightarrow> Some (Inl e)
           | Inr (ready, s) \<Rightarrow>
               if ready then
                 (case send_item_to_thread mbox thr item s of
                    Inl e \<Rightarrow> Some (Inl e)
                  | Inr s \<Rightarrow> Some (Inr (True, s)))
               else if dequeue_empty (mbox_queue s mbox) then Some (Inr (False, set_has_data mbox TRUE_OBJ s))
               else send_more mbox item s))"

definition queue_item :: "u32 \<Rightarrow> u32 \<Rightarrow> bool \<Rightarrow> system \<Rightarrow> thread_error + system" where
  "queue_item mbox item front_q s =
     mbox_push (if front_q then dequeue_push_front else dequeue_push_back) mbox item s"

text \<open>The second component is \<open>False\<close> for \<^verbatim>\<open>-EPIPE\<close>; \<open>try_again_from_top\<close> is reached with \<^verbatim>\<open>#t\<close> in the slot only.\<close>

definition do_mailbox_send :: "u32 \<Rightarrow> u32 \<Rightarrow> bool \<Rightarrow> system \<Rightarrow> thread_error + (bool \<times> system)" where
  "do_mailbox_send mbox item front_q s =
     (let state = MAILBOX_HAS_DATA_Q s mbox
      in if state = TRUE_OBJ then and_then (queue_item mbox item front_q s) (\<lambda>s. Inr (True, s))
         else if state = FALSE_OBJ then
           (case send_more mbox item s of
              None \<Rightarrow> Inl No_return
            | Some (Inl e) \<Rightarrow> Inl e
            | Some (Inr (True, s)) \<Rightarrow> Inr (True, s)
            | Some (Inr (False, s)) \<Rightarrow> and_then (queue_item mbox item front_q s) (\<lambda>s. Inr (True, s)))
         else Inr (False, s))"

definition ksend_mailbox :: "u32 \<Rightarrow> u32 \<Rightarrow> system \<Rightarrow> thread_error + (bool \<times> system)" where
  "ksend_mailbox mbox item s = do_mailbox_send mbox item False s"

definition ksend_mailbox_pre :: "u32 \<Rightarrow> u32 \<Rightarrow> system \<Rightarrow> thread_error + (bool \<times> system)" where
  "ksend_mailbox_pre mbox item s = do_mailbox_send mbox item True s"

partial_function (option) close_loop :: "u32 \<Rightarrow> system \<Rightarrow> (thread_error + system) option" where
  "close_loop mbox s =
     (if dequeue_empty (mbox_queue s mbox) then Some (Inr s)
      else case mbox_pop mbox s of
             Inl e \<Rightarrow> Some (Inl e)
           | Inr (thr, s) \<Rightarrow>
               (case did_remove_from_queue thr s of
                  Inl e \<Rightarrow> Some (Inl e)
                | Inr (ready, s) \<Rightarrow>
                    if ready then
                      (case send_item_to_thread mbox thr NOVALUE_OBJ s of
                         Inl e \<Rightarrow> Some (Inl e)
                       | Inr s \<Rightarrow> close_loop mbox s)
                    else close_loop mbox s))"

definition close_mailbox :: "u32 \<Rightarrow> u32 \<Rightarrow> system \<Rightarrow> thread_error + (bool \<times> system)" where
  "close_mailbox mbox leave s =
     and_then
       (if MAILBOX_HAS_DATA_Q s mbox = FALSE_OBJ then
          (case close_loop mbox s of
             None \<Rightarrow> Inl No_return
           | Some r \<Rightarrow> and_then r (\<lambda>s. Inr (set_has_data mbox TRUE_OBJ s)))
        else Inr s)
       (\<lambda>s. if MAILBOX_HAS_DATA_Q s mbox = TRUE_OBJ then Inr (True, set_has_data mbox leave s) else Inr (False, s))"

text \<open>
  \<^verbatim>\<open>receive-message!\<close> gives a value, or applies the function a closed mailbox was left with, or switches to
  another thread (with whether there is one that can run); then \<^verbatim>\<open>rcv_n_go\<close> goes on with the value that the
  thread was resumed with.
\<close>

datatype received = Returned u32 | Applies u32 | Switched bool

definition receive_message :: "u32 \<Rightarrow> system \<Rightarrow> thread_error + (received \<times> system)" where
  "receive_message mbox s =
     (let state = MAILBOX_HAS_DATA_Q s mbox
      in if state \<noteq> FALSE_OBJ \<and> \<not> dequeue_empty (mbox_queue s mbox) then
           and_then (mbox_pop mbox s) (\<lambda>(item, s). Inr (Returned item, s))
         else if TEST_SECONDARY_TAG state BOOLEAN_TAG then
           and_then (mbox_push dequeue_push_back mbox (current_thread s) (set_has_data mbox FALSE_OBJ s)) (\<lambda>s.
           and_then (switch_thread mbox TSTATE_BLOCKED s) (\<lambda>(b, s). Inr (Switched b, s)))
         else if FUNCTION_P s state then Inr (Applies state, s)
         else Inr (Returned FALSE_OBJ, s))"

definition rcv_n_go :: "u32 \<Rightarrow> u32 \<Rightarrow> system \<Rightarrow> received" where
  "rcv_n_go mbox reg0 s =
     (if reg0 = NOVALUE_OBJ then
        let state = MAILBOX_HAS_DATA_Q s mbox
        in if FUNCTION_P s state then Applies state else Returned FALSE_OBJ
      else Returned reg0)"

definition receive_message_if_present :: "u32 \<Rightarrow> system \<Rightarrow> thread_error + (u32 option \<times> system)" where
  "receive_message_if_present mbox s =
     (if MAILBOX_HAS_DATA_Q s mbox \<noteq> FALSE_OBJ \<and> \<not> dequeue_empty (mbox_queue s mbox) then
        and_then (mbox_pop mbox s) (\<lambda>(item, s). Inr (Some item, s))
      else Inr (None, s))"

section \<open>Suspension\<close>

definition mark_thread_suspended :: "u32 \<Rightarrow> system \<Rightarrow> system" where
  "mark_thread_suspended th s =
     (let c = THREAD_SUSPEND_COUNT (threads s th); still_in_q = \<not> c < 0;
          s = (if c = 0 then set_thread th (\<lambda>t. t\<lparr>THREAD_STATE := TSTATE_SUSPEND\<rparr>) s else s);
          c = fx ((if c < 0 then fx (- c) else c) + 1)
      in set_thread th (\<lambda>t. t\<lparr>THREAD_SUSPEND_COUNT := (if still_in_q then c else fx (- c))\<rparr>) s)"

definition thread_suspend :: "u32 \<Rightarrow> system \<Rightarrow> system" where
  "thread_suspend th s = (if THREAD_STATE (threads s th) \<noteq> TSTATE_COMPLETE then mark_thread_suspended th s else s)"

definition requeue :: "u32 \<Rightarrow> u32 \<Rightarrow> system \<Rightarrow> thread_error + system" where
  "requeue thr blocked_on s =
     (if class_of s blocked_on = Mailbox_class then
        let mbox = blocked_on
        in if truish (MAILBOX_HAS_DATA_Q s mbox) \<and> \<not> dequeue_empty (mbox_queue s mbox) then
             and_then (mbox_pop mbox s) (\<lambda>(item, s). send_item_to_thread mbox thr item s)
           else
             and_then (mbox_push dequeue_push_back mbox thr (set_has_data mbox FALSE_OBJ s)) (\<lambda>s.
               Inr (set_thread thr (\<lambda>t. t\<lparr>THREAD_STATE := TSTATE_BLOCKED\<rparr>) s))
      else Inl Assertion)"

definition mark_thread_resumed :: "u32 \<Rightarrow> system \<Rightarrow> thread_error + system" where
  "mark_thread_resumed th s =
     (let c = THREAD_SUSPEND_COUNT (threads s th); still_in_q = \<not> c < 0
      in if c = 0 then Inr s
         else let c = fx ((if c < 0 then fx (- c) else c) - 1)
              in if c = 0 then
                   let blkd_on = THREAD_BLOCKED_ON (threads s th);
                       s = set_thread th (\<lambda>t. t\<lparr>THREAD_SUSPEND_COUNT := 0\<rparr>) s
                   in if blkd_on = ZERO then if \<not> still_in_q then mark_thread_ready th s else Inr s
                      else if FIXNUM_P blkd_on then
                        if \<not> still_in_q then Inl Assertion
                        else Inr (set_thread th (\<lambda>t. t\<lparr>THREAD_STATE := TSTATE_SLEEPING\<rparr>) s)
                      else if \<not> still_in_q then requeue th blkd_on s
                      else Inr s
                 else Inr (set_thread th (\<lambda>t. t\<lparr>THREAD_SUSPEND_COUNT := (if still_in_q then c else fx (- c))\<rparr>) s))"

definition thread_resume :: "u32 \<Rightarrow> system \<Rightarrow> thread_error + system" where
  "thread_resume th s =
     (if THREAD_STATE (threads s th) = TSTATE_COMPLETE then Inl Scheme_error else mark_thread_resumed th s)"

section \<open>Semaphores and joining\<close>

definition semaphore_signal :: "u32 \<Rightarrow> system \<Rightarrow> thread_error + system" where
  "semaphore_signal x s =
     (let n = SEMAPHORE_COUNT s x; s = s\<lparr>SEMAPHORE_COUNT := (SEMAPHORE_COUNT s)(x := fx (n + 1))\<rparr>
      in if n < 0 then
           (case dequeue_pop_front (sem_queue s x) of
              Inl _ \<Rightarrow> Inl Scheme_error
            | Inr (thr, q) \<Rightarrow>
                and_then (UNBLOCK_THREAD thr (s\<lparr>sem_queue := (sem_queue s)(x := q)\<rparr>)) (mark_thread_ready thr))
         else Inr s)"

definition semaphore_wait :: "u32 \<Rightarrow> system \<Rightarrow> thread_error + (bool \<times> system)" where
  "semaphore_wait x s =
     (let n = fx (SEMAPHORE_COUNT s x - 1); s = s\<lparr>SEMAPHORE_COUNT := (SEMAPHORE_COUNT s)(x := n)\<rparr>
      in if n < 0 then
           (case dequeue_push_back (sem_queue s x) (current_thread s) of
              None \<Rightarrow> Inl No_return
            | Some q \<Rightarrow> switch_thread x TSTATE_BLOCKED (s\<lparr>sem_queue := (sem_queue s)(x := q)\<rparr>))
         else Inr (True, s))"

definition thread_join :: "u32 \<Rightarrow> system \<Rightarrow> thread_error + (bool \<times> system)" where
  "thread_join t s =
     (if THREAD_STATE (threads s t) = TSTATE_COMPLETE then Inr (True, s)
      else switch_thread t TSTATE_BLOCKED
             (set_thread t (\<lambda>r. r\<lparr>THREAD_JOINS := current_thread s # THREAD_JOINS r\<rparr>) s))"

fun release_loop :: "u32 \<Rightarrow> u32 \<Rightarrow> u32 list \<Rightarrow> system \<Rightarrow> thread_error + system" where
  "release_loop t reg0 [] s = Inr s"
| "release_loop t reg0 (jt # p) s =
     (if THREAD_BLOCKED_ON (threads s jt) \<noteq> t then Inl Assertion
      else and_then (UNBLOCK_THREAD jt s) (\<lambda>s.
           and_then (mark_thread_ready jt (store_resume_value jt reg0 s)) (release_loop t reg0 p)))"

definition krelease_joiners :: "u32 \<Rightarrow> u32 \<Rightarrow> system \<Rightarrow> thread_error + system" where
  "krelease_joiners t reg0 s =
     and_then (release_loop t reg0 (THREAD_JOINS (threads s t)) s) (\<lambda>s.
       Inr (set_thread t (\<lambda>r. r\<lparr>THREAD_JOINS := []\<rparr>) s))"

fun slot_list_delq :: "u32 list \<Rightarrow> u32 \<Rightarrow> u32 list" where
  "slot_list_delq [] key = []"
| "slot_list_delq (p # ps) key = (if p = key then ps else p # slot_list_delq ps key)"

text \<open>\<^verbatim>\<open>kthread_unqueue_suspend\<close>: the branch that takes the thread off its queue, with \<^verbatim>\<open>did_rm\<close>, and what follows.\<close>

definition unqueue :: "u32 \<Rightarrow> system \<Rightarrow> thread_error + (bool \<times> system)" where
  "unqueue t s =
     (let st = THREAD_STATE (threads s t); blkd_on = THREAD_BLOCKED_ON (threads s t); p = THREAD_PRIORITY (threads s t)
      in if blkd_on = ZERO then
           if st = TSTATE_WAITING then
             if \<not> p < length (thread_queue s) then Inl Outside_array
             else (case dequeue_delq (thread_queue s ! p) t of
                     None \<Rightarrow> Inl No_return
                   | Some (n, q) \<Rightarrow>
                       if n \<noteq> 1 then Inl Assertion else Inr (True, s\<lparr>thread_queue := (thread_queue s)[p := q]\<rparr>))
           else Inr (False, s)
         else if FIXNUM_P blkd_on then Inl Other_waiter
         else if PTR_P blkd_on then
           if \<not> (st = TSTATE_SUSPEND \<or> st = TSTATE_BLOCKED) then Inl Assertion
           else (case class_of s blkd_on of
                   Mailbox_class \<Rightarrow>
                     (case dequeue_delq (mbox_queue s blkd_on) t of
                        None \<Rightarrow> Inl No_return
                      | Some (_, q) \<Rightarrow>
                          let s = s\<lparr>mbox_queue := (mbox_queue s)(blkd_on := q)\<rparr>
                          in Inr (True, if dequeue_empty q then set_has_data blkd_on TRUE_OBJ s else s))
                 | Semaphore_class \<Rightarrow>
                     (case dequeue_delq (sem_queue s blkd_on) t of
                        None \<Rightarrow> Inl No_return
                      | Some (_, q) \<Rightarrow>
                          Inr (True, s\<lparr>sem_queue := (sem_queue s)(blkd_on := q),
                                       SEMAPHORE_COUNT := (SEMAPHORE_COUNT s)(blkd_on := fx (SEMAPHORE_COUNT s blkd_on + 1))\<rparr>))
                 | Thread_class \<Rightarrow>
                     Inr (True, set_thread blkd_on (\<lambda>r. r\<lparr>THREAD_JOINS := slot_list_delq (THREAD_JOINS r) t\<rparr>) s)
                 | Other_class \<Rightarrow> Inl Other_waiter)
         else Inl Scheme_error)"

definition kthread_unqueue_suspend :: "u32 \<Rightarrow> system \<Rightarrow> thread_error + system" where
  "kthread_unqueue_suspend t s =
     and_then (unqueue t s) (\<lambda>(did_rm, s).
     and_then (if did_rm then and_then (did_remove_from_queue t s) (\<lambda>(_, s). Inr s) else Inr s) (\<lambda>s.
     and_then (UNBLOCK_THREAD t s) (\<lambda>s.
       Inr (set_thread t (\<lambda>r. r\<lparr>THREAD_STATE := TSTATE_SUSPEND, THREAD_SUSPEND_COUNT := fx (THREAD_SUSPEND_COUNT r - 1)\<rparr>) s))))"

text \<open>The continuation \<open>thread_done\<close> of a thread that has returned.\<close>

definition thread_done :: "system \<Rightarrow> thread_error + (bool \<times> system)" where
  "thread_done s = and_then (krelease_joiners (current_thread s) FALSE_OBJ s) (switch_thread ZERO TSTATE_COMPLETE)"

definition halt_thread :: "u32 \<Rightarrow> system \<Rightarrow> thread_error + (bool \<times> system)" where
  "halt_thread t s =
     (if THREAD_STATE (threads s t) = TSTATE_COMPLETE then Inr (True, s)
      else and_then (krelease_joiners t FALSE_OBJ s) (\<lambda>s.
           if t = current_thread s then switch_thread ZERO TSTATE_COMPLETE s
           else and_then (kthread_unqueue_suspend t s) (\<lambda>s.
             Inr (True, set_thread t (\<lambda>r. r\<lparr>THREAD_STATE := TSTATE_COMPLETE\<rparr>) s))))"

text \<open>\<^verbatim>\<open>%apply-on-thread\<close>, without the continuation it puts on the stack of the thread.\<close>

definition apply_on_thread :: "u32 \<Rightarrow> system \<Rightarrow> thread_error + (bool \<times> system)" where
  "apply_on_thread t s =
     (if t = current_thread s then Inl Assertion
      else if THREAD_STATE (threads s t) = TSTATE_COMPLETE then Inr (False, s)
      else and_then (kthread_unqueue_suspend t s) (\<lambda>s. and_then (mark_thread_resumed t s) (\<lambda>s. Inr (True, s))))"

fun start_threads :: "u32 list \<Rightarrow> system \<Rightarrow> thread_error + (bool \<times> system)" where
  "start_threads [] s = dispatch_to_next_thread s"
| "start_threads (t # lst) s = and_then (thread_resume t s) (start_threads lst)"

end
