(* ===== verification/ThreadQueues.thy ===== *)
theory ThreadQueues
  imports Threads
begin

text \<open>
  The invariant of the scheduler: every queue is well formed, each thread names the place it waits in, and the
  queue of a place holds exactly the threads that name it.  The lemmas move a thread from one place to another;
  a set \<open>X\<close> holds the threads on their way.
\<close>

section \<open>The list in a queue\<close>

definition contents :: "dequeue \<Rightarrow> u32 list" where
  "contents q = (case dequeue_state q of Some xs \<Rightarrow> xs | None \<Rightarrow> [])"

definition queue_ok :: "dequeue \<Rightarrow> bool" where
  "queue_ok q \<longleftrightarrow> represents q (contents q)"

lemma represents_contents: "represents q xs \<Longrightarrow> contents q = xs \<and> queue_ok q"
  using expanded_state_rep [of q xs 0] by (simp add: contents_def queue_ok_def dequeue_state_def)

lemma push_back_ok:
  assumes "queue_ok q"
  obtains q' where "dequeue_push_back q x = Some q'" "queue_ok q'" "contents q' = contents q @ [x]"
  using push_back_rep [of q "contents q" x] represents_contents assms unfolding queue_ok_def by metis

lemma push_front_ok:
  assumes "queue_ok q"
  obtains q' where "dequeue_push_front q x = Some q'" "queue_ok q'" "contents q' = x # contents q"
  using push_front_rep [of q "contents q" x] represents_contents assms unfolding queue_ok_def by metis

lemma empty_ok: "queue_ok q \<Longrightarrow> dequeue_empty q \<longleftrightarrow> contents q = []"
  by (simp add: queue_ok_def rep_empty)

lemma pop_front_ok:
  assumes "queue_ok q" "contents q = x # xs"
  obtains q' where "dequeue_pop_front q = Inr (x, q')" "queue_ok q'" "contents q' = xs"
  using pop_front_rep [of q x xs] represents_contents assms unfolding queue_ok_def by metis

section \<open>Where a thread waits\<close>

datatype place = Run nat | Box u32 | Sem u32 | Join u32 | Nowhere

definition place_of :: "system \<Rightarrow> u32 \<Rightarrow> place" where
  "place_of s t =
     (let r = threads s t; b = THREAD_BLOCKED_ON r
      in if class_of s t \<noteq> Thread_class \<or> THREAD_SUSPEND_COUNT r < 0 then Nowhere
         else if b = ZERO then
           (if THREAD_STATE r = TSTATE_RUNNING \<or> THREAD_STATE r = TSTATE_COMPLETE then Nowhere else Run (THREAD_PRIORITY r))
         else (case class_of s b of
                 Mailbox_class \<Rightarrow> Box b | Semaphore_class \<Rightarrow> Sem b | Thread_class \<Rightarrow> Join b | Other_class \<Rightarrow> Nowhere))"

fun waiters :: "system \<Rightarrow> place \<Rightarrow> u32 list" where
  "waiters s (Run p) = (if p < length (thread_queue s) then contents (thread_queue s ! p) else [])"
| "waiters s (Box m) =
     (if class_of s m = Mailbox_class \<and> MAILBOX_HAS_DATA_Q s m = FALSE_OBJ then contents (mbox_queue s m) else [])"
| "waiters s (Sem x) = (if class_of s x = Semaphore_class then contents (sem_queue s x) else [])"
| "waiters s (Join t) = (if class_of s t = Thread_class then THREAD_JOINS (threads s t) else [])"
| "waiters s Nowhere = []"

definition is_fx :: "int \<Rightarrow> bool" where
  "is_fx n \<longleftrightarrow> FX_MIN \<le> n \<and> n \<le> FX_MAX"

lemma is_fxD: "is_fx n \<Longrightarrow> fx n = n" by (simp add: is_fx_def fx_id)

lemma is_fx_simps [simp]: "is_fx 0" "is_fx 1" "is_fx (- 1)" "is_fx (fx n)"
  by (simp_all add: is_fx_def FX_MIN_def FX_MAX_def fx_range [unfolded FX_MIN_def FX_MAX_def])

lemma is_fx_between: "is_fx n \<Longrightarrow> 0 \<le> m \<and> m \<le> n \<or> n \<le> m \<and> m \<le> 0 \<Longrightarrow> is_fx m"
  by (auto simp: is_fx_def FX_MIN_def FX_MAX_def)

lemma is_fx_neg: "is_fx n \<Longrightarrow> n \<noteq> FX_MIN \<Longrightarrow> is_fx (- n)"
  by (auto simp: is_fx_def FX_MIN_def FX_MAX_def)

definition thread_ok :: "system \<Rightarrow> u32 \<Rightarrow> bool" where
  "thread_ok s t \<longleftrightarrow>
     (let r = threads s t
      in THREAD_PRIORITY r < 10 \<and> is_fx (THREAD_SUSPEND_COUNT r) \<and>
         (THREAD_SUSPEND_COUNT r \<noteq> 0 \<longrightarrow>
            THREAD_STATE r = TSTATE_SUSPEND \<or> THREAD_STATE r = TSTATE_COMPLETE \<and> THREAD_SUSPEND_COUNT r < 0) \<and>
         (THREAD_STATE r = TSTATE_RUNNING \<longrightarrow> t = current_thread s) \<and>
         (THREAD_STATE r = TSTATE_COMPLETE \<longrightarrow> THREAD_JOINS r = []) \<and>
         (THREAD_BLOCKED_ON r = ZERO \<longrightarrow> THREAD_STATE r \<noteq> TSTATE_BLOCKED \<and> THREAD_STATE r \<noteq> TSTATE_SLEEPING) \<and>
         (THREAD_BLOCKED_ON r \<noteq> ZERO \<longrightarrow>
            class_of s (THREAD_BLOCKED_ON r) \<noteq> Other_class \<and>
            (THREAD_STATE r = TSTATE_SUSPEND \<or> THREAD_STATE r = TSTATE_BLOCKED) \<and>
            (THREAD_SUSPEND_COUNT r < 0 \<longrightarrow> class_of s (THREAD_BLOCKED_ON r) = Mailbox_class)))"

text \<open>The threads of \<open>X\<close> are on their way from one place to another.\<close>

definition placed_ok :: "u32 set \<Rightarrow> system \<Rightarrow> bool" where
  "placed_ok X s \<longleftrightarrow>
     length (thread_queue s) = 10 \<and> (\<forall>x. class_of s x \<noteq> Other_class \<longrightarrow> PTR_P x) \<and>
     (\<forall>q \<in> set (thread_queue s). queue_ok q) \<and>
     (\<forall>m. class_of s m = Mailbox_class \<longrightarrow> queue_ok (mbox_queue s m)) \<and>
     (\<forall>x. class_of s x = Semaphore_class \<longrightarrow> queue_ok (sem_queue s x)) \<and>
     (\<forall>t. class_of s t = Thread_class \<longrightarrow> thread_ok s t) \<and>
     (\<forall>pl. pl \<noteq> Nowhere \<longrightarrow> distinct (waiters s pl) \<and> set (waiters s pl) = {t. t \<notin> X \<and> place_of s t = pl})"

definition boxes_ok :: "system \<Rightarrow> bool" where
  "boxes_ok s \<longleftrightarrow>
     (\<forall>m. class_of s m = Mailbox_class \<and> MAILBOX_HAS_DATA_Q s m = FALSE_OBJ \<longrightarrow> contents (mbox_queue s m) \<noteq> [])"

definition sems_ok :: "system \<Rightarrow> bool" where
  "sems_ok s \<longleftrightarrow>
     (\<forall>x. class_of s x = Semaphore_class \<longrightarrow>
        is_fx (SEMAPHORE_COUNT s x) \<and> int (length (contents (sem_queue s x))) = max 0 (- SEMAPHORE_COUNT s x))"

definition system_ok :: "system \<Rightarrow> bool" where
  "system_ok s \<longleftrightarrow> placed_ok {} s \<and> boxes_ok s \<and> sems_ok s"

lemma set_thread_simps [simp]:
  "class_of (set_thread t f s) = class_of s" "mbox_queue (set_thread t f s) = mbox_queue s"
  "MAILBOX_HAS_DATA_Q (set_thread t f s) = MAILBOX_HAS_DATA_Q s" "sem_queue (set_thread t f s) = sem_queue s"
  "SEMAPHORE_COUNT (set_thread t f s) = SEMAPHORE_COUNT s" "thread_queue (set_thread t f s) = thread_queue s"
  "current_thread (set_thread t f s) = current_thread s"
  "threads (set_thread t f s) u = (if u = t then f (threads s t) else threads s u)"
  by (simp_all add: set_thread_def)

lemma place_of_other [simp]: "u \<noteq> t \<Longrightarrow> place_of (set_thread t f s) u = place_of s u"
  by (simp add: place_of_def Let_def)

lemma waiters_set_thread:
  "(\<And>r. THREAD_JOINS (f r) = THREAD_JOINS r) \<Longrightarrow> waiters (set_thread t f s) pl = waiters s pl"
  by (cases pl) simp_all

lemma thread_ok_other: "u \<noteq> t \<Longrightarrow> thread_ok (set_thread t f s) u = thread_ok s u"
  by (simp add: thread_ok_def Let_def)

text \<open>A thread on its way may be changed.\<close>

lemma change_thread:
  assumes "placed_ok X s" "t \<in> X \<or> place_of (set_thread t f s) t = place_of s t"
    "\<And>r. THREAD_JOINS (f r) = THREAD_JOINS r"
    "class_of s t = Thread_class \<Longrightarrow> thread_ok (set_thread t f s) t"
  shows "placed_ok X (set_thread t f s)"
proof -
  have "{u. u \<notin> X \<and> place_of (set_thread t f s) u = pl} = {u. u \<notin> X \<and> place_of s u = pl}" for pl
    using assms(2) by (metis place_of_other)
  moreover have "thread_ok (set_thread t f s) u" if "class_of s u = Thread_class" for u
    using assms(1,4) that thread_ok_other [of u t f s] by (cases "u = t") (auto simp: placed_ok_def)
  ultimately show ?thesis
    using assms(1) waiters_set_thread [of f, OF assms(3)] by (simp add: placed_ok_def)
qed

lemma settle_nowhere:
  assumes "placed_ok X s" "place_of s t = Nowhere"
  shows "placed_ok (X - {t}) s"
proof -
  have "{u. u \<notin> X - {t} \<and> place_of s u = pl} = {u. u \<notin> X \<and> place_of s u = pl}" if "pl \<noteq> Nowhere" for pl
    using assms(2) that by auto
  then show ?thesis using assms(1) by (simp add: placed_ok_def)
qed

lemma not_waiting:
  assumes "placed_ok X s" "t \<in> X" "pl \<noteq> Nowhere"
  shows "t \<notin> set (waiters s pl)"
  using assms by (auto simp: placed_ok_def)

lemma change_run:
  assumes ok: "placed_ok X s" and p: "p < 10" and q: "queue_ok q"
    and w: "distinct (contents q)" "set (contents q) = {u. u \<notin> X' \<and> place_of s u = Run p}"
    and X: "\<And>u. place_of s u \<noteq> Run p \<Longrightarrow> place_of s u \<noteq> Nowhere \<Longrightarrow> u \<in> X' \<longleftrightarrow> u \<in> X"
  shows "placed_ok X' (s\<lparr>thread_queue := (thread_queue s)[p := q]\<rparr>)" (is "placed_ok X' ?s")
proof -
  have len: "length (thread_queue s) = 10" using ok by (simp add: placed_ok_def)
  have wt: "waiters ?s pl = (if pl = Run p then contents q else waiters s pl)" for pl
    using p len by (cases pl) (auto simp: nth_list_update)
  have pl: "place_of ?s u = place_of s u" "thread_ok ?s u = thread_ok s u" for u
    by (simp_all add: place_of_def thread_ok_def Let_def)
  have "distinct (waiters ?s pl) \<and> set (waiters ?s pl) = {u. u \<notin> X' \<and> place_of ?s u = pl}" if "pl \<noteq> Nowhere" for pl
  proof (cases "pl = Run p")
    case True
    then show ?thesis using w unfolding wt pl by simp
  next
    case False
    have "{u. u \<notin> X' \<and> place_of s u = pl} = {u. u \<notin> X \<and> place_of s u = pl}" using X that False by auto
    then show ?thesis using False ok that unfolding wt pl by (simp add: placed_ok_def)
  qed
  moreover have "\<forall>q' \<in> set (thread_queue ?s). queue_ok q'"
    using ok q set_update_subset_insert [of "thread_queue s" p q] by (auto simp: placed_ok_def)
  ultimately show ?thesis using ok pl by (simp add: placed_ok_def)
qed

lemma run_waiters:
  assumes "placed_ok X s" "p < 10"
  shows "distinct (contents (thread_queue s ! p))" "set (contents (thread_queue s ! p)) = {u. u \<notin> X \<and> place_of s u = Run p}"
proof -
  have "distinct (waiters s (Run p)) \<and> set (waiters s (Run p)) = {u. u \<notin> X \<and> place_of s u = Run p}"
    using assms(1) unfolding placed_ok_def by blast
  then show "distinct (contents (thread_queue s ! p))" "set (contents (thread_queue s ! p)) = {u. u \<notin> X \<and> place_of s u = Run p}"
    using assms by (simp_all add: placed_ok_def)
qed

lemma run_push:
  assumes ok: "placed_ok X s" and t: "t \<in> X" "place_of s t = Run p" "p < 10"
    and q: "queue_ok q" "contents q = contents (thread_queue s ! p) @ [t]"
  shows "placed_ok (X - {t}) (s\<lparr>thread_queue := (thread_queue s)[p := q]\<rparr>)"
  by (rule change_run [OF ok t(3) q(1)]) (use run_waiters [OF ok t(3)] t q(2) in auto)

lemma mark_ready_ok:
  assumes ok: "placed_ok X s" and t: "t \<in> X" "class_of s t = Thread_class"
    and "THREAD_BLOCKED_ON (threads s t) = ZERO" "THREAD_SUSPEND_COUNT (threads s t) = 0"
  obtains q where "mark_thread_ready t s = Inr (set_thread t (\<lambda>r. r\<lparr>THREAD_STATE := TSTATE_WAITING\<rparr>) s
      \<lparr>thread_queue := (thread_queue s)[THREAD_PRIORITY (threads s t) := q]\<rparr>)"
    "placed_ok (X - {t}) (set_thread t (\<lambda>r. r\<lparr>THREAD_STATE := TSTATE_WAITING\<rparr>) s
      \<lparr>thread_queue := (thread_queue s)[THREAD_PRIORITY (threads s t) := q]\<rparr>)"
proof -
  let ?p = "THREAD_PRIORITY (threads s t)" and ?s = "set_thread t (\<lambda>r. r\<lparr>THREAD_STATE := TSTATE_WAITING\<rparr>) s"
  have p: "?p < 10" and len: "length (thread_queue s) = 10" and tok: "thread_ok s t"
    using ok t(2) by (auto simp: placed_ok_def thread_ok_def Let_def)
  then have "queue_ok (thread_queue s ! ?p)" using ok by (simp add: placed_ok_def)
  from push_back_ok [OF this, of t] obtain q where q: "dequeue_push_back (thread_queue s ! ?p) t = Some q" "queue_ok q"
      "contents q = contents (thread_queue s ! ?p) @ [t]" .
  have "placed_ok X ?s" using tok assms(4,5)
    by (intro change_thread [OF ok]) (auto simp: t(1) thread_ok_def Let_def)
  moreover have "place_of ?s t = Run ?p" using assms(4,5) t(2) by (simp add: place_of_def Let_def)
  ultimately have "placed_ok (X - {t}) (?s\<lparr>thread_queue := (thread_queue ?s)[?p := q]\<rparr>)"
    using q(2,3) p t(1) by (intro run_push) simp_all
  moreover have "mark_thread_ready t s = Inr (?s\<lparr>thread_queue := (thread_queue s)[?p := q]\<rparr>)"
    using assms(4,5) p len q(1) by (simp add: mark_thread_ready_def Let_def)
  ultimately show thesis using that by simp
qed

lemma change_box:
  assumes ok: "placed_ok X s" and m: "class_of s m = Mailbox_class" and q: "queue_ok q"
    and w: "distinct (if h = FALSE_OBJ then contents q else [])"
      "set (if h = FALSE_OBJ then contents q else []) = {u. u \<notin> X' \<and> place_of s u = Box m}"
    and X: "\<And>u. place_of s u \<noteq> Box m \<Longrightarrow> place_of s u \<noteq> Nowhere \<Longrightarrow> u \<in> X' \<longleftrightarrow> u \<in> X"
  shows "placed_ok X' (s\<lparr>mbox_queue := (mbox_queue s)(m := q), MAILBOX_HAS_DATA_Q := (MAILBOX_HAS_DATA_Q s)(m := h)\<rparr>)"
    (is "placed_ok X' ?s")
proof -
  have wt: "waiters ?s pl = (if pl = Box m then (if h = FALSE_OBJ then contents q else []) else waiters s pl)" for pl
    using m by (cases pl) auto
  have pl: "place_of ?s u = place_of s u" "thread_ok ?s u = thread_ok s u" for u
    by (simp_all add: place_of_def thread_ok_def Let_def)
  have "distinct (waiters ?s pl) \<and> set (waiters ?s pl) = {u. u \<notin> X' \<and> place_of ?s u = pl}" if "pl \<noteq> Nowhere" for pl
  proof (cases "pl = Box m")
    case True
    then show ?thesis using w unfolding wt pl by simp
  next
    case False
    have "{u. u \<notin> X' \<and> place_of s u = pl} = {u. u \<notin> X \<and> place_of s u = pl}" using X that False by auto
    then show ?thesis using False ok that unfolding wt pl by (simp add: placed_ok_def)
  qed
  then show ?thesis using ok pl q by (simp add: placed_ok_def)
qed

lemma box_waiters:
  assumes "placed_ok X s" "class_of s m = Mailbox_class" "MAILBOX_HAS_DATA_Q s m = FALSE_OBJ"
  shows "distinct (contents (mbox_queue s m))" "set (contents (mbox_queue s m)) = {u. u \<notin> X \<and> place_of s u = Box m}"
proof -
  have "distinct (waiters s (Box m)) \<and> set (waiters s (Box m)) = {u. u \<notin> X \<and> place_of s u = Box m}"
    using assms(1) unfolding placed_ok_def by blast
  then show "distinct (contents (mbox_queue s m))" "set (contents (mbox_queue s m)) = {u. u \<notin> X \<and> place_of s u = Box m}"
    using assms(2,3) by simp_all
qed

lemma box_data:
  assumes "placed_ok X s" "class_of s m = Mailbox_class" "MAILBOX_HAS_DATA_Q s m \<noteq> FALSE_OBJ"
  shows "{u. u \<notin> X \<and> place_of s u = Box m} = {}"
proof -
  have "set (waiters s (Box m)) = {u. u \<notin> X \<and> place_of s u = Box m}"
    using assms(1) unfolding placed_ok_def by blast
  then show ?thesis using assms(2,3) by simp
qed

lemma mbox_queue_ok: "placed_ok X s \<Longrightarrow> class_of s m = Mailbox_class \<Longrightarrow> queue_ok (mbox_queue s m)"
  by (simp add: placed_ok_def)

text \<open>The first waiting thread is taken.\<close>

lemma box_pop:
  assumes ok: "placed_ok X s" and m: "class_of s m = Mailbox_class" "MAILBOX_HAS_DATA_Q s m = FALSE_OBJ"
    and c: "contents (mbox_queue s m) = t # ts"
  obtains q where "mbox_pop m s = Inr (t, s\<lparr>mbox_queue := (mbox_queue s)(m := q)\<rparr>)" "queue_ok q" "contents q = ts"
    "placed_ok (insert t X) (s\<lparr>mbox_queue := (mbox_queue s)(m := q)\<rparr>)"
    "t \<notin> X" "place_of s t = Box m"
proof -
  from pop_front_ok [OF mbox_queue_ok [OF ok m(1)] c] obtain q where
    q: "dequeue_pop_front (mbox_queue s m) = Inr (t, q)" "queue_ok q" "contents q = ts" .
  note w = box_waiters [OF ok m, unfolded c]
  then have t: "t \<notin> X" "place_of s t = Box m" by auto
  have "placed_ok (insert t X) (s\<lparr>mbox_queue := (mbox_queue s)(m := q), MAILBOX_HAS_DATA_Q := (MAILBOX_HAS_DATA_Q s)(m := MAILBOX_HAS_DATA_Q s m)\<rparr>)"
    by (rule change_box [OF ok m(1) q(2)]) (use w m q(3) t in auto)
  then have "placed_ok (insert t X) (s\<lparr>mbox_queue := (mbox_queue s)(m := q)\<rparr>)" by simp
  then show thesis using that q t by (simp add: mbox_pop_def)
qed

text \<open>In a mailbox with data the queue does not matter.\<close>

lemma data_change:
  assumes ok: "placed_ok X s" and m: "class_of s m = Mailbox_class" "MAILBOX_HAS_DATA_Q s m \<noteq> FALSE_OBJ" "queue_ok q"
  shows "placed_ok X (s\<lparr>mbox_queue := (mbox_queue s)(m := q)\<rparr>)"
proof -
  have "placed_ok X (s\<lparr>mbox_queue := (mbox_queue s)(m := q), MAILBOX_HAS_DATA_Q := (MAILBOX_HAS_DATA_Q s)(m := MAILBOX_HAS_DATA_Q s m)\<rparr>)"
    by (rule change_box [OF ok m(1,3)]) (use box_data [OF ok m(1,2)] m(2) in auto)
  then show ?thesis by simp
qed

lemma box_push:
  assumes ok: "placed_ok X s" and m: "class_of s m = Mailbox_class" "MAILBOX_HAS_DATA_Q s m = FALSE_OBJ \<or> contents (mbox_queue s m) = []"
    and t: "t \<in> X" "place_of s t = Box m"
  obtains q where "mbox_push dequeue_push_back m t (set_has_data m FALSE_OBJ s) =
      Inr (set_has_data m FALSE_OBJ s\<lparr>mbox_queue := (mbox_queue s)(m := q)\<rparr>)" "contents q = contents (mbox_queue s m) @ [t]"
    "placed_ok (X - {t}) (set_has_data m FALSE_OBJ s\<lparr>mbox_queue := (mbox_queue s)(m := q)\<rparr>)"
proof -
  obtain q where q: "dequeue_push_back (mbox_queue s m) t = Some q" "queue_ok q" "contents q = contents (mbox_queue s m) @ [t]"
    by (rule push_back_ok [OF mbox_queue_ok [OF ok m(1)]])
  have w: "distinct (contents (mbox_queue s m))" "set (contents (mbox_queue s m)) = {u. u \<notin> X \<and> place_of s u = Box m}"
    using box_waiters [OF ok m(1)] box_data [OF ok m(1)] m(2) by (cases "MAILBOX_HAS_DATA_Q s m = FALSE_OBJ"; auto)+
  have "placed_ok (X - {t}) (s\<lparr>mbox_queue := (mbox_queue s)(m := q), MAILBOX_HAS_DATA_Q := (MAILBOX_HAS_DATA_Q s)(m := FALSE_OBJ)\<rparr>)"
    by (rule change_box [OF ok m(1) q(2)]) (use w q(3) t in auto)
  moreover have "s\<lparr>mbox_queue := (mbox_queue s)(m := q), MAILBOX_HAS_DATA_Q := (MAILBOX_HAS_DATA_Q s)(m := FALSE_OBJ)\<rparr> =
      set_has_data m FALSE_OBJ s\<lparr>mbox_queue := (mbox_queue s)(m := q)\<rparr>" by (simp add: set_has_data_def)
  ultimately show thesis using that [of q] q by (simp add: mbox_push_def set_has_data_def)
qed

lemma has_data_true:
  assumes ok: "placed_ok X s" and m: "class_of s m = Mailbox_class" "h \<noteq> FALSE_OBJ"
    and e: "MAILBOX_HAS_DATA_Q s m = FALSE_OBJ \<Longrightarrow> contents (mbox_queue s m) = []"
  shows "placed_ok X (set_has_data m h s)"
proof -
  have "{u. u \<notin> X \<and> place_of s u = Box m} = {}"
    using box_waiters(2) [OF ok m(1)] box_data [OF ok m(1)] e by (cases "MAILBOX_HAS_DATA_Q s m = FALSE_OBJ") auto
  then have "placed_ok X (s\<lparr>mbox_queue := (mbox_queue s)(m := mbox_queue s m), MAILBOX_HAS_DATA_Q := (MAILBOX_HAS_DATA_Q s)(m := h)\<rparr>)"
    by (intro change_box [OF ok m(1)]) (use mbox_queue_ok [OF ok m(1)] m(2) in auto)
  then show ?thesis by (simp add: set_has_data_def)
qed

text \<open>A thread that was waiting for a mailbox gets an item.\<close>

lemma set_thread_twice: "set_thread t f (set_thread t g s) = set_thread t (f \<circ> g) s"
  by (simp add: set_thread_def)

definition delivered :: "u32 \<Rightarrow> u32 \<Rightarrow> thread \<Rightarrow> thread" where
  "delivered t item = (\<lambda>r. r\<lparr>THREAD_BLOCKED_ON := ZERO, RESUME_VALUE := item, THREAD_STATE := TSTATE_WAITING\<rparr>)"

definition ready :: "system \<Rightarrow> u32 \<Rightarrow> bool" where
  "ready s t \<longleftrightarrow> THREAD_SUSPEND_COUNT (threads s t) = 0"

lemma wake_eq:
  assumes "ready s t" "THREAD_PRIORITY (threads s t) < length (thread_queue s)"
    "dequeue_push_back (thread_queue s ! THREAD_PRIORITY (threads s t)) t = Some q"
  shows "and_then (UNBLOCK_THREAD t s) (\<lambda>s. mark_thread_ready t (store_resume_value t item s)) =
    Inr (set_thread t (delivered t item) s\<lparr>thread_queue := (thread_queue s)[THREAD_PRIORITY (threads s t) := q]\<rparr>)"
  using assms
  by (simp add: and_then_def UNBLOCK_THREAD_def mark_thread_ready_def store_resume_value_def ready_def Let_def
      set_thread_def delivered_def)

lemma wake_up:
  assumes ok: "placed_ok X s" and t: "t \<in> X" "class_of s t = Thread_class" "THREAD_SUSPEND_COUNT (threads s t) = 0"
  obtains q where "and_then (UNBLOCK_THREAD t s) (\<lambda>s. mark_thread_ready t (store_resume_value t item s)) =
      Inr (set_thread t (delivered t item) s\<lparr>thread_queue := (thread_queue s)[THREAD_PRIORITY (threads s t) := q]\<rparr>)"
    "placed_ok (X - {t}) (set_thread t (delivered t item) s\<lparr>thread_queue := (thread_queue s)[THREAD_PRIORITY (threads s t) := q]\<rparr>)"
proof -
  let ?s = "set_thread t (delivered t item) s" and ?p = "THREAD_PRIORITY (threads s t)"
  have tok: "thread_ok s t" using ok t(2) by (simp add: placed_ok_def)
  have p: "?p < 10" "length (thread_queue s) = 10" using ok tok by (simp_all add: placed_ok_def thread_ok_def Let_def)
  then have "queue_ok (thread_queue s ! ?p)" using ok by (simp add: placed_ok_def)
  from push_back_ok [OF this, of t] obtain q where q: "dequeue_push_back (thread_queue s ! ?p) t = Some q" "queue_ok q"
      "contents q = contents (thread_queue s ! ?p) @ [t]" .
  have s1: "placed_ok X ?s"
    using tok t by (intro change_thread [OF ok]) (auto simp: thread_ok_def Let_def delivered_def)
  have "place_of ?s t = Run ?p" using t by (simp add: place_of_def Let_def delivered_def)
  then have "placed_ok (X - {t}) (?s\<lparr>thread_queue := (thread_queue ?s)[?p := q]\<rparr>)"
    using q p t by (intro run_push [OF s1]) simp_all
  moreover have "ready s t" using t(3) by (simp add: ready_def)
  ultimately show thesis using that wake_eq [of s t q item] p q(1) by simp
qed

definition ejected :: "thread \<Rightarrow> thread" where
  "ejected r = r\<lparr>THREAD_SUSPEND_COUNT := - THREAD_SUSPEND_COUNT r\<rparr>"


definition same_but :: "u32 \<Rightarrow> system \<Rightarrow> system \<Rightarrow> bool" where
  "same_but m s s' \<longleftrightarrow>
     class_of s' = class_of s \<and> sem_queue s' = sem_queue s \<and> SEMAPHORE_COUNT s' = SEMAPHORE_COUNT s \<and>
     current_thread s' = current_thread s \<and>
     (\<forall>m'. m' \<noteq> m \<longrightarrow> mbox_queue s' m' = mbox_queue s m' \<and> MAILBOX_HAS_DATA_Q s' m' = MAILBOX_HAS_DATA_Q s m')"

lemma same_but_refl [simp]: "same_but m s s"
  by (simp add: same_but_def)

lemma same_but_trans: "same_but m s s1 \<Longrightarrow> same_but m s1 s2 \<Longrightarrow> same_but m s s2"
  by (simp add: same_but_def)

lemma place_Box: "place_of s t = Box m \<Longrightarrow>
    class_of s t = Thread_class \<and> 0 \<le> THREAD_SUSPEND_COUNT (threads s t) \<and> THREAD_BLOCKED_ON (threads s t) = m \<and>
    m \<noteq> ZERO \<and> class_of s m = Mailbox_class"
  by (auto simp: place_of_def Let_def split: if_splits obj_class.splits)

lemma eject_ok:
  assumes ok: "placed_ok (insert t X) s" and t: "t \<notin> X" "class_of s t = Thread_class" "THREAD_SUSPEND_COUNT (threads s t) > 0"
    and b: "THREAD_BLOCKED_ON (threads s t) = ZERO \<or> class_of s (THREAD_BLOCKED_ON (threads s t)) = Mailbox_class"
  shows "did_remove_from_queue t s = Inr (False, set_thread t ejected s) \<and> placed_ok X (set_thread t ejected s)"
proof -
  have tok: "thread_ok s t" using ok t(2) by (simp add: placed_ok_def)
  have n: "is_fx (- THREAD_SUSPEND_COUNT (threads s t))"
    using tok t(3) by (intro is_fx_neg) (auto simp: thread_ok_def Let_def FX_MIN_def)
  have eq: "set_thread t (\<lambda>r. r\<lparr>THREAD_SUSPEND_COUNT := fx (- THREAD_SUSPEND_COUNT (threads s t))\<rparr>) s = set_thread t ejected s"
    by (simp add: set_thread_def ejected_def is_fxD [OF n])
  have "placed_ok (insert t X) (set_thread t ejected s)"
    using tok t(3) b n by (intro change_thread [OF ok]) (auto simp: thread_ok_def Let_def ejected_def)
  moreover have "place_of (set_thread t ejected s) t = Nowhere" using t(3) by (simp add: place_of_def Let_def ejected_def)
  ultimately have "placed_ok (insert t X - {t}) (set_thread t ejected s)" by (rule settle_nowhere)
  then show ?thesis using t(1,3) eq by (simp add: did_remove_from_queue_def Let_def)
qed

lemma ready_removed: "ready s t \<Longrightarrow> did_remove_from_queue t s = Inr (True, s)"
  by (simp add: ready_def did_remove_from_queue_def)

lemma send_item_ok:
  assumes ok: "placed_ok X s" and t: "t \<in> X" "class_of s t = Thread_class" "ready s t"
    and m: "class_of s m = Mailbox_class"
  obtains s' where "send_item_to_thread m t item s = Inr s'" "placed_ok (X - {t}) s'" "same_but m s s'"
    "mbox_queue s' m = mbox_queue s m"
    "MAILBOX_HAS_DATA_Q s' m = (if contents (mbox_queue s m) = [] then TRUE_OBJ else MAILBOX_HAS_DATA_Q s m)"
    "threads s' = (threads s)(t := delivered t item (threads s t))"
proof -
  let ?s = "\<lambda>q. set_thread t (delivered t item) s\<lparr>thread_queue := (thread_queue s)[THREAD_PRIORITY (threads s t) := q]\<rparr>"
  obtain q where q: "and_then (UNBLOCK_THREAD t s) (\<lambda>s. mark_thread_ready t (store_resume_value t item s)) = Inr (?s q)"
    "placed_ok (X - {t}) (?s q)"
    using wake_up [OF ok t(1,2)] t(3) by (metis ready_def)
  have "send_item_to_thread m t item s =
      and_then (and_then (UNBLOCK_THREAD t s) (\<lambda>s. mark_thread_ready t (store_resume_value t item s))) (\<lambda>s.
        Inr (if dequeue_empty (mbox_queue s m) then set_has_data m TRUE_OBJ s else s))"
    by (simp add: send_item_to_thread_def and_then_def split: sum.split)
  then have eq: "send_item_to_thread m t item s = Inr (if contents (mbox_queue s m) = [] then set_has_data m TRUE_OBJ (?s q) else ?s q)"
    using q empty_ok [OF mbox_queue_ok [OF ok m]] by (simp add: and_then_def)
  have T: "TRUE_OBJ \<noteq> FALSE_OBJ" by (simp add: TRUE_OBJ_def FALSE_OBJ_def MAKE_IMMOB_def)
  have h: "placed_ok (X - {t}) (set_has_data m TRUE_OBJ (?s q))" if "contents (mbox_queue s m) = []"
    by (rule has_data_true [OF q(2) _ T]) (use that m in simp_all)
  show thesis
    by (rule that [OF eq]) (use q(2) h in \<open>auto simp: same_but_def set_has_data_def set_thread_def\<close>)
qed

lemma true_false [simp]: "TRUE_OBJ \<noteq> FALSE_OBJ" "FALSE_OBJ \<noteq> TRUE_OBJ"
  by (simp_all add: TRUE_OBJ_def FALSE_OBJ_def MAKE_IMMOB_def)

text \<open>The threads of a waiting list that are skipped, and the one that gets the item.\<close>

definition skipped :: "system \<Rightarrow> u32 list \<Rightarrow> u32 list" where
  "skipped s ws = takeWhile (\<lambda>t. \<not> ready s t) ws"

definition skip_threads :: "u32 list \<Rightarrow> (u32 \<Rightarrow> thread) \<Rightarrow> u32 \<Rightarrow> thread" where
  "skip_threads sk th u = (if u \<in> set sk then ejected (th u) else th u)"

lemma send_more_ok:
  assumes "class_of s m = Mailbox_class"
  shows "placed_ok {} s \<Longrightarrow> MAILBOX_HAS_DATA_Q s m = FALSE_OBJ \<Longrightarrow> contents (mbox_queue s m) = ws \<Longrightarrow> ws \<noteq> [] \<Longrightarrow>
    \<exists>s'. placed_ok {} s' \<and> same_but m s s' \<and>
      (case dropWhile (\<lambda>t. \<not> ready s t) ws of
         [] \<Rightarrow> send_more m item s = Some (Inr (False, s')) \<and> contents (mbox_queue s' m) = [] \<and>
           MAILBOX_HAS_DATA_Q s' m = TRUE_OBJ \<and> threads s' = skip_threads (skipped s ws) (threads s)
       | t # ts \<Rightarrow> send_more m item s = Some (Inr (True, s')) \<and> contents (mbox_queue s' m) = ts \<and>
           MAILBOX_HAS_DATA_Q s' m = (if ts = [] then TRUE_OBJ else FALSE_OBJ) \<and>
           threads s' = (skip_threads (skipped s ws) (threads s))(t := delivered t item (threads s t)))"
  using assms
proof (induction ws arbitrary: s)
  case (Cons t ts)
  note ok = Cons.prems(1) and m = Cons.prems(5) Cons.prems(2)
  obtain q where q: "mbox_pop m s = Inr (t, s\<lparr>mbox_queue := (mbox_queue s)(m := q)\<rparr>)" "queue_ok q" "contents q = ts"
    "placed_ok {t} (s\<lparr>mbox_queue := (mbox_queue s)(m := q)\<rparr>)" "place_of s t = Box m"
    using box_pop [OF ok m Cons.prems(3)] by (metis insert_absorb2)
  let ?s1 = "s\<lparr>mbox_queue := (mbox_queue s)(m := q)\<rparr>"
  note p = place_Box [OF q(5)]
  have tn: "t \<notin> set ts" using box_waiters(1) [OF ok m] Cons.prems(3) by simp
  show ?case
  proof (cases "ready s t")
    case True
    then have r: "ready ?s1 t" by (simp add: ready_def)
    obtain s2 where s2: "send_item_to_thread m t item ?s1 = Inr s2" "placed_ok ({t} - {t}) s2" "same_but m ?s1 s2"
      "mbox_queue s2 m = mbox_queue ?s1 m"
      "MAILBOX_HAS_DATA_Q s2 m = (if contents (mbox_queue ?s1 m) = [] then TRUE_OBJ else MAILBOX_HAS_DATA_Q ?s1 m)"
      "threads s2 = (threads ?s1)(t := delivered t item (threads ?s1 t))"
      by (rule send_item_ok [OF q(4), of t m item]) (use p r in simp_all)
    have "send_more m item s = Some (Inr (True, s2))"
      using q(1) ready_removed [OF r] s2(1) by (subst send_more.simps) simp
    moreover have "same_but m s s2" using s2(3) by (simp add: same_but_def)
    ultimately show ?thesis using True s2 q(3) Cons.prems(2)
      by (intro exI [of _ s2]) (simp add: skipped_def skip_threads_def fun_eq_iff)
  next
    case False
    then have pos: "THREAD_SUSPEND_COUNT (threads ?s1 t) > 0" using p by (simp add: ready_def)
    have e: "did_remove_from_queue t ?s1 = Inr (False, set_thread t ejected ?s1)" "placed_ok {} (set_thread t ejected ?s1)"
      using eject_ok [of t "{}" ?s1] q(4) pos p by simp_all
    let ?s2 = "set_thread t ejected ?s1"
    have emp: "dequeue_empty (mbox_queue ?s2 m) \<longleftrightarrow> ts = []" using empty_ok [OF q(2)] q(3) by simp
    have sb: "same_but m s ?s2" by (simp add: same_but_def)
    show ?thesis
    proof (cases "ts = []")
      case nil: True
      let ?s3 = "set_has_data m TRUE_OBJ ?s2"
      have "send_more m item s = Some (Inr (False, ?s3))"
        using q(1) e(1) emp nil by (subst send_more.simps) simp
      moreover have "placed_ok {} ?s3" by (rule has_data_true [OF e(2)]) (use m q(3) nil in simp_all)
      moreover have "threads ?s3 = skip_threads (skipped s [t]) (threads s)"
        using False by (simp add: set_has_data_def set_thread_def skipped_def skip_threads_def fun_eq_iff)
      moreover have "same_but m s ?s3" by (simp add: same_but_def set_has_data_def)
      ultimately show ?thesis using False nil q(3)
        by (intro exI [of _ ?s3]) (simp add: set_has_data_def)
    next
      case more: False
      have "send_more m item s = send_more m item ?s2"
        using q(1) e(1) emp more by (subst send_more.simps) simp
      moreover have rd: "ready ?s2 u = ready s u" if "u \<in> set ts" for u
        using that tn by (auto simp: ready_def)
      then have "dropWhile (\<lambda>u. \<not> ready ?s2 u) ts = dropWhile (\<lambda>u. \<not> ready s u) ts"
        "skipped ?s2 ts = skipped s ts" unfolding skipped_def
        by (intro dropWhile_cong takeWhile_cong; simp)+
      moreover have "skip_threads (skipped s ts) (threads ?s2) = skip_threads (skipped s (t # ts)) (threads s)"
        using False tn set_takeWhileD by (fastforce simp: skip_threads_def skipped_def fun_eq_iff)
      moreover have "t' \<noteq> t" if "dropWhile (\<lambda>u. \<not> ready s u) ts = t' # ts'" for t' ts'
        using that tn by (metis list.set_intros(1) set_dropWhileD)
      moreover note Cons.IH [OF e(2) _ _ more]
      ultimately show ?thesis
        using False m q(3) sb same_but_trans [OF sb] by (auto split: list.splits)
    qed
  qed
qed simp

end
