(* ===== verification/ThreadDispatch.thy ===== *)
theory ThreadDispatch
  imports ThreadQueues
begin

text \<open>
  Sending to a mailbox, and the scan of the run queues.
\<close>

section \<open>Sending\<close>

lemma boxes_ok_but:
  assumes "boxes_ok s" "same_but m s s'" "MAILBOX_HAS_DATA_Q s' m = FALSE_OBJ \<Longrightarrow> contents (mbox_queue s' m) \<noteq> []"
  shows "boxes_ok s'"
  unfolding boxes_ok_def
proof (intro allI impI)
  fix m' assume "class_of s' m' = Mailbox_class \<and> MAILBOX_HAS_DATA_Q s' m' = FALSE_OBJ"
  then show "contents (mbox_queue s' m') \<noteq> []"
    using assms by (cases "m' = m") (auto simp: boxes_ok_def same_but_def)
qed

lemma sems_ok_but: "sems_ok s \<Longrightarrow> same_but m s s' \<Longrightarrow> sems_ok s'"
  by (simp add: sems_ok_def same_but_def)

lemma system_ok_but:
  assumes "system_ok s" "same_but m s s'" "placed_ok {} s'"
    "MAILBOX_HAS_DATA_Q s' m = FALSE_OBJ \<Longrightarrow> contents (mbox_queue s' m) \<noteq> []"
  shows "system_ok s'"
  using assms boxes_ok_but sems_ok_but unfolding system_ok_def by blast

lemma queue_item_ok:
  assumes ok: "placed_ok {} s" and m: "class_of s m = Mailbox_class" "MAILBOX_HAS_DATA_Q s m \<noteq> FALSE_OBJ"
  obtains q where "queue_item m item front s = Inr (s\<lparr>mbox_queue := (mbox_queue s)(m := q)\<rparr>)"
    "placed_ok {} (s\<lparr>mbox_queue := (mbox_queue s)(m := q)\<rparr>)"
    "contents q = (if front then item # contents (mbox_queue s m) else contents (mbox_queue s m) @ [item])"
proof -
  note q = mbox_queue_ok [OF ok m(1)]
  show thesis
  proof (cases front)
    case True
    obtain q' where "dequeue_push_front (mbox_queue s m) item = Some q'" "queue_ok q'" "contents q' = item # contents (mbox_queue s m)"
      by (rule push_front_ok [OF q])
    then show thesis using that [of q'] data_change [OF ok m] True by (simp add: queue_item_def mbox_push_def)
  next
    case False
    obtain q' where "dequeue_push_back (mbox_queue s m) item = Some q'" "queue_ok q'" "contents q' = contents (mbox_queue s m) @ [item]"
      by (rule push_back_ok [OF q])
    then show thesis using that [of q'] data_change [OF ok m] False by (simp add: queue_item_def mbox_push_def)
  qed
qed

definition send_result :: "u32 \<Rightarrow> u32 \<Rightarrow> bool \<Rightarrow> system \<Rightarrow> thread_error + (bool \<times> system) \<Rightarrow> bool" where
  "send_result m item front s r \<longleftrightarrow>
     (let c = contents (mbox_queue s m)
      in case r of
           Inl _ \<Rightarrow> False
         | Inr (sent, s') \<Rightarrow>
             system_ok s' \<and> same_but m s s' \<and>
             (if MAILBOX_HAS_DATA_Q s m = TRUE_OBJ then
                sent \<and> threads s' = threads s \<and> MAILBOX_HAS_DATA_Q s' m = TRUE_OBJ \<and>
                contents (mbox_queue s' m) = (if front then item # c else c @ [item])
              else if MAILBOX_HAS_DATA_Q s m = FALSE_OBJ then
                sent \<and>
                (case dropWhile (\<lambda>t. \<not> ready s t) c of
                   [] \<Rightarrow> threads s' = skip_threads c (threads s) \<and> MAILBOX_HAS_DATA_Q s' m = TRUE_OBJ \<and>
                     contents (mbox_queue s' m) = [item]
                 | t # ts \<Rightarrow>
                     threads s' = (skip_threads (skipped s c) (threads s))(t := delivered t item (threads s t)) \<and>
                     MAILBOX_HAS_DATA_Q s' m = (if ts = [] then TRUE_OBJ else FALSE_OBJ) \<and> contents (mbox_queue s' m) = ts)
              else \<not> sent \<and> s' = s))"

lemma send_ok:
  assumes ok: "system_ok s" and m: "class_of s m = Mailbox_class"
  shows "send_result m item front s (do_mailbox_send m item front s)"
proof -
  have p: "placed_ok {} s" using ok by (simp add: system_ok_def)
  consider "MAILBOX_HAS_DATA_Q s m = TRUE_OBJ" | "MAILBOX_HAS_DATA_Q s m = FALSE_OBJ"
    | "MAILBOX_HAS_DATA_Q s m \<noteq> TRUE_OBJ" "MAILBOX_HAS_DATA_Q s m \<noteq> FALSE_OBJ" by blast
  then show ?thesis
  proof cases
    case 1
    obtain q where q: "queue_item m item front s = Inr (s\<lparr>mbox_queue := (mbox_queue s)(m := q)\<rparr>)"
        "placed_ok {} (s\<lparr>mbox_queue := (mbox_queue s)(m := q)\<rparr>)"
        "contents q = (if front then item # contents (mbox_queue s m) else contents (mbox_queue s m) @ [item])"
      using queue_item_ok [OF p m] 1 by (metis true_false(1))
    let ?s = "s\<lparr>mbox_queue := (mbox_queue s)(m := q)\<rparr>"
    have sb: "same_but m s ?s" by (simp add: same_but_def)
    have "system_ok ?s" by (rule system_ok_but [OF ok sb q(2)]) (use 1 in simp)
    then show ?thesis using 1 q sb by (simp add: do_mailbox_send_def send_result_def Let_def and_then_def)
  next
    case 2
    let ?c = "contents (mbox_queue s m)"
    have ne: "?c \<noteq> []" using ok m 2 by (simp add: system_ok_def boxes_ok_def)
    obtain s' where s': "placed_ok {} s'" "same_but m s s'"
      "case dropWhile (\<lambda>t. \<not> ready s t) ?c of
         [] \<Rightarrow> send_more m item s = Some (Inr (False, s')) \<and> contents (mbox_queue s' m) = [] \<and>
           MAILBOX_HAS_DATA_Q s' m = TRUE_OBJ \<and> threads s' = skip_threads (skipped s ?c) (threads s)
       | t # ts \<Rightarrow> send_more m item s = Some (Inr (True, s')) \<and> contents (mbox_queue s' m) = ts \<and>
           MAILBOX_HAS_DATA_Q s' m = (if ts = [] then TRUE_OBJ else FALSE_OBJ) \<and>
           threads s' = (skip_threads (skipped s ?c) (threads s))(t := delivered t item (threads s t))"
      using send_more_ok [OF m p 2 refl ne] by blast
    show ?thesis
    proof (cases "dropWhile (\<lambda>t. \<not> ready s t) ?c")
      case Nil
      have sk: "skipped s ?c = ?c" using Nil by (simp add: skipped_def takeWhile_eq_all_conv dropWhile_eq_Nil_conv)
      have m': "class_of s' m = Mailbox_class" using s'(2) m by (simp add: same_but_def)
      have h: "MAILBOX_HAS_DATA_Q s' m = TRUE_OBJ" using s'(3) Nil by simp
      obtain q where q: "queue_item m item front s' = Inr (s'\<lparr>mbox_queue := (mbox_queue s')(m := q)\<rparr>)"
          "placed_ok {} (s'\<lparr>mbox_queue := (mbox_queue s')(m := q)\<rparr>)"
          "contents q = (if front then item # contents (mbox_queue s' m) else contents (mbox_queue s' m) @ [item])"
        using queue_item_ok [OF s'(1) m'] h by (metis true_false(1))
      let ?s = "s'\<lparr>mbox_queue := (mbox_queue s')(m := q)\<rparr>"
      have sb: "same_but m s ?s" using s'(2) by (simp add: same_but_def)
      have "system_ok ?s" by (rule system_ok_but [OF ok sb q(2)]) (use h in simp)
      then show ?thesis using 2 q sb s'(3) Nil sk
        by (simp add: do_mailbox_send_def send_result_def Let_def and_then_def del: dropWhile_eq_Nil_conv)
    next
      case (Cons t ts)
      have "system_ok s'" by (rule system_ok_but [OF ok s'(2,1)]) (use s'(3) Cons in \<open>auto split: if_splits\<close>)
      then show ?thesis using 2 s' Cons by (simp add: do_mailbox_send_def send_result_def Let_def)
    qed
  next
    case 3
    then show ?thesis using ok by (simp add: do_mailbox_send_def send_result_def Let_def)
  qed
qed

section \<open>Dispatching\<close>

definition no_running :: "system \<Rightarrow> bool" where
  "no_running s \<longleftrightarrow> (\<forall>t. class_of s t = Thread_class \<longrightarrow> THREAD_STATE (threads s t) \<noteq> TSTATE_RUNNING)"

definition same_boxes :: "system \<Rightarrow> system \<Rightarrow> bool" where
  "same_boxes s s' \<longleftrightarrow>
     class_of s' = class_of s \<and> mbox_queue s' = mbox_queue s \<and> MAILBOX_HAS_DATA_Q s' = MAILBOX_HAS_DATA_Q s \<and>
     sem_queue s' = sem_queue s \<and> SEMAPHORE_COUNT s' = SEMAPHORE_COUNT s"

lemma system_ok_boxes: "system_ok s \<Longrightarrow> same_boxes s s' \<Longrightarrow> placed_ok {} s' \<Longrightarrow> system_ok s'"
  by (simp add: system_ok_def same_boxes_def boxes_ok_def sems_ok_def)

lemma run_queue_ok: "placed_ok X s \<Longrightarrow> p < 10 \<Longrightarrow> queue_ok (thread_queue s ! p)"
  by (simp add: placed_ok_def)

lemma place_Run: "place_of s t = Run p \<Longrightarrow>
    class_of s t = Thread_class \<and> 0 \<le> THREAD_SUSPEND_COUNT (threads s t) \<and> THREAD_BLOCKED_ON (threads s t) = ZERO \<and>
    THREAD_PRIORITY (threads s t) = p"
  by (auto simp: place_of_def Let_def split: if_splits obj_class.splits)

lemma run_pop:
  assumes ok: "placed_ok X s" and p: "p < 10" and c: "contents (thread_queue s ! p) = t # ts"
  obtains q where "dequeue_pop_front (thread_queue s ! p) = Inr (t, q)" "queue_ok q" "contents q = ts"
    "placed_ok (insert t X) (s\<lparr>thread_queue := (thread_queue s)[p := q]\<rparr>)" "t \<notin> X" "place_of s t = Run p"
proof -
  from pop_front_ok [OF run_queue_ok [OF ok p] c] obtain q where
    q: "dequeue_pop_front (thread_queue s ! p) = Inr (t, q)" "queue_ok q" "contents q = ts" .
  note w = run_waiters [OF ok p, unfolded c]
  then have t: "t \<notin> X" "place_of s t = Run p" by auto
  have "placed_ok (insert t X) (s\<lparr>thread_queue := (thread_queue s)[p := q]\<rparr>)"
    by (rule change_run [OF ok p q(2)]) (use w q(3) t in auto)
  then show thesis using that q t by blast
qed

lemma dispatch_thread_ok:
  assumes ok: "placed_ok {t} s" and t: "class_of s t = Thread_class" "ready s t" "THREAD_BLOCKED_ON (threads s t) = ZERO"
    and nr: "no_running s" and nc: "THREAD_STATE (threads s t) \<noteq> TSTATE_COMPLETE"
  shows "placed_ok {} (dispatch_to_thread t s)"
proof -
  let ?s = "s\<lparr>current_thread := t\<rparr>"
  have "thread_ok ?s u" if "class_of s u = Thread_class" for u
    using ok nr that unfolding placed_ok_def by (simp add: thread_ok_def Let_def no_running_def)
  moreover have "place_of ?s u = place_of s u" for u by (simp add: place_of_def Let_def)
  moreover have "waiters ?s pl = waiters s pl" for pl by (cases pl) simp_all
  ultimately have s: "placed_ok {t} ?s" using ok by (simp add: placed_ok_def)
  let ?s' = "set_thread t (\<lambda>t. t\<lparr>THREAD_STATE := TSTATE_RUNNING\<rparr>) ?s"
  have "thread_ok ?s t" using s t(1) by (simp add: placed_ok_def)
  then have "placed_ok {t} ?s'"
    using t nc by (intro change_thread [OF s]) (auto simp: thread_ok_def Let_def ready_def)
  moreover have "place_of ?s' t = Nowhere" using t by (simp add: place_of_def Let_def)
  ultimately have "placed_ok ({t} - {t}) ?s'" by (rule settle_nowhere)
  then show ?thesis by (simp add: dispatch_to_thread_def)
qed

text \<open>A thread in a run queue has not completed.\<close>

lemma waiting_state: "place_of s t = Run p \<Longrightarrow> THREAD_STATE (threads s t) \<notin> {TSTATE_RUNNING, TSTATE_COMPLETE}"
  by (auto simp: place_of_def Let_def split: if_splits obj_class.splits)

definition other_queues :: "nat \<Rightarrow> system \<Rightarrow> system \<Rightarrow> bool" where
  "other_queues i s s' \<longleftrightarrow> (\<forall>j < 10. j \<noteq> i \<longrightarrow> thread_queue s' ! j = thread_queue s ! j)"

lemma try_queue_ok:
  assumes "i < 10"
  shows "placed_ok {} s \<Longrightarrow> no_running s \<Longrightarrow> contents (thread_queue s ! i) = ws \<Longrightarrow>
    \<exists>s'. placed_ok {} s' \<and> same_boxes s s' \<and> other_queues i s s' \<and>
      (case dropWhile (\<lambda>t. \<not> ready s t) ws of
         [] \<Rightarrow> try_queue i s = Some (Inr (False, s')) \<and> contents (thread_queue s' ! i) = [] \<and>
           current_thread s' = current_thread s \<and> threads s' = skip_threads ws (threads s)
       | t # ts \<Rightarrow> try_queue i s = Some (Inr (True, s')) \<and> contents (thread_queue s' ! i) = ts \<and> current_thread s' = t \<and>
           threads s' = (skip_threads (skipped s ws) (threads s))(t := (threads s t)\<lparr>THREAD_STATE := TSTATE_RUNNING\<rparr>))"
  using assms
proof (induction ws arbitrary: s)
  case Nil
  have "dequeue_empty (thread_queue s ! i)" using empty_ok [OF run_queue_ok [OF Nil(1) Nil(4)]] Nil(3) by simp
  then have "try_queue i s = Some (Inr (False, s))" by (subst try_queue.simps) simp
  then show ?case using Nil by (intro exI [of _ s]) (simp add: same_boxes_def other_queues_def skip_threads_def fun_eq_iff)
next
  case (Cons t ts)
  note ok = Cons.prems(1) and i = Cons.prems(4)
  obtain q where q: "dequeue_pop_front (thread_queue s ! i) = Inr (t, q)" "queue_ok q" "contents q = ts"
    "placed_ok {t} (s\<lparr>thread_queue := (thread_queue s)[i := q]\<rparr>)" "place_of s t = Run i"
    using run_pop [OF ok i Cons.prems(3)] by metis
  let ?s1 = "s\<lparr>thread_queue := (thread_queue s)[i := q]\<rparr>"
  note p = place_Run [OF q(5)] and st = waiting_state [OF q(5)]
  have tn: "t \<notin> set ts" using run_waiters(1) [OF ok i] Cons.prems(3) by simp
  have len: "length (thread_queue s) = 10" using ok by (simp add: placed_ok_def)
  have ne: "\<not> dequeue_empty (thread_queue s ! i)" using empty_ok [OF run_queue_ok [OF ok i]] Cons.prems(3) by simp
  show ?case
  proof (cases "ready s t")
    case True
    then have r: "ready ?s1 t" by (simp add: ready_def)
    have "no_running ?s1" using Cons.prems(2) by (simp add: no_running_def)
    then have "placed_ok {} (dispatch_to_thread t ?s1)"
      using p r st by (intro dispatch_thread_ok [OF q(4)]) auto
    moreover have "try_queue i s = Some (Inr (True, dispatch_to_thread t ?s1))"
      using q(1) ready_removed [OF r] ne by (subst try_queue.simps) simp
    ultimately show ?thesis using True q(3) i len
      by (intro exI [of _ "dispatch_to_thread t ?s1"])
        (simp add: same_boxes_def other_queues_def dispatch_to_thread_def set_thread_def skipped_def skip_threads_def fun_eq_iff)
  next
    case False
    then have pos: "THREAD_SUSPEND_COUNT (threads ?s1 t) > 0" using p by (simp add: ready_def)
    have e: "did_remove_from_queue t ?s1 = Inr (False, set_thread t ejected ?s1)" "placed_ok {} (set_thread t ejected ?s1)"
      using eject_ok [of t "{}" ?s1] q(4) pos p by simp_all
    let ?s2 = "set_thread t ejected ?s1"
    have "try_queue i s = try_queue i ?s2" using q(1) e(1) ne by (subst try_queue.simps) simp
    moreover have nr: "no_running ?s2" using Cons.prems(2) by (simp add: no_running_def ejected_def)
    moreover have rd: "ready ?s2 u = ready s u" if "u \<in> set ts" for u
      using that tn by (auto simp: ready_def)
    then have "dropWhile (\<lambda>u. \<not> ready ?s2 u) ts = dropWhile (\<lambda>u. \<not> ready s u) ts"
      "skipped ?s2 ts = skipped s ts" unfolding skipped_def
      by (intro dropWhile_cong takeWhile_cong; simp)+
    moreover have "skip_threads (skipped s ts) (threads ?s2) = skip_threads (skipped s (t # ts)) (threads s)"
      "skip_threads ts (threads ?s2) = skip_threads (t # ts) (threads s)"
      using False tn set_takeWhileD by (fastforce simp: skip_threads_def skipped_def fun_eq_iff)+
    moreover have "t' \<noteq> t" if "dropWhile (\<lambda>u. \<not> ready s u) ts = t' # ts'" for t' ts'
      using that tn by (metis list.set_intros(1) set_dropWhileD)
    moreover have "same_boxes s s'" if "same_boxes ?s2 s'" for s' using that by (simp add: same_boxes_def)
    moreover have "other_queues i s s'" if "other_queues i ?s2 s'" for s' using that by (simp add: other_queues_def)
    moreover have "contents (thread_queue ?s2 ! i) = ts" using q(3) i len by simp
    moreover note Cons.IH [OF e(2) nr]
    ultimately show ?thesis using False i by (auto split: list.splits)
  qed
qed

definition run_list :: "nat list \<Rightarrow> system \<Rightarrow> u32 list" where
  "run_list is s = concat (map (\<lambda>i. contents (thread_queue s ! i)) is)"

definition dispatched :: "u32 list \<Rightarrow> system \<Rightarrow> thread_error + (bool \<times> system) \<Rightarrow> bool" where
  "dispatched ws s r \<longleftrightarrow>
     (case r of
        Inl _ \<Rightarrow> False
      | Inr (b, s') \<Rightarrow>
          placed_ok {} s' \<and> same_boxes s s' \<and>
          (case dropWhile (\<lambda>t. \<not> ready s t) ws of
             [] \<Rightarrow> \<not> b \<and> threads s' = skip_threads ws (threads s)
           | t # ts \<Rightarrow> b \<and> current_thread s' = t \<and>
               threads s' = (skip_threads (skipped s ws) (threads s))(t := (threads s t)\<lparr>THREAD_STATE := TSTATE_RUNNING\<rparr>)))"

lemma skip_threads_append:
  assumes "set xs \<inter> set ys = {}"
  shows "skip_threads ys (skip_threads xs th) = skip_threads (xs @ ys) th"
  using assms by (auto simp: skip_threads_def fun_eq_iff)

lemma dispatch_from_ok:
  "distinct is \<Longrightarrow> \<forall>i \<in> set is. i < 10 \<Longrightarrow> placed_ok {} s \<Longrightarrow> no_running s \<Longrightarrow>
     dispatched (run_list is s) s (dispatch_from is s)"
proof (induction "is" arbitrary: s)
  case Nil
  then show ?case by (simp add: dispatched_def run_list_def same_boxes_def skip_threads_def fun_eq_iff)
next
  case (Cons i "is")
  let ?ws = "contents (thread_queue s ! i)"
  have i: "i < 10" "i \<notin> set is" using Cons.prems by auto
  obtain s' where s': "placed_ok {} s'" "same_boxes s s'" "other_queues i s s'"
    "case dropWhile (\<lambda>t. \<not> ready s t) ?ws of
         [] \<Rightarrow> try_queue i s = Some (Inr (False, s')) \<and> contents (thread_queue s' ! i) = [] \<and>
           current_thread s' = current_thread s \<and> threads s' = skip_threads ?ws (threads s)
       | t # ts \<Rightarrow> try_queue i s = Some (Inr (True, s')) \<and> contents (thread_queue s' ! i) = ts \<and> current_thread s' = t \<and>
           threads s' = (skip_threads (skipped s ?ws) (threads s))(t := (threads s t)\<lparr>THREAD_STATE := TSTATE_RUNNING\<rparr>)"
    using try_queue_ok [OF i(1) Cons.prems(3,4) refl] by blast
  show ?case
  proof (cases "dropWhile (\<lambda>t. \<not> ready s t) ?ws")
    case (Cons t ts)
    have "dropWhile (\<lambda>t. \<not> ready s t) (run_list (i # is) s) = t # ts @ run_list is s"
      "skipped s (run_list (i # is) s) = skipped s ?ws"
    proof -
      have "\<not> (\<forall>x \<in> set ?ws. \<not> ready s x)" using Cons by (metis dropWhile_eq_Nil_conv list.distinct(1))
      then show "dropWhile (\<lambda>t. \<not> ready s t) (run_list (i # is) s) = t # ts @ run_list is s"
        "skipped s (run_list (i # is) s) = skipped s ?ws"
        using Cons by (auto simp: run_list_def skipped_def dropWhile_append takeWhile_append)
    qed
    then show ?thesis using s' Cons by (simp add: dispatched_def)
  next
    case Nil
    have all: "\<forall>t \<in> set ?ws. \<not> ready s t" using Nil by (simp add: dropWhile_eq_Nil_conv)
    have tq: "try_queue i s = Some (Inr (False, s'))" "threads s' = skip_threads ?ws (threads s)"
      using s'(4) Nil by simp_all
    have nr: "no_running s'" using Cons.prems(4) s'(2) unfolding tq no_running_def
      by (simp add: same_boxes_def skip_threads_def ejected_def)
    have rl: "run_list is s' = run_list is s" using s'(3) i(2) Cons.prems(2)
      unfolding run_list_def other_queues_def by (intro arg_cong [of _ _ concat] map_cong refl arg_cong [of _ _ contents]) auto
    have dj: "set ?ws \<inter> set (run_list is s) = {}"
    proof -
      have "u \<notin> set (contents (thread_queue s ! j))" if "u \<in> set ?ws" "j \<in> set is" for u j
        using run_waiters(2) [OF Cons.prems(3) i(1)] run_waiters(2) [OF Cons.prems(3), of j] that i(2) Cons.prems(2) by auto
      then show ?thesis by (auto simp: run_list_def)
    qed
    have rd: "ready s' u = ready s u" if "u \<in> set (run_list is s)" for u
      using that dj by (auto simp: ready_def tq(2) skip_threads_def)
    have "dispatched (run_list is s') s' (dispatch_from is s')"
      using Cons.prems by (intro Cons.IH s'(1) nr) auto
    then have IH: "dispatched (run_list is s) s' (dispatch_from is s')" unfolding rl .
    have eq: "dispatch_from (i # is) s = dispatch_from is s'" using tq(1) by simp
    have dw: "dropWhile (\<lambda>t. \<not> ready s' t) (run_list is s) = dropWhile (\<lambda>t. \<not> ready s t) (run_list is s)"
      "skipped s' (run_list is s) = skipped s (run_list is s)"
      using rd unfolding skipped_def by (intro dropWhile_cong takeWhile_cong; simp)+
    have dw2: "dropWhile (\<lambda>t. \<not> ready s t) (run_list (i # is) s) = dropWhile (\<lambda>t. \<not> ready s t) (run_list is s)"
      "skipped s (run_list (i # is) s) = ?ws @ skipped s (run_list is s)"
      using all by (simp_all add: run_list_def skipped_def)
    have rl2: "run_list (i # is) s = ?ws @ run_list is s" by (simp add: run_list_def)
    have sk2: "skip_threads (run_list is s) (threads s') = skip_threads (run_list (i # is) s) (threads s)"
      unfolding tq(2) rl2 by (rule skip_threads_append [OF dj])
    have "set ?ws \<inter> set (skipped s (run_list is s)) = {}" using dj by (auto simp: skipped_def dest: set_takeWhileD)
    then have sk1: "skip_threads (skipped s (run_list is s)) (threads s') = skip_threads (skipped s (run_list (i # is) s)) (threads s)"
      unfolding tq(2) dw2(2) by (rule skip_threads_append)
    note sk = sk1 sk2
    have tt: "threads s' t = threads s t" if "dropWhile (\<lambda>t. \<not> ready s t) (run_list is s) = t # ts" for t ts
    proof -
      have "t \<in> set (run_list is s)" using that by (metis list.set_intros(1) set_dropWhileD)
      then show ?thesis using dj by (auto simp: tq(2) skip_threads_def)
    qed
    have sb: "same_boxes s s2" if "same_boxes s' s2" for s2 using that s'(2) by (simp add: same_boxes_def)
    show ?thesis
    proof (cases "dispatch_from is s'")
      case (Inl e)
      then show ?thesis using IH by (simp add: dispatched_def)
    next
      case (Inr r)
      then show ?thesis using IH sb tt unfolding eq dispatched_def dw dw2(1) sk
        by (cases "dropWhile (\<lambda>t. \<not> ready s t) (run_list is s)") (auto simp del: dropWhile_eq_Nil_conv)
    qed
  qed
qed

lemma dispatch_ok:
  assumes "placed_ok {} s" "no_running s"
  shows "dispatched (run_list [0..<10] s) s (dispatch_to_next_thread s)"
  unfolding dispatch_to_next_thread_def using assms by (intro dispatch_from_ok) auto

text \<open>The running thread stops to wait at a place where it is queued already.\<close>

definition running :: "system \<Rightarrow> bool" where
  "running s \<longleftrightarrow>
     (let t = current_thread s
      in class_of s t = Thread_class \<and> THREAD_STATE (threads s t) = TSTATE_RUNNING)"

lemma runningD:
  assumes "placed_ok X s" "running s"
  shows "class_of s (current_thread s) = Thread_class" "THREAD_BLOCKED_ON (threads s (current_thread s)) = ZERO"
    "ready s (current_thread s)" "place_of s (current_thread s) = Nowhere"
    "\<And>u. class_of s u = Thread_class \<Longrightarrow> u \<noteq> current_thread s \<Longrightarrow> THREAD_STATE (threads s u) \<noteq> TSTATE_RUNNING"
proof -
  let ?t = "current_thread s"
  show c: "class_of s ?t = Thread_class" using assms(2) by (simp add: running_def Let_def)
  have st: "THREAD_STATE (threads s ?t) = TSTATE_RUNNING" using assms(2) by (simp add: running_def Let_def)
  have tok: "\<And>u. class_of s u = Thread_class \<Longrightarrow> thread_ok s u" using assms(1) by (simp add: placed_ok_def)
  show b: "THREAD_BLOCKED_ON (threads s ?t) = ZERO" using tok [OF c] st by (simp add: thread_ok_def Let_def)
  show r: "ready s ?t" using tok [OF c] st unfolding ready_def thread_ok_def Let_def by fastforce
  show "place_of s ?t = Nowhere" using b st by (simp add: place_of_def Let_def)
  show "\<And>u. class_of s u = Thread_class \<Longrightarrow> u \<noteq> current_thread s \<Longrightarrow> THREAD_STATE (threads s u) \<noteq> TSTATE_RUNNING"
    using tok by (fastforce simp: thread_ok_def Let_def)
qed

end
