(* ===== verification/ThreadSync.thy ===== *)
theory ThreadSync
  imports ThreadDispatch
begin

text \<open>
  The operations of the running thread, which may block it: receiving, semaphores, the end of a time slice,
  joining and the end of a thread; and closing a mailbox.
\<close>

section \<open>Operations of the running thread\<close>

lemma PTR_ZERO: "\<not> PTR_P ZERO"
  by (simp add: PTR_P_def ZERO_def TEST_PRIMARY_TAG_def)

lemma zero_other: "placed_ok X s \<Longrightarrow> class_of s ZERO = Other_class"
  unfolding placed_ok_def by (metis PTR_ZERO)

lemma unsettle:
  assumes "placed_ok X s" "place_of s t = Nowhere"
  shows "placed_ok (insert t X) s"
proof -
  have "{u. u \<notin> insert t X \<and> place_of s u = pl} = {u. u \<notin> X \<and> place_of s u = pl}" if "pl \<noteq> Nowhere" for pl
    using assms(2) that by auto
  then show ?thesis using assms(1) by (simp add: placed_ok_def)
qed

definition stopped :: "u32 \<Rightarrow> thread_state \<Rightarrow> system \<Rightarrow> system" where
  "stopped w st s = set_thread (current_thread s) (\<lambda>t. t\<lparr>THREAD_STATE := st, THREAD_BLOCKED_ON := w\<rparr>) s"

lemma stop_running:
  assumes ok: "placed_ok {} s" and run: "running s" and st: "st \<noteq> TSTATE_RUNNING"
    and w: "w \<noteq> ZERO \<Longrightarrow> class_of s w \<noteq> Other_class \<and> st = TSTATE_BLOCKED"
    and z: "w = ZERO \<Longrightarrow> st = TSTATE_WAITING \<or> st = TSTATE_COMPLETE"
    and c: "st = TSTATE_COMPLETE \<Longrightarrow> THREAD_JOINS (threads s (current_thread s)) = []"
  shows "placed_ok {current_thread s} (stopped w st s)" "no_running (stopped w st s)"
proof -
  let ?t = "current_thread s" and ?f = "\<lambda>t. t\<lparr>THREAD_STATE := st, THREAD_BLOCKED_ON := w\<rparr>"
  note r = runningD [OF ok run]
  have tok: "thread_ok s ?t" using ok r(1) by (simp add: placed_ok_def)
  have "thread_ok (set_thread ?t ?f s) ?t"
    using tok r(3) st w c z by (cases "w = ZERO") (auto simp: thread_ok_def Let_def ready_def)
  then show "placed_ok {?t} (stopped w st s)"
    unfolding stopped_def by (intro change_thread unsettle ok r(4)) auto
  show "no_running (stopped w st s)" using r(5) st by (simp add: no_running_def stopped_def)
qed

definition switched :: "system \<Rightarrow> bool \<Rightarrow> system \<Rightarrow> bool" where
  "switched s b s' \<longleftrightarrow> system_ok s' \<and> dispatched (run_list [0..<10] s) s (Inr (b, s'))"

lemma dispatch_switched:
  assumes "system_ok s" "no_running s"
  obtains b s' where "dispatch_to_next_thread s = Inr (b, s')" "switched s b s'"
proof (cases "dispatch_to_next_thread s")
  case (Inl e)
  then show ?thesis using dispatch_ok [of s] assms by (simp add: system_ok_def dispatched_def)
next
  case (Inr r)
  obtain b s' where r: "r = (b, s')" by (cases r)
  have d: "dispatched (run_list [0..<10] s) s (Inr (b, s'))"
    using dispatch_ok [of s] assms Inr r by (simp add: system_ok_def)
  then have "placed_ok {} s'" "same_boxes s s'" by (simp_all add: dispatched_def)
  then show ?thesis using system_ok_boxes [OF assms(1)] that Inr r d by (simp add: switched_def)
qed

lemma switch_switched:
  assumes "system_ok (stopped w st s)" "no_running (stopped w st s)"
  obtains b s' where "switch_thread w st s = Inr (b, s')" "switched (stopped w st s) b s'"
  using dispatch_switched [OF assms] that unfolding switch_thread_def stopped_def by metis

section \<open>Receiving\<close>

definition blocked_at :: "u32 \<Rightarrow> system \<Rightarrow> system \<Rightarrow> bool" where
  "blocked_at m s s1 \<longleftrightarrow>
     same_but m s s1 \<and> thread_queue s1 = thread_queue s \<and>
     threads s1 = (threads s)(current_thread s :=
       (threads s (current_thread s))\<lparr>THREAD_STATE := TSTATE_BLOCKED, THREAD_BLOCKED_ON := m\<rparr>)"

definition empty_closed :: "u32 \<Rightarrow> system \<Rightarrow> bool" where
  "empty_closed m s \<longleftrightarrow>
     MAILBOX_HAS_DATA_Q s m \<noteq> FALSE_OBJ \<and> \<not> TEST_SECONDARY_TAG (MAILBOX_HAS_DATA_Q s m) BOOLEAN_TAG \<and>
     contents (mbox_queue s m) = []"

text \<open>What a receiver of a closed mailbox gets.\<close>

definition left_behind :: "u32 \<Rightarrow> system \<Rightarrow> received" where
  "left_behind leave s = (if FUNCTION_P s leave then Applies leave else Returned FALSE_OBJ)"

definition received_ok :: "u32 \<Rightarrow> system \<Rightarrow> thread_error + (received \<times> system) \<Rightarrow> bool" where
  "received_ok m s r \<longleftrightarrow>
     (let c = contents (mbox_queue s m); h = MAILBOX_HAS_DATA_Q s m
      in if h \<noteq> FALSE_OBJ \<and> c \<noteq> [] then
           \<exists>s'. r = Inr (Returned (hd c), s') \<and> system_ok s' \<and> same_but m s s' \<and> threads s' = threads s \<and>
             MAILBOX_HAS_DATA_Q s' m = h \<and> contents (mbox_queue s' m) = tl c
         else if empty_closed m s then r = Inr (left_behind h s, s)
         else \<exists>b s' s1. r = Inr (Switched b, s') \<and> system_ok s1 \<and> blocked_at m s s1 \<and>
             MAILBOX_HAS_DATA_Q s1 m = FALSE_OBJ \<and> contents (mbox_queue s1 m) = c @ [current_thread s] \<and> switched s1 b s')"

lemma FALSE_boolean: "TEST_SECONDARY_TAG FALSE_OBJ BOOLEAN_TAG"
  by (simp add: FALSE_OBJ_def MAKE_IMMOB_def TEST_SECONDARY_TAG_def)

lemma data_pop:
  assumes ok: "system_ok s" and m: "class_of s m = Mailbox_class" "MAILBOX_HAS_DATA_Q s m \<noteq> FALSE_OBJ"
    and c: "contents (mbox_queue s m) = x # xs"
  obtains q where "mbox_pop m s = Inr (x, s\<lparr>mbox_queue := (mbox_queue s)(m := q)\<rparr>)" "contents q = xs"
    "system_ok (s\<lparr>mbox_queue := (mbox_queue s)(m := q)\<rparr>)"
proof -
  have p: "placed_ok {} s" using ok by (simp add: system_ok_def)
  from pop_front_ok [OF mbox_queue_ok [OF p m(1)] c] obtain q where
    q: "dequeue_pop_front (mbox_queue s m) = Inr (x, q)" "queue_ok q" "contents q = xs" .
  have "system_ok (s\<lparr>mbox_queue := (mbox_queue s)(m := q)\<rparr>)"
    by (rule system_ok_but [OF ok, of m]) (use data_change [OF p m q(2)] m(2) in \<open>auto simp: same_but_def\<close>)
  then show thesis using that q by (simp add: mbox_pop_def)
qed

lemma boxes_push:
  assumes "boxes_ok s" "same_but m s s'" "contents (mbox_queue s' m) \<noteq> []"
  shows "boxes_ok s'"
  using assms boxes_ok_but by blast

lemma block_on_mailbox:
  assumes ok: "system_ok s" and run: "running s" and m: "class_of s m = Mailbox_class"
    and c: "MAILBOX_HAS_DATA_Q s m = FALSE_OBJ \<or> contents (mbox_queue s m) = []"
  obtains s1 s2 where "mbox_push dequeue_push_back m (current_thread s) (set_has_data m FALSE_OBJ s) = Inr s2"
    "stopped m TSTATE_BLOCKED s2 = s1" "system_ok s1" "no_running s1" "blocked_at m s s1"
    "MAILBOX_HAS_DATA_Q s1 m = FALSE_OBJ" "contents (mbox_queue s1 m) = contents (mbox_queue s m) @ [current_thread s]"
proof -
  let ?t = "current_thread s" and ?b = "stopped m TSTATE_BLOCKED s"
  have p: "placed_ok {} s" using ok by (simp add: system_ok_def)
  note r = runningD [OF p run]
  have mz: "m \<noteq> ZERO" using zero_other [OF p] m by auto
  have st: "placed_ok {?t} ?b" "no_running ?b"
    using stop_running [OF p run, of TSTATE_BLOCKED m] m mz by simp_all
  have pl: "place_of ?b ?t = Box m"
    using r(1,3) m mz by (simp add: place_of_def Let_def stopped_def ready_def)
  obtain q where q: "mbox_push dequeue_push_back m ?t (set_has_data m FALSE_OBJ ?b) =
      Inr (set_has_data m FALSE_OBJ ?b\<lparr>mbox_queue := (mbox_queue ?b)(m := q)\<rparr>)" "contents q = contents (mbox_queue ?b m) @ [?t]"
    "placed_ok ({?t} - {?t}) (set_has_data m FALSE_OBJ ?b\<lparr>mbox_queue := (mbox_queue ?b)(m := q)\<rparr>)"
    by (rule box_push [OF st(1), of m ?t]) (use c m pl in \<open>simp_all add: stopped_def\<close>)
  let ?s1 = "set_has_data m FALSE_OBJ ?b\<lparr>mbox_queue := (mbox_queue ?b)(m := q)\<rparr>"
  let ?s2 = "set_has_data m FALSE_OBJ s\<lparr>mbox_queue := (mbox_queue s)(m := q)\<rparr>"
  have e: "mbox_push dequeue_push_back m ?t (set_has_data m FALSE_OBJ s) = Inr ?s2"
    using q(1) by (auto simp: mbox_push_def set_has_data_def stopped_def set_thread_def
        dest!: arg_cong [where f = mbox_queue] fun_upd_eqD split: option.splits)
  have e1: "stopped m TSTATE_BLOCKED ?s2 = ?s1" by (simp add: stopped_def set_has_data_def set_thread_def)
  have sb: "same_but m s ?s1" by (simp add: same_but_def stopped_def set_has_data_def)
  have bs: "boxes_ok s" "sems_ok s" using ok by (simp_all add: system_ok_def)
  have "boxes_ok ?s1" by (rule boxes_push [OF bs(1) sb]) (simp add: q(2))
  moreover have "sems_ok ?s1" by (rule sems_ok_but [OF bs(2) sb])
  ultimately have "system_ok ?s1" using q(3) by (simp add: system_ok_def)
  moreover have "no_running ?s1" using st(2) by (simp add: no_running_def set_has_data_def)
  moreover have "blocked_at m s ?s1" using sb
    by (simp add: blocked_at_def stopped_def set_has_data_def set_thread_def)
  ultimately show thesis using that [OF e e1] q(2) by (simp add: set_has_data_def stopped_def)
qed

lemma receive_ok:
  assumes ok: "system_ok s" and run: "running s" and m: "class_of s m = Mailbox_class"
  shows "received_ok m s (receive_message m s)"
proof -
  have p: "placed_ok {} s" using ok by (simp add: system_ok_def)
  let ?h = "MAILBOX_HAS_DATA_Q s m" and ?c = "contents (mbox_queue s m)"
  have e: "dequeue_empty (mbox_queue s m) \<longleftrightarrow> ?c = []" using empty_ok [OF mbox_queue_ok [OF p m]] .
  consider x xs where "?h \<noteq> FALSE_OBJ" "?c = x # xs" | "\<not> (?h \<noteq> FALSE_OBJ \<and> ?c \<noteq> [])" "\<not> empty_closed m s"
    | "empty_closed m s" by (cases ?c) auto
  then show ?thesis
  proof cases
    case 1
    obtain q where "mbox_pop m s = Inr (x, s\<lparr>mbox_queue := (mbox_queue s)(m := q)\<rparr>)" "contents q = xs"
      "system_ok (s\<lparr>mbox_queue := (mbox_queue s)(m := q)\<rparr>)"
      by (rule data_pop [OF ok m 1])
    then show ?thesis using 1 e
      by (simp add: receive_message_def received_ok_def Let_def and_then_def same_but_def)
  next
    case 2
    then have c: "?h = FALSE_OBJ \<or> ?c = []" by blast
    have tag: "TEST_SECONDARY_TAG ?h BOOLEAN_TAG" using 2 FALSE_boolean by (auto simp: empty_closed_def)
    obtain s1 s2 where s12: "mbox_push dequeue_push_back m (current_thread s) (set_has_data m FALSE_OBJ s) = Inr s2"
      "stopped m TSTATE_BLOCKED s2 = s1" "system_ok s1" "no_running s1" "blocked_at m s s1"
      "MAILBOX_HAS_DATA_Q s1 m = FALSE_OBJ" "contents (mbox_queue s1 m) = ?c @ [current_thread s]"
      using block_on_mailbox [OF ok run m c] by blast
    obtain b s' where s': "switch_thread m TSTATE_BLOCKED s2 = Inr (b, s')" "switched s1 b s'"
      using switch_switched [of m TSTATE_BLOCKED s2] s12 by metis
    have "receive_message m s = Inr (Switched b, s')"
      using 2(1) tag e s12(1) s'(1) by (auto simp: receive_message_def Let_def and_then_def)
    then show ?thesis using 2 s12 s'(2) unfolding received_ok_def Let_def if_not_P [OF 2(1)] if_not_P [OF 2(2)] by blast
  next
    case 3
    then have "receive_message m s = Inr (left_behind ?h s, s)"
      using e by (simp add: receive_message_def empty_closed_def left_behind_def Let_def)
    then show ?thesis using 3 by (simp add: received_ok_def Let_def empty_closed_def)
  qed
qed

definition polled_ok :: "u32 \<Rightarrow> system \<Rightarrow> thread_error + (u32 option \<times> system) \<Rightarrow> bool" where
  "polled_ok m s r \<longleftrightarrow>
     (let c = contents (mbox_queue s m); h = MAILBOX_HAS_DATA_Q s m
      in if h \<noteq> FALSE_OBJ \<and> c \<noteq> [] then
           \<exists>s'. r = Inr (Some (hd c), s') \<and> system_ok s' \<and> same_but m s s' \<and> threads s' = threads s \<and>
             MAILBOX_HAS_DATA_Q s' m = h \<and> contents (mbox_queue s' m) = tl c
         else r = Inr (None, s))"

lemma receive_if_present_ok:
  assumes ok: "system_ok s" and m: "class_of s m = Mailbox_class"
  shows "polled_ok m s (receive_message_if_present m s)"
proof -
  have p: "placed_ok {} s" using ok by (simp add: system_ok_def)
  have e: "dequeue_empty (mbox_queue s m) \<longleftrightarrow> contents (mbox_queue s m) = []" using empty_ok [OF mbox_queue_ok [OF p m]] .
  show ?thesis
  proof (cases "MAILBOX_HAS_DATA_Q s m \<noteq> FALSE_OBJ \<and> contents (mbox_queue s m) \<noteq> []")
    case True
    then obtain x xs where c: "MAILBOX_HAS_DATA_Q s m \<noteq> FALSE_OBJ" "contents (mbox_queue s m) = x # xs"
      by (cases "contents (mbox_queue s m)") auto
    obtain q where "mbox_pop m s = Inr (x, s\<lparr>mbox_queue := (mbox_queue s)(m := q)\<rparr>)" "contents q = xs"
      "system_ok (s\<lparr>mbox_queue := (mbox_queue s)(m := q)\<rparr>)"
      by (rule data_pop [OF ok m c])
    then show ?thesis using c e
      by (simp add: receive_message_if_present_def and_then_def polled_ok_def Let_def same_but_def)
  next
    case False
    then have "receive_message_if_present m s = Inr (None, s)" using e by (auto simp: receive_message_if_present_def)
    then show ?thesis using False by (auto simp: polled_ok_def Let_def)
  qed
qed

section \<open>Semaphores\<close>

lemma change_sem:
  assumes ok: "placed_ok X s" and x: "class_of s x = Semaphore_class" and q: "queue_ok q"
    and w: "distinct (contents q)" "set (contents q) = {u. u \<notin> X' \<and> place_of s u = Sem x}"
    and X: "\<And>u. place_of s u \<noteq> Sem x \<Longrightarrow> place_of s u \<noteq> Nowhere \<Longrightarrow> u \<in> X' \<longleftrightarrow> u \<in> X"
  shows "placed_ok X' (s\<lparr>SEMAPHORE_COUNT := c, sem_queue := (sem_queue s)(x := q)\<rparr>)" (is "placed_ok X' ?s")
proof -
  have wt: "waiters ?s pl = (if pl = Sem x then contents q else waiters s pl)" for pl
    using x by (cases pl) auto
  have pl: "place_of ?s u = place_of s u" "thread_ok ?s u = thread_ok s u" for u
    by (simp_all add: place_of_def thread_ok_def Let_def)
  have "distinct (waiters ?s pl) \<and> set (waiters ?s pl) = {u. u \<notin> X' \<and> place_of ?s u = pl}" if "pl \<noteq> Nowhere" for pl
  proof (cases "pl = Sem x")
    case True
    then show ?thesis using w unfolding wt pl by simp
  next
    case False
    have "{u. u \<notin> X' \<and> place_of s u = pl} = {u. u \<notin> X \<and> place_of s u = pl}" using X that False by auto
    then show ?thesis using False ok that unfolding wt pl by (simp add: placed_ok_def)
  qed
  then show ?thesis using ok pl q by (simp add: placed_ok_def)
qed

lemma sem_waiters:
  assumes "placed_ok X s" "class_of s x = Semaphore_class"
  shows "distinct (contents (sem_queue s x))" "set (contents (sem_queue s x)) = {u. u \<notin> X \<and> place_of s u = Sem x}"
    "queue_ok (sem_queue s x)"
proof -
  have "distinct (waiters s (Sem x)) \<and> set (waiters s (Sem x)) = {u. u \<notin> X \<and> place_of s u = Sem x}"
    using assms(1) unfolding placed_ok_def by blast
  then show "distinct (contents (sem_queue s x))" "set (contents (sem_queue s x)) = {u. u \<notin> X \<and> place_of s u = Sem x}"
    using assms(2) by simp_all
  show "queue_ok (sem_queue s x)" using assms by (simp add: placed_ok_def)
qed

lemma place_Sem: "place_of s t = Sem x \<Longrightarrow>
    class_of s t = Thread_class \<and> 0 \<le> THREAD_SUSPEND_COUNT (threads s t) \<and> THREAD_BLOCKED_ON (threads s t) = x"
  by (auto simp: place_of_def Let_def split: if_splits obj_class.splits)

definition woken :: "thread \<Rightarrow> thread" where
  "woken r = r\<lparr>THREAD_BLOCKED_ON := ZERO, THREAD_STATE := TSTATE_WAITING\<rparr>"

lemma wake_up_plain:
  assumes ok: "placed_ok X s" and t: "t \<in> X" "class_of s t = Thread_class" "ready s t"
  obtains q where "and_then (UNBLOCK_THREAD t s) (mark_thread_ready t) =
      Inr (set_thread t woken s\<lparr>thread_queue := (thread_queue s)[THREAD_PRIORITY (threads s t) := q]\<rparr>)"
    "placed_ok (X - {t}) (set_thread t woken s\<lparr>thread_queue := (thread_queue s)[THREAD_PRIORITY (threads s t) := q]\<rparr>)"
proof -
  let ?item = "RESUME_VALUE (threads s t)"
  have "and_then (UNBLOCK_THREAD t s) (\<lambda>s. mark_thread_ready t (store_resume_value t ?item s)) =
      and_then (UNBLOCK_THREAD t s) (mark_thread_ready t)"
    using t(3) by (simp add: UNBLOCK_THREAD_def and_then_def store_resume_value_def set_thread_def ready_def)
  moreover have "set_thread t (delivered t ?item) s = set_thread t woken s"
    by (simp add: set_thread_def delivered_def woken_def)
  ultimately show thesis using wake_up [OF ok t(1,2), of ?item] t(3) that unfolding ready_def by metis
qed

definition signal_result :: "u32 \<Rightarrow> system \<Rightarrow> thread_error + system \<Rightarrow> bool" where
  "signal_result x s r \<longleftrightarrow>
     (if SEMAPHORE_COUNT s x = FX_MAX then
        \<exists>s'. r = Inr s' \<and> s' = s\<lparr>SEMAPHORE_COUNT := (SEMAPHORE_COUNT s)(x := FX_MIN)\<rparr> \<and> contents (sem_queue s' x) = [] \<and>
          \<not> system_ok s' \<and> semaphore_signal x s' = Inl Scheme_error
      else
        (case contents (sem_queue s x) of
           [] \<Rightarrow> r = Inr (s\<lparr>SEMAPHORE_COUNT := (SEMAPHORE_COUNT s)(x := SEMAPHORE_COUNT s x + 1)\<rparr>)
         | t # ts \<Rightarrow>
             if ready s t then
               \<exists>s'. r = Inr s' \<and> contents (sem_queue s' x) = ts \<and> threads s' = (threads s)(t := woken (threads s t)) \<and>
                 SEMAPHORE_COUNT s' x = SEMAPHORE_COUNT s x + 1
             else r = Inl Assertion) \<and>
        (\<forall>s'. r = Inr s' \<longrightarrow> system_ok s'))"

lemma sems_ok_change:
  assumes "sems_ok s" "class_of s' = class_of s" "\<And>y. y \<noteq> x \<Longrightarrow> sem_queue s' y = sem_queue s y \<and> SEMAPHORE_COUNT s' y = SEMAPHORE_COUNT s y"
    "is_fx (SEMAPHORE_COUNT s' x)" "int (length (contents (sem_queue s' x))) = max 0 (- SEMAPHORE_COUNT s' x)"
  shows "sems_ok s'"
  unfolding sems_ok_def
proof (intro allI impI)
  fix y assume "class_of s' y = Semaphore_class"
  then show "is_fx (SEMAPHORE_COUNT s' y) \<and> int (length (contents (sem_queue s' y))) = max 0 (- SEMAPHORE_COUNT s' y)"
    using assms by (cases "y = x") (auto simp: sems_ok_def)
qed

lemma boxes_ok_same:
  "boxes_ok s \<Longrightarrow> class_of s' = class_of s \<Longrightarrow> mbox_queue s' = mbox_queue s \<Longrightarrow>
    MAILBOX_HAS_DATA_Q s' = MAILBOX_HAS_DATA_Q s \<Longrightarrow> boxes_ok s'"
  by (simp add: boxes_ok_def)

lemma count_change:
  assumes "placed_ok X s"
  shows "placed_ok X (s\<lparr>SEMAPHORE_COUNT := c\<rparr>)" (is "placed_ok X ?s")
proof -
  have "waiters ?s pl = waiters s pl" for pl by (cases pl) simp_all
  moreover have "place_of ?s u = place_of s u" "thread_ok ?s u = thread_ok s u" for u
    by (simp_all add: place_of_def thread_ok_def Let_def)
  ultimately show ?thesis using assms by (simp add: placed_ok_def)
qed

text \<open>A signal at the largest count makes it the least one, with nobody waiting.\<close>

lemma signal_wraps:
  assumes ok: "system_ok s" and x: "class_of s x = Semaphore_class" and n: "SEMAPHORE_COUNT s x = FX_MAX"
  shows "signal_result x s (semaphore_signal x s)"
proof -
  let ?s = "s\<lparr>SEMAPHORE_COUNT := (SEMAPHORE_COUNT s)(x := FX_MIN)\<rparr>"
  have p: "placed_ok {} s" and "sems_ok s" using ok by (simp_all add: system_ok_def)
  then have c: "contents (sem_queue s x) = []" using x n by (auto simp: sems_ok_def FX_MAX_def)
  have "dequeue_empty (sem_queue s x)" using empty_ok [OF sem_waiters(3) [OF p x]] c by simp
  then have "isl (dequeue_pop_front (sem_queue s x))"
    by (simp add: dequeue_pop_front_def dequeue_empty_def)
  then have "semaphore_signal x ?s = Inl Scheme_error"
    by (auto simp: semaphore_signal_def Let_def FX_MIN_def isl_def)
  moreover have "\<not> system_ok ?s" using x c by (auto simp: system_ok_def sems_ok_def FX_MIN_def)
  moreover have "semaphore_signal x s = Inr ?s" using n by (simp add: semaphore_signal_def Let_def FX_MAX_def FX_MIN_def)
  ultimately show ?thesis using n c by (simp add: signal_result_def)
qed

lemma signal_ok:
  assumes ok: "system_ok s" and x: "class_of s x = Semaphore_class"
  shows "signal_result x s (semaphore_signal x s)"
proof (cases "SEMAPHORE_COUNT s x = FX_MAX")
  case True
  then show ?thesis by (rule signal_wraps [OF ok x])
next
  case no_wrap: False
  let ?n = "SEMAPHORE_COUNT s x" and ?c = "contents (sem_queue s x)"
  have p: "placed_ok {} s" and b: "boxes_ok s" and sm: "sems_ok s" using ok by (simp_all add: system_ok_def)
  have len: "int (length ?c) = max 0 (- ?n)" and n0: "is_fx ?n" using sm x by (simp_all add: sems_ok_def)
  have n1: "is_fx (?n + 1)" using n0 no_wrap by (auto simp: is_fx_def)
  note fx = is_fxD [OF n1]
  note w = sem_waiters [OF p x]
  let ?s0 = "s\<lparr>SEMAPHORE_COUNT := (SEMAPHORE_COUNT s)(x := ?n + 1)\<rparr>"
  show ?thesis
  proof (cases ?c)
    case Nil
    then have n: "\<not> ?n < 0" using len by simp
    have "sems_ok ?s0" by (rule sems_ok_change [OF sm, of _ x]) (use Nil n n1 in simp_all)
    then have "system_ok ?s0" using count_change [OF p] boxes_ok_same [OF b] by (simp add: system_ok_def)
    then show ?thesis using Nil n no_wrap by (simp add: semaphore_signal_def signal_result_def Let_def fx)
  next
    case (Cons t ts)
    then have n: "?n < 0" "length ts = nat (- ?n) - 1" using len by auto
    from pop_front_ok [OF w(3) Cons] obtain q where
      q: "dequeue_pop_front (sem_queue s x) = Inr (t, q)" "queue_ok q" "contents q = ts" .
    have t: "place_of s t = Sem x" "t \<notin> set ts" using w(1,2) Cons by auto
    note pt = place_Sem [OF t(1)]
    let ?s1 = "?s0\<lparr>sem_queue := (sem_queue s)(x := q)\<rparr>"
    have "placed_ok {t} (s\<lparr>SEMAPHORE_COUNT := (SEMAPHORE_COUNT s)(x := ?n + 1), sem_queue := (sem_queue s)(x := q)\<rparr>)"
      by (rule change_sem [OF p x q(2)]) (use w Cons q(3) t in auto)
    then have p1: "placed_ok {t} ?s1" by simp
    have sig: "semaphore_signal x s = and_then (UNBLOCK_THREAD t ?s1) (mark_thread_ready t)"
      using n(1) q(1) by (simp add: semaphore_signal_def Let_def fx)
    show ?thesis
    proof (cases "ready s t")
      case True
      then have "ready ?s1 t" by (simp add: ready_def)
      then obtain r where r: "and_then (UNBLOCK_THREAD t ?s1) (mark_thread_ready t) =
          Inr (set_thread t woken ?s1\<lparr>thread_queue := (thread_queue s)[THREAD_PRIORITY (threads s t) := r]\<rparr>)"
        "placed_ok ({t} - {t}) (set_thread t woken ?s1\<lparr>thread_queue := (thread_queue s)[THREAD_PRIORITY (threads s t) := r]\<rparr>)"
        using wake_up_plain [OF p1, of t] pt by auto
      let ?s2 = "set_thread t woken ?s1\<lparr>thread_queue := (thread_queue s)[THREAD_PRIORITY (threads s t) := r]\<rparr>"
      have "sems_ok ?s2" by (rule sems_ok_change [OF sm, of _ x]) (use n n1 q(3) in simp_all)
      then have "system_ok ?s2" using r(2) boxes_ok_same [OF b] by (simp add: system_ok_def)
      then show ?thesis using True Cons r(1) q(3) sig no_wrap
        by (simp add: signal_result_def set_thread_def)
    next
      case False
      then show ?thesis using Cons sig pt no_wrap
        by (simp add: signal_result_def UNBLOCK_THREAD_def and_then_def ready_def)
    qed
  qed
qed

definition waits_at :: "u32 \<Rightarrow> system \<Rightarrow> system \<Rightarrow> bool" where
  "waits_at w s s1 \<longleftrightarrow>
     class_of s1 = class_of s \<and> thread_queue s1 = thread_queue s \<and> mbox_queue s1 = mbox_queue s \<and>
     MAILBOX_HAS_DATA_Q s1 = MAILBOX_HAS_DATA_Q s \<and> current_thread s1 = current_thread s \<and>
     THREAD_STATE (threads s1 (current_thread s)) = TSTATE_BLOCKED \<and> THREAD_BLOCKED_ON (threads s1 (current_thread s)) = w"

definition wait_result :: "u32 \<Rightarrow> system \<Rightarrow> thread_error + (bool \<times> system) \<Rightarrow> bool" where
  "wait_result x s r \<longleftrightarrow>
     (let n = SEMAPHORE_COUNT s x
      in if n = FX_MIN then
           \<exists>s'. r = Inr (True, s') \<and> s' = s\<lparr>SEMAPHORE_COUNT := (SEMAPHORE_COUNT s)(x := FX_MAX)\<rparr> \<and> \<not> system_ok s'
         else if n > 0 then
           \<exists>s'. r = Inr (True, s') \<and> s' = s\<lparr>SEMAPHORE_COUNT := (SEMAPHORE_COUNT s)(x := n - 1)\<rparr> \<and> system_ok s'
         else \<exists>b s' s1. r = Inr (b, s') \<and> system_ok s' \<and> SEMAPHORE_COUNT s' x = n - 1 \<and> system_ok s1 \<and> waits_at x s s1 \<and>
             contents (sem_queue s1 x) = contents (sem_queue s x) @ [current_thread s] \<and> switched s1 b s')"

lemma no_running_same: "no_running s \<Longrightarrow> class_of s' = class_of s \<Longrightarrow> threads s' = threads s \<Longrightarrow> no_running s'"
  by (simp add: no_running_def)

lemma switched_same: "switched s b s' \<Longrightarrow> same_boxes s s'"
  by (simp add: switched_def dispatched_def)

lemma wait_ok:
  assumes ok: "system_ok s" and run: "running s" and x: "class_of s x = Semaphore_class"
  shows "wait_result x s (semaphore_wait x s)"
proof (cases "SEMAPHORE_COUNT s x = FX_MIN")
  case True
  let ?s = "s\<lparr>SEMAPHORE_COUNT := (SEMAPHORE_COUNT s)(x := FX_MAX)\<rparr>"
  have "int (length (contents (sem_queue s x))) = - FX_MIN"
    using ok x True by (simp add: system_ok_def sems_ok_def FX_MIN_def)
  then have "\<not> system_ok ?s" using x by (auto simp: system_ok_def sems_ok_def FX_MIN_def FX_MAX_def)
  moreover have "semaphore_wait x s = Inr (True, ?s)"
    using True by (simp add: semaphore_wait_def Let_def FX_MIN_def FX_MAX_def)
  ultimately show ?thesis using True by (simp add: wait_result_def)
next
  case no_wrap: False
  let ?n = "SEMAPHORE_COUNT s x" and ?c = "contents (sem_queue s x)" and ?t = "current_thread s"
  have p: "placed_ok {} s" and b: "boxes_ok s" and sm: "sems_ok s" using ok by (simp_all add: system_ok_def)
  have len: "int (length ?c) = max 0 (- ?n)" and n0: "is_fx ?n" using sm x by (simp_all add: sems_ok_def)
  have n1: "is_fx (?n - 1)" using n0 no_wrap by (auto simp: is_fx_def)
  note fx = is_fxD [OF n1]
  let ?s0 = "s\<lparr>SEMAPHORE_COUNT := (SEMAPHORE_COUNT s)(x := ?n - 1)\<rparr>"
  show ?thesis
  proof (cases "?n > 0")
    case True
    have "sems_ok ?s0" by (rule sems_ok_change [OF sm, of _ x]) (use True len n1 in simp_all)
    then have "system_ok ?s0" using count_change [OF p] boxes_ok_same [OF b] by (simp add: system_ok_def)
    then show ?thesis using True no_wrap by (simp add: semaphore_wait_def wait_result_def Let_def fx)
  next
    case False
    note r = runningD [OF p run]
    have xz: "x \<noteq> ZERO" using zero_other [OF p] x by auto
    obtain q where q: "dequeue_push_back (sem_queue s x) ?t = Some q" "queue_ok q" "contents q = ?c @ [?t]"
      by (rule push_back_ok [OF sem_waiters(3) [OF p x]])
    let ?s1 = "?s0\<lparr>sem_queue := (sem_queue s)(x := q)\<rparr>" and ?b = "stopped x TSTATE_BLOCKED s"
    have st: "placed_ok {?t} ?b" "no_running ?b"
      using stop_running [OF p run, of TSTATE_BLOCKED x] x xz by simp_all
    have pl: "place_of ?b ?t = Sem x"
      using r(1,3) x xz by (simp add: place_of_def Let_def stopped_def ready_def)
    note w = sem_waiters [OF st(1), of x]
    have bx: "class_of ?b x = Semaphore_class" "sem_queue ?b = sem_queue s" using x by (simp_all add: stopped_def)
    have "placed_ok {} (?b\<lparr>SEMAPHORE_COUNT := (SEMAPHORE_COUNT s)(x := ?n - 1), sem_queue := (sem_queue ?b)(x := q)\<rparr>)"
      by (rule change_sem [OF st(1) bx(1) q(2)]) (use w bx q(3) pl in auto)
    moreover have e: "?b\<lparr>SEMAPHORE_COUNT := (SEMAPHORE_COUNT s)(x := ?n - 1), sem_queue := (sem_queue ?b)(x := q)\<rparr> =
        stopped x TSTATE_BLOCKED ?s1" by (simp add: stopped_def set_thread_def)
    moreover have "sems_ok (stopped x TSTATE_BLOCKED ?s1)"
      by (rule sems_ok_change [OF sm, of _ x]) (use False len n1 q(3) in \<open>simp_all add: stopped_def\<close>)
    moreover have "boxes_ok (stopped x TSTATE_BLOCKED ?s1)" using boxes_ok_same [OF b] by (simp add: stopped_def)
    ultimately have s1: "system_ok (stopped x TSTATE_BLOCKED ?s1)" by (simp add: system_ok_def)
    have "no_running (stopped x TSTATE_BLOCKED ?s1)" using st(2)
      by (rule no_running_same) (simp_all add: stopped_def set_thread_def)
    from switch_switched [OF s1 this] obtain b' s' where
      s': "switch_thread x TSTATE_BLOCKED ?s1 = Inr (b', s')" "switched (stopped x TSTATE_BLOCKED ?s1) b' s'" .
    have "waits_at x s (stopped x TSTATE_BLOCKED ?s1)" by (simp add: waits_at_def stopped_def)
    moreover have "contents (sem_queue (stopped x TSTATE_BLOCKED ?s1) x) = ?c @ [?t]" using q(3) by (simp add: stopped_def)
    moreover have "SEMAPHORE_COUNT s' x = ?n - 1" using switched_same [OF s'(2)] by (simp add: same_boxes_def stopped_def)
    moreover have "system_ok s'" using s'(2) by (simp add: switched_def)
    moreover have "semaphore_wait x s = Inr (b', s')" using False q(1) s'(1) by (simp add: semaphore_wait_def Let_def fx)
    ultimately show ?thesis using s1 s'(2) unfolding wait_result_def Let_def if_not_P [OF no_wrap] if_not_P [OF False] by blast
  qed
qed

section \<open>Time slices\<close>

definition timed_out :: "system \<Rightarrow> thread_error + (bool \<times> system) \<Rightarrow> bool" where
  "timed_out s r \<longleftrightarrow>
     (let t = current_thread s; p = THREAD_PRIORITY (threads s t)
      in \<exists>b s' s1. r = Inr (b, s') \<and> system_ok s1 \<and> same_boxes s s1 \<and> current_thread s1 = t \<and>
        threads s1 = (threads s)(t := (threads s t)\<lparr>THREAD_STATE := TSTATE_WAITING\<rparr>) \<and>
        contents (thread_queue s1 ! p) = contents (thread_queue s ! p) @ [t] \<and> other_queues p s s1 \<and> switched s1 b s')"

lemma same_boxes_refl: "same_boxes s s"
  by (simp add: same_boxes_def)

lemma stopped_again:
  assumes "THREAD_STATE (threads s (current_thread s)) = st" "THREAD_BLOCKED_ON (threads s (current_thread s)) = w"
  shows "stopped w st s = s"
proof -
  have "threads s (current_thread s)\<lparr>THREAD_STATE := st, THREAD_BLOCKED_ON := w\<rparr> = threads s (current_thread s)"
    using assms by (cases "threads s (current_thread s)") simp
  then show ?thesis by (simp add: stopped_def set_thread_def)
qed

lemma timeout_ok:
  assumes ok: "system_ok s" and run: "running s"
  shows "timed_out s (did_timeout s)"
proof -
  let ?t = "current_thread s" and ?p = "THREAD_PRIORITY (threads s (current_thread s))"
  have p: "placed_ok {} s" using ok by (simp add: system_ok_def)
  note r = runningD [OF p run]
  have c: "THREAD_SUSPEND_COUNT (threads s ?t) = 0" using r(3) by (simp add: ready_def)
  have pr: "?p < 10" "length (thread_queue s) = 10" using p r(1) by (auto simp: placed_ok_def thread_ok_def Let_def)
  let ?w = "set_thread ?t (\<lambda>r. r\<lparr>THREAD_STATE := TSTATE_WAITING\<rparr>) s"
  obtain q where q: "mark_thread_ready ?t s = Inr (?w\<lparr>thread_queue := (thread_queue s)[?p := q]\<rparr>)"
    "placed_ok ({?t} - {?t}) (?w\<lparr>thread_queue := (thread_queue s)[?p := q]\<rparr>)"
    by (rule mark_ready_ok [OF unsettle [OF p r(4)] _ r(1,2) c]) simp
  obtain q' where q': "dequeue_push_back (thread_queue s ! ?p) ?t = Some q'"
      "contents q' = contents (thread_queue s ! ?p) @ [?t]"
    by (rule push_back_ok [OF run_queue_ok [OF p pr(1)]])
  let ?s1 = "?w\<lparr>thread_queue := (thread_queue s)[?p := q']\<rparr>"
  have "mark_thread_ready ?t s = Inr ?s1" using q' r(2) c pr by (simp add: mark_thread_ready_def)
  then have s1: "mark_thread_ready ?t s = Inr ?s1" "placed_ok {} ?s1" using q by simp_all
  have sb: "same_boxes s ?s1" by (simp add: same_boxes_def)
  have ok1: "system_ok ?s1" by (rule system_ok_boxes [OF ok sb s1(2)])
  have nr: "no_running ?s1" using r(5) by (simp add: no_running_def)
  have same: "stopped ZERO TSTATE_WAITING ?s1 = ?s1" by (rule stopped_again) (use r(2) in simp_all)
  obtain b s' where s': "switch_thread ZERO TSTATE_WAITING ?s1 = Inr (b, s')" "switched ?s1 b s'"
    using switch_switched [of ZERO TSTATE_WAITING ?s1] ok1 nr unfolding same by blast
  have "did_timeout s = Inr (b, s')" using s1(1) s'(1) by (simp add: did_timeout_def and_then_def)
  moreover have "threads ?s1 = (threads s)(?t := (threads s ?t)\<lparr>THREAD_STATE := TSTATE_WAITING\<rparr>)"
    "contents (thread_queue ?s1 ! ?p) = contents (thread_queue s ! ?p) @ [?t]" "other_queues ?p s ?s1"
    using pr q'(2) by (simp_all add: set_thread_def other_queues_def)
  ultimately show ?thesis unfolding timed_out_def Let_def
    using ok1 sb s'(2) by (intro exI [of _ b] exI [of _ s'] exI [of _ ?s1]) simp
qed

section \<open>Joining\<close>

lemma change_joins:
  assumes ok: "placed_ok X s" and t: "class_of s t = Thread_class"
    and w: "distinct js" "set js = {u. u \<notin> X' \<and> place_of s u = Join t}"
    and X: "\<And>u. place_of s u \<noteq> Join t \<Longrightarrow> place_of s u \<noteq> Nowhere \<Longrightarrow> u \<in> X' \<longleftrightarrow> u \<in> X"
    and c: "THREAD_STATE (threads s t) = TSTATE_COMPLETE \<Longrightarrow> js = []"
  shows "placed_ok X' (set_thread t (\<lambda>r. r\<lparr>THREAD_JOINS := js\<rparr>) s)" (is "placed_ok X' ?s")
proof -
  have wt: "waiters ?s pl = (if pl = Join t then js else waiters s pl)" for pl
    using t by (cases pl) auto
  have pl: "place_of ?s u = place_of s u" for u
    by (cases "u = t") (simp_all add: place_of_def Let_def cong: obj_class.case_cong)
  have tok: "thread_ok ?s u" if "class_of s u = Thread_class" for u
    using ok that c by (auto simp: placed_ok_def thread_ok_def Let_def)
  have "distinct (waiters ?s pl) \<and> set (waiters ?s pl) = {u. u \<notin> X' \<and> place_of ?s u = pl}" if "pl \<noteq> Nowhere" for pl
  proof (cases "pl = Join t")
    case True
    then show ?thesis using w unfolding wt pl by simp
  next
    case False
    have "{u. u \<notin> X' \<and> place_of s u = pl} = {u. u \<notin> X \<and> place_of s u = pl}" using X that False by auto
    then show ?thesis using False ok that unfolding wt pl by (simp add: placed_ok_def)
  qed
  then show ?thesis using ok tok by (simp add: placed_ok_def)
qed

lemma join_waiters:
  assumes "placed_ok X s" "class_of s t = Thread_class"
  shows "distinct (THREAD_JOINS (threads s t))" "set (THREAD_JOINS (threads s t)) = {u. u \<notin> X \<and> place_of s u = Join t}"
proof -
  have "distinct (waiters s (Join t)) \<and> set (waiters s (Join t)) = {u. u \<notin> X \<and> place_of s u = Join t}"
    using assms(1) unfolding placed_ok_def by blast
  then show "distinct (THREAD_JOINS (threads s t))" "set (THREAD_JOINS (threads s t)) = {u. u \<notin> X \<and> place_of s u = Join t}"
    using assms(2) by simp_all
qed

lemma place_Join: "place_of s u = Join t \<Longrightarrow>
    class_of s u = Thread_class \<and> 0 \<le> THREAD_SUSPEND_COUNT (threads s u) \<and> THREAD_BLOCKED_ON (threads s u) = t"
  by (auto simp: place_of_def Let_def split: if_splits obj_class.splits)

definition join_result :: "u32 \<Rightarrow> system \<Rightarrow> thread_error + (bool \<times> system) \<Rightarrow> bool" where
  "join_result t s r \<longleftrightarrow>
     (if THREAD_STATE (threads s t) = TSTATE_COMPLETE then r = Inr (True, s)
      else \<exists>b s' s1. r = Inr (b, s') \<and> system_ok s1 \<and> waits_at t s s1 \<and>
        THREAD_JOINS (threads s1 t) = current_thread s # THREAD_JOINS (threads s t) \<and> switched s1 b s')"

lemma join_ok:
  assumes ok: "system_ok s" and run: "running s" and t: "class_of s t = Thread_class"
  shows "join_result t s (thread_join t s)"
proof (cases "THREAD_STATE (threads s t) = TSTATE_COMPLETE")
  case True
  then show ?thesis by (simp add: thread_join_def join_result_def)
next
  case False
  let ?c = "current_thread s" and ?js = "THREAD_JOINS (threads s t)"
  have p: "placed_ok {} s" using ok by (simp add: system_ok_def)
  note r = runningD [OF p run]
  have tz: "t \<noteq> ZERO" using zero_other [OF p] t by auto
  let ?J = "\<lambda>r. r\<lparr>THREAD_JOINS := ?c # ?js\<rparr>" and ?b = "stopped t TSTATE_BLOCKED s"
  have st: "placed_ok {?c} ?b" "no_running ?b"
    using stop_running [OF p run, of TSTATE_BLOCKED t] t tz by simp_all
  have pl: "place_of ?b ?c = Join t"
    using r(1,3) t tz by (simp add: place_of_def Let_def stopped_def ready_def)
  have tb: "class_of ?b t = Thread_class" "THREAD_JOINS (threads ?b t) = ?js" "THREAD_STATE (threads ?b t) \<noteq> TSTATE_COMPLETE"
    using t False by (simp_all add: stopped_def)
  note w = join_waiters [OF st(1) tb(1), unfolded tb(2)]
  have "placed_ok {} (set_thread t ?J ?b)"
    by (rule change_joins [OF st(1) tb(1)]) (use w tb(3) pl in auto)
  moreover have e: "set_thread t ?J ?b = stopped t TSTATE_BLOCKED (set_thread t ?J s)"
    by (auto simp: stopped_def set_thread_def fun_eq_iff)
  ultimately have p1: "placed_ok {} (stopped t TSTATE_BLOCKED (set_thread t ?J s))" by simp
  have ej: "set_thread t (\<lambda>r. r\<lparr>THREAD_JOINS := ?c # THREAD_JOINS r\<rparr>) s = set_thread t ?J s"
    by (simp add: set_thread_def)
  have sb: "same_boxes s (stopped t TSTATE_BLOCKED (set_thread t ?J s))" by (simp add: same_boxes_def stopped_def)
  have nr: "no_running (stopped t TSTATE_BLOCKED (set_thread t ?J s))"
    using st(2) unfolding e [symmetric] no_running_def by (auto split: if_splits)
  have ok1: "system_ok (stopped t TSTATE_BLOCKED (set_thread t ?J s))" by (rule system_ok_boxes [OF ok sb p1])
  from switch_switched [OF this nr] obtain b s' where
    "switch_thread t TSTATE_BLOCKED (set_thread t ?J s) = Inr (b, s')"
    "switched (stopped t TSTATE_BLOCKED (set_thread t ?J s)) b s'" .
  then have "thread_join t s = Inr (b, s')" "switched (stopped t TSTATE_BLOCKED (set_thread t ?J s)) b s'"
    using False ej by (simp_all add: thread_join_def)
  moreover have "waits_at t s (stopped t TSTATE_BLOCKED (set_thread t ?J s))"
    "THREAD_JOINS (threads (stopped t TSTATE_BLOCKED (set_thread t ?J s)) t) = ?c # ?js"
    by (simp_all add: waits_at_def stopped_def)
  ultimately show ?thesis using False ok1 unfolding join_result_def by (simp only: if_False) blast
qed

section \<open>The end of a thread\<close>

definition clear_joins :: "u32 \<Rightarrow> system \<Rightarrow> system" where
  "clear_joins t s = set_thread t (\<lambda>r. r\<lparr>THREAD_JOINS := []\<rparr>) s"

lemma release_loop_ok:
  assumes "placed_ok (set js) (clear_joins t s)" "distinct js"
    "\<forall>j \<in> set js. class_of s j = Thread_class \<and> THREAD_SUSPEND_COUNT (threads s j) \<ge> 0 \<and> THREAD_BLOCKED_ON (threads s j) = t"
  shows "if \<forall>j \<in> set js. ready s j
    then \<exists>s'. release_loop t v js s = Inr s' \<and> placed_ok {} (clear_joins t s') \<and> same_boxes s s' \<and>
      current_thread s' = current_thread s \<and>
      threads s' = (\<lambda>u. if u \<in> set js then delivered u v (threads s u) else threads s u)
    else release_loop t v js s = Inl Assertion"
  using assms
proof (induction js arbitrary: s)
  case Nil
  then show ?case by (simp add: same_boxes_refl)
next
  case (Cons j js)
  let ?c = "clear_joins t s" and ?p = "THREAD_PRIORITY (threads s j)"
  have j: "class_of s j = Thread_class" "THREAD_SUSPEND_COUNT (threads s j) \<ge> 0" "THREAD_BLOCKED_ON (threads s j) = t"
    using Cons.prems(3) by simp_all
  show ?case
  proof (cases "ready s j")
    case False
    then show ?thesis using j by (simp add: UNBLOCK_THREAD_def and_then_def ready_def)
  next
    case True
    have cj: "ready ?c j" "class_of ?c j = Thread_class" "THREAD_PRIORITY (threads ?c j) = ?p" "thread_queue ?c = thread_queue s"
      using True j(1) by (auto simp: clear_joins_def ready_def)
    have pr: "?p < 10" "length (thread_queue s) = 10" "queue_ok (thread_queue s ! ?p)"
      using Cons.prems(1) cj run_queue_ok [OF Cons.prems(1)] by (auto simp: placed_ok_def thread_ok_def Let_def)
    obtain q where q: "dequeue_push_back (thread_queue s ! ?p) j = Some q" by (rule push_back_ok [OF pr(3)])
    let ?s1 = "set_thread j (delivered j v) s\<lparr>thread_queue := (thread_queue s)[?p := q]\<rparr>"
    have e: "and_then (UNBLOCK_THREAD j s) (\<lambda>s. mark_thread_ready j (store_resume_value j v s)) = Inr ?s1"
      using wake_eq [OF True] pr q by simp
    have ec: "and_then (UNBLOCK_THREAD j ?c) (\<lambda>s. mark_thread_ready j (store_resume_value j v s)) =
        Inr (set_thread j (delivered j v) ?c\<lparr>thread_queue := (thread_queue s)[?p := q]\<rparr>)"
      using wake_eq [OF cj(1)] pr q cj by simp
    obtain q' where "and_then (UNBLOCK_THREAD j ?c) (\<lambda>s. mark_thread_ready j (store_resume_value j v s)) =
        Inr (set_thread j (delivered j v) ?c\<lparr>thread_queue := (thread_queue ?c)[THREAD_PRIORITY (threads ?c j) := q']\<rparr>)"
      "placed_ok (set (j # js) - {j}) (set_thread j (delivered j v) ?c\<lparr>thread_queue := (thread_queue ?c)[THREAD_PRIORITY (threads ?c j) := q']\<rparr>)"
      using wake_up [OF Cons.prems(1) _ cj(2)] cj(1) by (metis list.set_intros(1) ready_def)
    then have "placed_ok (set (j # js) - {j}) (set_thread j (delivered j v) ?c\<lparr>thread_queue := (thread_queue s)[?p := q]\<rparr>)"
      using ec by simp
    moreover have "set (j # js) - {j} = set js" using Cons.prems(2) by auto
    moreover have "set_thread j (delivered j v) ?c\<lparr>thread_queue := (thread_queue s)[?p := q]\<rparr> = clear_joins t ?s1"
      by (auto simp: clear_joins_def set_thread_def delivered_def fun_eq_iff)
    ultimately have p1: "placed_ok (set js) (clear_joins t ?s1)" by simp
    have oth: "\<forall>k \<in> set js. threads ?s1 k = threads s k" using Cons.prems(2) by auto
    then have "\<forall>k \<in> set js. ready ?s1 k = ready s k" by (simp add: ready_def)
    moreover have IH: "if \<forall>k \<in> set js. ready ?s1 k
      then \<exists>s'. release_loop t v js ?s1 = Inr s' \<and> placed_ok {} (clear_joins t s') \<and> same_boxes ?s1 s' \<and>
        current_thread s' = current_thread ?s1 \<and>
        threads s' = (\<lambda>u. if u \<in> set js then delivered u v (threads ?s1 u) else threads ?s1 u)
      else release_loop t v js ?s1 = Inl Assertion"
      using Cons.prems(2,3) oth by (intro Cons.IH p1) auto
    moreover have "release_loop t v (j # js) s = release_loop t v js ?s1"
      using j(3) e by (cases "UNBLOCK_THREAD j s") (simp_all add: and_then_def)
    moreover have "(\<lambda>u. if u \<in> set js then delivered u v (threads ?s1 u) else threads ?s1 u) =
        (\<lambda>u. if u \<in> set (j # js) then delivered u v (threads s u) else threads s u)"
      using Cons.prems(2) by (auto simp: fun_eq_iff delivered_def)
    moreover have "same_boxes s s'" if "same_boxes ?s1 s'" for s' using that by (simp add: same_boxes_def)
    moreover have "current_thread ?s1 = current_thread s" by simp
    ultimately show ?thesis using True by (auto split: if_splits)
  qed
qed

definition released :: "u32 \<Rightarrow> u32 \<Rightarrow> system \<Rightarrow> u32 \<Rightarrow> thread" where
  "released t v s u =
     (let r = (if u \<in> set (THREAD_JOINS (threads s t)) then delivered u v (threads s u) else threads s u)
      in if u = t then r\<lparr>THREAD_JOINS := []\<rparr> else r)"

definition release_result :: "u32 \<Rightarrow> u32 \<Rightarrow> system \<Rightarrow> thread_error + system \<Rightarrow> bool" where
  "release_result t v s r \<longleftrightarrow>
     (if \<forall>j \<in> set (THREAD_JOINS (threads s t)). ready s j
      then \<exists>s'. r = Inr s' \<and> system_ok s' \<and> same_boxes s s' \<and> current_thread s' = current_thread s \<and>
        threads s' = released t v s
      else r = Inl Assertion)"

lemma release_ok:
  assumes ok: "system_ok s" and t: "class_of s t = Thread_class"
  shows "release_result t v s (krelease_joiners t v s)"
proof -
  let ?js = "THREAD_JOINS (threads s t)"
  have p: "placed_ok {} s" using ok by (simp add: system_ok_def)
  note w = join_waiters [OF p t]
  have "placed_ok (set ?js) (set_thread t (\<lambda>r. r\<lparr>THREAD_JOINS := []\<rparr>) s)"
    by (rule change_joins [OF p t]) (use w in auto)
  then have c: "placed_ok (set ?js) (clear_joins t s)" by (simp add: clear_joins_def)
  have j: "\<forall>j \<in> set ?js. class_of s j = Thread_class \<and> THREAD_SUSPEND_COUNT (threads s j) \<ge> 0 \<and> THREAD_BLOCKED_ON (threads s j) = t"
    using w(2) place_Join by auto
  note rl = release_loop_ok [OF c w(1) j, of v]
  show ?thesis
  proof (cases "\<forall>j \<in> set ?js. ready s j")
    case True
    then obtain s' where s': "release_loop t v ?js s = Inr s'" "placed_ok {} (clear_joins t s')" "same_boxes s s'"
      "current_thread s' = current_thread s"
      "threads s' = (\<lambda>u. if u \<in> set ?js then delivered u v (threads s u) else threads s u)"
      using rl by auto
    have sb: "same_boxes s (clear_joins t s')" using s'(3) by (simp add: same_boxes_def clear_joins_def)
    have "system_ok (clear_joins t s')" by (rule system_ok_boxes [OF ok sb s'(2)])
    moreover have "threads (clear_joins t s') = released t v s"
      using s'(5) by (auto simp: clear_joins_def released_def fun_eq_iff Let_def)
    moreover have "krelease_joiners t v s = Inr (clear_joins t s')"
      using s'(1) by (simp add: krelease_joiners_def and_then_def clear_joins_def)
    moreover have "current_thread (clear_joins t s') = current_thread s" using s'(4) by (simp add: clear_joins_def)
    ultimately show ?thesis using True sb unfolding release_result_def by auto
  next
    case False
    then show ?thesis using rl by (auto simp: release_result_def krelease_joiners_def and_then_def)
  qed
qed

lemma current_no_joiner:
  assumes "system_ok s" "running s" "class_of s t = Thread_class"
  shows "current_thread s \<notin> set (THREAD_JOINS (threads s t))"
proof -
  have p: "placed_ok {} s" using assms(1) by (simp add: system_ok_def)
  show ?thesis using join_waiters(2) [OF p assms(3)] runningD(4) [OF p assms(2)] by auto
qed

definition done_result :: "system \<Rightarrow> thread_error + (bool \<times> system) \<Rightarrow> bool" where
  "done_result s r \<longleftrightarrow>
     (let t = current_thread s
      in if \<forall>j \<in> set (THREAD_JOINS (threads s t)). ready s j
         then \<exists>b s' s1. r = Inr (b, s') \<and> system_ok s1 \<and> same_boxes s s1 \<and> current_thread s1 = t \<and>
           threads s1 = (released t FALSE_OBJ s)(t := (threads s t)\<lparr>THREAD_STATE := TSTATE_COMPLETE, THREAD_JOINS := []\<rparr>) \<and>
           switched s1 b s'
         else r = Inl Assertion)"

lemma complete_ok:
  assumes ok: "system_ok s" and run: "running s" and j: "THREAD_JOINS (threads s (current_thread s)) = []"
  obtains b s' where "switch_thread ZERO TSTATE_COMPLETE s = Inr (b, s')"
    "switched (stopped ZERO TSTATE_COMPLETE s) b s'" "system_ok (stopped ZERO TSTATE_COMPLETE s)"
proof -
  let ?t = "current_thread s" and ?s = "stopped ZERO TSTATE_COMPLETE s"
  have p: "placed_ok {} s" using ok by (simp add: system_ok_def)
  have st: "placed_ok {?t} ?s" "no_running ?s"
    using stop_running [OF p run, of TSTATE_COMPLETE ZERO] j by simp_all
  have "place_of ?s ?t = Nowhere" by (simp add: place_of_def Let_def stopped_def)
  from settle_nowhere [OF st(1) this] have p1: "placed_ok {} ?s" by simp
  have "same_boxes s ?s" by (simp add: same_boxes_def stopped_def)
  from system_ok_boxes [OF ok this p1] have "system_ok ?s" .
  then show thesis using switch_switched [OF _ st(2)] that by blast
qed

lemma done_ok:
  assumes ok: "system_ok s" and run: "running s"
  shows "done_result s (thread_done s)"
proof -
  let ?t = "current_thread s"
  have p: "placed_ok {} s" using ok by (simp add: system_ok_def)
  note r = runningD [OF p run]
  note rel = release_ok [OF ok r(1), of FALSE_OBJ, unfolded release_result_def]
  show ?thesis
  proof (cases "\<forall>j \<in> set (THREAD_JOINS (threads s ?t)). ready s j")
    case True
    then obtain s1 where s1: "krelease_joiners ?t FALSE_OBJ s = Inr s1" "system_ok s1" "same_boxes s s1"
      "current_thread s1 = ?t" "threads s1 = released ?t FALSE_OBJ s"
      using rel by auto
    have tj: "?t \<notin> set (THREAD_JOINS (threads s ?t))" by (rule current_no_joiner [OF ok run r(1)])
    have tt: "threads s1 ?t = (threads s ?t)\<lparr>THREAD_JOINS := []\<rparr>" using tj s1(5) by (simp add: released_def)
    have run1: "running s1" "THREAD_JOINS (threads s1 (current_thread s1)) = []"
      using run tt s1(3,4) by (simp_all add: running_def same_boxes_def Let_def)
    obtain b s' where s': "switch_thread ZERO TSTATE_COMPLETE s1 = Inr (b, s')"
      "switched (stopped ZERO TSTATE_COMPLETE s1) b s'" "system_ok (stopped ZERO TSTATE_COMPLETE s1)"
      by (rule complete_ok [OF s1(2) run1])
    have "THREAD_BLOCKED_ON (threads s ?t) = ZERO" by (rule r(2))
    then have "(threads s ?t)\<lparr>THREAD_JOINS := [], THREAD_STATE := TSTATE_COMPLETE, THREAD_BLOCKED_ON := ZERO\<rparr> =
        (threads s ?t)\<lparr>THREAD_STATE := TSTATE_COMPLETE, THREAD_JOINS := []\<rparr>" by (cases "threads s ?t") simp
    then have "threads (stopped ZERO TSTATE_COMPLETE s1) =
        (released ?t FALSE_OBJ s)(?t := (threads s ?t)\<lparr>THREAD_STATE := TSTATE_COMPLETE, THREAD_JOINS := []\<rparr>)"
      using s1(4,5) tt by (simp add: stopped_def set_thread_def)
    moreover have "thread_done s = Inr (b, s')" using s1(1) s'(1) by (simp add: thread_done_def and_then_def)
    moreover have "same_boxes s (stopped ZERO TSTATE_COMPLETE s1)" "current_thread (stopped ZERO TSTATE_COMPLETE s1) = ?t"
      using s1(3,4) by (simp_all add: same_boxes_def stopped_def)
    ultimately show ?thesis using s' unfolding done_result_def Let_def if_P [OF True] by blast
  next
    case False
    then show ?thesis using rel unfolding done_result_def Let_def by (auto simp: thread_done_def and_then_def)
  qed
qed

section \<open>Closing a mailbox\<close>

definition closed_thread :: "system \<Rightarrow> u32 list \<Rightarrow> u32 \<Rightarrow> thread" where
  "closed_thread s ws u =
     (if u \<in> set ws then if ready s u then delivered u NOVALUE_OBJ (threads s u) else ejected (threads s u)
      else threads s u)"

lemma close_loop_ok:
  assumes "class_of s m = Mailbox_class"
  shows "placed_ok {} s \<Longrightarrow> contents (mbox_queue s m) = ws \<Longrightarrow> ws \<noteq> [] \<longrightarrow> MAILBOX_HAS_DATA_Q s m = FALSE_OBJ \<Longrightarrow>
    \<exists>s'. close_loop m s = Some (Inr s') \<and> placed_ok {} s' \<and> same_but m s s' \<and> contents (mbox_queue s' m) = [] \<and>
      threads s' = closed_thread s ws"
  using assms
proof (induction ws arbitrary: s)
  case Nil
  have "dequeue_empty (mbox_queue s m)" using empty_ok [OF mbox_queue_ok [OF Nil(1) Nil(4)]] Nil(2) by simp
  then have "close_loop m s = Some (Inr s)" by (subst close_loop.simps) simp
  then show ?case using Nil by (intro exI [of _ s]) (simp add: closed_thread_def fun_eq_iff)
next
  case (Cons t ts)
  note ok = Cons.prems(1) and m = Cons.prems(4)
  have h: "MAILBOX_HAS_DATA_Q s m = FALSE_OBJ" using Cons.prems(3) by simp
  obtain q where q: "mbox_pop m s = Inr (t, s\<lparr>mbox_queue := (mbox_queue s)(m := q)\<rparr>)" "contents q = ts"
    "placed_ok {t} (s\<lparr>mbox_queue := (mbox_queue s)(m := q)\<rparr>)" "place_of s t = Box m"
    using box_pop [OF ok m h Cons.prems(2)] by metis
  let ?s1 = "s\<lparr>mbox_queue := (mbox_queue s)(m := q)\<rparr>"
  note pb = place_Box [OF q(4)]
  have tn: "t \<notin> set ts" using box_waiters(1) [OF ok m h] Cons.prems(2) by simp
  have ne: "\<not> dequeue_empty (mbox_queue s m)" using empty_ok [OF mbox_queue_ok [OF ok m]] Cons.prems(2) by simp
  have "\<exists>s2. close_loop m s = close_loop m s2 \<and> placed_ok {} s2 \<and> same_but m s s2 \<and> contents (mbox_queue s2 m) = ts \<and>
      (ts \<noteq> [] \<longrightarrow> MAILBOX_HAS_DATA_Q s2 m = FALSE_OBJ) \<and>
      threads s2 = (threads s)(t := if ready s t then delivered t NOVALUE_OBJ (threads s t) else ejected (threads s t))"
  proof (cases "ready s t")
    case True
    then have r: "ready ?s1 t" by (simp add: ready_def)
    obtain s2 where s2: "send_item_to_thread m t NOVALUE_OBJ ?s1 = Inr s2" "placed_ok ({t} - {t}) s2" "same_but m ?s1 s2"
      "mbox_queue s2 m = mbox_queue ?s1 m"
      "MAILBOX_HAS_DATA_Q s2 m = (if contents (mbox_queue ?s1 m) = [] then TRUE_OBJ else MAILBOX_HAS_DATA_Q ?s1 m)"
      "threads s2 = (threads ?s1)(t := delivered t NOVALUE_OBJ (threads ?s1 t))"
      by (rule send_item_ok [OF q(3), of t m NOVALUE_OBJ]) (use pb r m in simp_all)
    have "close_loop m s = close_loop m s2" using q(1) ne ready_removed [OF r] s2(1) by (subst close_loop.simps) simp
    moreover have "same_but m s s2" using s2(3) by (simp add: same_but_def)
    ultimately show ?thesis using s2 q(2) h True by (intro exI [of _ s2]) simp
  next
    case False
    then have e: "did_remove_from_queue t ?s1 = Inr (False, set_thread t ejected ?s1)" "placed_ok {} (set_thread t ejected ?s1)"
      using eject_ok [of t "{}" ?s1] q(3) pb m by (simp_all add: ready_def)
    have "close_loop m s = close_loop m (set_thread t ejected ?s1)" using q(1) ne e(1) by (subst close_loop.simps) simp
    then show ?thesis using e(2) q(2) h False
      by (intro exI [of _ "set_thread t ejected ?s1"]) (simp add: same_but_def set_thread_def)
  qed
  then obtain s2 where s2: "close_loop m s = close_loop m s2" "placed_ok {} s2" "same_but m s s2" "contents (mbox_queue s2 m) = ts"
      "ts \<noteq> [] \<longrightarrow> MAILBOX_HAS_DATA_Q s2 m = FALSE_OBJ"
      "threads s2 = (threads s)(t := if ready s t then delivered t NOVALUE_OBJ (threads s t) else ejected (threads s t))" by blast
  have "class_of s2 m = Mailbox_class" using s2(3) m by (simp add: same_but_def)
  from Cons.IH [OF s2(2,4,5) this] obtain s' where s': "close_loop m s2 = Some (Inr s')" "placed_ok {} s'" "same_but m s2 s'"
      "contents (mbox_queue s' m) = []" "threads s' = closed_thread s2 ts" by blast
  have "closed_thread s2 ts = closed_thread s (t # ts)"
    using tn s2(6) by (auto simp: closed_thread_def ready_def fun_eq_iff)
  then show ?case using s' s2(1) same_but_trans [OF s2(3) s'(3)] by auto
qed

definition close_result :: "u32 \<Rightarrow> u32 \<Rightarrow> system \<Rightarrow> thread_error + (bool \<times> system) \<Rightarrow> bool" where
  "close_result m leave s r \<longleftrightarrow>
     (let c = contents (mbox_queue s m); h = MAILBOX_HAS_DATA_Q s m
      in case r of
           Inl _ \<Rightarrow> False
         | Inr (b, s') \<Rightarrow>
             system_ok s' \<and> same_but m s s' \<and>
             (if h = FALSE_OBJ then
                b \<and> MAILBOX_HAS_DATA_Q s' m = leave \<and> contents (mbox_queue s' m) = [] \<and> threads s' = closed_thread s c
              else if h = TRUE_OBJ then
                b \<and> MAILBOX_HAS_DATA_Q s' m = leave \<and> contents (mbox_queue s' m) = c \<and> threads s' = threads s
              else \<not> b \<and> s' = s))"

lemma close_ok:
  assumes ok: "system_ok s" and m: "class_of s m = Mailbox_class" and l: "leave \<noteq> FALSE_OBJ"
  shows "close_result m leave s (close_mailbox m leave s)"
proof -
  have p: "placed_ok {} s" using ok by (simp add: system_ok_def)
  let ?h = "MAILBOX_HAS_DATA_Q s m"
  have leave: "system_ok (set_has_data m leave s2) \<and> same_but m s (set_has_data m leave s2)"
    if "placed_ok {} s2" "same_but m s s2" "MAILBOX_HAS_DATA_Q s2 m = FALSE_OBJ \<Longrightarrow> contents (mbox_queue s2 m) = []" for s2
  proof -
    have "class_of s2 m = Mailbox_class" using that(2) m by (simp add: same_but_def)
    then have p2: "placed_ok {} (set_has_data m leave s2)" by (intro has_data_true that(1) l that(3))
    have sb: "same_but m s (set_has_data m leave s2)" using that(2) by (simp add: same_but_def set_has_data_def)
    show ?thesis using system_ok_but [OF ok sb p2] sb l by (simp add: set_has_data_def)
  qed
  consider "?h = FALSE_OBJ" | "?h = TRUE_OBJ" | "?h \<noteq> TRUE_OBJ" "?h \<noteq> FALSE_OBJ" by blast
  then show ?thesis
  proof cases
    case 1
    obtain s' where s': "close_loop m s = Some (Inr s')" "placed_ok {} s'" "same_but m s s'" "contents (mbox_queue s' m) = []"
      "threads s' = closed_thread s (contents (mbox_queue s m))"
      using close_loop_ok [OF m p refl] 1 by blast
    have "set_has_data m leave (set_has_data m TRUE_OBJ s') = set_has_data m leave s'" by (simp add: set_has_data_def)
    then have "close_mailbox m leave s = Inr (True, set_has_data m leave s')"
      using 1 s'(1) by (simp add: close_mailbox_def and_then_def) (simp add: set_has_data_def)
    then show ?thesis using leave [OF s'(2,3,4)] s' 1 by (simp add: close_result_def Let_def) (simp add: set_has_data_def)
  next
    case 2
    then have "close_mailbox m leave s = Inr (True, set_has_data m leave s)" by (simp add: close_mailbox_def and_then_def)
    then show ?thesis using leave [OF p same_but_refl] 2 by (simp add: close_result_def Let_def) (simp add: set_has_data_def)
  next
    case 3
    then show ?thesis using ok by (simp add: close_mailbox_def and_then_def close_result_def Let_def)
  qed
qed

text \<open>What a receiver that was blocked goes on with, after a message or after the mailbox was closed.\<close>

lemma blocked_gets:
  assumes ok: "system_ok s" and m: "class_of s m = Mailbox_class" "MAILBOX_HAS_DATA_Q s m = FALSE_OBJ"
    and u: "dropWhile (\<lambda>t. \<not> ready s t) (contents (mbox_queue s m)) = u # us"
  shows "item \<noteq> NOVALUE_OBJ \<Longrightarrow>
      \<exists>s'. do_mailbox_send m item front s = Inr (True, s') \<and> rcv_n_go m (RESUME_VALUE (threads s' u)) s' = Returned item"
    and "leave \<noteq> FALSE_OBJ \<Longrightarrow>
      \<exists>s'. close_mailbox m leave s = Inr (True, s') \<and> rcv_n_go m (RESUME_VALUE (threads s' u)) s' = left_behind leave s'"
proof -
  have c: "u \<in> set (contents (mbox_queue s m))" using u by (metis list.set_intros(1) set_dropWhileD)
  have r: "ready s u" using u hd_dropWhile [of "\<lambda>t. \<not> ready s t" "contents (mbox_queue s m)"] by (metis list.sel(1) list.distinct(1))
  show "\<exists>s'. do_mailbox_send m item front s = Inr (True, s') \<and> rcv_n_go m (RESUME_VALUE (threads s' u)) s' = Returned item"
    if n: "item \<noteq> NOVALUE_OBJ"
  proof -
    obtain s' where "do_mailbox_send m item front s = Inr (True, s')" "RESUME_VALUE (threads s' u) = item"
      using send_ok [OF ok m(1), of item front] m(2) u
      by (auto simp: send_result_def Let_def delivered_def split: sum.splits)
    then show ?thesis using n by (auto simp: rcv_n_go_def)
  qed
  show "\<exists>s'. close_mailbox m leave s = Inr (True, s') \<and> rcv_n_go m (RESUME_VALUE (threads s' u)) s' = left_behind leave s'"
    if l: "leave \<noteq> FALSE_OBJ"
  proof -
    obtain s' where "close_mailbox m leave s = Inr (True, s')" "RESUME_VALUE (threads s' u) = NOVALUE_OBJ"
        "MAILBOX_HAS_DATA_Q s' m = leave"
      using close_ok [OF ok m(1) l] m(2) c r
      by (auto simp: close_result_def Let_def closed_thread_def delivered_def split: sum.splits)
    then show ?thesis by (auto simp: rcv_n_go_def left_behind_def)
  qed
qed

end
