(* ===== verification/ThreadSuspend.thy ===== *)
theory ThreadSuspend
  imports ThreadSync
begin

text \<open>
  Suspending and resuming, taking a thread off the queue it is in, and the state before threads are started.
\<close>

section \<open>Suspending\<close>

definition suspended :: "thread \<Rightarrow> thread" where
  "suspended r =
     (let c = THREAD_SUSPEND_COUNT r
      in r\<lparr>THREAD_STATE := TSTATE_SUSPEND, THREAD_SUSPEND_COUNT := fx (if c < 0 then c - 1 else c + 1)\<rparr>)"

lemma suspended_eq:
  assumes "thread_ok s t" "THREAD_STATE (threads s t) \<noteq> TSTATE_COMPLETE"
  shows "thread_suspend t s = set_thread t suspended s"
proof -
  have st: "THREAD_STATE (threads s t) = TSTATE_SUSPEND" if "THREAD_SUSPEND_COUNT (threads s t) \<noteq> 0"
    using assms that by (auto simp: thread_ok_def Let_def)
  then have "(threads s t)\<lparr>THREAD_STATE := TSTATE_SUSPEND\<rparr> = threads s t" if "THREAD_SUSPEND_COUNT (threads s t) \<noteq> 0"
    using that by (cases "threads s t") simp
  then show ?thesis using assms(2)
    by (auto simp: thread_suspend_def mark_thread_suspended_def set_thread_def suspended_def Let_def)
qed

text \<open>When counting leaves the thread where it is.\<close>

definition can_suspend :: "thread \<Rightarrow> bool" where
  "can_suspend r \<longleftrightarrow> THREAD_STATE r \<noteq> TSTATE_RUNNING \<and> THREAD_SUSPEND_COUNT r \<notin> {FX_MIN, FX_MAX}"

lemma suspend_ok:
  assumes ok: "system_ok s" and t: "class_of s t = Thread_class"
    and c: "THREAD_STATE (threads s t) \<noteq> TSTATE_COMPLETE \<Longrightarrow> can_suspend (threads s t)"
  shows "system_ok (thread_suspend t s)"
proof (cases "THREAD_STATE (threads s t) = TSTATE_COMPLETE")
  case True
  then show ?thesis using ok by (simp add: thread_suspend_def)
next
  case False
  let ?c = "THREAD_SUSPEND_COUNT (threads s t)"
  have p: "placed_ok {} s" using ok by (simp add: system_ok_def)
  then have tok: "thread_ok s t" using t by (simp add: placed_ok_def)
  then have n: "is_fx (if ?c < 0 then ?c - 1 else ?c + 1)"
    using c [OF False] by (auto simp: thread_ok_def can_suspend_def is_fx_def Let_def)
  have "placed_ok {} (set_thread t suspended s)"
  proof (rule change_thread [OF p])
    show "t \<in> {} \<or> place_of (set_thread t suspended s) t = place_of s t"
      using c False is_fxD [OF n] by (simp add: can_suspend_def place_of_def suspended_def Let_def cong: obj_class.case_cong)
    show "thread_ok (set_thread t suspended s) t"
      using tok c False is_fxD [OF n] n by (auto simp: can_suspend_def thread_ok_def suspended_def Let_def)
  qed (simp add: suspended_def Let_def)
  then show ?thesis unfolding suspended_eq [OF tok False]
    using system_ok_boxes [OF ok, of "set_thread t suspended s"] by (simp add: same_boxes_def)
qed

text \<open>A thread whose slots name another place, in no queue moved, breaks the invariant.\<close>

lemma misplaced:
  assumes "placed_ok {} s" "waiters s' = waiters s" "place_of s' t \<noteq> place_of s t"
  shows "\<not> system_ok s'"
proof
  assume "system_ok s'"
  then have p: "placed_ok {} s'" by (simp add: system_ok_def)
  have w: "t \<in> set (waiters s pl) \<longleftrightarrow> place_of s t = pl" "t \<in> set (waiters s' pl) \<longleftrightarrow> place_of s' t = pl" if "pl \<noteq> Nowhere" for pl
    using assms(1) p that by (auto simp: placed_ok_def)
  show False using w [of "place_of s t"] w [of "place_of s' t"] assms(2,3) by metis
qed

lemma bad_thread: "class_of s t = Thread_class \<Longrightarrow> \<not> thread_ok s t \<Longrightarrow> \<not> system_ok s"
  by (auto simp: system_ok_def placed_ok_def)

lemma suspend_bad:
  assumes ok: "system_ok s" and t: "class_of s t = Thread_class"
    and n: "THREAD_STATE (threads s t) \<noteq> TSTATE_COMPLETE" "\<not> can_suspend (threads s t)"
  shows "\<not> system_ok (thread_suspend t s)"
proof -
  let ?c = "THREAD_SUSPEND_COUNT (threads s t)"
  have p: "placed_ok {} s" using ok by (simp add: system_ok_def)
  then have tok: "thread_ok s t" using t by (simp add: placed_ok_def)
  have "place_of (set_thread t suspended s) t \<noteq> place_of s t"
    using tok n t
    by (auto simp: can_suspend_def thread_ok_def place_of_def suspended_def Let_def FX_MIN_def FX_MAX_def fx_id split: obj_class.splits)
  then show ?thesis unfolding suspended_eq [OF tok n(1)]
    by (rule misplaced [OF p, rotated]) (simp add: fun_eq_iff waiters_set_thread suspended_def Let_def)
qed

section \<open>Resuming\<close>

definition resumed :: "thread \<Rightarrow> thread" where
  "resumed r = r\<lparr>THREAD_SUSPEND_COUNT := 0\<rparr>"

definition resume_result :: "u32 \<Rightarrow> system \<Rightarrow> thread_error + system \<Rightarrow> bool" where
  "resume_result t s r \<longleftrightarrow>
     (let th = threads s t; c = THREAD_SUSPEND_COUNT th; m = THREAD_BLOCKED_ON th
      in \<exists>s'. r = Inr s' \<and> system_ok s' \<and> current_thread s' = current_thread s \<and>
         (if c \<ge> 0 then threads s' = (threads s)(t := th\<lparr>THREAD_SUSPEND_COUNT := max 0 (c - 1)\<rparr>) \<and> same_boxes s s'
          else if c < -1 then threads s' = (threads s)(t := th\<lparr>THREAD_SUSPEND_COUNT := c + 1\<rparr>) \<and> same_boxes s s'
          else if m = ZERO then threads s' = (threads s)(t := (resumed th)\<lparr>THREAD_STATE := TSTATE_WAITING\<rparr>) \<and> same_boxes s s'
          else same_but m s s' \<and>
            (if MAILBOX_HAS_DATA_Q s m \<noteq> FALSE_OBJ \<and> contents (mbox_queue s m) \<noteq> []
             then threads s' = (threads s)(t := delivered t (hd (contents (mbox_queue s m))) (resumed th)) \<and>
               contents (mbox_queue s' m) = tl (contents (mbox_queue s m))
             else threads s' = (threads s)(t := (resumed th)\<lparr>THREAD_STATE := TSTATE_BLOCKED\<rparr>) \<and>
               MAILBOX_HAS_DATA_Q s' m = FALSE_OBJ \<and> contents (mbox_queue s' m) = contents (mbox_queue s m) @ [t])))"

lemma count_ok:
  assumes ok: "system_ok s" and "t \<in> {} \<or> place_of (set_thread t f s) t = place_of s t"
    "\<And>r. THREAD_JOINS (f r) = THREAD_JOINS r" "class_of s t = Thread_class \<Longrightarrow> thread_ok (set_thread t f s) t"
  shows "system_ok (set_thread t f s)"
  using change_thread [OF _ assms(2-4)] ok system_ok_boxes [OF ok, of "set_thread t f s"]
  by (simp add: system_ok_def same_boxes_def)

lemma requeue_ok:
  assumes ok: "placed_ok {t} s" and bs: "boxes_ok s" "sems_ok s" and t: "class_of s t = Thread_class" "ready s t"
    and m: "class_of s m = Mailbox_class" "THREAD_BLOCKED_ON (threads s t) = m" "THREAD_STATE (threads s t) = TSTATE_SUSPEND"
  shows "\<exists>s'. requeue t m s = Inr s' \<and> system_ok s' \<and> current_thread s' = current_thread s \<and> same_but m s s' \<and>
    (if MAILBOX_HAS_DATA_Q s m \<noteq> FALSE_OBJ \<and> contents (mbox_queue s m) \<noteq> []
     then threads s' = (threads s)(t := delivered t (hd (contents (mbox_queue s m))) (threads s t)) \<and>
       contents (mbox_queue s' m) = tl (contents (mbox_queue s m))
     else threads s' = (threads s)(t := (threads s t)\<lparr>THREAD_STATE := TSTATE_BLOCKED\<rparr>) \<and>
       MAILBOX_HAS_DATA_Q s' m = FALSE_OBJ \<and> contents (mbox_queue s' m) = contents (mbox_queue s m) @ [t])"
proof (cases "MAILBOX_HAS_DATA_Q s m \<noteq> FALSE_OBJ \<and> contents (mbox_queue s m) \<noteq> []")
  case True
  then obtain x xs where c: "MAILBOX_HAS_DATA_Q s m \<noteq> FALSE_OBJ" "contents (mbox_queue s m) = x # xs"
    by (cases "contents (mbox_queue s m)") auto
  have e: "\<not> dequeue_empty (mbox_queue s m)" using empty_ok [OF mbox_queue_ok [OF ok m(1)]] c(2) by simp
  from pop_front_ok [OF mbox_queue_ok [OF ok m(1)] c(2)] obtain q where
    q: "dequeue_pop_front (mbox_queue s m) = Inr (x, q)" "queue_ok q" "contents q = xs" .
  let ?s1 = "s\<lparr>mbox_queue := (mbox_queue s)(m := q)\<rparr>"
  have p1: "placed_ok {t} ?s1" by (rule data_change [OF ok m(1) c(1) q(2)])
  obtain s2 where s2: "send_item_to_thread m t x ?s1 = Inr s2" "placed_ok ({t} - {t}) s2" "same_but m ?s1 s2"
    "mbox_queue s2 m = mbox_queue ?s1 m"
    "MAILBOX_HAS_DATA_Q s2 m = (if contents (mbox_queue ?s1 m) = [] then TRUE_OBJ else MAILBOX_HAS_DATA_Q ?s1 m)"
    "threads s2 = (threads ?s1)(t := delivered t x (threads ?s1 t))"
    by (rule send_item_ok [OF p1, of t m x]) (use t m in \<open>simp_all add: ready_def\<close>)
  have sb: "same_but m s s2" using s2(3) by (simp add: same_but_def)
  have "boxes_ok s2" by (rule boxes_ok_but [OF bs(1) sb]) (use s2(5) c(1) in \<open>simp split: if_splits\<close>)
  then have "system_ok s2" using s2(2) sems_ok_but [OF bs(2) sb] by (simp add: system_ok_def)
  moreover have "requeue t m s = Inr s2" using m(1) c e q(1) s2(1)
    by (simp add: requeue_def truish_def Let_def mbox_pop_def and_then_def)
  moreover have "current_thread s2 = current_thread s" using sb by (simp add: same_but_def)
  ultimately show ?thesis using True sb s2 c(2) q(3) by simp
next
  case False
  then have c: "MAILBOX_HAS_DATA_Q s m = FALSE_OBJ \<or> contents (mbox_queue s m) = []" by blast
  have e: "dequeue_empty (mbox_queue s m) \<longleftrightarrow> contents (mbox_queue s m) = []" using empty_ok [OF mbox_queue_ok [OF ok m(1)]] .
  have mz: "m \<noteq> ZERO" using zero_other [OF ok] m by auto
  have pl: "place_of s t = Box m" using t m mz by (simp add: place_of_def Let_def ready_def)
  obtain q where q: "mbox_push dequeue_push_back m t (set_has_data m FALSE_OBJ s) =
      Inr (set_has_data m FALSE_OBJ s\<lparr>mbox_queue := (mbox_queue s)(m := q)\<rparr>)" "contents q = contents (mbox_queue s m) @ [t]"
    "placed_ok ({t} - {t}) (set_has_data m FALSE_OBJ s\<lparr>mbox_queue := (mbox_queue s)(m := q)\<rparr>)"
    by (rule box_push [OF ok m(1) c _ pl]) simp
  let ?s1 = "set_has_data m FALSE_OBJ s\<lparr>mbox_queue := (mbox_queue s)(m := q)\<rparr>"
  let ?f = "\<lambda>r. r\<lparr>THREAD_STATE := TSTATE_BLOCKED\<rparr>"
  have sb: "same_but m s ?s1" by (simp add: same_but_def set_has_data_def)
  have "boxes_ok ?s1" by (rule boxes_push [OF bs(1) sb]) (simp add: q(2))
  then have s1: "system_ok ?s1" using q(3) sems_ok_but [OF bs(2) sb] by (simp add: system_ok_def)
  then have tok: "thread_ok ?s1 t" using t(1) by (simp add: system_ok_def placed_ok_def set_has_data_def)
  have "system_ok (set_thread t ?f ?s1)"
  proof (rule count_ok [OF s1])
    show "t \<in> {} \<or> place_of (set_thread t ?f ?s1) t = place_of ?s1 t"
      using m(2) mz by (simp add: place_of_def Let_def set_has_data_def cong: obj_class.case_cong)
    show "thread_ok (set_thread t ?f ?s1) t"
      using tok t(2) m(2,3) mz by (auto simp: thread_ok_def Let_def ready_def set_has_data_def)
  qed simp
  moreover have "requeue t m s = Inr (set_thread t ?f ?s1)"
    using m(1) c e q(1) by (auto simp: requeue_def truish_def Let_def and_then_def)
  moreover have "same_but m s (set_thread t ?f ?s1)" using sb by (simp add: same_but_def)
  moreover have "threads (set_thread t ?f ?s1) = (threads s)(t := ?f (threads s t))" "current_thread ?s1 = current_thread s"
    by (simp_all add: set_thread_def set_has_data_def)
  ultimately show ?thesis unfolding if_not_P [OF False]
    using q(2) by (intro exI [of _ "set_thread t ?f ?s1"]) (simp add: set_has_data_def)
qed

lemma resume_ok:
  assumes ok: "system_ok s" and t: "class_of s t = Thread_class" "THREAD_STATE (threads s t) \<noteq> TSTATE_COMPLETE"
  shows "resume_result t s (thread_resume t s)"
proof -
  let ?th = "threads s t" and ?c = "THREAD_SUSPEND_COUNT (threads s t)" and ?m = "THREAD_BLOCKED_ON (threads s t)"
  have p: "placed_ok {} s" and b: "boxes_ok s" "sems_ok s" using ok by (simp_all add: system_ok_def)
  have tok: "thread_ok s t" using p t(1) by (simp add: placed_ok_def)
  have e: "thread_resume t s = mark_thread_resumed t s" using t(2) by (simp add: thread_resume_def)
  have susp: "THREAD_STATE ?th = TSTATE_SUSPEND" if "?c \<noteq> 0" using tok t(2) that by (auto simp: thread_ok_def Let_def)
  have m: "\<not> FIXNUM_P ?m" if "?m \<noteq> ZERO"
  proof -
    have "PTR_P ?m" using tok p that by (simp add: thread_ok_def Let_def placed_ok_def)
    then show ?thesis by (auto simp: PTR_P_def FIXNUM_P_def TEST_PRIMARY_TAG_def)
  qed
  let ?f = "\<lambda>n r. r\<lparr>THREAD_SUSPEND_COUNT := n\<rparr>"
  have eq: "set_thread t (?f n) s = s\<lparr>threads := (threads s)(t := ?th\<lparr>THREAD_SUSPEND_COUNT := n\<rparr>)\<rparr>" for n
    by (simp add: set_thread_def)
  have keep: "system_ok (set_thread t (?f n) s)" if "n < 0 \<longleftrightarrow> ?c < 0" "?c \<noteq> 0" "is_fx n" for n
    by (rule count_ok [OF ok])
      (use that tok susp in \<open>auto simp: place_of_def thread_ok_def Let_def cong: obj_class.case_cong\<close>)
  have sb: "same_boxes s (set_thread t (?f n) s)" for n by (simp add: same_boxes_def)
  have cfx: "is_fx ?c" using tok by (simp add: thread_ok_def Let_def)
  consider "?c = 0" | "?c > 0" | "?c < -1" | "?c = -1" by linarith
  then show ?thesis
  proof cases
    case 1
    then have "?th\<lparr>THREAD_SUSPEND_COUNT := 0\<rparr> = ?th" by (cases ?th) simp
    then have th: "(threads s)(t := ?th\<lparr>THREAD_SUSPEND_COUNT := 0\<rparr>) = threads s" by (metis fun_upd_triv)
    show ?thesis using 1 ok unfolding e
      by (simp add: resume_result_def mark_thread_resumed_def Let_def same_boxes_refl th)
  next
    case 2
    have n: "is_fx (?c - 1)" using is_fx_between [OF cfx, of "?c - 1"] 2 by simp
    have "mark_thread_resumed t s = Inr (set_thread t (?f (?c - 1)) s)"
      using 2 m is_fxD [OF n] by (auto simp: mark_thread_resumed_def Let_def)
    then show ?thesis using 2 keep [of "?c - 1"] n sb unfolding e
      by (simp add: resume_result_def Let_def set_thread_def)
  next
    case 3
    have n: "is_fx (?c + 1)" "is_fx (- ?c - 1)" using cfx 3 by (auto simp: is_fx_def FX_MIN_def FX_MAX_def)
    have "mark_thread_resumed t s = Inr (set_thread t (?f (?c + 1)) s)"
      using 3 is_fxD [OF n(1)] is_fxD [OF n(2)] by (auto simp: mark_thread_resumed_def Let_def algebra_simps)
    then show ?thesis using 3 keep [of "?c + 1"] n(1) sb unfolding e
      by (simp add: resume_result_def Let_def set_thread_def)
  next
    case 4
    let ?s = "set_thread t (?f 0) s"
    have pl: "place_of s t = Nowhere" using 4 by (simp add: place_of_def Let_def)
    have p1: "placed_ok {t} ?s"
      by (rule change_thread [OF unsettle [OF p pl]]) (use tok 4 susp in \<open>auto simp: thread_ok_def Let_def\<close>)
    have r: "ready ?s t" "class_of ?s t = Thread_class" by (simp_all add: ready_def t(1))
    show ?thesis
    proof (cases "?m = ZERO")
      case True
      have bz: "THREAD_BLOCKED_ON (threads ?s t) = ZERO" "THREAD_SUSPEND_COUNT (threads ?s t) = 0" using True by simp_all
      obtain q where q: "mark_thread_ready t ?s = Inr (set_thread t (\<lambda>r. r\<lparr>THREAD_STATE := TSTATE_WAITING\<rparr>) ?s
          \<lparr>thread_queue := (thread_queue ?s)[THREAD_PRIORITY (threads ?s t) := q]\<rparr>)"
        "placed_ok ({t} - {t}) (set_thread t (\<lambda>r. r\<lparr>THREAD_STATE := TSTATE_WAITING\<rparr>) ?s
          \<lparr>thread_queue := (thread_queue ?s)[THREAD_PRIORITY (threads ?s t) := q]\<rparr>)"
        by (rule mark_ready_ok [OF p1 _ r(2) bz]) simp
      let ?s1 = "set_thread t (\<lambda>r. r\<lparr>THREAD_STATE := TSTATE_WAITING\<rparr>) ?s
          \<lparr>thread_queue := (thread_queue ?s)[THREAD_PRIORITY (threads ?s t) := q]\<rparr>"
      have sb1: "same_boxes s ?s1" by (simp add: same_boxes_def)
      have "system_ok ?s1" by (rule system_ok_boxes [OF ok sb1]) (use q(2) in simp)
      moreover have "mark_thread_resumed t s = Inr ?s1" using 4 True q(1) by (simp add: mark_thread_resumed_def Let_def is_fxD)
      moreover have "threads ?s1 = (threads s)(t := (resumed ?th)\<lparr>THREAD_STATE := TSTATE_WAITING\<rparr>)"
        by (simp add: set_thread_def resumed_def)
      moreover have "current_thread ?s1 = current_thread s" by simp
      ultimately show ?thesis using 4 True sb1 unfolding e resume_result_def Let_def
        by (intro exI [of _ ?s1]) simp
    next
      case False
      have mb: "class_of s ?m = Mailbox_class" using tok 4 False by (simp add: thread_ok_def Let_def)
      have "boxes_ok ?s" "sems_ok ?s" using b by (simp_all add: boxes_ok_def sems_ok_def)
      from requeue_ok [OF p1 this r(2,1), of ?m] obtain s' where s': "requeue t ?m ?s = Inr s'" "system_ok s'"
        "current_thread s' = current_thread s" "same_but ?m ?s s'"
        "if MAILBOX_HAS_DATA_Q s ?m \<noteq> FALSE_OBJ \<and> contents (mbox_queue s ?m) \<noteq> []
         then threads s' = (threads ?s)(t := delivered t (hd (contents (mbox_queue s ?m))) (threads ?s t)) \<and>
           contents (mbox_queue s' ?m) = tl (contents (mbox_queue s ?m))
         else threads s' = (threads ?s)(t := (threads ?s t)\<lparr>THREAD_STATE := TSTATE_BLOCKED\<rparr>) \<and>
           MAILBOX_HAS_DATA_Q s' ?m = FALSE_OBJ \<and> contents (mbox_queue s' ?m) = contents (mbox_queue s ?m) @ [t]"
        using mb susp 4 by auto
      have "mark_thread_resumed t s = Inr s'" using 4 False m [OF False] s'(1)
        by (simp add: mark_thread_resumed_def Let_def is_fxD)
      moreover have "threads ?s = (threads s)(t := resumed ?th)" by (simp add: set_thread_def resumed_def)
      moreover have "same_but ?m s s'" using s'(4) by (simp add: same_but_def)
      ultimately show ?thesis using 4 False s'(2,3,5) unfolding e resume_result_def Let_def
        by (intro exI [of _ s']) simp
    qed
  qed
qed

section \<open>Taking a thread off its queue\<close>

lemma slot_list_delq_remove1: "slot_list_delq ps key = remove1 key ps"
  by (induction ps) auto

lemma delq_ok:
  assumes "queue_ok q"
  obtains q' where "dequeue_delq q t = Some (length (filter (\<lambda>u. u = t) (contents q)), q')" "queue_ok q'"
    "contents q' = filter (\<lambda>u. u \<noteq> t) (contents q)"
  using delq_rep [of q "contents q" t] represents_contents assms unfolding queue_ok_def by metis

lemma once:
  assumes "distinct xs" "t \<in> set xs"
  shows "length (filter (\<lambda>u. u = t) xs) = 1" "Suc (length (filter (\<lambda>u. u \<noteq> t) xs)) = length xs"
proof -
  show 1: "length (filter (\<lambda>u. u = t) xs) = 1" using assms by (induction xs) (auto simp: filter_empty_conv)
  have "length (filter (\<lambda>u. u = t) xs) + length (filter (\<lambda>u. u \<noteq> t) xs) = length xs" by (rule sum_length_filter_compl)
  then show "Suc (length (filter (\<lambda>u. u \<noteq> t) xs)) = length xs" using 1 by simp
qed

lemma filter_id: "t \<notin> set xs \<Longrightarrow> filter (\<lambda>u. u \<noteq> t) xs = xs"
  by (induction xs) auto

definition removed_from :: "u32 \<Rightarrow> system \<Rightarrow> system \<Rightarrow> bool" where
  "removed_from t s s' \<longleftrightarrow>
     (\<forall>pl. waiters s' pl = filter (\<lambda>u. u \<noteq> t) (waiters s pl)) \<and>
     class_of s' = class_of s \<and> current_thread s' = current_thread s \<and>
     (\<forall>u. u \<noteq> t \<longrightarrow> (threads s' u)\<lparr>THREAD_JOINS := []\<rparr> = (threads s u)\<lparr>THREAD_JOINS := []\<rparr>)"

text \<open>
  The threads that are in the queue their slots name, or rightly in none, and whose count can go down; the
  others are left where they are, or fail an assertion.
\<close>

definition can_unqueue :: "system \<Rightarrow> u32 \<Rightarrow> bool" where
  "can_unqueue s t \<longleftrightarrow>
     (let r = threads s t; c = THREAD_SUSPEND_COUNT r; st = THREAD_STATE r
      in if THREAD_BLOCKED_ON r = ZERO then st \<noteq> TSTATE_RUNNING \<and> \<not> (st = TSTATE_SUSPEND \<and> c \<ge> 0) \<and> c \<noteq> FX_MIN else c \<ge> 0)"

definition unqueued :: "thread \<Rightarrow> thread" where
  "unqueued r = r\<lparr>THREAD_BLOCKED_ON := ZERO, THREAD_STATE := TSTATE_SUSPEND,
     THREAD_SUSPEND_COUNT := fx (- \<bar>THREAD_SUSPEND_COUNT r\<bar> - 1)\<rparr>"

lemma waiters_not_in:
  assumes "placed_ok {} s" "pl \<noteq> place_of s t"
  shows "filter (\<lambda>u. u \<noteq> t) (waiters s pl) = waiters s pl"
proof (rule filter_id)
  show "t \<notin> set (waiters s pl)" using assms by (cases "pl = Nowhere") (auto simp: placed_ok_def)
qed

text \<open>The first part: what each kind of queue does.\<close>

lemma unqueue_ok:
  assumes ok: "system_ok s" and t: "class_of s t = Thread_class" and u: "can_unqueue s t"
  obtains b s1 where "unqueue t s = Inr (b, s1)" "placed_ok {t} s1" "boxes_ok s1" "sems_ok s1"
    "removed_from t s s1" "(threads s1 t)\<lparr>THREAD_JOINS := []\<rparr> = (threads s t)\<lparr>THREAD_JOINS := []\<rparr>"
    "if b then THREAD_SUSPEND_COUNT (threads s t) \<ge> 0 else THREAD_SUSPEND_COUNT (threads s t) \<le> 0"
proof -
  let ?r = "threads s t"
  let ?c = "THREAD_SUSPEND_COUNT ?r" and ?b = "THREAD_BLOCKED_ON ?r" and ?st = "THREAD_STATE ?r" and ?p = "THREAD_PRIORITY ?r"
  have p: "placed_ok {} s" and bx: "boxes_ok s" and sm: "sems_ok s" using ok by (simp_all add: system_ok_def)
  have tok: "thread_ok s t" using p t by (simp add: placed_ok_def)
  note wn = waiters_not_in [OF p]
  show thesis
  proof (cases "?b = ZERO")
    case z: True
    show thesis
    proof (cases "?st = TSTATE_WAITING")
      case True
      then have pr: "?p < 10" "length (thread_queue s) = 10" and c: "?c = 0"
        using p tok by (auto simp: placed_ok_def thread_ok_def Let_def)
      have pl: "place_of s t = Run ?p" using True z c t by (simp add: place_of_def Let_def)
      note w = run_waiters [OF p pr(1)]
      have tin: "t \<in> set (contents (thread_queue s ! ?p))" using w(2) pl by simp
      obtain q where q: "dequeue_delq (thread_queue s ! ?p) t = Some (1, q)" "queue_ok q"
          "contents q = filter (\<lambda>u. u \<noteq> t) (contents (thread_queue s ! ?p))"
        using delq_ok [OF run_queue_ok [OF p pr(1)], of t] once(1) [OF w(1) tin] by metis
      let ?s1 = "s\<lparr>thread_queue := (thread_queue s)[?p := q]\<rparr>"
      have "placed_ok {t} ?s1" by (rule change_run [OF p pr(1) q(2)]) (use w q(3) pl in auto)
      moreover have "waiters ?s1 pl' = filter (\<lambda>u. u \<noteq> t) (waiters s pl')" for pl'
        using wn [of pl' t] pl q(3) pr by (cases pl') (auto simp: nth_list_update)
      then have "removed_from t s ?s1" by (simp add: removed_from_def)
      moreover have "boxes_ok ?s1" "sems_ok ?s1" using bx sm by (simp_all add: boxes_ok_def sems_ok_def)
      moreover have "unqueue t s = Inr (True, ?s1)" using z True pr q(1) by (simp add: unqueue_def Let_def)
      ultimately show thesis using that [of True ?s1] c by simp
    next
      case False
      have "?st \<noteq> TSTATE_BLOCKED" "?st \<noteq> TSTATE_SLEEPING" and a: "?c \<noteq> 0 \<Longrightarrow> ?st = TSTATE_SUSPEND \<or> ?c < 0"
        using tok z by (auto simp: thread_ok_def Let_def)
      moreover have "?st \<noteq> TSTATE_RUNNING" "\<not> (?st = TSTATE_SUSPEND \<and> ?c \<ge> 0)"
        using u z by (simp_all add: can_unqueue_def Let_def)
      ultimately have st: "?st = TSTATE_COMPLETE \<or> ?st = TSTATE_SUSPEND \<and> ?c < 0" using False by (cases ?st) auto
      then have n: "place_of s t = Nowhere" "?c \<le> 0" using z a by (cases "?c = 0"; force simp: place_of_def Let_def)+
      have "unqueue t s = Inr (False, s)" using z False by (simp add: unqueue_def Let_def)
      moreover have "placed_ok {t} s" using unsettle [OF p n(1)] by simp
      moreover have "waiters s pl = filter (\<lambda>u. u \<noteq> t) (waiters s pl)" for pl
        using wn [of pl t] n(1) by (cases "pl = Nowhere") simp_all
      then have "removed_from t s s" unfolding removed_from_def by metis
      ultimately show thesis using that [of False s] bx sm n(2) by simp
    qed
  next
    case nz: False
    then have c: "?c \<ge> 0" using u by (simp add: can_unqueue_def Let_def)
    have st: "?st = TSTATE_SUSPEND \<or> ?st = TSTATE_BLOCKED" and oc: "class_of s ?b \<noteq> Other_class"
      using tok nz by (auto simp: thread_ok_def Let_def)
    then have ptr: "PTR_P ?b" "\<not> FIXNUM_P ?b" using p
      by (auto simp: placed_ok_def PTR_P_def FIXNUM_P_def TEST_PRIMARY_TAG_def)
    show thesis
    proof (cases "class_of s ?b")
      case Mailbox_class
      have pl: "place_of s t = Box ?b" using t c nz Mailbox_class by (simp add: place_of_def Let_def)
      then have h: "MAILBOX_HAS_DATA_Q s ?b = FALSE_OBJ" using box_data [OF p Mailbox_class] by fastforce
      note w = box_waiters [OF p Mailbox_class h]
      obtain n q where q: "dequeue_delq (mbox_queue s ?b) t = Some (n, q)" "queue_ok q"
          "contents q = filter (\<lambda>u. u \<noteq> t) (contents (mbox_queue s ?b))"
        using delq_ok [OF mbox_queue_ok [OF p Mailbox_class], of t] by metis
      let ?h = "if dequeue_empty q then TRUE_OBJ else FALSE_OBJ"
      let ?s1 = "s\<lparr>mbox_queue := (mbox_queue s)(?b := q), MAILBOX_HAS_DATA_Q := (MAILBOX_HAS_DATA_Q s)(?b := ?h)\<rparr>"
      have e: "dequeue_empty q \<longleftrightarrow> contents q = []" by (rule empty_ok [OF q(2)])
      have cq: "distinct (contents q)" "set (contents q) = {u. u \<notin> {t} \<and> place_of s u = Box ?b}"
        using w unfolding q(3) by auto
      have "placed_ok {t} ?s1"
      proof (rule change_box [OF p Mailbox_class q(2)])
        show "distinct (if ?h = FALSE_OBJ then contents q else [])" using cq(1) by simp
        show "set (if ?h = FALSE_OBJ then contents q else []) = {u. u \<notin> {t} \<and> place_of s u = Box ?b}"
          using cq(2) e by (cases "dequeue_empty q") simp_all
      qed (use pl in auto)
      moreover have "waiters ?s1 pl' = filter (\<lambda>u. u \<noteq> t) (waiters s pl')" for pl'
        using wn [of pl' t] pl q(3) h e Mailbox_class by (cases pl') auto
      then have "removed_from t s ?s1" by (simp add: removed_from_def)
      moreover have "boxes_ok ?s1" using bx e by (simp add: boxes_ok_def)
      moreover have "sems_ok ?s1" using sm by (simp add: sems_ok_def)
      moreover have "(MAILBOX_HAS_DATA_Q s)(?b := FALSE_OBJ) = MAILBOX_HAS_DATA_Q s" using h by auto
      then have "unqueue t s = Inr (True, ?s1)" using nz st ptr Mailbox_class q(1)
        by (simp add: unqueue_def Let_def set_has_data_def)
      ultimately show thesis using that [of True ?s1] c by simp
    next
      case Semaphore_class
      have pl: "place_of s t = Sem ?b" using t c nz Semaphore_class by (simp add: place_of_def Let_def)
      note w = sem_waiters [OF p Semaphore_class]
      have tin: "t \<in> set (contents (sem_queue s ?b))" using w(2) pl by simp
      obtain n q where q: "dequeue_delq (sem_queue s ?b) t = Some (n, q)" "queue_ok q"
          "contents q = filter (\<lambda>u. u \<noteq> t) (contents (sem_queue s ?b))"
        using delq_ok [OF w(3), of t] by metis
      let ?n = "(SEMAPHORE_COUNT s)(?b := SEMAPHORE_COUNT s ?b + 1)"
      have "0 < length (contents (sem_queue s ?b))" using tin by (cases "contents (sem_queue s ?b)") simp_all
      then have "is_fx (SEMAPHORE_COUNT s ?b + 1)" using sm Semaphore_class
        by (auto simp: sems_ok_def is_fx_def FX_MAX_def max_def dest!: spec [of _ ?b] split: if_splits)
      then have n: "fx (SEMAPHORE_COUNT s ?b + 1) = SEMAPHORE_COUNT s ?b + 1" "is_fx (SEMAPHORE_COUNT s ?b + 1)"
        using is_fxD by blast+
      let ?s1 = "s\<lparr>SEMAPHORE_COUNT := ?n, sem_queue := (sem_queue s)(?b := q)\<rparr>"
      have "placed_ok {t} ?s1" by (rule change_sem [OF p Semaphore_class q(2)]) (use w q(3) pl in auto)
      moreover have "waiters ?s1 pl' = filter (\<lambda>u. u \<noteq> t) (waiters s pl')" for pl'
        using wn [of pl' t] pl q(3) Semaphore_class by (cases pl') auto
      then have "removed_from t s ?s1" by (simp add: removed_from_def)
      moreover have "boxes_ok ?s1" using bx by (simp add: boxes_ok_def)
      moreover have "int (length (contents (sem_queue s ?b))) = max 0 (- SEMAPHORE_COUNT s ?b)"
        using sm Semaphore_class by (simp add: sems_ok_def)
      then have "int (length (contents q)) = max 0 (- (SEMAPHORE_COUNT s ?b + 1))"
        using once(2) [OF w(1) tin] q(3) by simp
      then have "sems_ok ?s1" using n by (intro sems_ok_change [OF sm, of _ ?b]) simp_all
      moreover have "unqueue t s = Inr (True, ?s1)" using nz st ptr Semaphore_class q(1) n(1)
        by (simp add: unqueue_def Let_def)
      ultimately show thesis using that [of True ?s1] c by simp
    next
      case Thread_class
      have pl: "place_of s t = Join ?b" using t c nz Thread_class by (simp add: place_of_def Let_def)
      let ?js = "THREAD_JOINS (threads s ?b)"
      note w = join_waiters [OF p Thread_class]
      have js: "remove1 t ?js = filter (\<lambda>u. u \<noteq> t) ?js"
        using w(1) by (simp add: distinct_remove1_removeAll removeAll_filter_not_eq eq_commute)
      let ?s1 = "set_thread ?b (\<lambda>r. r\<lparr>THREAD_JOINS := remove1 t ?js\<rparr>) s"
      have "thread_ok s ?b" using p Thread_class by (simp add: placed_ok_def)
      then have "placed_ok {t} ?s1"
        by (intro change_joins [OF p Thread_class]) (use w pl js in \<open>auto simp: thread_ok_def Let_def\<close>)
      moreover have "waiters ?s1 pl' = filter (\<lambda>u. u \<noteq> t) (waiters s pl')" for pl'
        using wn [of pl' t] pl js Thread_class by (cases pl') auto
      then have "removed_from t s ?s1" by (simp add: removed_from_def)
      moreover have "boxes_ok ?s1" "sems_ok ?s1" using bx sm by (simp_all add: boxes_ok_def sems_ok_def)
      moreover have "unqueue t s = Inr (True, ?s1)" using nz st ptr Thread_class
        by (simp add: unqueue_def Let_def slot_list_delq_remove1) (simp add: set_thread_def)
      moreover have "(threads ?s1 t)\<lparr>THREAD_JOINS := []\<rparr> = ?r\<lparr>THREAD_JOINS := []\<rparr>" by simp
      ultimately show thesis using that [of True ?s1] c by simp
    qed (use oc in simp)
  qed
qed

definition unqueue_result :: "u32 \<Rightarrow> system \<Rightarrow> thread_error + system \<Rightarrow> bool" where
  "unqueue_result t s r \<longleftrightarrow>
     (\<exists>s'. r = Inr s' \<and> system_ok s' \<and> removed_from t s s' \<and>
       (threads s' t)\<lparr>THREAD_JOINS := []\<rparr> = (unqueued (threads s t))\<lparr>THREAD_JOINS := []\<rparr>)"

lemma same_fields:
  assumes "r\<lparr>THREAD_JOINS := []\<rparr> = r'\<lparr>THREAD_JOINS := []\<rparr>"
  shows "THREAD_SUSPEND_COUNT r = THREAD_SUSPEND_COUNT r'" "THREAD_STATE r = THREAD_STATE r'"
    "THREAD_BLOCKED_ON r = THREAD_BLOCKED_ON r'" "(unqueued r)\<lparr>THREAD_JOINS := []\<rparr> = (unqueued r')\<lparr>THREAD_JOINS := []\<rparr>"
  using assms by (cases r; cases r'; simp add: unqueued_def)+

lemma unqueued_count:
  assumes "system_ok s" "class_of s t = Thread_class" "can_unqueue s t"
  shows "THREAD_SUSPEND_COUNT (unqueued (threads s t)) = - \<bar>THREAD_SUSPEND_COUNT (threads s t)\<bar> - 1"
    "is_fx (- \<bar>THREAD_SUSPEND_COUNT (threads s t)\<bar> - 1)"
proof -
  let ?c = "THREAD_SUSPEND_COUNT (threads s t)"
  have "is_fx ?c" "?c \<noteq> FX_MIN" using assms
    by (auto simp: system_ok_def placed_ok_def thread_ok_def can_unqueue_def Let_def FX_MIN_def split: if_splits)
  then show n: "is_fx (- \<bar>?c\<bar> - 1)" by (simp add: is_fx_def FX_MIN_def FX_MAX_def abs_if)
  show "THREAD_SUSPEND_COUNT (unqueued (threads s t)) = - \<bar>?c\<bar> - 1" using is_fxD [OF n] by (simp add: unqueued_def)
qed

lemma unqueue_suspend_ok:
  assumes ok: "system_ok s" and t: "class_of s t = Thread_class" and u: "can_unqueue s t"
  shows "unqueue_result t s (kthread_unqueue_suspend t s)"
proof -
  let ?c = "THREAD_SUSPEND_COUNT (threads s t)"
  obtain b s1 where s1: "unqueue t s = Inr (b, s1)" "placed_ok {t} s1" "boxes_ok s1" "sems_ok s1"
    "removed_from t s s1" "(threads s1 t)\<lparr>THREAD_JOINS := []\<rparr> = (threads s t)\<lparr>THREAD_JOINS := []\<rparr>"
    "if b then ?c \<ge> 0 else ?c \<le> 0"
    by (rule unqueue_ok [OF ok t u])
  have c1: "THREAD_SUSPEND_COUNT (threads s1 t) = ?c" by (rule same_fields(1) [OF s1(6)])
  have t1: "class_of s1 t = Thread_class" using s1(5) t by (simp add: removed_from_def)
  let ?s2 = "set_thread t unqueued s1"
  have n: "is_fx (- \<bar>?c\<bar> - 1)" by (rule unqueued_count(2) [OF ok t u])
  then have nc: "fx (- ?c) = - ?c" if "0 < ?c" using that is_fx_between [OF n, of "- ?c"] by (intro is_fxD) simp
  have e: "kthread_unqueue_suspend t s = Inr ?s2"
  proof (cases "?c > 0")
    case True
    then have b using s1(7) by (auto split: if_splits)
    then show ?thesis using True c1 s1(1) nc
      by (simp add: kthread_unqueue_suspend_def and_then_def did_remove_from_queue_def UNBLOCK_THREAD_def set_thread_def unqueued_def)
  next
    case False
    have "?c = 0" if b using False s1(7) that by simp
    then have "and_then (if b then and_then (did_remove_from_queue t s1) (\<lambda>(_, s). Inr s) else Inr s1) f = f s1" for f :: "system \<Rightarrow> thread_error + system"
      using c1 by (simp add: and_then_def did_remove_from_queue_def)
    then show ?thesis using False c1 s1(1)
      by (simp add: kthread_unqueue_suspend_def and_then_def UNBLOCK_THREAD_def set_thread_def unqueued_def)
  qed
  have "thread_ok s1 t" using s1(2) t1 by (simp add: placed_ok_def)
  then have p2: "placed_ok {t} ?s2"
    using n c1 by (intro change_thread [OF s1(2)]) (auto simp: unqueued_def thread_ok_def Let_def is_fxD)
  have "THREAD_SUSPEND_COUNT (unqueued (threads s1 t)) < 0" using is_fxD [OF n] c1 by (simp add: unqueued_def)
  then have "place_of ?s2 t = Nowhere" by (simp add: place_of_def Let_def)
  from settle_nowhere [OF p2 this] have "system_ok ?s2" using s1(3,4) by (simp add: system_ok_def boxes_ok_def sems_ok_def)
  moreover have "removed_from t s ?s2"
    using s1(5) waiters_set_thread [of unqueued t s1] by (simp add: removed_from_def unqueued_def)
  moreover have "(threads ?s2 t)\<lparr>THREAD_JOINS := []\<rparr> = (unqueued (threads s t))\<lparr>THREAD_JOINS := []\<rparr>"
    using same_fields(4) [OF s1(6)] by simp
  ultimately show ?thesis using e unfolding unqueue_result_def by blast
qed

text \<open>What it does when the thread is not where its slots say.\<close>

definition unqueue_suspended :: "u32 \<Rightarrow> system \<Rightarrow> thread_error + system \<Rightarrow> bool" where
  "unqueue_suspended t s r \<longleftrightarrow>
     (let th = threads s t; c = THREAD_SUSPEND_COUNT th
      in if can_unqueue s t then unqueue_result t s r
         else if THREAD_BLOCKED_ON th \<noteq> ZERO \<or> c > 0 then r = Inl Assertion
         else r = Inr (set_thread t unqueued s))"

lemma unqueue_suspend_cases:
  assumes ok: "system_ok s" and t: "class_of s t = Thread_class"
  shows "unqueue_suspended t s (kthread_unqueue_suspend t s)"
proof (cases "can_unqueue s t")
  case True
  then show ?thesis using unqueue_suspend_ok [OF ok t] by (simp add: unqueue_suspended_def Let_def)
next
  case False
  let ?r = "threads s t"
  let ?c = "THREAD_SUSPEND_COUNT ?r" and ?b = "THREAD_BLOCKED_ON ?r"
  have p: "placed_ok {} s" using ok by (simp add: system_ok_def)
  then have tok: "thread_ok s t" using t by (simp add: placed_ok_def)
  show ?thesis
  proof (cases "?b = ZERO")
    case True
    then have "THREAD_STATE ?r \<noteq> TSTATE_WAITING"
      using False tok by (auto simp: can_unqueue_def thread_ok_def Let_def FX_MIN_def)
    then have "unqueue t s = Inr (False, s)" using True by (simp add: unqueue_def Let_def)
    then show ?thesis using True False
      by (auto simp: unqueue_suspended_def kthread_unqueue_suspend_def and_then_def UNBLOCK_THREAD_def Let_def
          set_thread_def unqueued_def)
  next
    case nz: False
    then have c: "?c < 0" using False by (simp add: can_unqueue_def Let_def)
    then have b: "class_of s ?b = Mailbox_class" "THREAD_STATE ?r = TSTATE_SUSPEND" using tok nz by (auto simp: thread_ok_def Let_def)
    then have ptr: "PTR_P ?b" "\<not> FIXNUM_P ?b" using p
      by (auto simp: placed_ok_def PTR_P_def FIXNUM_P_def TEST_PRIMARY_TAG_def)
    obtain n q where "dequeue_delq (mbox_queue s ?b) t = Some (n, q)"
      using delq_ok [OF mbox_queue_ok [OF p b(1)], of t] by metis
    then have "kthread_unqueue_suspend t s = Inl Assertion" using c b nz ptr
      by (simp add: kthread_unqueue_suspend_def unqueue_def and_then_def did_remove_from_queue_def Let_def set_has_data_def)
    then show ?thesis using nz False by (simp add: unqueue_suspended_def Let_def)
  qed
qed

lemma unqueue_bad:
  assumes ok: "system_ok s" and t: "class_of s t = Thread_class" and u: "\<not> can_unqueue s t"
    and s': "kthread_unqueue_suspend t s = Inr s'"
  shows "s' = set_thread t unqueued s" "THREAD_BLOCKED_ON (threads s t) = ZERO"
    "THREAD_STATE (threads s t) = TSTATE_RUNNING \<or> \<not> system_ok s'"
proof -
  let ?c = "THREAD_SUSPEND_COUNT (threads s t)"
  have e: "s' = set_thread t unqueued s" and z: "THREAD_BLOCKED_ON (threads s t) = ZERO" and c: "?c \<le> 0"
    using unqueue_suspend_cases [OF ok t] u s' by (auto simp: unqueue_suspended_def Let_def split: if_splits)
  show "s' = set_thread t unqueued s" "THREAD_BLOCKED_ON (threads s t) = ZERO" by (rule e z)+
  have p: "placed_ok {} s" using ok by (simp add: system_ok_def)
  show "THREAD_STATE (threads s t) = TSTATE_RUNNING \<or> \<not> system_ok s'"
  proof (cases "THREAD_STATE (threads s t) = TSTATE_RUNNING")
    case False
    then have "place_of s' t \<noteq> place_of s t" using u z c t unfolding e
      by (auto simp: can_unqueue_def place_of_def unqueued_def Let_def FX_MIN_def fx_id FX_MAX_def)
    then have "\<not> system_ok s'" unfolding e
      by (rule misplaced [OF p, rotated]) (simp add: fun_eq_iff waiters_set_thread unqueued_def)
    then show ?thesis ..
  qed simp
qed

lemma apply_on_ok:
  assumes ok: "system_ok s" and t: "class_of s t = Thread_class" and u: "can_unqueue s t" and n: "t \<noteq> current_thread s"
  obtains b s' where "apply_on_thread t s = Inr (b, s')" "system_ok s'"
    "b \<longleftrightarrow> THREAD_STATE (threads s t) \<noteq> TSTATE_COMPLETE"
proof (cases "THREAD_STATE (threads s t) = TSTATE_COMPLETE")
  case True
  then show ?thesis using that [of False s] ok n by (simp add: apply_on_thread_def)
next
  case False
  obtain s1 where s1: "kthread_unqueue_suspend t s = Inr s1" "system_ok s1" "removed_from t s s1"
    "(threads s1 t)\<lparr>THREAD_JOINS := []\<rparr> = (unqueued (threads s t))\<lparr>THREAD_JOINS := []\<rparr>"
    using unqueue_suspend_ok [OF ok t u] unfolding unqueue_result_def by blast
  have "class_of s1 t = Thread_class" "THREAD_STATE (threads s1 t) \<noteq> TSTATE_COMPLETE"
    using s1(3) t same_fields(2) [OF s1(4)] by (simp_all add: removed_from_def unqueued_def)
  note r = resume_ok [OF s1(2) this]
  have "thread_resume t s1 = mark_thread_resumed t s1"
    using same_fields(2) [OF s1(4)] by (simp add: thread_resume_def unqueued_def)
  then obtain s2 where "mark_thread_resumed t s1 = Inr s2" "system_ok s2" using r by (auto simp: resume_result_def Let_def)
  then show ?thesis using that [of True s2] s1(1) False n by (simp add: apply_on_thread_def and_then_def)
qed

lemma apply_on_bad:
  assumes ok: "system_ok s" and t: "class_of s t = Thread_class" and u: "\<not> can_unqueue s t"
    and n: "THREAD_STATE (threads s t) \<noteq> TSTATE_COMPLETE" and s': "apply_on_thread t s = Inr (b, s')"
  shows "\<not> system_ok s'"
proof -
  let ?r = "threads s t"
  let ?c = "THREAD_SUSPEND_COUNT ?r" and ?p = "THREAD_PRIORITY ?r"
  have p: "placed_ok {} s" using ok by (simp add: system_ok_def)
  then have tok: "thread_ok s t" using t by (simp add: placed_ok_def)
  have tc: "t \<noteq> current_thread s" using s' by (auto simp: apply_on_thread_def)
  then have nr: "THREAD_STATE ?r \<noteq> TSTATE_RUNNING" using tok by (auto simp: thread_ok_def Let_def)
  obtain s1 where s1: "kthread_unqueue_suspend t s = Inr s1" "mark_thread_resumed t s1 = Inr s'"
    using s' n tc by (auto simp: apply_on_thread_def and_then_def split: sum.splits)
  note ub = unqueue_bad [OF ok t u s1(1)]
  have c: "?c = 0 \<or> ?c = FX_MIN" "THREAD_STATE ?r = TSTATE_SUSPEND" "?c \<le> 0"
    using unqueue_suspend_cases [OF ok t] s1(1) u ub(2) nr n tok
    by (auto simp: unqueue_suspended_def can_unqueue_def thread_ok_def Let_def FX_MIN_def split: if_splits)
  have s1e: "s1 = set_thread t unqueued s" by (rule ub(1))
  show ?thesis
  proof (cases "?c = 0")
    case True
    have len: "?p < 10" "length (thread_queue s) = 10" using p tok by (simp_all add: placed_ok_def thread_ok_def Let_def)
    have "place_of s t = Run ?p" using True c(2) ub(2) t by (simp add: place_of_def Let_def)
    then have tin: "t \<in> set (contents (thread_queue s ! ?p))" using run_waiters(2) [OF p len(1)] by simp
    obtain q where q: "dequeue_push_back (thread_queue s ! ?p) t = Some q" "contents q = contents (thread_queue s ! ?p) @ [t]"
      by (rule push_back_ok [OF run_queue_ok [OF p len(1)]])
    have "thread_queue s' = (thread_queue s)[?p := q]"
      using s1(2) True len q(1) unfolding s1e
      by (auto simp: mark_thread_resumed_def mark_thread_ready_def unqueued_def Let_def is_fxD)
    then have "thread_queue s' ! ?p = q" "length (thread_queue s') = 10" using len by simp_all
    then have "\<not> placed_ok {} s'" using run_waiters(1) [OF _ len(1), of "{}" s'] tin q(2) by auto
    then show ?thesis by (simp add: system_ok_def)
  next
    case False
    then have cm: "?c = FX_MIN" using c by blast
    then have "s' = set_thread t (\<lambda>r. r\<lparr>THREAD_SUSPEND_COUNT := FX_MAX - 1\<rparr>) s1"
      using s1(2) unfolding s1e by (auto simp: mark_thread_resumed_def unqueued_def Let_def FX_MIN_def FX_MAX_def fx_id)
    moreover have "waiters (set_thread t (\<lambda>r. r\<lparr>THREAD_SUSPEND_COUNT := FX_MAX - 1\<rparr>) s1) = waiters s"
      unfolding s1e by (simp add: fun_eq_iff waiters_set_thread unqueued_def)
    moreover have "place_of (set_thread t (\<lambda>r. r\<lparr>THREAD_SUSPEND_COUNT := FX_MAX - 1\<rparr>) s1) t \<noteq> place_of s t"
      using t cm ub(2) unfolding s1e by (simp add: place_of_def unqueued_def Let_def FX_MIN_def FX_MAX_def)
    ultimately show ?thesis using misplaced [OF p] by blast
  qed
qed

lemma halt_bad:
  assumes ok: "system_ok s" and t: "class_of s t = Thread_class" and u: "\<not> can_unqueue s t"
    and n: "THREAD_STATE (threads s t) \<noteq> TSTATE_COMPLETE" "t \<noteq> current_thread s" and s': "halt_thread t s = Inr (b, s')"
  shows "\<not> system_ok s'"
proof -
  let ?r = "threads s t"
  let ?c = "THREAD_SUSPEND_COUNT ?r"
  have p: "placed_ok {} s" using ok by (simp add: system_ok_def)
  then have tok: "thread_ok s t" using t by (simp add: placed_ok_def)
  then have nr: "THREAD_STATE ?r \<noteq> TSTATE_RUNNING" using n(2) by (auto simp: thread_ok_def Let_def)
  obtain s1 where k: "krelease_joiners t FALSE_OBJ s = Inr s1"
    using s' n by (auto simp: halt_thread_def and_then_def split: sum.splits)
  note rel = release_ok [OF ok t, of FALSE_OBJ, unfolded release_result_def k]
  then have s1r: "system_ok s1" "same_boxes s s1" "threads s1 = released t FALSE_OBJ s" and "t \<noteq> current_thread s1"
    using n(2) by (simp_all split: if_splits)
  then obtain s2 where s1: "kthread_unqueue_suspend t s1 = Inr s2"
    "s' = set_thread t (\<lambda>r. r\<lparr>THREAD_STATE := TSTATE_COMPLETE\<rparr>) s2"
    using s' n k by (cases "kthread_unqueue_suspend t s1") (simp_all add: halt_thread_def and_then_def)
  have "t \<notin> set (THREAD_JOINS ?r)"
  proof
    assume "t \<in> set (THREAD_JOINS ?r)"
    then have "place_of s t = Join t" using join_waiters(2) [OF p t] by simp
    then have "THREAD_BLOCKED_ON ?r = t \<and> 0 \<le> ?c \<and> t \<noteq> ZERO" using place_Join zero_other [OF p] t by fastforce
    then show False using u by (simp add: can_unqueue_def Let_def)
  qed
  then have r1: "system_ok s1" "threads s1 t = ?r\<lparr>THREAD_JOINS := []\<rparr>" "class_of s1 t = Thread_class"
    using s1r t by (simp_all add: released_def same_boxes_def)
  have u1: "\<not> can_unqueue s1 t" using u by (auto simp: can_unqueue_def r1(2) Let_def split: if_splits)
  have p1: "placed_ok {} s1" using r1(1) by (simp add: system_ok_def)
  note ub = unqueue_bad [OF r1(1,3) u1 s1(1)]
  have c: "?c = 0 \<or> ?c = FX_MIN" "THREAD_STATE ?r = TSTATE_SUSPEND" "THREAD_BLOCKED_ON ?r = ZERO"
    using unqueue_suspend_cases [OF r1(1,3)] s1(1) u u1 ub(2) nr n(1) tok
    by (auto simp: unqueue_suspended_def can_unqueue_def thread_ok_def Let_def FX_MIN_def r1(2) split: if_splits)
  show ?thesis
  proof (cases "?c = 0")
    case True
    have "waiters s' = waiters s1" unfolding s1(2) ub(1) by (simp add: fun_eq_iff waiters_set_thread unqueued_def)
    moreover have "place_of s' t \<noteq> place_of s1 t" unfolding s1(2) ub(1)
      using True c r1 by (simp add: place_of_def unqueued_def Let_def is_fxD)
    ultimately show ?thesis by (rule misplaced [OF p1])
  next
    case False
    then have "\<not> thread_ok s' t" unfolding s1(2) ub(1)
      using c by (simp add: thread_ok_def unqueued_def r1(2) Let_def FX_MIN_def)
    then show ?thesis by (intro bad_thread [of _ t]) (simp_all add: s1(2) ub(1) r1(3))
  qed
qed

lemma close_bad:
  assumes ok: "system_ok s" and m: "class_of s m = Mailbox_class" "MAILBOX_HAS_DATA_Q s m \<in> {TRUE_OBJ, FALSE_OBJ}"
    and s': "close_mailbox m FALSE_OBJ s = Inr (b, s')"
  shows "\<not> system_ok s'"
proof -
  let ?c = "contents (mbox_queue s m)"
  have p: "placed_ok {} s" using ok by (simp add: system_ok_def)
  show ?thesis
  proof (cases "MAILBOX_HAS_DATA_Q s m = FALSE_OBJ")
    case True
    obtain s1 where s1: "close_loop m s = Some (Inr s1)" "same_but m s s1" "contents (mbox_queue s1 m) = []"
      using close_loop_ok [OF m(1) p refl] True by blast
    then have "s' = set_has_data m FALSE_OBJ (set_has_data m TRUE_OBJ s1)"
      using s' True by (simp add: close_mailbox_def and_then_def) (simp add: set_has_data_def)
    then have "class_of s' m = Mailbox_class" "MAILBOX_HAS_DATA_Q s' m = FALSE_OBJ" "contents (mbox_queue s' m) = []"
      using s1(2,3) m(1) by (simp_all add: set_has_data_def same_but_def)
    then have "\<not> boxes_ok s'" unfolding boxes_ok_def by blast
    then show ?thesis by (simp add: system_ok_def)
  next
    case h: False
    then have e: "s' = set_has_data m FALSE_OBJ s" using s' m(2) by (simp add: close_mailbox_def and_then_def)
    show ?thesis
    proof (cases ?c)
      case Nil
      then have "\<not> boxes_ok s'" using m(1) by (auto simp: e boxes_ok_def set_has_data_def)
      then show ?thesis by (simp add: system_ok_def)
    next
      case (Cons x xs)
      then have "x \<in> set (waiters s' (Box m))" "x \<notin> set (waiters s (Box m))"
        using m(1) h by (simp_all add: e set_has_data_def)
      moreover have "place_of s' x = place_of s x" by (simp add: e place_of_def set_has_data_def Let_def)
      moreover have "set (waiters s (Box m)) = {u. place_of s u = Box m}"
        using p by (simp add: placed_ok_def del: waiters.simps)
      ultimately have "set (waiters s' (Box m)) \<noteq> {u. place_of s' u = Box m}" by force
      then have "\<not> placed_ok {} s'" by (auto simp: placed_ok_def simp del: waiters.simps)
      then show ?thesis by (simp add: system_ok_def)
    qed
  qed
qed

lemma halt_ok:
  assumes ok: "system_ok s" and t: "class_of s t = Thread_class"
    and r: "\<forall>j \<in> set (THREAD_JOINS (threads s t)). ready s j"
    and u: "if t = current_thread s then running s else can_unqueue s t"
  obtains b s' where "halt_thread t s = Inr (b, s')" "system_ok s'"
proof (cases "THREAD_STATE (threads s t) = TSTATE_COMPLETE")
  case True
  then show ?thesis using that [of True s] ok by (simp add: halt_thread_def)
next
  case nc: False
  obtain s1 where s1: "krelease_joiners t FALSE_OBJ s = Inr s1" "system_ok s1" "same_boxes s s1"
    "current_thread s1 = current_thread s" "threads s1 = released t FALSE_OBJ s"
    using release_ok [OF ok t, of FALSE_OBJ] r unfolding release_result_def by auto
  have t1: "class_of s1 t = Thread_class" using s1(3) t by (simp add: same_boxes_def)
  have j1: "THREAD_JOINS (threads s1 t) = []" using s1(5) by (simp add: released_def)
  show ?thesis
  proof (cases "t = current_thread s")
    case True
    then have run: "running s" using u by simp
    have "threads s1 t = (threads s t)\<lparr>THREAD_JOINS := []\<rparr>"
      using current_no_joiner [OF ok run t] s1(5) True by (simp add: released_def)
    then have "running s1" using run True s1(3,4) by (simp add: running_def same_boxes_def Let_def)
    then obtain b s' where s': "switch_thread ZERO TSTATE_COMPLETE s1 = Inr (b, s')" "switched (stopped ZERO TSTATE_COMPLETE s1) b s'"
      using complete_ok [OF s1(2)] j1 True s1(4) by metis
    moreover have "halt_thread t s = Inr (b, s')"
      using nc True s1(1,4) s'(1) by (simp add: halt_thread_def and_then_def)
    ultimately show ?thesis using that by (simp add: switched_def)
  next
    case False
    have u1: "can_unqueue s1 t" using u False s1(5)
      by (auto simp: can_unqueue_def released_def delivered_def Let_def FX_MIN_def split: if_splits)
    obtain s2 where s2: "kthread_unqueue_suspend t s1 = Inr s2" "system_ok s2" "removed_from t s1 s2"
      "(threads s2 t)\<lparr>THREAD_JOINS := []\<rparr> = (unqueued (threads s1 t))\<lparr>THREAD_JOINS := []\<rparr>"
      using unqueue_suspend_ok [OF s1(2) t1 u1] unfolding unqueue_result_def by blast
    let ?s3 = "set_thread t (\<lambda>r. r\<lparr>THREAD_STATE := TSTATE_COMPLETE\<rparr>) s2"
    have t2: "class_of s2 t = Thread_class" using s2(3) t1 by (simp add: removed_from_def)
    then have tok: "thread_ok s2 t" using s2(2) by (simp add: system_ok_def placed_ok_def)
    have j2: "THREAD_JOINS (threads s2 t) = []"
    proof -
      have "waiters s2 (Join t) = filter (\<lambda>u. u \<noteq> t) (waiters s1 (Join t))" using s2(3) unfolding removed_from_def by blast
      then show ?thesis using j1 t1 t2 by simp
    qed
    have f: "THREAD_SUSPEND_COUNT (threads s2 t) < 0" "THREAD_BLOCKED_ON (threads s2 t) = ZERO"
      using same_fields(1,3) [OF s2(4)] unqueued_count(1) [OF s1(2) t1 u1] by (simp_all add: unqueued_def)
    have "system_ok ?s3"
      by (rule count_ok [OF s2(2)]) (use tok j2 f in \<open>auto simp: place_of_def thread_ok_def Let_def\<close>)
    moreover have "halt_thread t s = Inr (True, ?s3)"
      using nc False s1(1,4) s2(1) by (simp add: halt_thread_def and_then_def)
    ultimately show ?thesis using that by blast
  qed
qed

section \<open>Starting\<close>

text \<open>A system before any thread is started: all queues empty, each thread as \<^verbatim>\<open>make-thread\<close> makes it.\<close>

definition new_system :: "system \<Rightarrow> bool" where
  "new_system s \<longleftrightarrow>
     length (thread_queue s) = 10 \<and> (\<forall>x. class_of s x \<noteq> Other_class \<longrightarrow> PTR_P x) \<and>
     (\<forall>q \<in> set (thread_queue s). represents q []) \<and>
     (\<forall>x. class_of s x = Thread_class \<longrightarrow>
        THREAD_STATE (threads s x) = TSTATE_SUSPEND \<and> THREAD_SUSPEND_COUNT (threads s x) = -1 \<and>
        THREAD_BLOCKED_ON (threads s x) = ZERO \<and> THREAD_JOINS (threads s x) = [] \<and> THREAD_PRIORITY (threads s x) < 10) \<and>
     (\<forall>m. class_of s m = Mailbox_class \<longrightarrow> represents (mbox_queue s m) [] \<and> MAILBOX_HAS_DATA_Q s m = TRUE_OBJ) \<and>
     (\<forall>x. class_of s x = Semaphore_class \<longrightarrow> represents (sem_queue s x) [] \<and> 0 \<le> SEMAPHORE_COUNT s x \<and> SEMAPHORE_COUNT s x \<le> FX_MAX)"

lemma new_system_ok:
  assumes "new_system s"
  shows "system_ok s"
proof -
  have r: "queue_ok q \<and> contents q = []" if "represents q []" for q using represents_contents [OF that] by blast
  have n: "place_of s t = Nowhere" for t
    using assms by (cases "class_of s t = Thread_class") (simp_all add: new_system_def place_of_def Let_def)
  have w: "waiters s pl = []" for pl
    using assms r by (cases pl) (auto simp: new_system_def)
  show ?thesis
    using assms r n w
    by (auto simp: new_system_def system_ok_def placed_ok_def boxes_ok_def sems_ok_def thread_ok_def Let_def is_fx_def FX_MIN_def FX_MAX_def)
qed

end
