(* ===== verification/ThreadsProps.thy ===== *)
theory ThreadsProps
  imports ThreadSuspend
begin

text \<open>
  The kernel as a machine with one step per entry point, its invariant, and the properties of its operations;
  \<open>demo\<close> is a system with two threads, a mailbox and a semaphore.
\<close>

section \<open>Machines and their invariants\<close>

inductive reached :: "('s \<Rightarrow> bool) \<Rightarrow> ('s \<Rightarrow> 's \<Rightarrow> bool) \<Rightarrow> 's \<Rightarrow> bool" for start step where
  init: "start s \<Longrightarrow> reached start step s"
| more: "reached start step s \<Longrightarrow> step s s' \<Longrightarrow> reached start step s'"

locale machine =
  fixes start :: "'s \<Rightarrow> bool" and step :: "'s \<Rightarrow> 's \<Rightarrow> bool" and inv :: "'s \<Rightarrow> bool"
  assumes start_inv: "start s \<Longrightarrow> inv s"
    and step_inv: "step s s' \<Longrightarrow> inv s \<Longrightarrow> inv s'"
begin

lemma reached_inv: "reached start step s \<Longrightarrow> inv s"
  by (induction rule: reached.induct) (blast intro: start_inv step_inv)+

lemma invariant_of: "(\<And>s. inv s \<Longrightarrow> P s) \<Longrightarrow> reached start step s \<Longrightarrow> P s"
  using reached_inv by blast

end

section \<open>The steps of the kernel\<close>

text \<open>
  One action per entry point.  An operation that can block, or that ends the calling thread, is one of the
  running thread; the other ones may be called at any time.  A call that fails is not a step.
\<close>

datatype action =
  Send u32 u32 bool | Receive u32 | Poll u32 | Close u32 u32 | Signal u32 | Wait u32 | Join_thread u32 | Finish | Timeout
| Suspend u32 | Resume u32 | Unqueue u32 | Apply_on u32 | Halt u32 | Dispatch

inductive kstep :: "system \<Rightarrow> action \<Rightarrow> system \<Rightarrow> bool" where
  send: "class_of s m = Mailbox_class \<Longrightarrow> do_mailbox_send m item front s = Inr (b, s') \<Longrightarrow> kstep s (Send m item front) s'"
| receive: "running s \<Longrightarrow> class_of s m = Mailbox_class \<Longrightarrow> receive_message m s = Inr (r, s') \<Longrightarrow> kstep s (Receive m) s'"
| poll: "class_of s m = Mailbox_class \<Longrightarrow> receive_message_if_present m s = Inr (x, s') \<Longrightarrow> kstep s (Poll m) s'"
| close: "class_of s m = Mailbox_class \<Longrightarrow> close_mailbox m leave s = Inr (b, s') \<Longrightarrow> kstep s (Close m leave) s'"
| signal: "class_of s x = Semaphore_class \<Longrightarrow> semaphore_signal x s = Inr s' \<Longrightarrow> kstep s (Signal x) s'"
| wait: "running s \<Longrightarrow> class_of s x = Semaphore_class \<Longrightarrow> semaphore_wait x s = Inr (b, s') \<Longrightarrow> kstep s (Wait x) s'"
| join: "running s \<Longrightarrow> class_of s t = Thread_class \<Longrightarrow> thread_join t s = Inr (b, s') \<Longrightarrow> kstep s (Join_thread t) s'"
| finish: "running s \<Longrightarrow> thread_done s = Inr (b, s') \<Longrightarrow> kstep s Finish s'"
| timeout: "running s \<Longrightarrow> did_timeout s = Inr (b, s') \<Longrightarrow> kstep s Timeout s'"
| suspend: "class_of s t = Thread_class \<Longrightarrow> kstep s (Suspend t) (thread_suspend t s)"
| resume: "class_of s t = Thread_class \<Longrightarrow> thread_resume t s = Inr s' \<Longrightarrow> kstep s (Resume t) s'"
| unqueue: "class_of s t = Thread_class \<Longrightarrow> kthread_unqueue_suspend t s = Inr s' \<Longrightarrow> kstep s (Unqueue t) s'"
| apply_on: "class_of s t = Thread_class \<Longrightarrow> apply_on_thread t s = Inr (b, s') \<Longrightarrow> kstep s (Apply_on t) s'"
| halt: "class_of s t = Thread_class \<Longrightarrow> t = current_thread s \<longrightarrow> running s \<Longrightarrow> halt_thread t s = Inr (b, s') \<Longrightarrow> kstep s (Halt t) s'"
| dispatch: "no_running s \<Longrightarrow> dispatch_to_next_thread s = Inr (b, s') \<Longrightarrow> kstep s Dispatch s'"

inductive_cases kstepE: "kstep s a s'"

text \<open>
  The calls that the code accepts and that break its data: closing an open mailbox with \<^verbatim>\<open>#f\<close>, counting past the
  end of a fixnum, suspending the running thread, and \<open>kthread_unqueue_suspend\<close> of a thread that its slots do not
  show to be in its run queue (\<open>can_unqueue\<close>).
\<close>

fun hazard :: "system \<Rightarrow> action \<Rightarrow> bool" where
  "hazard s (Close m leave) \<longleftrightarrow> leave = FALSE_OBJ \<and> MAILBOX_HAS_DATA_Q s m \<in> {TRUE_OBJ, FALSE_OBJ}"
| "hazard s (Signal x) \<longleftrightarrow> SEMAPHORE_COUNT s x = FX_MAX"
| "hazard s (Wait x) \<longleftrightarrow> SEMAPHORE_COUNT s x = FX_MIN"
| "hazard s (Suspend t) \<longleftrightarrow> THREAD_STATE (threads s t) \<noteq> TSTATE_COMPLETE \<and> \<not> can_suspend (threads s t)"
| "hazard s (Unqueue t) \<longleftrightarrow> \<not> can_unqueue s t"
| "hazard s (Apply_on t) \<longleftrightarrow> THREAD_STATE (threads s t) \<noteq> TSTATE_COMPLETE \<and> \<not> can_unqueue s t"
| "hazard s (Halt t) \<longleftrightarrow> THREAD_STATE (threads s t) \<noteq> TSTATE_COMPLETE \<and> t \<noteq> current_thread s \<and> \<not> can_unqueue s t"
| "hazard s _ \<longleftrightarrow> False"

definition safe_step :: "system \<Rightarrow> system \<Rightarrow> bool" where
  "safe_step s s' \<longleftrightarrow> (\<exists>a. kstep s a s' \<and> \<not> hazard s a)"

lemma halt_assertion:
  assumes ok: "system_ok s" and t: "class_of s t = Thread_class"
    and n: "THREAD_STATE (threads s t) \<noteq> TSTATE_COMPLETE" "\<not> (\<forall>j \<in> set (THREAD_JOINS (threads s t)). ready s j)"
  shows "halt_thread t s = Inl Assertion"
  using release_ok [OF ok t, of FALSE_OBJ] n unfolding release_result_def by (auto simp: halt_thread_def and_then_def)

lemma close_closed:
  assumes "MAILBOX_HAS_DATA_Q s m \<notin> {TRUE_OBJ, FALSE_OBJ}" "close_mailbox m leave s = Inr (b, s')"
  shows "s' = s"
  using assms by (simp add: close_mailbox_def and_then_def)

lemma kstep_ok:
  assumes "kstep s a s'" "system_ok s" "\<not> hazard s a"
  shows "system_ok s'"
  using assms(1)
proof cases
  case (send m item front b)
  then show ?thesis using send_ok [OF assms(2) send(2), of item front] by (simp add: send_result_def Let_def)
next
  case (receive m r)
  then show ?thesis using receive_ok [OF assms(2) receive(2,3)]
    by (auto simp: received_ok_def Let_def switched_def assms(2) split: if_splits)
next
  case (poll m x)
  then show ?thesis using receive_if_present_ok [OF assms(2) poll(2)]
    by (auto simp: polled_ok_def Let_def assms(2) split: if_splits)
next
  case (close m leave b)
  show ?thesis
  proof (cases "leave = FALSE_OBJ")
    case True
    then show ?thesis using close close_closed [of s m leave b s'] assms(2,3) by simp
  next
    case False
    then show ?thesis using close_ok [OF assms(2) close(2) False] close(3) by (simp add: close_result_def Let_def)
  qed
next
  case (signal x)
  then show ?thesis using signal_ok [OF assms(2) signal(2)] assms(3) by (simp add: signal_result_def)
next
  case (wait x b)
  then show ?thesis using wait_ok [OF assms(2) wait(2,3)] assms(3) by (auto simp: wait_result_def Let_def split: if_splits)
next
  case (join t b)
  then show ?thesis using join_ok [OF assms(2) join(2,3)]
    by (auto simp: join_result_def switched_def assms(2) split: if_splits)
next
  case (finish b)
  then show ?thesis using done_ok [OF assms(2) finish(2)]
    by (auto simp: done_result_def Let_def switched_def split: if_splits)
next
  case (timeout b)
  then show ?thesis using timeout_ok [OF assms(2) timeout(2)] by (auto simp: timed_out_def Let_def switched_def)
next
  case (suspend t)
  then show ?thesis using suspend_ok [OF assms(2) suspend(3)] assms(3) by auto
next
  case (resume t)
  then have "THREAD_STATE (threads s t) \<noteq> TSTATE_COMPLETE" by (auto simp: thread_resume_def)
  then show ?thesis using resume_ok [OF assms(2) resume(2)] resume(3) by (auto simp: resume_result_def Let_def)
next
  case (unqueue t)
  then show ?thesis using unqueue_suspend_ok [OF assms(2) unqueue(2)] assms(3) by (auto simp: unqueue_result_def)
next
  case (apply_on t b)
  then have n: "t \<noteq> current_thread s" by (auto simp: apply_on_thread_def)
  show ?thesis
  proof (cases "THREAD_STATE (threads s t) = TSTATE_COMPLETE")
    case True
    then show ?thesis using n apply_on(3) assms(2) by (simp add: apply_on_thread_def)
  next
    case False
    then have "can_unqueue s t" using apply_on(1) assms(3) by simp
    then show ?thesis using apply_on_ok [OF assms(2) apply_on(2) _ n] apply_on(3) by (metis Pair_inject sum.inject(2))
  qed
next
  case (halt t b)
  show ?thesis
  proof (cases "THREAD_STATE (threads s t) = TSTATE_COMPLETE")
    case True
    then show ?thesis using halt(4) assms(2) by (simp add: halt_thread_def)
  next
    case nc: False
    then have u: "if t = current_thread s then running s else can_unqueue s t" using halt(1,3) assms(3) by auto
    show ?thesis
    proof (cases "\<forall>j \<in> set (THREAD_JOINS (threads s t)). ready s j")
      case True
      then show ?thesis using halt_ok [OF assms(2) halt(2) _ u] halt(4) by (metis Pair_inject sum.inject(2))
    next
      case False
      then show ?thesis using halt_assertion [OF assms(2) halt(2) nc] halt(4) by simp
    qed
  qed
next
  case (dispatch b)
  then show ?thesis using dispatch_switched [OF assms(2) dispatch(2)] unfolding switched_def by (metis Pair_inject sum.inject(2))
qed

text \<open>The excluded calls are the ones that break the invariant, but for a running thread that takes itself off.\<close>

lemma hazard_breaks:
  assumes "kstep s a s'" "system_ok s" "hazard s a"
  shows "\<not> system_ok s' \<or> running s \<and> a = Unqueue (current_thread s) \<and> \<not> running s'"
  using assms(1)
proof cases
  case (close m leave b)
  then show ?thesis using close_bad [OF assms(2) close(2)] assms(3) by auto
next
  case (signal x)
  then show ?thesis using signal_ok [OF assms(2) signal(2)] assms(3) by (auto simp: signal_result_def)
next
  case (wait x b)
  then show ?thesis using wait_ok [OF assms(2) wait(2,3)] assms(3) by (auto simp: wait_result_def Let_def)
next
  case (suspend t)
  then show ?thesis using suspend_bad [OF assms(2) suspend(3)] assms(3) by auto
next
  case (unqueue t)
  have u: "\<not> can_unqueue s t" using unqueue(1) assms(3) by simp
  note ub = unqueue_bad [OF assms(2) unqueue(2) u unqueue(3)]
  show ?thesis
  proof (cases "THREAD_STATE (threads s t) = TSTATE_RUNNING")
    case True
    have "thread_ok s t" using assms(2) unqueue(2) by (simp add: system_ok_def placed_ok_def)
    then have "t = current_thread s" using True by (simp add: thread_ok_def Let_def)
    then show ?thesis using True unqueue(1,2) ub(1) by (simp add: running_def unqueued_def)
  next
    case False
    then show ?thesis using ub(3) by blast
  qed
next
  case (apply_on t b)
  then show ?thesis using apply_on_bad [OF assms(2) apply_on(2) _ _ apply_on(3)] assms(3) by auto
next
  case (halt t b)
  then show ?thesis using halt_bad [OF assms(2) halt(2) _ _ _ halt(4)] assms(3) by auto
qed (use assms(3) in simp_all)

lemma unqueue_self_ok:
  assumes "kstep s (Unqueue (current_thread s)) s'" "system_ok s" "running s"
  shows "system_ok s'"
proof -
  let ?t = "current_thread s"
  have s': "class_of s ?t = Thread_class" "kthread_unqueue_suspend ?t s = Inr s'"
    using assms(1) by (auto elim: kstepE)
  have p: "placed_ok {} s" using assms(2) by (simp add: system_ok_def)
  note r = runningD [OF p assms(3)]
  have st: "THREAD_STATE (threads s ?t) = TSTATE_RUNNING" using assms(3) by (simp add: running_def Let_def)
  then have "\<not> can_unqueue s ?t" using r(2) by (simp add: can_unqueue_def Let_def)
  then have e: "s' = set_thread ?t unqueued s" by (rule unqueue_bad(1) [OF assms(2) s'(1) _ s'(2)])
  have tok: "thread_ok s ?t" using p s'(1) by (simp add: placed_ok_def)
  show ?thesis unfolding e
    by (rule count_ok [OF assms(2)])
      (use r st tok in \<open>auto simp: place_of_def unqueued_def thread_ok_def ready_def Let_def is_fxD\<close>)
qed

lemma step_ok_iff:
  assumes "kstep s a s'" "system_ok s"
  shows "system_ok s' \<longleftrightarrow> \<not> hazard s a \<or> running s \<and> a = Unqueue (current_thread s)"
  using kstep_ok [OF assms] hazard_breaks [OF assms] unqueue_self_ok [OF _ assms(2)] assms(1) by metis

interpretation kernel: machine new_system safe_step system_ok
  by unfold_locales (rule new_system_ok, assumption, unfold safe_step_def, blast intro: kstep_ok)

abbreviation kreachable :: "system \<Rightarrow> bool" where
  "kreachable \<equiv> reached new_system safe_step"

section \<open>A system with two threads\<close>

definition demo :: system where
  "demo =
     \<lparr>class_of = (\<lambda>x. if x = 7 \<or> x = 11 then Thread_class else if x = 15 then Mailbox_class
        else if x = 19 then Semaphore_class else Other_class),
      threads = (\<lambda>_. \<lparr>THREAD_STATE = TSTATE_SUSPEND, THREAD_PRIORITY = 5, THREAD_BLOCKED_ON = ZERO, THREAD_JOINS = [],
        THREAD_SUSPEND_COUNT = -1, RESUME_VALUE = ZERO\<rparr>),
      mbox_queue = (\<lambda>_. make_dequeue), MAILBOX_HAS_DATA_Q = (\<lambda>_. TRUE_OBJ), sem_queue = (\<lambda>_. make_dequeue),
      SEMAPHORE_COUNT = (\<lambda>_. 0), thread_queue = replicate 10 make_dequeue, FUNCTION_P = (\<lambda>x. x = 23), current_thread = ZERO\<rparr>"

declare dequeue_push_back.simps [code] copy_loop.simps [code] try_queue.simps [code] close_loop.simps [code]

lemma demo_new: "new_system demo"
  by (auto simp: new_system_def demo_def FX_MAX_def PTR_P_def TEST_PRIMARY_TAG_def make_rep split: if_splits)

definition demo_ready :: system where
  "demo_ready = projr (and_then (thread_resume 7 demo) (thread_resume 11))"

definition demo_run :: system where
  "demo_run = snd (projr (dispatch_to_next_thread demo_ready))"

lemma demo_facts:
  "\<not> isl (thread_resume 7 demo)" "\<not> isl (thread_resume 11 (projr (thread_resume 7 demo)))"
  "running demo_run" "THREAD_STATE (threads demo_run 11) = TSTATE_WAITING"
  "THREAD_STATE (threads demo_run 7) = TSTATE_RUNNING" "current_thread demo_run = 7"
  by code_simp+

lemma safe_steps:
  "class_of s t = Thread_class \<Longrightarrow> thread_resume t s = Inr s' \<Longrightarrow> safe_step s s'"
  "no_running s \<Longrightarrow> dispatch_to_next_thread s = Inr (b, s') \<Longrightarrow> safe_step s s'"
  unfolding safe_step_def by (meson hazard.simps kstep.resume kstep.dispatch)+

lemma demo_ready_ok: "kreachable demo_ready" "no_running demo_ready"
proof -
  obtain s1 where s1: "thread_resume 7 demo = Inr s1" using demo_facts(1) by (cases "thread_resume 7 demo") auto
  obtain s2 where s2: "thread_resume 11 s1 = Inr s2" using demo_facts(2) s1 by (cases "thread_resume 11 s1") auto
  have r: "demo_ready = s2" using s1 s2 by (simp add: demo_ready_def and_then_def)
  have k: "kreachable demo" by (rule reached.init) (rule demo_new)
  have ok: "system_ok demo" by (rule new_system_ok [OF demo_new])
  have c: "class_of demo 7 = Thread_class" "class_of demo 11 = Thread_class" by (simp_all add: demo_def)
  have k1: "kreachable s1" by (rule reached.more [OF k safe_steps(1) [OF c(1) s1]])
  have n: "THREAD_STATE (threads demo u) \<noteq> TSTATE_COMPLETE" "THREAD_SUSPEND_COUNT (threads demo u) = -1"
    "THREAD_STATE (threads demo u) \<noteq> TSTATE_RUNNING" for u by (simp_all add: demo_def)
  have 1: "class_of s1 = class_of demo" "threads s1 = (threads demo)(7 := (resumed (threads demo 7))\<lparr>THREAD_STATE := TSTATE_WAITING\<rparr>)"
    using resume_ok [OF ok c(1) n(1)] s1 n(2) by (auto simp: resume_result_def Let_def same_boxes_def demo_def)
  have "system_ok s1" using kernel.reached_inv [OF k1] .
  moreover have "THREAD_STATE (threads s1 11) \<noteq> TSTATE_COMPLETE" "class_of s1 11 = Thread_class" using 1 n c by simp_all
  ultimately have "resume_result 11 s1 (thread_resume 11 s1)" using resume_ok by blast
  then have 2: "class_of s2 = class_of s1" "threads s2 = (threads s1)(11 := (resumed (threads s1 11))\<lparr>THREAD_STATE := TSTATE_WAITING\<rparr>)"
    using s2 1 by (auto simp: resume_result_def Let_def same_boxes_def demo_def)
  show "no_running demo_ready" unfolding r no_running_def 2 1 using n(3) by simp
  show "kreachable demo_ready" using reached.more [OF k1 safe_steps(1) [OF _ s2]] 1 c by (simp add: r)
qed

lemma demo_dispatch: "dispatch_to_next_thread demo_ready = Inr (True, demo_run)"
proof -
  have "\<not> isl (dispatch_to_next_thread demo_ready)" "fst (projr (dispatch_to_next_thread demo_ready))" by code_simp+
  then show ?thesis unfolding demo_run_def by (cases "dispatch_to_next_thread demo_ready") auto
qed

lemma demo_reachable: "kreachable demo_run"
  by (rule reached.more [OF demo_ready_ok(1) safe_steps(2) [OF demo_ready_ok(2) demo_dispatch]])

lemma placed_once:
  assumes ok: "system_ok s" and t: "class_of s t = Thread_class"
  shows "THREAD_STATE (threads s t) = TSTATE_RUNNING \<and> t = current_thread s \<or> THREAD_STATE (threads s t) = TSTATE_COMPLETE \<or>
    THREAD_SUSPEND_COUNT (threads s t) < 0 \<or> (\<exists>!pl. t \<in> set (waiters s pl))"
proof (cases "place_of s t = Nowhere")
  case True
  have p: "placed_ok {} s" using ok by (simp add: system_ok_def)
  then have "thread_ok s t" using t by (simp add: placed_ok_def)
  then show ?thesis using True t
    by (auto simp: place_of_def thread_ok_def Let_def split: if_splits obj_class.splits)
next
  case False
  have p: "placed_ok {} s" using ok by (simp add: system_ok_def)
  have w: "t \<in> set (waiters s pl) \<longleftrightarrow> place_of s t = pl" if "pl \<noteq> Nowhere" for pl
    using p that by (auto simp: placed_ok_def)
  have "\<exists>!pl. t \<in> set (waiters s pl)"
  proof (rule ex1I)
    show "t \<in> set (waiters s (place_of s t))" using w [OF False] by simp
    fix pl assume "t \<in> set (waiters s pl)"
    then show "pl = place_of s t" using w [of pl] by (cases pl) auto
  qed
  then show ?thesis by blast
qed

text \<open>C2: in every state the kernel reaches without one of the calls named by \<open>hazard\<close> the queues are well formed, each
  thread that waits is in exactly one queue, the one its slots name, once; a thread out of all queues runs, is
  complete, or is suspended with a negative count; a mailbox marked as having no data has a waiting thread, and
  a negative semaphore count is the number of its waiting threads.  The calls left out are exactly those that
  break this: from such a state every call that returns keeps it if and only if it is not one of them, but for a
  running thread that takes itself off its queue, which keeps it and goes on while marked as suspended.\<close>

theorem threads_invariant:
  assumes "kreachable s"
  shows "system_ok s \<and> (\<forall>t. class_of s t = Thread_class \<longrightarrow>
    THREAD_STATE (threads s t) = TSTATE_RUNNING \<and> t = current_thread s \<or> THREAD_STATE (threads s t) = TSTATE_COMPLETE \<or>
    THREAD_SUSPEND_COUNT (threads s t) < 0 \<or> (\<exists>!pl. t \<in> set (waiters s pl))) \<and>
    (\<forall>a s'. kstep s a s' \<longrightarrow> (system_ok s' \<longleftrightarrow> \<not> hazard s a \<or> running s \<and> a = Unqueue (current_thread s)))"
  using kernel.reached_inv [OF assms] placed_once step_ok_iff by blast

lemma threads_invariant_witness: "system_ok demo_run \<and> (\<exists>!pl. 11 \<in> set (waiters demo_run pl))"
proof -
  have "class_of demo_run 11 = Thread_class" "THREAD_SUSPEND_COUNT (threads demo_run 11) = 0" by code_simp+
  then show ?thesis using threads_invariant [OF demo_reachable] demo_facts(4) by (auto dest!: spec [of _ 11])
qed

lemma demo_ok: "system_ok demo_run"
  by (rule kernel.reached_inv [OF demo_reachable])

lemma demo_classes:
  "class_of demo_run 7 = Thread_class" "class_of demo_run 11 = Thread_class"
  "class_of demo_run 15 = Mailbox_class" "class_of demo_run 19 = Semaphore_class"
  by code_simp+

text \<open>C3: when no thread runs the scheduler returns, and gives control to the first thread in the run queues, from
  priority 0 on, that is not suspended, if there is one; the suspended ones it passes are taken off.\<close>

theorem dispatch_first_ready:
  assumes "system_ok s" "no_running s"
  shows "\<exists>b s'. dispatch_to_next_thread s = Inr (b, s') \<and> system_ok s' \<and>
    find (ready s) (run_list [0..<10] s) = (if b then Some (current_thread s') else None) \<and> (b \<longrightarrow> running s') \<and>
    (\<forall>t. \<not> ready s t \<longrightarrow> threads s' t = threads s t \<or> threads s' t = ejected (threads s t))"
proof -
  obtain b s' where d: "dispatch_to_next_thread s = Inr (b, s')" "switched s b s'" by (rule dispatch_switched [OF assms])
  let ?ws = "run_list [0..<10] s"
  have f: "find (ready s) ?ws = (case dropWhile (\<lambda>t. \<not> ready s t) ?ws of [] \<Rightarrow> None | t # ts \<Rightarrow> Some t)"
    by (simp add: find_dropWhile comp_def)
  have dd: "dispatched ?ws s (Inr (b, s'))" and ok: "system_ok s'" using d(2) by (simp_all add: switched_def)
  show ?thesis
  proof (cases "dropWhile (\<lambda>t. \<not> ready s t) ?ws")
    case Nil
    then show ?thesis using d(1) dd f ok by (auto simp: dispatched_def skip_threads_def simp del: dropWhile_eq_Nil_conv)
  next
    case (Cons t ts)
    have rt: "ready s t" using hd_dropWhile [of "\<lambda>t. \<not> ready s t" ?ws] Cons by (metis list.sel(1) list.distinct(1))
    have "t \<in> set ?ws" using Cons by (metis list.set_intros(1) set_dropWhileD)
    then obtain p where "p < 10" "t \<in> set (contents (thread_queue s ! p))" by (auto simp: run_list_def)
    then have "place_of s t = Run p" using run_waiters(2) [of "{}" s p] assms(1) by (simp add: system_ok_def)
    then have "class_of s t = Thread_class" using place_Run by blast
    then have "running s'" using dd Cons by (simp add: dispatched_def running_def Let_def same_boxes_def)
    then show ?thesis using d(1) dd f ok Cons rt by (auto simp: dispatched_def skip_threads_def)
  qed
qed

lemma dispatch_first_ready_witness:
  "find (ready demo_ready) (run_list [0..<10] demo_ready) = Some 7 \<and> dispatch_to_next_thread demo_ready = Inr (True, demo_run) \<and>
    system_ok demo_run \<and> running demo_run"
  using dispatch_first_ready [OF kernel.reached_inv [OF demo_ready_ok(1)] demo_ready_ok(2)] demo_dispatch demo_facts by auto

text \<open>C4: sending a message (at the back or, prepended, at the front) never fails; with data in the mailbox the
  message is queued, with waiting threads the first that is not suspended gets it, those before it being taken
  off, and it is queued when all are suspended; a closed mailbox refuses it.\<close>

theorem mailbox_send:
  assumes "system_ok s" "class_of s m = Mailbox_class"
  shows "send_result m item False s (ksend_mailbox m item s) \<and> send_result m item True s (ksend_mailbox_pre m item s)"
  using send_ok [OF assms] by (simp add: ksend_mailbox_def ksend_mailbox_pre_def)

lemma mailbox_send_witness:
  "send_result 15 20 False demo_run (ksend_mailbox 15 20 demo_run) \<and> send_result 15 20 True demo_run (ksend_mailbox_pre 15 20 demo_run)"
  by (rule mailbox_send [OF demo_ok demo_classes(3)])

text \<open>C12: receiving takes the first message; on a mailbox without one the running thread is queued behind the
  waiting ones and the scheduler chooses another; an empty closed mailbox applies the function it was left with,
  and gives \<^verbatim>\<open>#f\<close> when that is no function.  Polling takes the first message if there is one and otherwise changes
  nothing.  A receiver that was blocked goes on with the message it is sent, and after a close as on an empty
  closed mailbox.\<close>

theorem mailbox_receive:
  assumes "system_ok s" "running s" "class_of s m = Mailbox_class"
  shows "received_ok m s (receive_message m s) \<and> polled_ok m s (receive_message_if_present m s) \<and>
    (\<forall>u us. MAILBOX_HAS_DATA_Q s m = FALSE_OBJ \<and> dropWhile (\<lambda>t. \<not> ready s t) (contents (mbox_queue s m)) = u # us \<longrightarrow>
      (\<forall>item front. item \<noteq> NOVALUE_OBJ \<longrightarrow>
        (\<exists>s'. do_mailbox_send m item front s = Inr (True, s') \<and> rcv_n_go m (RESUME_VALUE (threads s' u)) s' = Returned item)) \<and>
      (\<forall>leave. leave \<noteq> FALSE_OBJ \<longrightarrow>
        (\<exists>s'. close_mailbox m leave s = Inr (True, s') \<and> rcv_n_go m (RESUME_VALUE (threads s' u)) s' = left_behind leave s')))"
  using receive_ok [OF assms] receive_if_present_ok [OF assms(1,3)] blocked_gets [OF assms(1,3)] by blast

lemma mailbox_receive_witness:
  "received_ok 15 demo_run (receive_message 15 demo_run) \<and> polled_ok 15 demo_run (receive_message_if_present 15 demo_run)"
  using mailbox_receive [OF demo_ok demo_facts(3) demo_classes(3)] by blast

text \<open>C13: closing a mailbox returns; every waiting thread that is not suspended is made ready with no value, the
  suspended ones are taken off, messages not yet received stay, and a closed mailbox stays as it is.\<close>

theorem mailbox_close:
  assumes "system_ok s" "class_of s m = Mailbox_class" "leave \<noteq> FALSE_OBJ"
  shows "close_result m leave s (close_mailbox m leave s)"
  using assms by (rule close_ok)

lemma mailbox_close_witness: "close_result 15 ZERO demo_run (close_mailbox 15 ZERO demo_run)"
  by (rule mailbox_close [OF demo_ok demo_classes(3)]) code_simp

text \<open>C14: signalling counts up, or makes the first waiting thread ready, and fails its assertion exactly when that
  thread is suspended; waiting counts down, or queues the running thread.  The count is a fixnum: a signal at the
  largest one makes it the least with nobody waiting, so that the next signal fails on the empty queue, and a wait
  at the least one makes it the largest and does not block.\<close>

theorem semaphore_operations:
  assumes "system_ok s" "running s" "class_of s x = Semaphore_class"
  shows "signal_result x s (semaphore_signal x s) \<and> wait_result x s (semaphore_wait x s)"
  using signal_ok [OF assms(1,3)] wait_ok [OF assms] by blast

lemma semaphore_operations_witness:
  "signal_result 19 demo_run (semaphore_signal 19 demo_run) \<and> wait_result 19 demo_run (semaphore_wait 19 demo_run)"
  by (rule semaphore_operations [OF demo_ok demo_facts(3) demo_classes(4)])

text \<open>C15: joining a complete thread returns at once, and otherwise blocks the running thread in its list; a thread
  that ends makes all of them ready, is complete and gives up control, and fails an assertion exactly when one of
  them is suspended.\<close>

theorem thread_join_and_end:
  assumes "system_ok s" "running s" "class_of s t = Thread_class"
  shows "join_result t s (thread_join t s) \<and> done_result s (thread_done s)"
  using join_ok [OF assms] done_ok [OF assms(1,2)] by blast

lemma thread_join_and_end_witness: "join_result 11 demo_run (thread_join 11 demo_run) \<and> done_result demo_run (thread_done demo_run)"
  by (rule thread_join_and_end [OF demo_ok demo_facts(3) demo_classes(2)])

text \<open>C16: suspending counts, modulo the width of a fixnum, and keeps the invariant exactly when the thread does
  not run and its count does not wrap; resuming counts back, and the thread taken off a queue in between is put
  into a run queue, gets a message or waits again; \<open>kthread_unqueue_suspend\<close> takes a thread off the queue it is in,
  and no other, when its slots show that it is in that queue; it fails an assertion for a thread suspended on its
  run queue, or taken off the mailbox it waits for; and in the other cases (a running thread, one resumed on its
  run queue, a count about to wrap) it changes the slots of the thread and leaves it where it is.\<close>

theorem thread_suspension:
  assumes "system_ok s" "class_of s t = Thread_class"
  shows "(THREAD_STATE (threads s t) \<noteq> TSTATE_COMPLETE \<longrightarrow> thread_suspend t s = set_thread t suspended s \<and>
      (system_ok (thread_suspend t s) \<longleftrightarrow> can_suspend (threads s t))) \<and>
    (THREAD_STATE (threads s t) = TSTATE_COMPLETE \<longrightarrow> thread_suspend t s = s) \<and>
    (if THREAD_STATE (threads s t) = TSTATE_COMPLETE then thread_resume t s = Inl Scheme_error
     else resume_result t s (thread_resume t s)) \<and>
    unqueue_suspended t s (kthread_unqueue_suspend t s)"
proof -
  have "thread_ok s t" using assms by (simp add: system_ok_def placed_ok_def)
  then show ?thesis using suspend_ok [OF assms] suspend_bad [OF assms] suspended_eq resume_ok [OF assms]
      unqueue_suspend_cases [OF assms]
    by (auto simp: thread_resume_def thread_suspend_def)
qed

lemma thread_suspension_witness:
  "system_ok (thread_suspend 11 demo_run) \<and> resume_result 11 demo_run (thread_resume 11 demo_run) \<and>
   unqueue_result 11 demo_run (kthread_unqueue_suspend 11 demo_run)"
proof -
  have "can_unqueue demo_run 11" "can_suspend (threads demo_run 11)" by code_simp+
  moreover have "THREAD_STATE (threads demo_run 11) \<noteq> TSTATE_COMPLETE" using demo_facts(4) by simp
  moreover note thread_suspension [OF demo_ok demo_classes(2)]
  ultimately show ?thesis by (auto simp: unqueue_suspended_def Let_def)
qed

text \<open>Thread 7 waits for a message, is suspended, and the mailbox is closed.\<close>

definition demo_closed :: system where
  "demo_closed = snd (projr (close_mailbox 15 ZERO (thread_suspend 7 (snd (projr (receive_message 15 demo_run))))))"

lemma demo_closed_ok: "system_ok demo_closed"
proof -
  let ?r = "receive_message 15 demo_run"
  have "\<not> isl ?r" by code_simp
  then obtain x s1 where s1: "?r = Inr (x, s1)" by (cases ?r) auto
  have k1: "kstep demo_run (Receive 15) s1" by (rule kstep.receive [OF demo_facts(3) demo_classes(3) s1])
  have ok1: "system_ok s1" by (rule kstep_ok [OF k1 demo_ok]) simp
  have e1: "snd (projr ?r) = s1" by (simp add: s1)
  have c1: "class_of s1 7 = Thread_class" "can_suspend (threads s1 7)" unfolding e1 [symmetric] by code_simp+
  have ok2: "system_ok (thread_suspend 7 s1)" by (rule kstep_ok [OF kstep.suspend [OF c1(1)] ok1]) (simp add: c1)
  have c2: "class_of (thread_suspend 7 s1) 15 = Mailbox_class" unfolding e1 [symmetric] by code_simp
  have "close_result 15 ZERO (thread_suspend 7 s1) (close_mailbox 15 ZERO (thread_suspend 7 s1))"
    by (rule close_ok [OF ok2 c2]) code_simp
  then show ?thesis unfolding demo_closed_def e1
    by (cases "close_mailbox 15 ZERO (thread_suspend 7 s1)") (auto simp: close_result_def Let_def)
qed

lemma demo_closed_facts:
  "class_of demo_closed 7 = Thread_class" "class_of demo_closed 15 = Mailbox_class"
  "THREAD_SUSPEND_COUNT (threads demo_closed 7) = -1" "THREAD_STATE (threads demo_closed 7) = TSTATE_SUSPEND"
  "THREAD_BLOCKED_ON (threads demo_closed 7) = 15" "contents (mbox_queue demo_closed 15) = []"
  by code_simp+

text \<open>C17: three faults of suspension.  A running thread that is suspended fails an assertion at the end of its time
  slice; a waiting thread that was suspended and resumed is left in its run queue by \<open>kthread_unqueue_suspend\<close>, with a
  count at which taking it off fails an assertion; and resuming a thread that waited for a mailbox closed since
  opens the mailbox again and leaves the thread waiting.\<close>

theorem suspension_faults:
  assumes "system_ok s" "class_of s t = Thread_class"
  shows "(running s \<and> t = current_thread s \<longrightarrow> did_timeout (thread_suspend t s) = Inl Assertion) \<and>
    (THREAD_STATE (threads s t) = TSTATE_WAITING \<longrightarrow>
       (\<exists>s2 s3. thread_resume t (thread_suspend t s) = Inr s2 \<and> kthread_unqueue_suspend t s2 = Inr s3 \<and>
          t \<in> set (contents (thread_queue s3 ! THREAD_PRIORITY (threads s t))) \<and> did_remove_from_queue t s3 = Inl Assertion)) \<and>
    (THREAD_SUSPEND_COUNT (threads s t) = -1 \<and> THREAD_STATE (threads s t) = TSTATE_SUSPEND \<and> THREAD_BLOCKED_ON (threads s t) = m \<and>
     class_of s m = Mailbox_class \<and> contents (mbox_queue s m) = [] \<longrightarrow>
       (\<exists>s'. thread_resume t s = Inr s' \<and> MAILBOX_HAS_DATA_Q s' m = FALSE_OBJ \<and> contents (mbox_queue s' m) = [t]))"
proof (intro conjI impI)
  have p: "placed_ok {} s" using assms(1) by (simp add: system_ok_def)
  have tok: "thread_ok s t" using p assms(2) by (simp add: placed_ok_def)
  have pr: "THREAD_PRIORITY (threads s t) < 10" "length (thread_queue s) = 10" using p tok by (simp_all add: placed_ok_def thread_ok_def Let_def)
  {
    assume r: "running s \<and> t = current_thread s"
    then have "THREAD_STATE (threads s t) = TSTATE_RUNNING" by (simp add: running_def Let_def)
    then show "did_timeout (thread_suspend t s) = Inl Assertion"
      using r pr runningD [OF p] suspended_eq [OF tok]
      by (simp add: did_timeout_def mark_thread_ready_def and_then_def suspended_def ready_def Let_def)
  next
    assume w: "THREAD_STATE (threads s t) = TSTATE_WAITING"
    then have c: "THREAD_SUSPEND_COUNT (threads s t) = 0" "THREAD_BLOCKED_ON (threads s t) = ZERO"
      using tok by (auto simp: thread_ok_def Let_def)
    have "place_of s t = Run (THREAD_PRIORITY (threads s t))" using w c assms(2) by (simp add: place_of_def Let_def)
    then have i: "t \<in> set (contents (thread_queue s ! THREAD_PRIORITY (threads s t)))" using run_waiters(2) [OF p pr(1)] by simp
    let ?s1 = "set_thread t suspended s"
    let ?s2 = "set_thread t (\<lambda>r. r\<lparr>THREAD_SUSPEND_COUNT := 0\<rparr>) ?s1"
    have "thread_resume t (thread_suspend t s) = Inr ?s2" using suspended_eq [OF tok] w c
      by (simp add: thread_resume_def mark_thread_resumed_def suspended_def Let_def)
    moreover obtain s3 where "kthread_unqueue_suspend t ?s2 = Inr s3" "thread_queue s3 = thread_queue s"
      "THREAD_SUSPEND_COUNT (threads s3 t) = -1"
      using c by (simp add: kthread_unqueue_suspend_def unqueue_def and_then_def UNBLOCK_THREAD_def suspended_def Let_def)
    ultimately show "\<exists>s2 s3. thread_resume t (thread_suspend t s) = Inr s2 \<and> kthread_unqueue_suspend t s2 = Inr s3 \<and>
          t \<in> set (contents (thread_queue s3 ! THREAD_PRIORITY (threads s t))) \<and> did_remove_from_queue t s3 = Inl Assertion"
      using i by (auto simp: did_remove_from_queue_def)
  next
    assume m: "THREAD_SUSPEND_COUNT (threads s t) = -1 \<and> THREAD_STATE (threads s t) = TSTATE_SUSPEND \<and>
      THREAD_BLOCKED_ON (threads s t) = m \<and> class_of s m = Mailbox_class \<and> contents (mbox_queue s m) = []"
    have "m \<noteq> ZERO" using zero_other [OF p] m by auto
    then show "\<exists>s'. thread_resume t s = Inr s' \<and> MAILBOX_HAS_DATA_Q s' m = FALSE_OBJ \<and> contents (mbox_queue s' m) = [t]"
      using resume_ok [OF assms] m by (auto simp: resume_result_def Let_def)
  }
qed

lemma suspension_faults_witness:
  "did_timeout (thread_suspend 7 demo_run) = Inl Assertion \<and>
   (\<exists>s2 s3. thread_resume 11 (thread_suspend 11 demo_run) = Inr s2 \<and> kthread_unqueue_suspend 11 s2 = Inr s3 \<and>
     did_remove_from_queue 11 s3 = Inl Assertion) \<and>
   (\<exists>s'. thread_resume 7 demo_closed = Inr s' \<and> MAILBOX_HAS_DATA_Q s' 15 = FALSE_OBJ \<and> contents (mbox_queue s' 15) = [7])"
  using suspension_faults [OF demo_ok demo_classes(1), THEN conjunct1]
    suspension_faults [OF demo_ok demo_classes(2), THEN conjunct2, THEN conjunct1]
    suspension_faults [OF demo_closed_ok demo_closed_facts(1), THEN conjunct2, THEN conjunct2] demo_facts demo_closed_facts
  by auto

end
