(* ===== verification/Lzw.thy ===== *)
theory Lzw
  imports OutPort
begin

text \<open>
  LZW compression, \<^verbatim>\<open>lib/rs/sys/compression/lzw/lzwc.c\<close>: codes of 9 to 12 bits, packed from the high bit down into
  octets, for the decoders of TIFF and PostScript.  The dictionary is a hash table from pairs of a code and an
  octet to codes.  The input is the list of octets not yet read; \<open>outbuf\<close> holds those written since the last
  flush, so that \<open>avail_out\<close> is \<open>OUTBUF_SIZE\<close> minus its length.  Counters are numbers with their wrap-around
  written out.  The variable \<open>cur\<close> of \<^verbatim>\<open>lzw_deflate\<close> is only traced and left out.
\<close>

section \<open>The code\<close>

definition LZW_DICT_SIZE :: nat where
  "LZW_DICT_SIZE = 8191"

definition LZW_DICT_OVERFLOW :: nat where
  "LZW_DICT_OVERFLOW = 4096"

definition KEY_EMPTY :: u32 where
  "KEY_EMPTY = 0"

definition OUTBUF_SIZE :: nat where
  "OUTBUF_SIZE = 1024"

record LZWHashEntry =
  ekey :: u32
  enext :: nat
  evalue :: nat

record LZWStream =
  lport :: sop_port
  accum :: u32
  lbits :: nat
  outbuf :: "u8 list"
  enc_width :: nat
  enc_max :: nat
  over_last :: nat
  next_token :: nat
  primary :: "nat \<Rightarrow> LZWHashEntry"
  overflow_tab :: "nat \<Rightarrow> LZWHashEntry"

text \<open>A failed assertion, a loop that does not end, a store or an access outside of an array.\<close>

datatype lzw_error = Lzw_assertion | Lzw_no_return | Lzw_outside

definition lzw_then :: "lzw_error + 'a \<Rightarrow> ('a \<Rightarrow> lzw_error + 'b) \<Rightarrow> lzw_error + 'b" where
  "lzw_then r f = (case r of Inl e \<Rightarrow> Inl e | Inr x \<Rightarrow> f x)"

definition lzw_oflush :: "LZWStream \<Rightarrow> lzw_error + LZWStream" where
  "lzw_oflush strm =
     (case SOP_write (lport strm) (outbuf strm) of
        None \<Rightarrow> Inl Lzw_outside
      | Some port \<Rightarrow> Inr (strm\<lparr>lport := port, outbuf := []\<rparr>))"

function out_octets :: "LZWStream \<Rightarrow> lzw_error + LZWStream" where
  "out_octets strm =
     (if lbits strm \<ge> 8 then
        if length (outbuf strm) \<ge> OUTBUF_SIZE then Inl Lzw_outside
        else out_octets (strm\<lparr>outbuf := outbuf strm @ [ucast (drop_bit (lbits strm - 8) (accum strm))],
                              lbits := lbits strm - 8\<rparr>)
      else Inr strm)"
  by auto
termination by (relation "measure lbits") auto

declare out_octets.simps [simp del]

definition lzw_writew :: "LZWStream \<Rightarrow> nat \<Rightarrow> nat \<Rightarrow> lzw_error + LZWStream" where
  "lzw_writew strm code width =
     (let strm = (if width = 9 then strm\<lparr>accum := push_bit 9 (accum strm) + of_nat code, lbits := (lbits strm + 9) mod 256\<rparr>
                  else if width = 10 then strm\<lparr>accum := push_bit 10 (accum strm) + of_nat code, lbits := (lbits strm + 10) mod 256\<rparr>
                  else if width = 11 then strm\<lparr>accum := push_bit 11 (accum strm) + of_nat code, lbits := (lbits strm + 11) mod 256\<rparr>
                  else if width = 12 then strm\<lparr>accum := push_bit 12 (accum strm) + of_nat code, lbits := (lbits strm + 12) mod 256\<rparr>
                  else strm)
      in lzw_then (out_octets strm) (\<lambda>strm.
           if OUTBUF_SIZE - length (outbuf strm) < 8 then lzw_oflush strm else Inr strm))"

definition lzw_write :: "LZWStream \<Rightarrow> nat \<Rightarrow> lzw_error + LZWStream" where
  "lzw_write strm code = lzw_writew strm code (enc_width strm)"

definition lzw_hash :: "u32 \<Rightarrow> u32" where
  "lzw_hash key = xor (xor (drop_bit 16 key) (drop_bit 8 key)) key"

text \<open>The index into \<open>overflow\<close> is a \<^verbatim>\<open>UINT_16\<close>, which can exceed the array.\<close>

partial_function (option) lookup_loop :: "LZWStream \<Rightarrow> u32 \<Rightarrow> LZWHashEntry \<Rightarrow> (lzw_error + nat option) option" where
  "lookup_loop strm key p =
     (if ekey p = key then Some (Inr (Some (evalue p)))
      else if enext p = 0 then Some (Inr None)
      else if enext p \<ge> LZW_DICT_OVERFLOW then Some (Inl Lzw_outside)
      else lookup_loop strm key (overflow_tab strm (enext p)))"

definition lzw_lookup :: "LZWStream \<Rightarrow> u32 \<Rightarrow> u32 \<Rightarrow> lzw_error + nat option" where
  "lzw_lookup strm key h =
     (case lookup_loop strm key (primary strm (unat h mod LZW_DICT_SIZE)) of None \<Rightarrow> Inl Lzw_no_return | Some r \<Rightarrow> r)"

definition overalloc :: "LZWStream \<Rightarrow> nat \<times> LZWStream" where
  "overalloc strm = (let k = (over_last strm + 1) mod 65536 in (k, strm\<lparr>over_last := k\<rparr>))"

definition lzw_insert :: "LZWStream \<Rightarrow> u32 \<Rightarrow> u32 \<Rightarrow> lzw_error + LZWStream" where
  "lzw_insert strm key h =
     (let v = next_token strm;
          strm = strm\<lparr>next_token := (next_token strm + 1) mod 65536\<rparr>
      in if \<not> v < 4096 then Inl Lzw_assertion
         else let i = unat h mod LZW_DICT_SIZE; p = primary strm i
              in lzw_then
                   (if ekey p \<noteq> KEY_EMPTY then
                      let (k, strm) = overalloc strm
                      in if k \<ge> LZW_DICT_OVERFLOW then Inl Lzw_outside
                         else Inr (strm\<lparr>overflow_tab := (overflow_tab strm)(k :=
                                (overflow_tab strm k)\<lparr>enext := enext p, ekey := key, evalue := v\<rparr>)\<rparr>)
                    else Inr (strm\<lparr>primary := (primary strm)(i := p\<lparr>ekey := key, evalue := v\<rparr>)\<rparr>))
                   (\<lambda>strm. Inr (if v + 1 \<ge> enc_max strm
                                then strm\<lparr>enc_max := enc_max strm * 2 mod 65536, enc_width := (enc_width strm + 1) mod 256\<rparr>
                                else strm)))"

fun reset_loop :: "nat list \<Rightarrow> LZWStream \<Rightarrow> lzw_error + LZWStream" where
  "reset_loop [] s = Inr s"
| "reset_loop (i # is) s =
     (let key = 0xFFFFFF00 + of_nat i in lzw_then (lzw_insert s key (lzw_hash key)) (reset_loop is))"

definition lzw_reset :: "LZWStream \<Rightarrow> lzw_error + LZWStream" where
  "lzw_reset s =
     lzw_then
       (reset_loop [0..<256]
          (s\<lparr>enc_width := 9, enc_max := 512, over_last := 0,
             primary := (\<lambda>_. \<lparr>ekey = 0, enext = 0, evalue = 0\<rparr>), next_token := 0\<rparr>))
       (\<lambda>s. Inr (s\<lparr>next_token := 258\<rparr>))"

definition pair_key :: "nat \<Rightarrow> u8 \<Rightarrow> u32" where
  "pair_key enc ch = or (push_bit 8 (of_nat enc) + ucast ch) 0x80000000"

text \<open>The loop of \<^verbatim>\<open>lzw_deflate\<close>, with the code of the text matched so far.\<close>

fun deflate_loop :: "u8 list \<Rightarrow> nat \<Rightarrow> LZWStream \<Rightarrow> lzw_error + (nat \<times> LZWStream)" where
  "deflate_loop [] enc strm = Inr (enc, strm)"
| "deflate_loop (ch # next_in) enc strm =
     (let key = pair_key enc ch; h = lzw_hash key
      in lzw_then (lzw_lookup strm key h) (\<lambda>val.
           case val of
             Some val \<Rightarrow> deflate_loop next_in val strm
           | None \<Rightarrow>
               lzw_then (lzw_write strm enc) (\<lambda>strm.
               lzw_then (lzw_insert strm key h) (\<lambda>strm.
               lzw_then (if next_token strm \<ge> 4096 then lzw_then (lzw_write strm 256) lzw_reset else Inr strm) (\<lambda>strm.
                 deflate_loop next_in (unat ch) strm)))))"

definition lzw_deflate :: "LZWStream \<Rightarrow> u8 list \<Rightarrow> lzw_error + LZWStream" where
  "lzw_deflate strm next_in =
     (case next_in of
        [] \<Rightarrow> Inr strm
      | enc # next_in \<Rightarrow>
          lzw_then (deflate_loop next_in (unat enc) strm) (\<lambda>(enc, strm). lzw_write strm enc))"

text \<open>\<^verbatim>\<open>lzw_create\<close> on the block \<open>s\<close> that \<^verbatim>\<open>malloc\<close> returned, which can hold anything.\<close>

definition lzw_create :: "sop_port \<Rightarrow> LZWStream \<Rightarrow> lzw_error + LZWStream" where
  "lzw_create port s = lzw_reset (s\<lparr>lport := port, outbuf := []\<rparr>)"

definition lzw_run :: "LZWStream \<Rightarrow> u8 list \<Rightarrow> lzw_error + LZWStream" where
  "lzw_run s ptr =
     lzw_then (lzw_write (s\<lparr>outbuf := []\<rparr>) 256) (\<lambda>s.
     lzw_then (lzw_deflate s ptr) (\<lambda>s.
     lzw_then (lzw_write s 257) (\<lambda>s.
     lzw_then
       (if lbits s > 0 then if \<not> lbits s < 8 then Inl Lzw_assertion else lzw_writew s 0 (8 - lbits s) else Inr s)
       lzw_oflush)))"

end
