(* ===== verification/LzwProps.thy ===== *)
theory LzwProps
  imports Lzw
begin

text \<open>
  What the compressor writes, as bits, and a decoder of the format that reads the text back.  The invariant
  \<open>dict_ok\<close> gives the text of each code of the dictionary; entries of the overflow table play no part in it,
  since the code never links one to its chain.
\<close>

section \<open>The bits of a stream\<close>

definition low_bits :: "nat \<Rightarrow> u32 \<Rightarrow> bool list" where
  "low_bits n a = map (\<lambda>i. bit a (n - 1 - i)) [0..<n]"

definition code_bits :: "nat \<Rightarrow> nat \<Rightarrow> bool list" where
  "code_bits w c = map (\<lambda>i. bit c (w - 1 - i)) [0..<w]"

definition octet_bits :: "u8 list \<Rightarrow> bool list" where
  "octet_bits bs = concat (map (\<lambda>b. map (\<lambda>i. bit b (7 - i)) [0..<8]) bs)"

section \<open>A decoder\<close>

definition code_of :: "bool list \<Rightarrow> nat" where
  "code_of bs = foldl (\<lambda>a b. 2 * a + of_bool b) 0 bs"

definition code_width :: "nat \<Rightarrow> nat" where
  "code_width n = (if n < 512 then 9 else if n < 1024 then 10 else if n < 2048 then 11 else 12)"

definition initial_texts :: "u8 list list" where
  "initial_texts = map (\<lambda>i. if i < 256 then [of_nat i] else []) [0..<258]"

text \<open>
  The decoder these codes are written for: \<open>T\<close> are the texts of the codes, \<open>prev\<close> the text before, empty after
  a reset; 256 resets the decoder, 257 and the end of the bits end the text.  The width grows one code early.
\<close>

function lzw_decode :: "u8 list list \<Rightarrow> u8 list \<Rightarrow> bool list \<Rightarrow> u8 list" where
  "lzw_decode T prev bs =
     (let w = code_width (length T + (if prev = [] then 0 else 1)); c = code_of (take w bs); bs' = drop w bs
      in if length bs < w then []
         else if c = 256 then lzw_decode initial_texts [] bs'
         else if c = 257 then []
         else let str = (if c < length T then T ! c else prev @ [hd prev])
              in str @ lzw_decode (if prev = [] then T else T @ [prev @ [hd str]]) str bs')"
  by auto
termination
  by (relation "measure (\<lambda>(T, prev, bs). length bs)") (auto simp: code_width_def split: if_splits)

declare lzw_decode.simps [simp del]

section \<open>Bits\<close>

lemma length_low_bits [simp]: "length (low_bits n a) = n" by (simp add: low_bits_def)
lemma length_code_bits [simp]: "length (code_bits w c) = w" by (simp add: code_bits_def)
lemma length_octet_bits [simp]: "length (octet_bits bs) = 8 * length bs"
  by (induction bs) (simp_all add: octet_bits_def)
lemma octet_bits_append [simp]: "octet_bits (xs @ ys) = octet_bits xs @ octet_bits ys" by (simp add: octet_bits_def)

lemma bit_packed:
  assumes "c < 2 ^ w" "w \<le> 12"
  shows "bit (push_bit w a + (of_nat c :: u32)) j = (j < 32 \<and> (if j < w then bit c j else bit a (j - w)))"
proof -
  have c: "\<not> bit c j" if "w \<le> j" for j
  proof -
    have "(2 :: nat) ^ w \<le> 2 ^ j" using that by (rule power_increasing) simp
    with assms(1) have "c < 2 ^ j" by (rule order.strict_trans2)
    then show ?thesis by (simp add: bit_iff_odd)
  qed
  have d: "push_bit w a AND of_nat c = (0 :: u32)"
    using c by (intro bit_word_eqI) (auto simp: bit_and_iff bit_push_bit_iff bit_of_nat_iff)
  then have "push_bit w a + (of_nat c :: u32) = push_bit w a OR of_nat c" by (rule disjunctive_add_eq_or)
  then show ?thesis using c
    by (auto simp: bit_or_iff bit_push_bit_iff bit_of_nat_iff dest: bit_imp_le_length)
qed

lemma low_bits_packed:
  assumes "c < 2 ^ w" "w \<le> 12" "n < 8"
  shows "low_bits (n + w) (push_bit w a + of_nat c) = low_bits n a @ code_bits w c"
proof (rule nth_equalityI)
  fix i assume "i < length (low_bits (n + w) (push_bit w a + of_nat c))"
  then have i: "i < n + w" by simp
  show "low_bits (n + w) (push_bit w a + of_nat c) ! i = (low_bits n a @ code_bits w c) ! i"
    using i assms(2,3) unfolding low_bits_def code_bits_def
    by (simp add: nth_append bit_packed [OF assms(1,2)]) (auto simp: algebra_simps)
qed simp

lemma low_bits_octet:
  assumes "8 \<le> n" "n < 32"
  shows "octet_bits [ucast (drop_bit (n - 8) a)] @ low_bits (n - 8) a = low_bits n a"
proof (rule nth_equalityI)
  fix i assume "i < length (octet_bits [ucast (drop_bit (n - 8) a)] @ low_bits (n - 8) a)"
  then have "i < n" using assms by simp
  then show "(octet_bits [ucast (drop_bit (n - 8) a)] @ low_bits (n - 8) a) ! i = low_bits n a ! i"
    using assms by (simp add: nth_append octet_bits_def low_bits_def bit_unsigned_iff bit_drop_bit_eq) (auto simp: algebra_simps)
qed (use assms in simp)

lemma code_bits_unique: "c < 2 ^ w \<Longrightarrow> code_of (code_bits w c) = c"
proof (induction w arbitrary: c)
  case (Suc w)
  have "code_bits (Suc w) c = code_bits w (c div 2) @ [bit c 0]"
  proof (rule nth_equalityI)
    fix i assume i: "i < length (code_bits (Suc w) c)"
    show "code_bits (Suc w) c ! i = (code_bits w (c div 2) @ [bit c 0]) ! i"
    proof (cases "i < w")
      case True
      then have "w - i = Suc (w - 1 - i)" by simp
      then show ?thesis using True by (simp add: code_bits_def nth_append bit_Suc del: upt_Suc)
    next
      case False
      then show ?thesis using i by (simp add: code_bits_def nth_append del: upt_Suc)
    qed
  qed simp
  moreover have "code_of (code_bits w (c div 2)) = c div 2" using Suc by (intro Suc.IH) simp
  ultimately show ?case by (simp add: code_of_def bit_0 odd_iff_mod_2_eq_one [symmetric])
qed (simp add: code_bits_def code_of_def)

section \<open>Writing a code\<close>

definition stream_bits :: "LZWStream \<Rightarrow> bool list" where
  "stream_bits s = octet_bits (sop_contents (lport s) @ outbuf s) @ low_bits (lbits s) (accum s)"

text \<open>Everything but the output.\<close>

definition same_dict :: "LZWStream \<Rightarrow> LZWStream \<Rightarrow> bool" where
  "same_dict s s' \<longleftrightarrow>
     enc_width s' = enc_width s \<and> enc_max s' = enc_max s \<and> over_last s' = over_last s \<and> next_token s' = next_token s \<and>
     primary s' = primary s \<and> overflow_tab s' = overflow_tab s"

definition out_ok :: "LZWStream \<Rightarrow> bool" where
  "out_ok s \<longleftrightarrow> lbits s < 8 \<and> length (outbuf s) \<le> OUTBUF_SIZE - 8 \<and> sop_ok (lport s)"

lemma out_octets_ok:
  assumes "lbits s < 24" "length (outbuf s) + lbits s div 8 \<le> OUTBUF_SIZE"
  shows "\<exists>s'. out_octets s = Inr s' \<and> lbits s' = lbits s mod 8 \<and> same_dict s s' \<and> lport s' = lport s \<and>
    stream_bits s' = stream_bits s \<and> length (outbuf s') = length (outbuf s) + lbits s div 8"
  using assms
proof (induction "lbits s" arbitrary: s rule: less_induct)
  case less
  show ?case
  proof (cases "lbits s \<ge> 8")
    case False
    then show ?thesis by (subst out_octets.simps) (simp add: same_dict_def)
  next
    case True
    let ?s = "s\<lparr>outbuf := outbuf s @ [ucast (drop_bit (lbits s - 8) (accum s))], lbits := lbits s - 8\<rparr>"
    have d: "lbits s div 8 = Suc ((lbits s - 8) div 8)" "lbits s mod 8 = (lbits s - 8) mod 8"
      using True by (simp_all add: le_div_geq le_mod_geq)
    have "out_octets s = out_octets ?s" using True less.prems(2) d(1) by (subst out_octets.simps) simp
    moreover obtain s' where "out_octets ?s = Inr s'" "lbits s' = lbits ?s mod 8" "same_dict ?s s'" "lport s' = lport ?s"
      "stream_bits s' = stream_bits ?s" "length (outbuf s') = length (outbuf ?s) + lbits ?s div 8"
      using less.hyps [of ?s] less.prems True d(1) by fastforce
    moreover have "stream_bits ?s = stream_bits s"
      using low_bits_octet [of "lbits s" "accum s"] True less.prems(1) by (simp add: stream_bits_def)
    ultimately show ?thesis using d by (simp add: same_dict_def)
  qed
qed

lemma oflush_ok:
  assumes "sop_ok (lport s)" "length (outbuf s) \<le> OUTBUF_SIZE"
  obtains p where "lzw_oflush s = Inr (s\<lparr>lport := p, outbuf := []\<rparr>)" "sop_ok p"
    "sop_contents p = sop_contents (lport s) @ outbuf s"
proof -
  have "sop_fits (outbuf s)" using assms(2) by (simp add: sop_fits_def OUTBUF_SIZE_def)
  then obtain p where "SOP_write (lport s) (outbuf s) = Some p" "sop_ok p" "sop_contents p = sop_contents (lport s) @ outbuf s"
    by (rule sop_write_contents [OF assms(1)])
  then show thesis using that by (simp add: lzw_oflush_def)
qed

lemma writew_ok:
  assumes ok: "out_ok s" and w: "w \<in> {9, 10, 11, 12}" and c: "c < 2 ^ w"
  obtains s' where "lzw_writew s c w = Inr s'" "out_ok s'" "same_dict s s'" "stream_bits s' = stream_bits s @ code_bits w c"
    "lbits s' = (lbits s + w) mod 8"
proof -
  let ?s = "s\<lparr>accum := push_bit w (accum s) + of_nat c, lbits := (lbits s + w) mod 256\<rparr>"
  have b: "lbits s < 8" "length (outbuf s) \<le> OUTBUF_SIZE - 8" "sop_ok (lport s)" and w12: "w \<le> 12" "9 \<le> w"
    using ok w by (auto simp: out_ok_def)
  have lb: "lbits ?s = lbits s + w" "lbits ?s < 24" using b w12 by simp_all
  have "lbits ?s div 8 \<le> 2" using lb(1) b(1) w12 by simp
  then have room: "length (outbuf ?s) + lbits ?s div 8 \<le> OUTBUF_SIZE" using b(2) by (simp add: OUTBUF_SIZE_def)
  obtain s1 where s1: "out_octets ?s = Inr s1" "lbits s1 = lbits ?s mod 8" "same_dict ?s s1" "lport s1 = lport s"
      "stream_bits s1 = stream_bits ?s" "length (outbuf s1) = length (outbuf s) + lbits ?s div 8"
    using out_octets_ok [OF lb(2) room] by auto
  obtain p where p: "lzw_oflush s1 = Inr (s1\<lparr>lport := p, outbuf := []\<rparr>)" "sop_ok p"
      "sop_contents p = sop_contents (lport s1) @ outbuf s1"
    by (rule oflush_ok [of s1]) (use s1(4,6) b room in simp_all)
  let ?f = "if OUTBUF_SIZE - length (outbuf s1) < 8 then s1\<lparr>lport := p, outbuf := []\<rparr> else s1"
  have e: "lzw_writew s c w = Inr ?f" using w s1(1) p(1) by (auto simp: lzw_writew_def Let_def lzw_then_def)
  have sb: "stream_bits ?s = stream_bits s @ code_bits w c"
    using low_bits_packed [OF c w12(1) b(1), of "accum s"] lb(1) by (simp add: stream_bits_def)
  have fl: "stream_bits (s1\<lparr>lport := p, outbuf := []\<rparr>) = stream_bits s1" using p(3) by (simp add: stream_bits_def)
  have "out_ok ?f" using s1 b p(2) by (auto simp: out_ok_def OUTBUF_SIZE_def)
  moreover have "same_dict s ?f" using s1(3) by (auto simp: same_dict_def)
  moreover have "stream_bits ?f = stream_bits s @ code_bits w c" using fl s1(5) sb by simp
  moreover have "lbits ?f = (lbits s + w) mod 8" using s1(2) lb(1) by simp
  ultimately show thesis using that e by blast
qed

section \<open>Keys\<close>

lemma or_top_bit:
  assumes "m < 2147483648"
  shows "unat (or (of_nat m) (0x80000000 :: u32)) = m + 2147483648"
proof -
  have m: "unat (of_nat m :: u32) = m" using assms by (simp add: unat_of_nat take_bit_nat_eq_self)
  have "of_nat m AND (0x80000000 :: u32) = 0"
  proof (rule bit_word_eqI)
    fix j assume "j < LENGTH(32)"
    have "\<not> bit m 31" using assms by (simp add: bit_nat_def)
    moreover have "bit (0x80000000 :: u32) j \<longleftrightarrow> j = 31" using bit_exp_iff [where 'a = u32, of 31 j] by auto
    ultimately show "bit (of_nat m AND (0x80000000 :: u32)) j = bit (0 :: u32) j"
      by (auto simp: bit_and_iff bit_of_nat_iff)
  qed
  then have "or (of_nat m) (0x80000000 :: u32) = of_nat m + 0x80000000" by (rule disjunctive_add_eq_or [symmetric])
  then show ?thesis using assms m by (simp add: unat_word_ariths)
qed

lemma unat_pair_key:
  assumes "enc < 4096"
  shows "unat (pair_key enc ch) = enc * 256 + unat ch + 2147483648"
proof -
  have ch: "unat ch < 256" by (rule unat_u8_less)
  have "push_bit 8 (of_nat enc) + ucast ch = (of_nat (enc * 256 + unat ch) :: u32)"
    by (simp add: push_bit_eq_mult)
  then show ?thesis unfolding pair_key_def by (simp only:) (rule or_top_bit, use assms ch in simp)
qed

lemma pair_key_inj:
  assumes "pair_key enc ch = pair_key enc' ch'" "enc < 4096" "enc' < 4096"
  shows "enc' = enc \<and> ch' = ch"
proof -
  have u: "enc * 256 + unat ch = enc' * 256 + unat ch'"
    using assms unat_pair_key [of enc ch] unat_pair_key [of enc' ch'] by simp
  have b: "unat ch < 256" "unat ch' < 256" by (rule unat_u8_less)+
  have "(enc * 256 + unat ch) div 256 = enc" "(enc' * 256 + unat ch') div 256 = enc'" using b by simp_all
  then have "enc = enc'" using u by simp
  then show ?thesis using u by (simp add: word_unat_eq_iff)
qed

lemma unat_octet_key: "i < 256 \<Longrightarrow> unat (0xFFFFFF00 + of_nat i :: u32) = 4294967040 + i"
  by (simp add: unat_word_ariths unat_of_nat take_bit_nat_eq_self)

lemma pair_key_other: "enc < 4096 \<Longrightarrow> i < 256 \<Longrightarrow> pair_key enc ch \<noteq> 0xFFFFFF00 + of_nat i"
  using unat_pair_key [of enc ch] unat_octet_key [of i] unat_u8_less [of ch] by auto

lemma pair_key_nonzero: "enc < 4096 \<Longrightarrow> pair_key enc ch \<noteq> 0"
  using unat_pair_key [of enc ch] by (metis add_is_0 unat_0 zero_neq_numeral)

section \<open>The dictionary\<close>

definition dict_ok :: "LZWStream \<Rightarrow> u8 list list \<Rightarrow> bool" where
  "dict_ok s T \<longleftrightarrow>
     length T = next_token s \<and> 258 \<le> next_token s \<and> next_token s < 4096 \<and> over_last s + 2 \<le> next_token s \<and>
     (\<forall>c < 256. T ! c = [of_nat c]) \<and> T ! 256 = [] \<and> T ! 257 = [] \<and>
     enc_width s = code_width (next_token s) \<and> enc_max s = 2 ^ enc_width s \<and>
     (\<forall>i. enext (primary s i) = 0) \<and>
     (\<forall>i enc ch. enc < 4096 \<longrightarrow> ekey (primary s i) = pair_key enc ch \<longrightarrow>
        enc < next_token s \<and> evalue (primary s i) < next_token s \<and> T ! evalue (primary s i) = T ! enc @ [ch])"

definition same_out :: "LZWStream \<Rightarrow> LZWStream \<Rightarrow> bool" where
  "same_out s s' \<longleftrightarrow> lport s' = lport s \<and> outbuf s' = outbuf s \<and> accum s' = accum s \<and> lbits s' = lbits s"

lemma same_outD: "same_out s s' \<Longrightarrow> out_ok s' = out_ok s \<and> stream_bits s' = stream_bits s"
  by (simp add: same_out_def out_ok_def stream_bits_def)

lemma dict_ok_same: "dict_ok s T \<Longrightarrow> same_dict s s' \<Longrightarrow> dict_ok s' T"
  by (simp add: dict_ok_def same_dict_def)

lemma lookup_ok:
  assumes ok: "dict_ok s T" and e: "enc < 4096"
  obtains r where "lzw_lookup s (pair_key enc ch) h = Inr r" "\<And>v. r = Some v \<Longrightarrow> v < next_token s \<and> T ! v = T ! enc @ [ch]"
proof -
  let ?p = "primary s (unat h mod LZW_DICT_SIZE)"
  have n: "enext ?p = 0" using ok by (simp add: dict_ok_def)
  have "lzw_lookup s (pair_key enc ch) h = Inr (if ekey ?p = pair_key enc ch then Some (evalue ?p) else None)"
    unfolding lzw_lookup_def by (subst lookup_loop.simps) (simp add: n)
  moreover have "evalue ?p < next_token s \<and> T ! evalue ?p = T ! enc @ [ch]" if "ekey ?p = pair_key enc ch"
    using ok e that by (simp add: dict_ok_def)
  ultimately show thesis using that by (cases "ekey ?p = pair_key enc ch") auto
qed

lemma code_width_Suc:
  assumes "258 \<le> n" "n < 4095"
  shows "n + 1 \<ge> 2 ^ code_width n \<longleftrightarrow> code_width (n + 1) = code_width n + 1"
    "\<not> n + 1 \<ge> 2 ^ code_width n \<Longrightarrow> code_width (n + 1) = code_width n"
  using assms by (auto simp: code_width_def)

lemma code_width_bounds: "9 \<le> code_width n" "code_width n \<le> 12" "code_width n \<in> {9, 10, 11, 12}"
  by (simp_all add: code_width_def)

lemma code_width_holds: "n < 4096 \<Longrightarrow> c < n \<Longrightarrow> c < 2 ^ code_width n"
  by (simp add: code_width_def split: if_splits)

lemma insert_ok:
  assumes ok: "dict_ok s T" and n: "next_token s < 4095" and e: "enc < next_token s"
  obtains s' where "lzw_insert s (pair_key enc ch) h = Inr s'" "dict_ok s' (T @ [T ! enc @ [ch]])" "same_out s s'"
    "next_token s' = next_token s + 1"
proof -
  let ?k = "pair_key enc ch" and ?v = "next_token s" and ?i = "unat h mod LZW_DICT_SIZE"
  let ?p = "primary s ?i" and ?T = "T @ [T ! enc @ [ch]]"
  have o: "length T = ?v" "258 \<le> ?v" "over_last s + 2 \<le> ?v" "\<forall>c < 256. T ! c = [of_nat c]" "T ! 256 = []" "T ! 257 = []"
    "enc_width s = code_width ?v" "enc_max s = 2 ^ enc_width s" "\<forall>i. enext (primary s i) = 0"
    using ok by (simp_all add: dict_ok_def)
  have keys: "enc' < ?v \<and> evalue (primary s i) < ?v \<and> T ! evalue (primary s i) = T ! enc' @ [ch']"
    if "enc' < 4096" "ekey (primary s i) = pair_key enc' ch'" for i enc' ch'
    using ok that by (simp add: dict_ok_def)
  let ?s1 = "s\<lparr>next_token := ?v + 1\<rparr>"
  let ?s2 = "if ekey ?p \<noteq> KEY_EMPTY
    then ?s1\<lparr>over_last := over_last s + 1, overflow_tab := (overflow_tab s)(over_last s + 1 :=
        (overflow_tab s (over_last s + 1))\<lparr>enext := enext ?p, ekey := ?k, evalue := ?v\<rparr>)\<rparr>
    else ?s1\<lparr>primary := (primary s)(?i := ?p\<lparr>ekey := ?k, evalue := ?v\<rparr>)\<rparr>"
  let ?s3 = "if ?v + 1 \<ge> enc_max s then ?s2\<lparr>enc_max := enc_max s * 2 mod 65536, enc_width := (enc_width s + 1) mod 256\<rparr> else ?s2"
  have k: "\<not> LZW_DICT_OVERFLOW \<le> over_last s + 1" "(over_last s + 1) mod 65536 = over_last s + 1" "(?v + 1) mod 65536 = ?v + 1"
    using o(3) n by (simp_all add: LZW_DICT_OVERFLOW_def)
  have em: "enc_max ?s2 = enc_max s" by simp
  have 1: "lzw_insert s ?k h = Inr ?s3" using n k
    by (simp add: lzw_insert_def lzw_then_def overalloc_def Let_def)
  have w: "enc_width ?s3 = code_width (?v + 1)" "enc_max ?s3 = 2 ^ enc_width ?s3"
    using code_width_Suc [OF o(2) n] code_width_bounds [of ?v] o(7,8) by (auto simp: code_width_def)
  have ov: "over_last ?s3 + 2 \<le> ?v + 1" using o(3) by simp
  have p3: "primary ?s3 = (if ekey ?p \<noteq> KEY_EMPTY then primary s else (primary s)(?i := ?p\<lparr>ekey := ?k, evalue := ?v\<rparr>))" by simp
  have nx: "\<forall>i. enext (primary ?s3 i) = 0" unfolding p3 using o(9) by simp
  have T: "?T ! c = T ! c" if "c < ?v" for c using that o(1) by (simp add: nth_append)
  have new: "?T ! ?v = T ! enc @ [ch]" using o(1) by (simp add: nth_append)
  have e4: "enc < 4096" using e n by simp
  have "enc' < ?v + 1 \<and> evalue (primary ?s3 i) < ?v + 1 \<and> ?T ! evalue (primary ?s3 i) = ?T ! enc' @ [ch']"
    if "enc' < 4096" "ekey (primary ?s3 i) = pair_key enc' ch'" for i enc' ch'
  proof (cases "ekey ?p = KEY_EMPTY \<and> i = ?i")
    case True
    then have "pair_key enc ch = pair_key enc' ch'" using that(2) unfolding p3 by simp
    then have "enc' = enc \<and> ch' = ch" using pair_key_inj [OF _ e4 that(1)] by blast
    then show ?thesis using True e new T [OF e] unfolding p3 by simp
  next
    case False
    then have "primary ?s3 i = primary s i" unfolding p3 by auto
    then have p: "ekey (primary s i) = pair_key enc' ch'" "evalue (primary ?s3 i) = evalue (primary s i)" using that(2) by simp_all
    note kk = keys [OF that(1) p(1)]
    then have "?T ! evalue (primary s i) = ?T ! enc' @ [ch']" using T by metis
    then show ?thesis using kk unfolding p(2) by linarith
  qed
  moreover have "next_token ?s3 = ?v + 1" by simp
  ultimately have "dict_ok ?s3 ?T"
    unfolding dict_ok_def using w ov nx o T n by (simp only: length_append) auto
  moreover have "same_out s ?s3" by (simp add: same_out_def)
  ultimately show thesis using that [OF 1] by simp
qed

section \<open>Reset\<close>

definition fresh_ok :: "nat \<Rightarrow> LZWStream \<Rightarrow> bool" where
  "fresh_ok n s \<longleftrightarrow>
     next_token s = n \<and> over_last s \<le> n \<and> enc_width s = 9 \<and> enc_max s = 512 \<and> (\<forall>i. enext (primary s i) = 0) \<and>
     (\<forall>i. ekey (primary s i) = 0 \<or> (\<exists>j < 256. ekey (primary s i) = 0xFFFFFF00 + of_nat j))"

lemma fresh_insert:
  assumes ok: "fresh_ok n s" and n: "n < 256"
  obtains s' where "lzw_insert s (0xFFFFFF00 + of_nat n) h = Inr s'" "fresh_ok (Suc n) s'" "same_out s s'"
proof -
  let ?k = "0xFFFFFF00 + of_nat n :: u32" and ?i = "unat h mod LZW_DICT_SIZE"
  let ?p = "primary s ?i" and ?s1 = "s\<lparr>next_token := n + 1\<rparr>"
  let ?s2 = "if ekey ?p \<noteq> KEY_EMPTY
    then ?s1\<lparr>over_last := over_last s + 1, overflow_tab := (overflow_tab s)(over_last s + 1 :=
        (overflow_tab s (over_last s + 1))\<lparr>enext := enext ?p, ekey := ?k, evalue := n\<rparr>)\<rparr>
    else ?s1\<lparr>primary := (primary s)(?i := ?p\<lparr>ekey := ?k, evalue := n\<rparr>)\<rparr>"
  have o: "next_token s = n" "over_last s \<le> n" "enc_max s = 512" using ok by (simp_all add: fresh_ok_def)
  then have k: "\<not> LZW_DICT_OVERFLOW \<le> over_last s + 1" "(over_last s + 1) mod 65536 = over_last s + 1" "(n + 1) mod 65536 = n + 1"
    using n by (simp_all add: LZW_DICT_OVERFLOW_def)
  have "lzw_insert s ?k h = Inr ?s2" using n o k
    by (simp add: lzw_insert_def lzw_then_def overalloc_def Let_def)
  moreover have "fresh_ok (Suc n) ?s2" using ok n by (auto simp: fresh_ok_def)
  moreover have "same_out s ?s2" by (simp add: same_out_def)
  ultimately show thesis by (rule that)
qed

lemma reset_loop_ok:
  "n + k \<le> 256 \<Longrightarrow> fresh_ok n s \<Longrightarrow> \<exists>s'. reset_loop [n..<n + k] s = Inr s' \<and> fresh_ok (n + k) s' \<and> same_out s s'"
proof (induction k arbitrary: n s)
  case (Suc k)
  obtain s1 where s1: "lzw_insert s (0xFFFFFF00 + of_nat n) (lzw_hash (0xFFFFFF00 + of_nat n)) = Inr s1"
      "fresh_ok (Suc n) s1" "same_out s s1"
    by (rule fresh_insert [OF Suc.prems(2)]) (use Suc.prems(1) in simp)
  obtain s' where "reset_loop [Suc n..<Suc n + k] s1 = Inr s'" "fresh_ok (Suc n + k) s'" "same_out s1 s'"
    using Suc.IH [OF _ s1(2)] Suc.prems(1) by auto
  moreover have "[n..<n + Suc k] = n # [Suc n..<Suc n + k]" by (simp add: upt_conv_Cons)
  ultimately show ?case using s1 by (simp add: lzw_then_def Let_def same_out_def del: upt_Suc)
qed (simp add: same_out_def)

lemma initial_texts_nth:
  "length initial_texts = 258" "c < 256 \<Longrightarrow> initial_texts ! c = [of_nat c]" "initial_texts ! 256 = []" "initial_texts ! 257 = []"
  by (simp_all add: initial_texts_def del: upt_Suc)

lemma reset_ok:
  obtains s' where "lzw_reset s = Inr s'" "dict_ok s' initial_texts" "same_out s s'" "next_token s' = 258"
proof -
  let ?s = "s\<lparr>enc_width := 9, enc_max := 512, over_last := 0, primary := (\<lambda>_. \<lparr>ekey = 0, enext = 0, evalue = 0\<rparr>), next_token := 0\<rparr>"
  have "fresh_ok 0 ?s" by (simp add: fresh_ok_def)
  then obtain s1 where s1: "reset_loop [0..<256] ?s = Inr s1" "fresh_ok 256 s1" "same_out ?s s1"
    using reset_loop_ok [of 0 256 ?s] by auto
  have "lzw_reset s = Inr (s1\<lparr>next_token := 258\<rparr>)" using s1(1) by (simp add: lzw_reset_def lzw_then_def)
  moreover have "dict_ok (s1\<lparr>next_token := 258\<rparr>) initial_texts"
    using s1(2) pair_key_nonzero pair_key_other
    by (auto simp: dict_ok_def fresh_ok_def initial_texts_nth code_width_def) metis+
  moreover have "same_out s (s1\<lparr>next_token := 258\<rparr>)" using s1(3) by (simp add: same_out_def)
  ultimately show thesis by (rule that) simp
qed

section \<open>Encoder and decoder\<close>

text \<open>The decoder is one entry behind the encoder, but for its first code.\<close>

definition dec_state :: "u8 list list \<Rightarrow> nat \<Rightarrow> u8 list list \<Rightarrow> u8 list \<Rightarrow> bool" where
  "dec_state T enc Td prev \<longleftrightarrow>
     (if prev = [] then Td = T else \<exists>c. T = Td @ [prev @ [c]] \<and> hd (T ! enc) = c)"

lemma decode_step:
  assumes "w = code_width (length T + (if prev = [] then 0 else 1))" "c < 2 ^ w" "c \<noteq> 256" "c \<noteq> 257"
    "str = (if c < length T then T ! c else prev @ [hd prev])"
  shows "lzw_decode T prev (code_bits w c @ bs) =
    str @ lzw_decode (if prev = [] then T else T @ [prev @ [hd str]]) str bs"
  using assms by (cases "prev = []"; subst lzw_decode.simps) (simp_all add: code_bits_unique Let_def)

lemma decode_code:
  assumes ok: "dict_ok s T" and enc: "enc < next_token s" "T ! enc \<noteq> []" and d: "dec_state T enc Td prev"
  shows "lzw_decode Td prev (code_bits (enc_width s) enc @ bs) = T ! enc @ lzw_decode T (T ! enc) bs"
proof -
  have o: "length T = next_token s" "enc_width s = code_width (next_token s)" "next_token s < 4096" "T ! 256 = []" "T ! 257 = []"
    using ok by (simp_all add: dict_ok_def)
  have c: "enc \<noteq> 256" "enc \<noteq> 257" using enc(2) o(4,5) by auto
  have b: "enc < 2 ^ enc_width s" using code_width_holds [OF o(3) enc(1)] o(2) by simp
  have w: "enc_width s = code_width (length Td + (if prev = [] then 0 else 1))"
  proof (cases "prev = []")
    case True
    then show ?thesis using d o(1,2) by (simp add: dec_state_def)
  next
    case False
    then obtain c where "T = Td @ [prev @ [c]]" using d unfolding dec_state_def by auto
    then have "length T = length (Td @ [prev @ [c]])" by (rule arg_cong)
    then have "length T = Suc (length Td)" by simp
    then show ?thesis using False o(1,2) by simp
  qed
  have str: "T ! enc = (if enc < length Td then Td ! enc else prev @ [hd prev])"
  proof (cases "prev = []")
    case True
    then show ?thesis using d enc(1) o(1) by (simp add: dec_state_def)
  next
    case False
    then obtain c where T: "T = Td @ [prev @ [c]]" "hd (T ! enc) = c" using d by (auto simp: dec_state_def)
    show ?thesis
    proof (cases "enc < length Td")
      case True
      then show ?thesis using T(1) by (simp add: nth_append)
    next
      case ge: False
      then have "enc = length Td" using enc(1) o(1) T(1) by simp
      then have "T ! enc = prev @ [c]" using T(1) by simp
      then show ?thesis using T(2) ge False by simp
    qed
  qed
  have "(if prev = [] then Td else Td @ [prev @ [hd (T ! enc)]]) = T" using d by (auto simp: dec_state_def)
  then show ?thesis using decode_step [OF w b c str, of bs] by simp
qed

lemma deflate_ok:
  "dict_ok s T \<Longrightarrow> out_ok s \<Longrightarrow> enc < next_token s \<Longrightarrow> T ! enc \<noteq> [] \<Longrightarrow> dec_state T enc Td prev \<Longrightarrow>
    next_token s + length input \<le> 4095 \<Longrightarrow>
    \<exists>enc' s' T' Td' prev' E X. deflate_loop input enc s = Inr (enc', s') \<and> dict_ok s' T' \<and> out_ok s' \<and>
      enc' < next_token s' \<and> T' ! enc' \<noteq> [] \<and> dec_state T' enc' Td' prev' \<and> stream_bits s' = stream_bits s @ E \<and>
      X @ T' ! enc' = T ! enc @ input \<and> (\<forall>bs. lzw_decode Td prev (E @ bs) = X @ lzw_decode Td' prev' bs)"
proof (induction input arbitrary: s T enc Td prev)
  case Nil
  show ?case
    by (intro exI [of _ enc] exI [of _ s] exI [of _ T] exI [of _ Td] exI [of _ prev] exI [of _ "[]"])
      (use Nil in simp)
next
  case (Cons ch input)
  note ok = Cons.prems(1) and out = Cons.prems(2) and enc = Cons.prems(3,4) and d = Cons.prems(5)
  have n: "next_token s < 4095" "next_token s + length input \<le> 4094" and e4: "enc < 4096"
    using Cons.prems(3,6) by simp_all
  let ?k = "pair_key enc ch" and ?h = "lzw_hash (pair_key enc ch)"
  obtain r where r: "lzw_lookup s ?k ?h = Inr r" "\<And>v. r = Some v \<Longrightarrow> v < next_token s \<and> T ! v = T ! enc @ [ch]"
    using lookup_ok [OF ok e4, of ch ?h] by blast
  show ?case
  proof (cases r)
    case (Some v)
    then have v: "v < next_token s" "T ! v = T ! enc @ [ch]" using r(2) by blast+
    have dv: "dec_state T v Td prev" using d v(2) enc(2) by (auto simp: dec_state_def)
    have e: "deflate_loop (ch # input) enc s = deflate_loop input v s"
      using r(1) Some by (simp add: lzw_then_def Let_def)
    have "next_token s + length input \<le> 4095" "T ! v \<noteq> []" using n v(2) by simp_all
    from Cons.IH [OF ok out v(1) this(2) dv this(1)] show ?thesis unfolding e using v(2) by simp
  next
    case None
    have w: "enc_width s \<in> {9, 10, 11, 12}" "enc < 2 ^ enc_width s"
      using ok enc(1) code_width_bounds(3) [of "next_token s"] code_width_holds [of "next_token s" enc]
      by (auto simp: dict_ok_def)
    obtain s1 where s1: "lzw_writew s enc (enc_width s) = Inr s1" "out_ok s1" "same_dict s s1"
        "stream_bits s1 = stream_bits s @ code_bits (enc_width s) enc"
      by (rule writew_ok [OF out w])
    have ok1: "dict_ok s1 T" by (rule dict_ok_same [OF ok s1(3)])
    have n1: "next_token s1 = next_token s" using s1(3) by (simp add: same_dict_def)
    obtain s2 where s2: "lzw_insert s1 ?k ?h = Inr s2" "dict_ok s2 (T @ [T ! enc @ [ch]])" "same_out s1 s2"
        "next_token s2 = next_token s + 1"
      using insert_ok [OF ok1, of enc ch ?h] n1 n(1) enc(1) by metis
    let ?T = "T @ [T ! enc @ [ch]]"
    have out2: "out_ok s2" "stream_bits s2 = stream_bits s1" using same_outD [OF s2(3)] s1(2) by simp_all
    have ch: "unat ch < 256" by (rule unat_u8_less)
    then have c2: "unat ch < next_token s2" "?T ! unat ch = [ch]" using s2(2) by (auto simp: dict_ok_def)
    have lt: "length T = next_token s" using ok by (simp add: dict_ok_def)
    have d2: "dec_state ?T (unat ch) T (T ! enc)" using c2(2) enc(2) by (simp add: dec_state_def)
    have e: "deflate_loop (ch # input) enc s = deflate_loop input (unat ch) s2"
      using r(1) None s1(1) s2(1,4) n(1) by (simp add: lzw_then_def lzw_write_def Let_def)
    have "next_token s2 + length input \<le> 4095" "?T ! unat ch \<noteq> []" using n(2) s2(4) c2(2) by simp_all
    from Cons.IH [OF s2(2) out2(1) c2(1) this(2) d2 this(1)] obtain enc' s' T' Td' prev' E X where
      I: "deflate_loop input (unat ch) s2 = Inr (enc', s')" "dict_ok s' T'" "out_ok s'" "enc' < next_token s'" "T' ! enc' \<noteq> []"
        "dec_state T' enc' Td' prev'" "stream_bits s' = stream_bits s2 @ E" "X @ T' ! enc' = ?T ! unat ch @ input"
        "\<forall>bs. lzw_decode T (T ! enc) (E @ bs) = X @ lzw_decode Td' prev' bs" by blast
    have "lzw_decode Td prev ((code_bits (enc_width s) enc @ E) @ bs) = (T ! enc @ X) @ lzw_decode Td' prev' bs" for bs
      using decode_code [OF ok enc d, of "E @ bs"] I(9) by simp
    moreover have "stream_bits s' = stream_bits s @ code_bits (enc_width s) enc @ E" using I(7) out2(2) s1(4) by simp
    moreover have "(T ! enc @ X) @ T' ! enc' = T ! enc @ ch # input" using I(8) c2(2) by simp
    ultimately show ?thesis unfolding e
      using I(1-6) by (intro exI [of _ enc'] exI [of _ s'] exI [of _ T'] exI [of _ Td'] exI [of _ prev']
        exI [of _ "code_bits (enc_width s) enc @ E"] exI [of _ "T ! enc @ X"]) blast
  qed
qed

section \<open>A run\<close>

lemma octet_bits_inj: "octet_bits xs = octet_bits ys \<Longrightarrow> xs = ys"
proof (induction xs arbitrary: ys)
  case Nil
  then have "length (octet_bits ys) = 0" by (metis length_octet_bits list.size(3) mult_0_right)
  then show ?case by simp
next
  case (Cons x xs)
  then have l: "length (octet_bits ys) = 8 * Suc (length xs)" by (metis length_octet_bits length_Cons)
  then obtain y ys' where ys: "ys = y # ys'" by (cases ys) auto
  let ?b = "\<lambda>b :: u8. map (\<lambda>i. bit b (7 - i)) [0..<8]"
  have "?b x @ octet_bits xs = ?b y @ octet_bits ys'" using Cons.prems ys by (simp add: octet_bits_def)
  then have b: "?b x = ?b y" and r: "octet_bits xs = octet_bits ys'" by (simp_all add: append_eq_append_conv)
  have "x = y"
  proof (rule bit_word_eqI)
    fix j assume "j < LENGTH(8)"
    then have j: "7 - j < 8" "7 - (7 - j) = j" by simp_all
    have "?b x ! (7 - j) = ?b y ! (7 - j)" using b by (rule arg_cong)
    then show "bit x j = bit y j" using j by simp
  qed
  then show ?case using Cons.IH [OF r] ys by simp
qed

lemma octets_split:
  assumes "octet_bits xs @ l = octet_bits ys @ B" "length l < 8"
  obtains out where "xs = ys @ out" "octet_bits out @ l = B"
proof -
  have "8 * length xs + length l = 8 * length ys + length B" using assms(1) by (metis length_append length_octet_bits)
  then have n: "length ys \<le> length xs" using assms(2) by linarith
  let ?x = "take (length ys) xs" and ?o = "drop (length ys) xs"
  have "octet_bits ?x @ octet_bits ?o @ l = octet_bits ys @ B"
    using assms(1) octet_bits_append [of ?x ?o] by (simp del: octet_bits_append)
  then have "octet_bits ?x = octet_bits ys" "octet_bits ?o @ l = B"
    using n by (simp_all add: append_eq_append_conv)
  then show thesis using that octet_bits_inj by (metis append_take_drop_id)
qed

lemma decode_end:
  assumes ok: "dict_ok s T" and p: "prev \<noteq> [] \<or> length T = next_token s" and k: "k \<le> enc_width s" "T' = T"
  shows "lzw_decode T' prev (take k (code_bits (enc_width s) 257)) = []"
proof -
  let ?w = "code_width (length T + (if prev = [] then 0 else 1))"
  have o: "length T = next_token s" "enc_width s = code_width (next_token s)" using ok by (simp_all add: dict_ok_def)
  have w: "enc_width s \<le> ?w" unfolding o by (simp add: code_width_def)
  show ?thesis
  proof (cases "k < ?w")
    case True
    then show ?thesis using k by (subst lzw_decode.simps) (simp add: Let_def)
  next
    case False
    then have "k = ?w" "enc_width s = ?w" using w k(1) by simp_all
    moreover have "(257 :: nat) < 2 ^ ?w" by (simp add: code_width_def)
    ultimately show ?thesis using k(2) by (subst lzw_decode.simps) (simp add: Let_def code_bits_unique)
  qed
qed

lemma decode_reset: "lzw_decode initial_texts [] (code_bits 9 256 @ bs) = lzw_decode initial_texts [] bs"
proof -
  have "code_width (length initial_texts) = 9" by (simp add: initial_texts_nth code_width_def)
  then show ?thesis by (subst lzw_decode.simps) (simp add: Let_def code_bits_unique)
qed

lemma short_width:
  assumes "out_ok s" "lbits s > 0"
  shows "lzw_writew s 0 (8 - lbits s) = Inr s"
proof -
  have "out_octets s = Inr s" using assms by (subst out_octets.simps) (simp add: out_ok_def)
  moreover have "8 - lbits s \<noteq> 9" "8 - lbits s \<noteq> 10" "8 - lbits s \<noteq> 11" "8 - lbits s \<noteq> 12" by simp_all
  moreover have "\<not> OUTBUF_SIZE - length (outbuf s) < 8" using assms(1) unfolding out_ok_def OUTBUF_SIZE_def by linarith
  ultimately show ?thesis by (simp add: lzw_writew_def Let_def lzw_then_def)
qed

text \<open>Writing the text: after the first code, everything up to the code for the end.\<close>

lemma deflated:
  assumes ok: "dict_ok s initial_texts" and n: "next_token s = 258" and out: "out_ok s" and len: "length input \<le> 3838"
  obtains s' T' prev' E where "lzw_deflate s input = Inr s'" "dict_ok s' T'" "out_ok s'" "stream_bits s' = stream_bits s @ E"
    "\<And>bs. lzw_decode initial_texts [] (E @ bs) = input @ lzw_decode T' prev' bs"
proof (cases input)
  case Nil
  then show ?thesis using that [of s initial_texts "[]" "[]"] ok out by (simp add: lzw_deflate_def)
next
  case (Cons x xs)
  have x: "unat x < 256" by (rule unat_u8_less)
  then have ix: "initial_texts ! unat x = [x]" by (simp add: initial_texts_nth)
  have "dec_state initial_texts (unat x) initial_texts []" by (simp add: dec_state_def)
  then obtain enc' s1 T' Td' prev' E X where
    I: "deflate_loop xs (unat x) s = Inr (enc', s1)" "dict_ok s1 T'" "out_ok s1" "enc' < next_token s1" "T' ! enc' \<noteq> []"
      "dec_state T' enc' Td' prev'" "stream_bits s1 = stream_bits s @ E" "X @ T' ! enc' = initial_texts ! unat x @ xs"
      "\<forall>bs. lzw_decode initial_texts [] (E @ bs) = X @ lzw_decode Td' prev' bs"
    using deflate_ok [OF ok out, of "unat x" initial_texts "[]" xs] x ix n len Cons by auto
  have w: "enc_width s1 \<in> {9, 10, 11, 12}" "enc' < 2 ^ enc_width s1"
    using I(2,4) code_width_bounds(3) [of "next_token s1"] code_width_holds [of "next_token s1" enc']
    by (auto simp: dict_ok_def)
  obtain s2 where s2: "lzw_writew s1 enc' (enc_width s1) = Inr s2" "out_ok s2" "same_dict s1 s2"
      "stream_bits s2 = stream_bits s1 @ code_bits (enc_width s1) enc'"
    by (rule writew_ok [OF I(3) w])
  show ?thesis
  proof (rule that)
    show "lzw_deflate s input = Inr s2" using Cons I(1) s2(1) by (simp add: lzw_deflate_def lzw_then_def lzw_write_def)
    show "dict_ok s2 T'" by (rule dict_ok_same [OF I(2) s2(3)])
    show "out_ok s2" by (rule s2(2))
    show "stream_bits s2 = stream_bits s @ E @ code_bits (enc_width s1) enc'" using s2(4) I(7) by simp
    show "lzw_decode initial_texts [] ((E @ code_bits (enc_width s1) enc') @ bs) = input @ lzw_decode T' (T' ! enc') bs" for bs
    proof -
      have "lzw_decode initial_texts [] (E @ code_bits (enc_width s1) enc' @ bs) = X @ T' ! enc' @ lzw_decode T' (T' ! enc') bs"
        using I(9) decode_code [OF I(2,4,5,6), of bs] by simp
      also have "\<dots> = (X @ T' ! enc') @ lzw_decode T' (T' ! enc') bs" by simp
      also have "X @ T' ! enc' = input" using I(8) ix Cons by simp
      finally show ?thesis by simp
    qed
  qed
qed

lemma run_ok:
  assumes ok: "dict_ok s initial_texts" and n: "next_token s = 258" and b: "lbits s = 0" "sop_ok (lport s)"
    and len: "length input \<le> 3838"
  obtains s' out codes where "lzw_run s input = Inr s'" "sop_ok (lport s')" "sop_contents (lport s') = sop_contents (lport s) @ out"
    "lzw_decode initial_texts [] (octet_bits out) = input"
    "octet_bits out = take (8 * (length codes div 8)) codes" "\<exists>E w. codes = code_bits 9 256 @ E @ code_bits w 257"
proof -
  let ?s0 = "s\<lparr>outbuf := []\<rparr>"
  have o0: "out_ok ?s0" "dict_ok ?s0 initial_texts" using b ok by (simp_all add: out_ok_def dict_ok_def)
  have w0: "enc_width ?s0 = 9" using ok n by (simp add: dict_ok_def code_width_def)
  obtain s1 where s1: "lzw_writew ?s0 256 9 = Inr s1" "out_ok s1" "same_dict ?s0 s1"
      "stream_bits s1 = stream_bits ?s0 @ code_bits 9 256"
    by (rule writew_ok [OF o0(1), of 9 256]) simp_all
  have n1: "next_token s1 = 258" using s1(3) n by (simp add: same_dict_def)
  obtain s2 T' prev' E where s2: "lzw_deflate s1 input = Inr s2" "dict_ok s2 T'" "out_ok s2" "stream_bits s2 = stream_bits s1 @ E"
    "\<And>bs. lzw_decode initial_texts [] (E @ bs) = input @ lzw_decode T' prev' bs"
    by (rule deflated [OF dict_ok_same [OF o0(2) s1(3)] n1 s1(2) len]) blast
  let ?w = "enc_width s2"
  have w2: "?w = code_width (next_token s2)" "258 \<le> next_token s2" using s2(2) by (simp_all add: dict_ok_def)
  have w: "?w \<in> {9, 10, 11, 12}" "257 < (2 :: nat) ^ ?w" "9 \<le> ?w"
    unfolding w2(1) using code_width_bounds [of "next_token s2"] by (auto simp: code_width_def)
  obtain s3 where s3: "lzw_writew s2 257 ?w = Inr s3" "out_ok s3" "stream_bits s3 = stream_bits s2 @ code_bits ?w 257"
    by (rule writew_ok [OF s2(3) w(1,2)])
  let ?codes = "code_bits 9 256 @ E @ code_bits ?w 257" 
  have r: "lbits s3 < 8" "sop_ok (lport s3)" "length (outbuf s3) \<le> OUTBUF_SIZE"
    using s3(2) by (simp_all add: out_ok_def OUTBUF_SIZE_def)
  obtain port where port: "lzw_oflush s3 = Inr (s3\<lparr>lport := port, outbuf := []\<rparr>)" "sop_ok port"
      "sop_contents port = sop_contents (lport s3) @ outbuf s3"
    by (rule oflush_ok [OF r(2,3)])
  let ?s4 = "s3\<lparr>lport := port, outbuf := []\<rparr>"
  have run: "lzw_run s input = Inr ?s4"
    using s1(1) w0 s2(1) s3(1) short_width [OF s3(2)] r(1) port(1) by (simp add: lzw_run_def lzw_then_def lzw_write_def)
  have p: "sop_ok (lport ?s4)" "sop_contents (lport ?s4) = sop_contents (lport s3) @ outbuf s3"
    using port(2,3) by simp_all
  have "octet_bits (sop_contents (lport ?s4)) @ low_bits (lbits s3) (accum s3) = octet_bits (sop_contents (lport s)) @ ?codes"
    using s3(3) s2(4) s1(4) b(1) unfolding p(2) by (simp add: stream_bits_def low_bits_def)
  then obtain out where out: "sop_contents (lport ?s4) = sop_contents (lport s) @ out"
      "octet_bits out @ low_bits (lbits s3) (accum s3) = ?codes"
    by (rule octets_split) (use r(1) in simp)
  have l: "8 * length out + lbits s3 = length ?codes" using arg_cong [OF out(2), of length] by simp
  have ob: "octet_bits out = take (8 * length out) ?codes" unfolding out(2) [symmetric] by simp
  have div: "8 * (length ?codes div 8) = 8 * length out" unfolding l [symmetric] using r(1) by simp
  have k: "?w - lbits s3 \<le> ?w" "8 * length out = 9 + length E + (?w - lbits s3)" using l r(1) w(3) by simp_all
  then have "octet_bits out = code_bits 9 256 @ E @ take (?w - lbits s3) (code_bits ?w 257)"
    unfolding ob by (simp add: k(2))
  then have "lzw_decode initial_texts [] (octet_bits out) = input"
    using s2(5) decode_end [OF s2(2) _ k(1) refl, of prev'] s2(2) by (simp add: decode_reset dict_ok_def)
  then show thesis using that [OF run p(1) out(1)] ob div by metis
qed

section \<open>The full dictionary\<close>

lemma other_width:
  assumes "out_ok s" "w \<notin> {9, 10, 11, 12}"
  shows "lzw_writew s c w = Inr s"
proof -
  have "out_octets s = Inr s" using assms(1) by (subst out_octets.simps) (simp add: out_ok_def)
  moreover have "\<not> OUTBUF_SIZE - length (outbuf s) < 8" using assms(1) unfolding out_ok_def OUTBUF_SIZE_def by linarith
  ultimately show ?thesis using assms(2) by (simp add: lzw_writew_def Let_def lzw_then_def)
qed

lemma insert_full:
  assumes ok: "dict_ok s T" and n: "next_token s = 4095"
  obtains s' where "lzw_insert s key h = Inr s'" "same_out s s'" "next_token s' = 4096" "enc_width s' = 13"
proof -
  have o: "over_last s + 2 \<le> 4095" "enc_width s = 12" "enc_max s = 4096"
    using ok n by (simp_all add: dict_ok_def code_width_def)
  then have k: "\<not> LZW_DICT_OVERFLOW \<le> over_last s + 1" "(over_last s + 1) mod 65536 = over_last s + 1"
    by (simp_all add: LZW_DICT_OVERFLOW_def)
  let ?i = "unat h mod LZW_DICT_SIZE"
  show thesis
  proof (cases "ekey (primary s ?i) = KEY_EMPTY")
    case True
    show ?thesis
      by (rule that [of "s\<lparr>next_token := 4096, primary := (primary s)(?i := (primary s ?i)\<lparr>ekey := key, evalue := 4095\<rparr>),
          enc_max := 8192, enc_width := 13\<rparr>"])
        (use True n o in \<open>simp_all add: lzw_insert_def lzw_then_def Let_def same_out_def\<close>)
  next
    case False
    let ?e = "(overflow_tab s)(over_last s + 1 :=
      (overflow_tab s (over_last s + 1))\<lparr>enext := enext (primary s ?i), ekey := key, evalue := 4095\<rparr>)"
    show ?thesis
      by (rule that [of "s\<lparr>next_token := 4096, over_last := over_last s + 1, overflow_tab := ?e, enc_max := 8192, enc_width := 13\<rparr>"])
        (use False n o k in \<open>simp_all add: lzw_insert_def lzw_then_def overalloc_def Let_def same_out_def\<close>)
  qed
qed

lemma full_step:
  assumes ok: "dict_ok s T" and out: "out_ok s" and n: "next_token s = 4095" and e: "enc < 4095"
    and miss: "lzw_lookup s (pair_key enc ch) (lzw_hash (pair_key enc ch)) = Inr None"
  obtains s' where "deflate_loop (ch # input) enc s = deflate_loop input (unat ch) s'" "dict_ok s' initial_texts" "out_ok s'"
    "stream_bits s' = stream_bits s @ code_bits 12 enc"
proof -
  let ?k = "pair_key enc ch" and ?h = "lzw_hash (pair_key enc ch)"
  have w: "enc_width s = 12" using ok n by (simp add: dict_ok_def code_width_def)
  obtain s1 where s1: "lzw_writew s enc 12 = Inr s1" "out_ok s1" "same_dict s s1" "stream_bits s1 = stream_bits s @ code_bits 12 enc"
    by (rule writew_ok [OF out, of 12 enc]) (use e in simp_all)
  have n1: "next_token s1 = 4095" using s1(3) n by (simp add: same_dict_def)
  obtain s2 where s2: "lzw_insert s1 ?k ?h = Inr s2" "same_out s1 s2" "next_token s2 = 4096" "enc_width s2 = 13"
    by (rule insert_full [OF dict_ok_same [OF ok s1(3)] n1])
  have o2: "out_ok s2" "stream_bits s2 = stream_bits s1" using same_outD [OF s2(2)] s1(2) by simp_all
  have "lzw_write s2 256 = Inr s2" unfolding lzw_write_def s2(4) by (rule other_width [OF o2(1)]) simp
  moreover obtain s3 where s3: "lzw_reset s2 = Inr s3" "dict_ok s3 initial_texts" "same_out s2 s3" by (rule reset_ok)
  ultimately have "deflate_loop (ch # input) enc s = deflate_loop input (unat ch) s3"
    using miss s1(1) s2 w by (simp add: lzw_then_def lzw_write_def Let_def)
  then show thesis using that s3(2) same_outD [OF s3(3)] o2 s1(4) by simp
qed

section \<open>Properties\<close>

text \<open>C20: a new stream on whose memory no bits are left over compresses a text of up to 3838 octets without an
  access outside its buffers or a failed assertion, and the decoder gets the text back from what is appended to
  the port: the code 256, codes for the text and the code 257, whose last bits are missing up to a whole octet.\<close>

theorem lzw_roundtrip:
  assumes "sop_ok port" "lbits block = 0" "length input \<le> 3838"
  shows "\<exists>s s' out codes. lzw_create port block = Inr s \<and> lzw_run s input = Inr s' \<and> sop_ok (lport s') \<and>
    sop_contents (lport s') = sop_contents port @ out \<and> lzw_decode initial_texts [] (octet_bits out) = input \<and>
    octet_bits out = take (8 * (length codes div 8)) codes \<and> (\<exists>E w. codes = code_bits 9 256 @ E @ code_bits w 257)"
proof -
  obtain s where s: "lzw_create port block = Inr s" "dict_ok s initial_texts" "same_out (block\<lparr>lport := port, outbuf := []\<rparr>) s"
      "next_token s = 258"
    unfolding lzw_create_def by (rule reset_ok)
  have p: "lbits s = 0" "lport s = port" using s(3) assms(2) by (simp_all add: same_out_def)
  have "sop_ok (lport s)" using p assms(1) by simp
  from run_ok [OF s(2,4) p(1) this assms(3)] show ?thesis using s(1) unfolding p(2) by metis
qed

definition demo_block :: LZWStream where
  "demo_block =
     \<lparr>lport = \<lparr>SOP_BUFFER = [0], SOP_INDEX = 0, SOP_OVERFLOW = []\<rparr>, accum = 85, lbits = 0, outbuf = [], enc_width = 12, enc_max = 4096,
      over_last = 0, next_token = 4095, primary = (\<lambda>_. \<lparr>ekey = 0, enext = 0, evalue = 0\<rparr>),
      overflow_tab = (\<lambda>_. \<lparr>ekey = 0, enext = 0, evalue = 0\<rparr>)\<rparr>"

lemma demo_port: "sop_ok (lport demo_block)" "sop_contents (lport demo_block) = []"
  by (simp_all add: demo_block_def sop_ok_def sop_contents_def sop_pos_def fx2int_def FIXNUM_P_def TEST_PRIMARY_TAG_def)

lemma lzw_roundtrip_witness:
  "\<exists>s s'. lzw_create (lport demo_block) demo_block = Inr s \<and> lzw_run s [45, 45, 45, 45, 45, 65, 45, 45, 45, 66] = Inr s' \<and>
    lzw_decode initial_texts [] (octet_bits (sop_contents (lport s'))) = [45, 45, 45, 45, 45, 65, 45, 45, 45, 66]"
  using lzw_roundtrip [of "lport demo_block" demo_block "[45, 45, 45, 45, 45, 65, 45, 45, 45, 66]"] demo_port
  by (auto simp: demo_block_def)

text \<open>C21: when the dictionary is full the code for a reset is not written: the width is 13 then, for which nothing
  is written, and the dictionary is emptied without the decoder being told.\<close>

theorem lzw_full_table:
  assumes "dict_ok s T" "out_ok s" "next_token s = 4095" "enc < 4095"
    "lzw_lookup s (pair_key enc ch) (lzw_hash (pair_key enc ch)) = Inr None"
  shows "\<exists>s'. deflate_loop (ch # input) enc s = deflate_loop input (unat ch) s' \<and> dict_ok s' initial_texts \<and> out_ok s' \<and>
    stream_bits s' = stream_bits s @ code_bits 12 enc"
  using full_step [OF assms] by metis

lemma demo_full: "dict_ok demo_block (initial_texts @ replicate 3837 [0])"
  using pair_key_nonzero
  by (auto simp: dict_ok_def demo_block_def initial_texts_nth nth_append code_width_def simp del: replicate_Suc)

lemma lzw_full_table_witness:
  "\<exists>s'. deflate_loop [66, 67] 65 demo_block = deflate_loop [67] 66 s' \<and> dict_ok s' initial_texts \<and>
    stream_bits s' = stream_bits demo_block @ code_bits 12 65"
proof -
  have "out_ok demo_block" using demo_port by (simp add: out_ok_def demo_block_def)
  moreover have "lzw_lookup demo_block (pair_key 65 66) (lzw_hash (pair_key 65 66)) = Inr None"
    using pair_key_nonzero [of 65 66] unfolding lzw_lookup_def by (subst lookup_loop.simps) (simp add: demo_block_def)
  ultimately show ?thesis
    using lzw_full_table [OF demo_full, of 65 66 "[67]"] by (auto simp: demo_block_def)
qed

end
