(* ===== verification/Spec2Isabelle.thy ===== *)
theory Spec2Isabelle
  imports NumText Dequeue HashIter OutPort IOText BerProps RegexProps FreemapProps ThreadsProps LzwProps
begin

text \<open>
  \<^bold>\<open>RScheme: the runtime and its libraries.\<close>  RScheme is a Scheme system whose compiler writes C and whose
  runtime is C.  A Scheme value is a tagged word (\<^verbatim>\<open>handc/runtime/obj.h\<close>): a fixnum of 30 bits, an immediate
  object, or a pointer to a heap object.  On top of the tagged words the runtime has numbers
  (\<^verbatim>\<open>longint.c\<close>, \<^verbatim>\<open>basemath.c\<close>, \<^verbatim>\<open>numtower.ci\<close>), strings (\<^verbatim>\<open>strings.c\<close>), queues (\<^verbatim>\<open>dequeue.c\<close>) and hash tables
  (\<^verbatim>\<open>handc/hasht\<close>); the modules add ports and number text (\<^verbatim>\<open>modules/iolib\<close>, \<^verbatim>\<open>modules/corelib\<close>), a regular
  expression machine (\<^verbatim>\<open>modules/regex\<close>) and libraries such as the ASN.1 encoder (\<^verbatim>\<open>lib/rs/net/asn1\<close>).  The
  development models the parts of this C code that compute on data, in the configuration with 32-bit words
  and no native 64-bit type (\<^verbatim>\<open>WORD_IS_32_BITS\<close>, no \<^verbatim>\<open>HAVE_INT_64\<close>), where the code is the most intricate.

  \<^bold>\<open>How C is read.\<close>  A C integer is a word of its width, so that arithmetic wraps as in C; a struct is a
  record, an array a list, a byte buffer a list of octets or, where pointers are compared, a memory of 32-bit
  addresses.  Errors raised to Scheme, failed assertions and accesses outside an object are values of an
  error type or \<open>None\<close>.  A count or a position that the code keeps in a fixnum wraps at 30 bits in the model too.  Loops are structural recursions; a loop that might not end is a
  \<open>partial_function (option)\<close> or has a fuel, and the theorem about it states that it returns.  Definitions have
  the names of the C functions they translate.

  \<^bold>\<open>Theories.\<close>
  \<^item> \<open>RS_Prelude\<close>: names of the C types, lemma collections, facts on words and lists that are shared.
  \<^item> \<open>Obj\<close> (\<^verbatim>\<open>obj.h\<close>): tags, fixnums, immediate objects.
  \<^item> \<open>LongInt\<close>, \<open>LongDiv\<close> (\<^verbatim>\<open>longint.c\<close>): \<open>INT_64\<close>, four digits of 16 bits; every operation is proved to be the
    operation on 64-bit words.  Division is by shift and subtract; the theorem on it holds for divisors of
    magnitude up to \<open>2 ^ 31\<close>, beyond that the borrow of the C code is wrong.
  \<^item> \<open>BaseMath\<close>, \<open>NumTower\<close> (\<^verbatim>\<open>basemath.c\<close>, \<^verbatim>\<open>numtower.ci\<close>, \<^verbatim>\<open>cfg/mod.c\<close>): fixnums, boxed long integers and bignums, with the
    dispatch between them.  Bignums belong to GMP: its functions are the fields of a record, \<open>gmp_spec\<close> says what
    its manual says of them, and an instance over the integers shows that this can hold.
  \<^item> \<open>NumText\<close> (\<^verbatim>\<open>longint.c\<close>, \<^verbatim>\<open>basemath.c\<close>, \<^verbatim>\<open>str2num.c\<close>): numbers to text and back.
  \<^item> \<open>Strings\<close> (\<^verbatim>\<open>strings.c\<close>): comparison, copying, hashing and search.
  \<^item> \<open>HashFn\<close> (\<^verbatim>\<open>crchash.c\<close>, \<^verbatim>\<open>hashfn.c\<close>): the CRC and the mixing hashes.
  \<^item> \<open>Dequeue\<close> (\<^verbatim>\<open>dequeue.c\<close>): the circular buffer, against lists; the contract \<open>deque_contract\<close> is interpreted on it.
  \<^item> \<open>HashTable\<close> (the code), \<open>HashSplit\<close> (its invariant, and the splitting of a bucket), \<open>HashOps\<close> (the operations, in the
    locale \<open>key_contract\<close>), \<open>HashIter\<close> (what goes over a whole table; the locale \<open>keyed_table\<close> and its interpretations
    for the tables of objects, strings and case-insensitive strings): \<^verbatim>\<open>handc/hasht\<close>.
  \<^item> \<open>OutPort\<close> (\<^verbatim>\<open>op_str.c\<close>): string output ports, on 32-bit lengths and with the position a fixnum; the contract
    \<open>byte_sink\<close> is what writers rely on.
  \<^item> \<open>IOText\<close> (\<^verbatim>\<open>escapstr.c\<close>, \<^verbatim>\<open>parsefmt.c\<close>): escaping of strings, format strings.
  \<^item> \<open>Lzw\<close> (the code), \<open>LzwProps\<close> (a decoder, the round trip): the compressor of \<^verbatim>\<open>lib/rs/sys/compression/lzw\<close>, which writes to a
    port of \<open>OutPort\<close>.
  \<^item> \<open>Ber\<close> (the code), \<open>BerInt\<close>, \<open>BerParse\<close>, \<open>BerProps\<close>: the BER encoder and parser of \<^verbatim>\<open>lib/rs/net/asn1\<close>.
  \<^item> \<open>Regex\<close> (the code, and the language a program accepts), \<open>RegexProps\<close>: the regular expression machine.
  \<^item> \<open>Freemap\<close> (the code), \<open>FreemapOps\<close> (keys), \<open>FreemapProps\<close> (ranges, the contract \<open>range_allocator\<close>): the map of free
    records of the log structured store, \<^verbatim>\<open>packages/lss/freemap.c\<close>.
  \<^item> \<open>Threads\<close> (the code), \<open>ThreadQueues\<close> (the invariant of the queues), \<open>ThreadDispatch\<close> (sending, the run queues),
    \<open>ThreadSync\<close> (operations that block), \<open>ThreadSuspend\<close> (suspension), \<open>ThreadsProps\<close> (the kernel as a step relation, under
    the locale \<open>machine\<close>): the scheduler, mailboxes and semaphores of \<^verbatim>\<open>packages/threads/manager\<close>.

  \<^bold>\<open>How the parts meet.\<close>  The hash tables of strings use the hash and the comparison of \<open>Strings\<close>, which use
  \<open>HashFn\<close>; their contract with the tables is \<open>key_contract\<close>.  The tables, the number code and the BER code work on
  the tagged words of \<open>Obj\<close>.  The number tower uses \<open>LongInt\<close> and \<open>LongDiv\<close>; \<open>NumText\<close> divides with them.
  The run queues, mailboxes and semaphores of the threads package are the queues of \<open>Dequeue\<close>, and its proofs use them
  through the lists they represent.  Its operations are steps of one relation \<open>kstep\<close>, labelled with the call; a step
  ends where control goes to another thread, so the interleaving of threads is the order of the steps.  The relation has
  every call the code accepts; \<open>hazard\<close> names those that break the data of the kernel.

  \<^bold>\<open>What the lemmas show.\<close>  Each data structure has an invariant, an abstraction (a map for a table, a list for a
  queue, the bytes written for a port, an integer for a number) and a theorem for each operation that keeps the
  invariant and commutes with the abstraction, on every branch.  Text and BER have round trips, and the parsers
  what they do on other input.  The invariant of the scheduler says where each thread waits; it holds in the states
  reached without a hazard, and from such a state a call breaks it if and only if it is one (but for a running thread that
  takes itself off its queue).  The faults of the scheduler are stated with the state that leads to them.  The regular expression machine is compared with a relation that says what a
  program accepts without an order of the alternatives.  Where the code is wrong the theorem says exactly where:
  the set of inputs with another result is part of its statement.

  \<^bold>\<open>Bounds and fuel.\<close>  A directory has at most \<open>2 ^ 29\<close> slots, as its masks are fixnums.  The BER parser has its
  input length as a fuel that is proved enough for input without four-octet lengths; with these it can run
  forever, which is a theorem as well.  Object identifiers have at most 13000 components, which fit the stack
  buffer of the encoder.  The fuel of the regular expression machine bounds the instructions on one path;
  \<open>regex_search_returns\<close> gives a fuel that is enough for programs whose loops consume characters, and
  \<open>regex_search_leftmost\<close> has such a fuel as its premise, not that the search returns.  The machine has 50 registers, and
  one outside of them is an error.  A write to a string port is of less than \<open>2 ^ 29 - 112\<close> bytes and the total fits an
  \<^verbatim>\<open>int\<close>; \<open>sop_index_wraps\<close> shows the position that a longer write leaves.  The numbers in a format string are below
  \<open>2 ^ 29\<close>, beyond which the parser returns another one, as \<open>parse_format_roundtrip\<close> shows.  The counts of semaphores and
  of suspensions wrap; the cases are in \<open>semaphore_operations\<close> and \<open>thread_suspension\<close>.  A request to the free map for
  records returns the lowest range of that size, unless the range is a whole interval and the map is full or has no
  record above it: then it fails, and \<open>range_result\<close> says exactly so.  The round trip of
  the compressor is for texts of up to 3838 octets, for which the dictionary cannot fill up; when it does, the code
  for a reset is lost, which is a theorem.

  \<^bold>\<open>Not modelled.\<close>  Floating point, rationals and complex numbers (they rest on the C library and GMP);
  generic hash tables, whose operations call Scheme procedures; the trace that the regular expression machine
  prints; the timers, file events, output ports, processes, condition variables and futures of the threads package, which
  wait on the operating system or repeat the patterns of mailboxes and semaphores, and the continuations it saves;
  the collector, the bytecode interpreter, the image loader and the stores;
  operating system glue, generated code and the Scheme sources of the compiler and the libraries.
\<close>

end
